(* ===== verification/Prelude.thy ===== *)
theory Prelude
  imports Main "HOL-Library.Word"
begin

text \<open>
  What every component shares: the machine types of the ARM1176 target (32-bit
  unsigned words, byte addresses), the result type of code that can stop in
  \<open>assert_fail\<close> (src/lib/assert.c), bounded C loops, and generic lemmas on
  lists, maps and words.

  A run that ends in \<open>assert_fail\<close> never returns to its caller: the function prints
  and waits for interrupts for ever with interrupts disabled. It is the value
  \<open>Inl (Assert site)\<close>, where \<open>site\<close> names the file and line of the failed
  assertion. \<open>Inl Deadlock\<close> is a thread that waits for a mutex it holds itself, and
  \<open>Inl Endless\<close> a loop that never ends. \<open>Inl Wild\<close> is an access outside an array.
\<close>

unbundle bit_operations_syntax

named_theorems fields \<open>definitions of the register and flag fields\<close>
named_theorems consts_def \<open>definitions of the numeric constants of the headers\<close>
named_theorems res_simps \<open>rules that evaluate results\<close>

type_synonym u8 = "8 word"
type_synonym u32 = "32 word"
type_synonym addr = "32 word"

datatype halt = Assert string | Deadlock | Endless | Wild

type_synonym 'a res = "halt + 'a"

definition bind_res :: "'a res \<Rightarrow> ('a \<Rightarrow> 'b res) \<Rightarrow> 'b res" where
  "bind_res r f = (case r of Inl e \<Rightarrow> Inl e | Inr x \<Rightarrow> f x)"

definition assert_that :: "string \<Rightarrow> bool \<Rightarrow> 'a res \<Rightarrow> 'a res" where
  "assert_that site b k = (if b then k else Inl (Assert site))"

definition ok_res :: "'a res \<Rightarrow> bool" where
  "ok_res r \<longleftrightarrow> (\<exists>x. r = Inr x)"

lemma bind_res_simps [simp, res_simps]:
  "bind_res (Inl e) f = Inl e"
  "bind_res (Inr x) f = f x"
  by (simp_all add: bind_res_def)

lemma bind_res_Inr: "bind_res r f = Inr y \<longleftrightarrow> (\<exists>x. r = Inr x \<and> f x = Inr y)"
  by (cases r) auto

lemma bind_res_assoc: "bind_res (bind_res r f) g = bind_res r (\<lambda>x. bind_res (f x) g)"
  by (cases r) auto

lemma assert_that_Inr:
  "assert_that site b k = Inr y \<longleftrightarrow> b \<and> k = Inr y"
  by (simp add: assert_that_def)

lemma assert_that_simps [simp, res_simps]:
  "assert_that site True k = k"
  "assert_that site False k = Inl (Assert site)"
  by (simp_all add: assert_that_def)

lemma ok_res_simps [simp]:
  "ok_res (Inr x)" "\<not> ok_res (Inl e)"
  by (simp_all add: ok_res_def)

section \<open>Bounded loops\<close>

text \<open>
  \<open>for_res i k body s\<close> is the C loop \<open>for (j = i; j < i + k; ++j) body\<close> whose body
  can stop in an assertion.
\<close>

fun for_res :: "nat \<Rightarrow> nat \<Rightarrow> (nat \<Rightarrow> 's \<Rightarrow> 's res) \<Rightarrow> 's \<Rightarrow> 's res" where
  "for_res i 0 body s = Inr s"
| "for_res i (Suc k) body s = bind_res (body i s) (for_res (Suc i) k body)"

lemma for_res_invariant:
  assumes "for_res i k body s = Inr t" and "P i s"
    and "\<And>j s s'. i \<le> j \<Longrightarrow> j < i + k \<Longrightarrow> P j s \<Longrightarrow> body j s = Inr s' \<Longrightarrow> P (Suc j) s'"
  shows "P (i + k) t"
  using assms
proof (induction k arbitrary: i s)
  case 0
  then show ?case by simp
next
  case (Suc k)
  from Suc.prems(1) obtain s' where s': "body i s = Inr s'" and rest: "for_res (Suc i) k body s' = Inr t"
    by (auto simp: bind_res_Inr)
  have "P (Suc i) s'"
    by (rule Suc.prems(3) [OF _ _ Suc.prems(2) s']) auto
  then have "P (Suc i + k) t"
    using Suc.IH [OF rest] Suc.prems(3) by auto
  then show ?case by simp
qed

lemma for_res_total:
  assumes "P i s"
    and "\<And>j s. i \<le> j \<Longrightarrow> j < i + k \<Longrightarrow> P j s \<Longrightarrow> \<exists>s'. body j s = Inr s' \<and> P (Suc j) s'"
  shows "\<exists>t. for_res i k body s = Inr t \<and> P (i + k) t"
  using assms
proof (induction k arbitrary: i s)
  case 0
  then show ?case by simp
next
  case (Suc k)
  obtain s' where s': "body i s = Inr s'" "P (Suc i) s'"
    using Suc.prems(2) [of i s] Suc.prems(1) by auto
  have "\<exists>t. for_res (Suc i) k body s' = Inr t \<and> P (Suc i + k) t"
    by (rule Suc.IH) (use s' Suc.prems(2) in auto)
  with s' show ?case by auto
qed

lemma for_res_cong: "(\<And>j s. i \<le> j \<Longrightarrow> j < i + k \<Longrightarrow> body j s = body' j s) \<Longrightarrow> for_res i k body s = for_res i k body' s"
proof (induction k arbitrary: i s)
  case (Suc k)
  then show ?case by (cases "body' i s") simp_all
qed simp

text \<open>A loop over the elements of an array.\<close>

fun for_each_res :: "('a \<Rightarrow> 's \<Rightarrow> 's res) \<Rightarrow> 'a list \<Rightarrow> 's \<Rightarrow> 's res" where
  "for_each_res body [] s = Inr s"
| "for_each_res body (x # xs) s = bind_res (body x s) (for_each_res body xs)"

lemma for_each_invariant:
  assumes "for_each_res body xs s = Inr t" and "P s"
    and "\<And>x s s'. x \<in> set xs \<Longrightarrow> P s \<Longrightarrow> body x s = Inr s' \<Longrightarrow> P s'"
  shows "P t"
  using assms
proof (induction xs arbitrary: s)
  case (Cons x xs)
  then obtain s' where s': "body x s = Inr s'" "for_each_res body xs s' = Inr t" by (auto simp: bind_res_Inr)
  have "P s'" by (rule Cons.prems(3) [OF _ Cons.prems(2) s'(1)]) simp
  then show ?case using Cons.IH [OF s'(2)] Cons.prems(3) by auto
qed simp

lemma for_each_res_append:
  "for_each_res body (xs @ ys) s = bind_res (for_each_res body xs s) (for_each_res body ys)"
proof (induction xs arbitrary: s)
  case (Cons x xs)
  then show ?case by (cases "body x s") simp_all
qed simp

text \<open>A loop that only checks returns the state unchanged, when every check passes.\<close>

lemma for_res_check:
  assumes "\<And>j. i \<le> j \<Longrightarrow> j < i + k \<Longrightarrow> body j s = (if P j then Inr s else Inl (e j))"
  shows "(\<forall>j. i \<le> j \<and> j < i + k \<longrightarrow> P j) \<Longrightarrow> for_res i k body s = Inr s"
    and "\<not> (\<forall>j. i \<le> j \<and> j < i + k \<longrightarrow> P j) \<Longrightarrow>
      \<exists>j. i \<le> j \<and> j < i + k \<and> \<not> P j \<and> (\<forall>j'. i \<le> j' \<and> j' < j \<longrightarrow> P j') \<and> for_res i k body s = Inl (e j)"
  using assms
proof (induction k arbitrary: i)
  case (Suc k)
  {
    case 1
    then show ?case using Suc.IH(1) [of "Suc i"] by simp
  next
    case 2
    show ?case
    proof (cases "P i")
      case True
      with 2(1) have "\<not> (\<forall>j. Suc i \<le> j \<and> j < Suc i + k \<longrightarrow> P j)"
        by (metis Suc_leI add_Suc_shift le_neq_implies_less)
      from Suc.IH(2) [OF this] 2(2) obtain j where
        j: "Suc i \<le> j" "j < Suc i + k" "\<not> P j" "\<forall>j'. Suc i \<le> j' \<and> j' < j \<longrightarrow> P j'"
          "for_res (Suc i) k body s = Inl (e j)"
        by auto
      then have "\<forall>j'. i \<le> j' \<and> j' < j \<longrightarrow> P j'"
        using True by (metis Suc_leI le_neq_implies_less)
      with j True 2(2) show ?thesis
        by (intro exI [of _ j]) simp
    next
      case False
      moreover have "\<forall>j'. i \<le> j' \<and> j' < i \<longrightarrow> P j'"
        by (meson leD)
      ultimately show ?thesis
        using 2(2) [of i] by (intro exI [of _ i]) simp
    qed
  }
qed (simp, metis add_0_right leD)

section \<open>Lists\<close>

lemma nth_list_update_if:
  "xs[i := x] ! j = (if i = j \<and> j < length xs then x else xs ! j)"
  by (cases "i < length xs") (auto simp: nth_list_update list_update_beyond)

lemma set_butlast_subset: "set (butlast xs) \<subseteq> set xs"
  by (auto dest: in_set_butlastD)

lemma set_tl_subset: "set (tl xs) \<subseteq> set xs"
  by (cases xs) auto

lemma remove1_append_notin: "x \<notin> set xs \<Longrightarrow> remove1 x (xs @ x # ys) = xs @ ys"
  by (simp add: remove1_append)

lemma distinct_decomp:
  "e \<in> set xs \<Longrightarrow> distinct xs \<Longrightarrow>
   \<exists>us vs. xs = us @ e # vs \<and> e \<notin> set us \<and> e \<notin> set vs"
  by (auto dest!: split_list) blast

section \<open>Words\<close>

lemma unat_u32_less [simp]: "unat (x :: u32) < 4294967296"
  using unsigned_less [of x, where ?'a = nat] by simp

lemma take_bit_unat_u32 [simp]: "take_bit 32 (unat (x :: u32)) = unat x"
  by (simp add: take_bit_nat_eq_self)

lemma unat_exp_u32: "k < 32 \<Longrightarrow> unat (2 ^ k :: u32) = 2 ^ k"
proof -
  assume "k < 32"
  then have "(2 :: nat) ^ k < 2 ^ 32"
    by (rule power_strict_increasing) simp
  then have "unat (word_of_nat (2 ^ k) :: u32) = 2 ^ k"
    by (simp add: unat_of_nat del: of_nat_power)
  then show ?thesis by simp
qed

lemma unat_mod_exp_u32: "unat (x mod 2 ^ k :: u32) = unat x mod 2 ^ k"
  by (simp flip: take_bit_eq_mod add: unsigned_take_bit_eq)

lemma unat_div_exp_u32: "unat (x div 2 ^ k :: u32) = unat x div 2 ^ k"
  by (simp flip: drop_bit_eq_div add: unsigned_drop_bit_eq)

lemma unat_add_no_overflow:
  "unat (a :: u32) + unat b < 4294967296 \<Longrightarrow> unat (a + b) = unat a + unat b"
  by (simp add: unat_word_ariths)

text \<open>Writes through an index.\<close>

lemma fold_write_other: "a \<notin> g ` set is \<Longrightarrow> fold (\<lambda>i m. m(g i := f i)) is m a = m a"
  by (induction "is" arbitrary: m) auto

lemma fold_write_at:
  "i \<in> set is \<Longrightarrow> inj_on g (set is) \<Longrightarrow> fold (\<lambda>i m. m(g i := f i)) is m (g i) = f i"
proof (induction "is" arbitrary: m)
  case (Cons k ks)
  show ?case
  proof (cases "i \<in> set ks")
    case True
    then show ?thesis using Cons by simp
  next
    case False
    then have k: "i = k" and g: "g i \<notin> g ` set ks" using Cons.prems by (auto simp: inj_on_def)
    show ?thesis using fold_write_other [OF g, of f "m(g k := f k)"] k by (simp del: fun_upd_apply) simp
  qed
qed simp

lemma unat_sub_le: "(b :: u32) \<le> a \<Longrightarrow> unat (a - b) = unat a - unat b"
  by (simp add: unat_sub word_le_nat_alt)

text \<open>A word whose top bit is clear is the same number read as signed.\<close>

lemma positive_word:
  fixes w :: u32
  assumes "unat w < 2 ^ 31"
  shows "signed_drop_bit 1 w = drop_bit 1 w" "sint w = int (unat w)"
proof -
  have nb: "\<not> bit w 31"
  proof
    assume "bit w 31"
    then have "bit (unat w) 31" by (simp add: bit_unsigned_iff)
    then have "odd (unat w div 2 ^ 31)" by (simp add: bit_iff_odd)
    with assms show False by simp
  qed
  then show "signed_drop_bit 1 w = drop_bit 1 w"
    by (intro bit_word_eqI) (auto simp: bit_signed_drop_bit_iff bit_drop_bit_eq dest: bit_imp_le_length)
  have "int (unat w) < int (2 ^ 31)" using assms by (simp only: of_nat_less_iff)
  then have "uint w < 2 ^ 31" by (simp only: unat_eq_nat_uint uint_ge_0 nat_0_le of_nat_power of_nat_numeral)
  then have "take_bit 31 (uint w) = uint w" by (intro take_bit_int_eq_self) simp_all
  moreover have "sint w = take_bit 31 (uint w)"
    using nb by (simp add: sint_uint signed_take_bit_eq_if_positive bit_uint_iff)
  ultimately have "sint w = uint w" by (rule trans [rotated])
  then show "sint w = int (unat w)" by (simp only: unat_eq_nat_uint uint_ge_0 nat_0_le)
qed

end
