(* ===== verification/Lib.thy ===== *)
theory Lib
  imports Prelude
begin

text \<open>
  The C library of the kernel: \<open>memcpy\<close> and \<open>memset\<close> of src/lib/string.c over a
  byte-addressed memory, and \<open>__aeabi_uidiv\<close> of src/lib/div.c.
\<close>

type_synonym mem = "addr \<Rightarrow> u8"

section \<open>memcpy\<close>

text \<open>
  One \<open>*d++ = *s++\<close>; the state of the function is the memory and the two running
  pointers.
\<close>

fun copy_byte :: "mem \<times> addr \<times> addr \<Rightarrow> mem \<times> addr \<times> addr" where
  "copy_byte (m, d, s) = (m(d := m s), d + 1, s + 1)"

text \<open>
  The loop copies eight bytes per round, \<open>l >> 3\<close> rounds; the three tests copy the
  rest. (\<open>i\<close> is an \<open>int\<close>, and \<open>l >> 3\<close> is below \<open>2 ^ 29\<close>, so it does not overflow.)
  The result is the memory and the returned pointer.
\<close>

definition memcpy :: "mem \<Rightarrow> addr \<Rightarrow> addr \<Rightarrow> u32 \<Rightarrow> mem \<times> addr" where
  "memcpy m dst src l =
    (let st = ((copy_byte ^^ 8) ^^ unat (drop_bit 3 l)) (m, dst, src);
         st = (if l AND 4 \<noteq> 0 then (copy_byte ^^ 4) st else st);
         st = (if l AND 2 \<noteq> 0 then (copy_byte ^^ 2) st else st);
         st = (if l AND 1 \<noteq> 0 then copy_byte st else st)
     in (fst st, dst))"

text \<open>The unrolled code is one copy per byte.\<close>

lemma length_split: "unat (l :: u32) = 8 * unat (drop_bit 3 l) + (if l AND 4 \<noteq> 0 then 4 else 0)
    + (if l AND 2 \<noteq> 0 then 2 else 0) + (if l AND 1 \<noteq> 0 then 1 else 0)"
proof -
  have b: "l AND 2 ^ k \<noteq> 0 \<longleftrightarrow> bit (unat l) k" for k
    by (simp add: and_exp_eq_0_iff_not_bit bit_unsigned_iff)
  have bits: "l AND 4 \<noteq> 0 \<longleftrightarrow> bit (unat l) 2" "l AND 2 \<noteq> 0 \<longleftrightarrow> bit (unat l) 1"
    "l AND 1 \<noteq> 0 \<longleftrightarrow> bit (unat l) 0"
    using b [of 2] b [of 1] b [of 0] by simp_all
  have q: "unat (drop_bit 3 l) = unat l div 8"
    using unat_div_exp_u32 [of l 3] by (simp add: drop_bit_eq_div)
  have dec: "n = 8 * (n div 8) + (if bit n 2 then 4 else 0) + (if bit n 1 then 2 else 0)
      + (if bit n 0 then 1 else 0)" for n :: nat
  proof -
    define x y z where "x = n mod 2" and "y = n div 2 mod 2" and "z = n div 4 mod 2"
    have "n mod 2 = x" "n div 2 mod 2 = y" "n div 2 div 2 mod 2 = z"
      by (simp_all add: x_def y_def z_def flip: div_mult2_eq)
    then have "n = 2 * (2 * (2 * (n div 2 div 2 div 2) + z) + y) + x"
      by (metis div_mult_mod_eq mult.commute)
    moreover have "n div 8 = n div 2 div 2 div 2"
      by (simp flip: div_mult2_eq)
    moreover have "(if bit n 2 then 4 else 0) = 4 * z" "(if bit n 1 then 2 else 0) = 2 * y"
      "(if bit n 0 then 1 else 0) = x"
      by (auto simp: bit_iff_odd x_def y_def z_def odd_iff_mod_2_eq_one even_iff_mod_2_eq_zero)
    ultimately show ?thesis
      by (simp only:) (simp add: algebra_simps)
  qed
  show ?thesis
    using dec [of "unat l"] by (simp only: bits q)
qed

lemma funpow_if: "(if b then (f ^^ k) x else x) = (f ^^ (if b then k else 0)) x"
  by simp

lemma memcpy_eq_bytes: "memcpy m dst src l = (fst ((copy_byte ^^ unat l) (m, dst, src)), dst)"
proof -
  have one: "(if b then copy_byte x else x) = (copy_byte ^^ (if b then 1 else 0)) x" for b x
    by simp
  have "unat l = (if l AND 1 \<noteq> 0 then 1 else 0) + ((if l AND 2 \<noteq> 0 then 2 else 0)
      + ((if l AND 4 \<noteq> 0 then 4 else 0) + 8 * unat (drop_bit 3 l)))"
    using length_split [of l] by (simp only: ac_simps)
  then show ?thesis
    by (simp only: memcpy_def Let_def funpow_mult one funpow_if funpow_add o_apply mult.commute)
qed

lemma copy_bytes_ptrs:
  "snd ((copy_byte ^^ n) (m, d, s)) = (d + of_nat n, s + of_nat n)"
proof (induction n)
  case 0
  then show ?case by simp
next
  case (Suc n)
  obtain m' where "(copy_byte ^^ n) (m, d, s) = (m', d + of_nat n, s + of_nat n)"
    using Suc by (metis prod.collapse)
  then show ?case by (simp add: add.assoc)
qed

text \<open>
  With ranges that do not overlap, byte \<open>i\<close> of the destination is byte \<open>i\<close> of the
  source, and every other byte is unchanged.
\<close>

definition range_of :: "addr \<Rightarrow> nat \<Rightarrow> addr set" where
  "range_of a n = {a + of_nat i | i. i < n}"

lemma range_of_Suc: "range_of a (Suc n) = insert (a + of_nat n) (range_of a n)"
  by (auto simp: range_of_def less_Suc_eq)

lemma copy_bytes_mem:
  assumes "range_of d n \<inter> range_of s n = {}"
  shows "fst ((copy_byte ^^ n) (m, d, s)) a
    = (if a \<in> range_of d n then m (a - d + s) else m a)"
  using assms
proof (induction n arbitrary: a)
  case 0
  then show ?case by (simp add: range_of_def)
next
  case (Suc n)
  obtain m' where m': "(copy_byte ^^ n) (m, d, s) = (m', d + of_nat n, s + of_nat n)"
    using copy_bytes_ptrs by (metis prod.collapse)
  have disj: "range_of d n \<inter> range_of s n = {}" "s + of_nat n \<notin> range_of d n"
    using Suc.prems by (auto simp: range_of_Suc)
  have IH: "m' b = (if b \<in> range_of d n then m (b - d + s) else m b)" for b
    using Suc.IH [OF disj(1), of b] m' by simp
  have "fst ((copy_byte ^^ Suc n) (m, d, s)) = m'(d + of_nat n := m' (s + of_nat n))"
    using m' by simp
  then show ?case
    using disj(2) by (simp add: IH range_of_Suc add.commute)
qed

section \<open>memset\<close>

function memset :: "mem \<Rightarrow> addr \<Rightarrow> u32 \<Rightarrow> u32 \<Rightarrow> mem" where
  "memset m p v l = (if l = 0 then m else memset (m(p := ucast v)) (p + 1) v (l - 1))"
  by pat_completeness auto
termination
  by (relation "measure (\<lambda>(m, p, v, l). unat l)") (auto simp: unat_minus_one unat_gt_0)

declare memset.simps [simp del]

lemma range_of_Suc_first: "range_of a (Suc n) = insert a (range_of (a + 1) n)"
proof -
  have "range_of a (Suc n) = (\<lambda>i. a + of_nat i) ` {..<Suc n}"
    by (auto simp: range_of_def)
  also have "\<dots> = insert a ((\<lambda>i. a + 1 + of_nat i) ` {..<n})"
    by (simp add: lessThan_Suc_eq_insert_0 image_image add.assoc)
  finally show ?thesis by (auto simp: range_of_def)
qed

lemma memset_mem: "memset m p v l a = (if a \<in> range_of p (unat l) then ucast v else m a)"
proof (induction m p v l rule: memset.induct)
  case (1 m p v l)
  show ?case
  proof (cases "l = 0")
    case True
    then show ?thesis by (simp add: memset.simps range_of_def)
  next
    case False
    then have "unat l = Suc (unat (l - 1))"
      by (simp add: unat_minus_one unat_gt_0)
    then have "a \<in> range_of p (unat l) \<longleftrightarrow> a = p \<or> a \<in> range_of (p + 1) (unat (l - 1))"
      by (simp add: range_of_Suc_first)
    moreover have "memset m p v l a = memset (m(p := ucast v)) (p + 1) v (l - 1) a"
      using False by (simp add: memset.simps [of m p v l])
    ultimately show ?thesis
      using 1 [OF False] by (simp only: fun_upd_apply) (simp split: if_splits)
  qed
qed

section \<open>Unsigned division\<close>

text \<open>
  \<open>while (dvnd >= dvsr) { ++q; dvnd -= dvsr; }\<close>: it does not return for a zero divisor,
  hence the option; \<open>__aeabi_uidiv\<close> tests for that first.
\<close>

partial_function (option) uidiv_loop :: "u32 \<Rightarrow> u32 \<Rightarrow> u32 \<Rightarrow> u32 option" where
  "uidiv_loop q dvnd dvsr =
    (if dvnd \<ge> dvsr then uidiv_loop (q + 1) (dvnd - dvsr) dvsr else Some q)"

definition uidiv :: "u32 \<Rightarrow> u32 \<Rightarrow> u32 option" where
  "uidiv dvnd dvsr = (if dvsr = 0 then Some 0 else uidiv_loop 0 dvnd dvsr)"

lemma uidiv_loop_eq: "dvsr \<noteq> 0 \<Longrightarrow> uidiv_loop q dvnd dvsr = Some (q + dvnd div dvsr)"
proof (induction "unat dvnd" arbitrary: q dvnd rule: less_induct)
  case less
  show ?case
  proof (cases "dvnd \<ge> dvsr")
    case False
    then show ?thesis
      by (simp add: uidiv_loop.simps [of q dvnd] word_arith_nat_div word_le_nat_alt)
  next
    case True
    have le: "unat dvsr \<le> unat dvnd" "0 < unat dvsr"
      using True less.prems by (simp_all add: word_le_nat_alt unat_gt_0)
    have "(dvnd - dvsr) div dvsr + 1 = dvnd div dvsr"
      using le by (simp add: word_arith_nat_div unat_sub_le [OF True] le_div_geq)
    moreover have "uidiv_loop (q + 1) (dvnd - dvsr) dvsr = Some (q + 1 + (dvnd - dvsr) div dvsr)"
      using le by (intro less.hyps less.prems) (simp add: unat_sub_le [OF True])
    ultimately show ?thesis
      using True by (simp add: uidiv_loop.simps [of q dvnd] algebra_simps)
  qed
qed

section \<open>Properties\<close>

text \<open>\<open>memcpy\<close> returns its destination; for ranges that do not overlap, byte \<open>i\<close> of the
  destination ends as byte \<open>i\<close> of the source was, and no other byte of memory changes,
  whatever the length modulo eight.\<close>

theorem memcpy_correct:
  assumes "range_of dst (unat l) \<inter> range_of src (unat l) = {}"
  shows "snd (memcpy m dst src l) = dst
    \<and> fst (memcpy m dst src l) a = (if a \<in> range_of dst (unat l) then m (a - dst + src) else m a)"
  using assms by (simp_all add: memcpy_eq_bytes copy_bytes_mem)

lemma range_of_disjoint:
  assumes "unat a + k \<le> unat b" and "unat b + k \<le> 2 ^ 32"
  shows "range_of b k \<inter> range_of a k = {}"
proof -
  have *: "unat (x + of_nat i) = unat x + i" if "i < k" "x \<in> {a, b}" for x :: addr and i
  proof -
    have i: "i < 4294967296" "unat (of_nat i :: u32) = i"
      using that assms by (auto simp: unat_of_nat)
    then show ?thesis
      using that assms by (subst unat_add_no_overflow) auto
  qed
  have False if "i < k" "j < k" "b + of_nat i = a + of_nat j" for i j
    using that * [of i b] * [of j a] assms(1) by simp
  then show ?thesis by (auto simp: range_of_def)
qed

theorem memcpy_correct_witness:
  "fst (memcpy (\<lambda>a. ucast a) 100 10 13) 112 = (22 :: u8)"
proof -
  have "range_of (100 :: addr) (unat (13 :: u32)) \<inter> range_of 10 (unat (13 :: u32)) = {}"
    by (rule range_of_disjoint) simp_all
  from memcpy_correct [OF this, of "\<lambda>a. ucast a" 112]
  have "fst (memcpy (\<lambda>a. ucast a) 100 10 13) 112
      = (if (112 :: addr) \<in> range_of 100 13 then 22 else 112 :: u8)"
    by simp
  moreover have "(112 :: addr) \<in> range_of 100 13"
    by (auto simp: range_of_def intro!: exI [of _ 12])
  ultimately show ?thesis by simp
qed

end
