(* ===== verification/DList.thy ===== *)
theory DList
  imports Prelude
begin

text \<open>
  The intrusive doubly linked circular lists of src/kernel/list.c, over a heap of
  \<open>struct list_head\<close> cells. The kernel keeps every queue it has on such lists: the
  ready queue, wait queues, timers, slabs, VM segments, IO requests. The second half
  relates the pointer code to one HOL list per head, so that the other components
  can be read over HOL lists.
\<close>

section \<open>The code\<close>

record list_head =
  lprev :: addr
  lnext :: addr

type_synonym lheap = "addr \<Rightarrow> list_head"

definition set_next :: "addr \<Rightarrow> addr \<Rightarrow> lheap \<Rightarrow> lheap" where
  "set_next a v h = h(a := (h a)\<lparr>lnext := v\<rparr>)"

definition set_prev :: "addr \<Rightarrow> addr \<Rightarrow> lheap \<Rightarrow> lheap" where
  "set_prev a v h = h(a := (h a)\<lparr>lprev := v\<rparr>)"

definition init_list_head :: "addr \<Rightarrow> lheap \<Rightarrow> lheap" where
  "init_list_head head h = set_next head head (set_prev head head h)"

definition list_empty :: "addr \<Rightarrow> lheap \<Rightarrow> bool" where
  "list_empty head h \<longleftrightarrow> lnext (h head) = head"

definition list_add_between :: "addr \<Rightarrow> addr \<Rightarrow> addr \<Rightarrow> lheap \<Rightarrow> lheap" where
  "list_add_between n p nx h =
    set_next p n (set_prev nx n (set_prev n p (set_next n nx h)))"

definition list_add :: "addr \<Rightarrow> addr \<Rightarrow> lheap \<Rightarrow> lheap" where
  "list_add n head h = list_add_between n head (lnext (h head)) h"

definition list_add_tail :: "addr \<Rightarrow> addr \<Rightarrow> lheap \<Rightarrow> lheap" where
  "list_add_tail n head h = list_add_between n (lprev (h head)) head h"

definition list_del :: "addr \<Rightarrow> lheap \<Rightarrow> lheap" where
  "list_del e h =
    (let n = lnext (h e); p = lprev (h e)
     in set_prev n p (set_next p n h))"

definition list_del_head :: "addr \<Rightarrow> lheap \<Rightarrow> (lheap \<times> addr) res" where
  "list_del_head head h =
    assert_that ''list.c:63'' (\<not> list_empty head h)
      (let e = lnext (h head) in Inr (list_del e h, e))"

text \<open>
  \<open>list_add_sorted\<close>: the loop of \<open>list_for_each\<close> keeps in \<open>pos\<close> the last element that
  compares greater than \<open>n\<close> and returns at an equal one. It need not end on a heap
  that is not a well-formed list, hence the option.
\<close>

datatype scan = Duplicate | Position addr

partial_function (option) sorted_scan ::
    "lheap \<Rightarrow> addr \<Rightarrow> (addr \<Rightarrow> addr \<Rightarrow> int) \<Rightarrow> addr \<Rightarrow> addr \<Rightarrow> addr \<Rightarrow> scan option" where
  "sorted_scan h head cmp n e pos =
    (if e = head then Some (Position pos)
     else if cmp n e < 0 then sorted_scan h head cmp n (lnext (h e)) e
     else if cmp n e = 0 then Some Duplicate
     else sorted_scan h head cmp n (lnext (h e)) pos)"

definition list_add_sorted ::
    "addr \<Rightarrow> addr \<Rightarrow> (addr \<Rightarrow> addr \<Rightarrow> int) \<Rightarrow> lheap \<Rightarrow> lheap option" where
  "list_add_sorted n head cmp h =
    map_option
      (\<lambda>r. case r of
         Duplicate \<Rightarrow> h
       | Position pos \<Rightarrow>
           (if pos = 0 then list_add_tail n head h
            else list_add_between n (lprev (h pos)) pos h))
      (sorted_scan h head cmp n (lnext (h head)) 0)"

section \<open>Linked segments\<close>

lemma set_next_sel [simp]:
  "lnext (set_next a v h b) = (if b = a then v else lnext (h b))"
  "lprev (set_next a v h b) = lprev (h b)"
  by (simp_all add: set_next_def)

lemma set_prev_sel [simp]:
  "lprev (set_prev a v h b) = (if b = a then v else lprev (h b))"
  "lnext (set_prev a v h b) = lnext (h b)"
  by (simp_all add: set_prev_def)

text \<open>\<open>linked h as\<close>: neighbours in \<open>as\<close> point at each other.\<close>

fun linked :: "lheap \<Rightarrow> addr list \<Rightarrow> bool" where
  "linked h (a # b # as) \<longleftrightarrow> lnext (h a) = b \<and> lprev (h b) = a \<and> linked h (b # as)"
| "linked h _ \<longleftrightarrow> True"

lemma linked_append:
  "linked h (as @ a # bs) \<longleftrightarrow> linked h (as @ [a]) \<and> linked h (a # bs)"
  by (induction h as rule: linked.induct; cases bs) auto

lemma linked_set_next:
  "a \<notin> set (butlast as) \<Longrightarrow> linked (set_next a v h) as \<longleftrightarrow> linked h as"
  by (induction h as rule: linked.induct) (auto split: if_splits)

lemma linked_set_prev:
  "a \<notin> set (tl as) \<Longrightarrow> linked (set_prev a v h) as \<longleftrightarrow> linked h as"
  by (induction h as rule: linked.induct) (auto split: if_splits)

lemma linked_cong:
  "(\<And>a. a \<in> set as \<Longrightarrow> h a = h' a) \<Longrightarrow> linked h as \<longleftrightarrow> linked h' as"
  by (induction h as rule: linked.induct) auto

text \<open>Splicing a node in between two neighbours, and out again.\<close>

lemma linked_between:
  assumes "linked h (as @ p # nx # bs)"
    and "n \<notin> set as \<union> set bs \<union> {p, nx}"
    and "nx \<notin> set (tl (as @ [p]))" and "p \<notin> set as"
    and "nx \<notin> set bs" and "p \<notin> set (butlast (nx # bs))"
  shows "linked (list_add_between n p nx h) (as @ p # n # nx # bs)"
proof -
  have h: "linked h (as @ [p])" "linked h (nx # bs)"
    using assms(1) linked_append [of h as p "nx # bs"] by auto
  have n: "n \<notin> set (as @ [p])" "n \<notin> set (nx # bs)" "n \<noteq> p" "n \<noteq> nx"
    using assms(2) by auto
  note nt = contra_subsetD [OF set_butlast_subset n(1)] contra_subsetD [OF set_tl_subset n(1)]
    contra_subsetD [OF set_butlast_subset n(2)] contra_subsetD [OF set_tl_subset n(2)]
  have nx: "nx \<notin> set (tl (nx # bs))" and p: "p \<notin> set (butlast (as @ [p]))"
    using assms(4,5) by simp_all
  have "linked (list_add_between n p nx h) (as @ [p])"
    by (simp only: list_add_between_def linked_set_next [OF p] linked_set_prev [OF assms(3)]
        linked_set_prev [OF nt(2)] linked_set_next [OF nt(1)] h)
  moreover have "linked (list_add_between n p nx h) (nx # bs)"
    by (simp only: list_add_between_def linked_set_next [OF assms(6)] linked_set_prev [OF nx]
        linked_set_prev [OF nt(4)] linked_set_next [OF nt(3)] h)
  moreover have "lnext (list_add_between n p nx h p) = n" "lprev (list_add_between n p nx h n) = p"
    "lnext (list_add_between n p nx h n) = nx" "lprev (list_add_between n p nx h nx) = n"
    using n by (simp_all add: list_add_between_def)
  ultimately show ?thesis
    using linked_append [of _ as p "n # nx # bs"] by simp
qed

lemma linked_del:
  assumes "linked h (as @ p # e # nx # bs)"
    and "nx \<notin> set (tl (as @ [p]))" and "p \<notin> set as"
    and "nx \<notin> set bs" and "p \<notin> set (butlast (nx # bs))"
  shows "linked (list_del e h) (as @ p # nx # bs)"
proof -
  have h: "linked h (as @ [p])" "linked h (nx # bs)" "lprev (h e) = p" "lnext (h e) = nx"
    using assms(1) linked_append [of h as p "e # nx # bs"] by auto
  have nx: "nx \<notin> set (tl (nx # bs))" and p: "p \<notin> set (butlast (as @ [p]))"
    using assms(3,4) by simp_all
  have "linked (list_del e h) (as @ [p])"
    by (simp only: list_del_def Let_def h linked_set_next [OF p] linked_set_prev [OF assms(2)])
  moreover have "linked (list_del e h) (nx # bs)"
    by (simp only: list_del_def Let_def h linked_set_next [OF assms(5)] linked_set_prev [OF nx])
  ultimately show ?thesis
    using linked_append [of _ as p "nx # bs"] by (simp add: list_del_def h)
qed

section \<open>A heap list and the HOL list it represents\<close>

definition dlist :: "lheap \<Rightarrow> addr \<Rightarrow> addr list \<Rightarrow> bool" where
  "dlist h q xs \<longleftrightarrow> distinct (q # xs) \<and> linked h (q # xs @ [q])"

abbreviation nodes :: "addr \<Rightarrow> addr list \<Rightarrow> addr set" where
  "nodes q xs \<equiv> insert q (set xs)"

lemma dlist_cong: "(\<And>a. a \<in> nodes q xs \<Longrightarrow> h a = h' a) \<Longrightarrow> dlist h q xs \<longleftrightarrow> dlist h' q xs"
  unfolding dlist_def by (subst linked_cong [of _ h h']) auto

lemma dlist_init: "dlist (init_list_head q h) q []"
  by (simp add: dlist_def init_list_head_def)

lemma dlist_next: "dlist h q xs \<Longrightarrow> lnext (h q) = (case xs of [] \<Rightarrow> q | x # _ \<Rightarrow> x)"
  by (cases xs) (auto simp: dlist_def)

lemma dlist_empty: "dlist h q xs \<Longrightarrow> list_empty q h \<longleftrightarrow> xs = []"
  by (cases xs) (auto simp: list_empty_def dlist_def)

text \<open>The cycle of a list, cut after \<open>us\<close>: the last node of \<open>us\<close> and the first after it.\<close>

definition cycle_left :: "addr \<Rightarrow> addr list \<Rightarrow> addr list" where
  "cycle_left q us = butlast (q # us)"

definition last_node :: "addr \<Rightarrow> addr list \<Rightarrow> addr" where
  "last_node q us = last (q # us)"

definition first_node :: "addr \<Rightarrow> addr list \<Rightarrow> addr" where
  "first_node q vs = hd (vs @ [q])"

definition cycle_right :: "addr \<Rightarrow> addr list \<Rightarrow> addr list" where
  "cycle_right q vs = tl (vs @ [q])"

lemma last_node_Nil [simp]: "last_node q [] = q"
  by (simp add: last_node_def)

lemma first_node_simps [simp]: "first_node q [] = q" "first_node q (v # vs) = v"
  by (simp_all add: first_node_def)

lemma cycle_left_eq: "cycle_left q us @ [last_node q us] = q # us"
  unfolding cycle_left_def last_node_def by (rule append_butlast_last_id) simp

lemma cycle_right_eq: "first_node q vs # cycle_right q vs = vs @ [q]"
  unfolding cycle_right_def first_node_def by (rule list.collapse) simp

lemma cycle_eq:
  "q # (us @ ws @ vs) @ [q] = cycle_left q us @ last_node q us # ws @ first_node q vs # cycle_right q vs"
  using arg_cong [OF cycle_left_eq [of q us], of "\<lambda>xs. xs @ ws @ vs @ [q]"]
  by (simp add: cycle_right_eq)

lemma cycle_side:
  assumes "distinct (q # us @ vs)"
  shows "first_node q vs \<notin> set (tl (cycle_left q us @ [last_node q us]))"
    and "last_node q us \<notin> set (cycle_left q us)"
    and "first_node q vs \<notin> set (cycle_right q vs)"
    and "last_node q us \<notin> set (butlast (first_node q vs # cycle_right q vs))"
proof -
  have mem: "last_node q us \<in> set (q # us)" "first_node q vs \<in> set (vs @ [q])"
    unfolding last_node_def first_node_def by (rule last_in_set hd_in_set, simp)+
  have dist: "distinct (cycle_left q us @ [last_node q us])" "distinct (first_node q vs # cycle_right q vs)"
    unfolding cycle_left_eq cycle_right_eq using assms by auto
  show "last_node q us \<notin> set (cycle_left q us)" "first_node q vs \<notin> set (cycle_right q vs)"
    using dist by simp_all
  show "first_node q vs \<notin> set (tl (cycle_left q us @ [last_node q us]))"
    unfolding cycle_left_eq using mem assms by auto
  show "last_node q us \<notin> set (butlast (first_node q vs # cycle_right q vs))"
    unfolding cycle_right_eq butlast_snoc using mem assms by auto
qed

lemma cycle_nodes:
  "set (cycle_left q us) \<union> set (cycle_right q vs) \<union> {last_node q us, first_node q vs}
    = nodes q (us @ vs)"
  using arg_cong [OF cycle_left_eq [of q us], of set] arg_cong [OF cycle_right_eq [of q vs], of set]
  by auto

lemma dlist_linked:
  "dlist h q (us @ ws @ vs) \<longleftrightarrow> distinct (q # us @ ws @ vs) \<and>
   linked h (cycle_left q us @ last_node q us # ws @ first_node q vs # cycle_right q vs)"
  unfolding dlist_def cycle_eq by blast

lemma dlist_prev: "dlist h q xs \<Longrightarrow> lprev (h q) = last_node q xs"
  using dlist_linked [of h q xs "[]" "[]"]
    linked_append [of h "cycle_left q xs" "last_node q xs" "first_node q [] # cycle_right q []"]
  by simp

text \<open>Insertion anywhere, deletion anywhere.\<close>

lemma dlist_between:
  assumes d: "dlist h q (us @ vs)" and n: "n \<notin> nodes q (us @ vs)"
  shows "dlist (list_add_between n (last_node q us) (first_node q vs) h) q (us @ n # vs)"
proof -
  have dist: "distinct (q # us @ vs)" "distinct (q # us @ [n] @ vs)"
    using d n by (auto simp: dlist_def)
  have "linked h (cycle_left q us @ last_node q us # first_node q vs # cycle_right q vs)"
    using d dlist_linked [of h q us "[]" vs] by simp
  then have "linked (list_add_between n (last_node q us) (first_node q vs) h)
      (cycle_left q us @ last_node q us # n # first_node q vs # cycle_right q vs)"
    using n [folded cycle_nodes] by (rule linked_between) (rule cycle_side [OF dist(1)])+
  then show ?thesis
    using dist(2) dlist_linked [THEN iffD2, of q us "[n]" vs] by simp
qed

lemma dlist_add: "dlist h q xs \<Longrightarrow> n \<notin> nodes q xs \<Longrightarrow> dlist (list_add n q h) q (n # xs)"
  using dlist_between [of h q "[]" xs n] by (cases xs) (simp_all add: list_add_def dlist_next)

lemma dlist_add_tail:
  "dlist h q xs \<Longrightarrow> n \<notin> nodes q xs \<Longrightarrow> dlist (list_add_tail n q h) q (xs @ [n])"
  using dlist_between [of h q xs "[]" n] by (simp add: list_add_tail_def dlist_prev)

lemma dlist_neighbours:
  assumes "dlist h q (us @ e # vs)"
  shows "lprev (h e) = last_node q us" "lnext (h e) = first_node q vs"
  using dlist_linked [of h q us "[e]" vs] assms
    linked_append [of h "cycle_left q us" "last_node q us" "e # first_node q vs # cycle_right q vs"]
  by auto

lemma dlist_del:
  assumes d: "dlist h q (us @ e # vs)"
  shows "dlist (list_del e h) q (us @ vs)"
proof -
  have dist: "distinct (q # us @ vs)"
    using d by (auto simp: dlist_def)
  have "linked h (cycle_left q us @ last_node q us # e # first_node q vs # cycle_right q vs)"
    using d dlist_linked [of h q us "[e]" vs] by simp
  then have "linked (list_del e h)
      (cycle_left q us @ last_node q us # first_node q vs # cycle_right q vs)"
    by (rule linked_del) (rule cycle_side [OF dist])+
  then show ?thesis
    using dist dlist_linked [THEN iffD2, of q us "[]" vs] by simp
qed

lemma dlist_del_member:
  assumes "dlist h q xs" and "e \<in> set xs"
  shows "dlist (list_del e h) q (remove1 e xs)"
proof -
  obtain us vs where xs: "xs = us @ e # vs" "e \<notin> set us"
    using assms(2) by (meson split_list_first)
  then show ?thesis
    using dlist_del [of h q us e vs] assms(1) by (simp add: remove1_append)
qed

section \<open>What an operation leaves alone\<close>

lemma list_add_frame:
  "dlist h q xs \<Longrightarrow> a \<notin> nodes q xs \<Longrightarrow> a \<noteq> n \<Longrightarrow> list_add n q h a = h a"
  by (auto simp: list_add_def list_add_between_def set_next_def set_prev_def dlist_next
      split: list.splits)

lemma list_add_tail_frame:
  "dlist h q xs \<Longrightarrow> a \<notin> nodes q xs \<Longrightarrow> a \<noteq> n \<Longrightarrow> list_add_tail n q h a = h a"
  using cycle_nodes [of q xs "[]"]
  by (auto simp: list_add_tail_def list_add_between_def set_next_def set_prev_def dlist_prev)

lemma list_del_frame:
  assumes "dlist h q xs" and "e \<in> set xs" and "a \<notin> nodes q xs"
  shows "list_del e h a = h a"
proof -
  obtain us vs where xs: "xs = us @ e # vs"
    using assms(2) by (meson split_list)
  moreover have "a \<noteq> last_node q us" "a \<noteq> first_node q vs"
    using assms(3) xs cycle_nodes [of q us vs] by auto
  ultimately show ?thesis
    using dlist_neighbours [of h q us e vs] assms(1)
    by (simp add: list_del_def Let_def set_next_def set_prev_def)
qed

section \<open>A store of lists\<close>

text \<open>
  All lists of the kernel live in one heap. \<open>store_rel h Q S\<close>: the heap holds, for every
  head in \<open>Q\<close>, the list \<open>S q\<close>, and no cell belongs to two of them.
\<close>

type_synonym lstore = "addr \<Rightarrow> addr list"

definition store_rel :: "lheap \<Rightarrow> addr set \<Rightarrow> lstore \<Rightarrow> bool" where
  "store_rel h Q S \<longleftrightarrow> (\<forall>q\<in>Q. dlist h q (S q))
    \<and> (\<forall>q\<in>Q. \<forall>r\<in>Q. q \<noteq> r \<longrightarrow> nodes q (S q) \<inter> nodes r (S r) = {})"

definition store_nodes :: "addr set \<Rightarrow> lstore \<Rightarrow> addr set" where
  "store_nodes Q S = (\<Union>q\<in>Q. nodes q (S q))"

definition spec_add :: "addr \<Rightarrow> addr \<Rightarrow> lstore \<Rightarrow> lstore" where
  "spec_add n q S = S(q := n # S q)"

definition spec_add_tail :: "addr \<Rightarrow> addr \<Rightarrow> lstore \<Rightarrow> lstore" where
  "spec_add_tail n q S = S(q := S q @ [n])"

definition spec_del :: "addr \<Rightarrow> lstore \<Rightarrow> lstore" where
  "spec_del e S = (\<lambda>q. remove1 e (S q))"

text \<open>An operation that changes one list, and only cells of that list, keeps the store.\<close>

lemma store_rel_update:
  assumes rel: "store_rel h Q S" and q: "q \<in> Q" and d: "dlist h' q xs"
    and sub: "set xs \<subseteq> insert n (set (S q))"
    and n: "\<And>r. r \<in> Q \<Longrightarrow> r \<noteq> q \<Longrightarrow> n \<notin> nodes r (S r)"
    and frame: "\<And>a. a \<notin> nodes q (S q) \<Longrightarrow> a \<noteq> n \<Longrightarrow> h' a = h a"
  shows "store_rel h' Q (S(q := xs))"
proof -
  have "dlist h' r (S r)" if r: "r \<in> Q" "r \<noteq> q" for r
  proof -
    have "h a = h' a" if "a \<in> nodes r (S r)" for a
    proof -
      have "nodes q (S q) \<inter> nodes r (S r) = {}"
        using rel r q by (auto simp: store_rel_def)
      then show ?thesis
        using frame [of a] n [OF r] that by (metis disjoint_iff)
    qed
    moreover have "dlist h r (S r)"
      using rel r by (simp add: store_rel_def)
    ultimately show ?thesis
      using dlist_cong by blast
  qed
  moreover have "nodes q xs \<inter> nodes r (S r) = {}" if r: "r \<in> Q" "r \<noteq> q" for r
  proof -
    have "nodes q (S q) \<inter> nodes r (S r) = {}"
      using rel r q unfolding store_rel_def by metis
    then show ?thesis
      using sub n [OF r] by blast
  qed
  ultimately show ?thesis
    using rel d unfolding store_rel_def by (simp add: Int_commute)
qed

lemma store_rel_add:
  "store_rel h Q S \<Longrightarrow> q \<in> Q \<Longrightarrow> n \<notin> store_nodes Q S \<Longrightarrow>
   store_rel (list_add n q h) Q (spec_add n q S)"
  unfolding spec_add_def
  by (rule store_rel_update [where n = n and h = h])
    (auto simp: store_rel_def store_nodes_def intro!: dlist_add intro: list_add_frame)

lemma store_rel_add_tail:
  "store_rel h Q S \<Longrightarrow> q \<in> Q \<Longrightarrow> n \<notin> store_nodes Q S \<Longrightarrow>
   store_rel (list_add_tail n q h) Q (spec_add_tail n q S)"
  unfolding spec_add_tail_def
  by (rule store_rel_update [where n = n and h = h])
    (auto simp: store_rel_def store_nodes_def intro!: dlist_add_tail intro: list_add_tail_frame)

lemma store_rel_cong: "(\<And>q. q \<in> Q \<Longrightarrow> S q = T q) \<Longrightarrow> store_rel h Q S \<longleftrightarrow> store_rel h Q T"
  by (simp add: store_rel_def)

lemma store_rel_del:
  assumes rel: "store_rel h Q S" and q: "q \<in> Q" and e: "e \<in> set (S q)"
  shows "store_rel (list_del e h) Q (spec_del e S)"
proof -
  have d: "dlist h q (S q)"
    using rel q by (simp add: store_rel_def)
  have "e \<notin> nodes r (S r)" if "r \<in> Q" "r \<noteq> q" for r
    using rel q e that unfolding store_rel_def by blast
  then have "store_rel (list_del e h) Q (S(q := remove1 e (S q)))"
    using rel q e dlist_del_member [OF d e] list_del_frame [OF d e]
    by (intro store_rel_update [where n = e]) (auto dest: notin_set_remove1)
  moreover have "(S(q := remove1 e (S q))) r = spec_del e S r" if "r \<in> Q" for r
    using \<open>\<And>r. r \<in> Q \<Longrightarrow> r \<noteq> q \<Longrightarrow> e \<notin> nodes r (S r)\<close> that
    by (auto simp: spec_del_def remove1_idem)
  ultimately show ?thesis
    using store_rel_cong by blast
qed

lemma store_rel_empty: "store_rel h Q S \<Longrightarrow> q \<in> Q \<Longrightarrow> list_empty q h \<longleftrightarrow> S q = []"
  by (simp add: store_rel_def dlist_empty)

lemma store_rel_next: "store_rel h Q S \<Longrightarrow> q \<in> Q \<Longrightarrow> lnext (h q) = hd (S q @ [q])"
  by (auto simp: store_rel_def dlist_next split: list.splits)

section \<open>The interface the queues of the kernel are written against\<close>

text \<open>
  Everything a client does with its lists: test for empty, read the first node, add at
  either end, unlink. The law of each operation is its effect on the store.
\<close>

text \<open>The drain loop of \<open>wake_up_preempt_disabled\<close>: unlink the first node, queue it elsewhere.\<close>

partial_function (option) move_all ::
    "(addr \<Rightarrow> 'h \<Rightarrow> bool) \<Rightarrow> (addr \<Rightarrow> 'h \<Rightarrow> addr) \<Rightarrow> (addr \<Rightarrow> 'h \<Rightarrow> 'h) \<Rightarrow>
     (addr \<Rightarrow> addr \<Rightarrow> 'h \<Rightarrow> 'h) \<Rightarrow> addr \<Rightarrow> addr \<Rightarrow> 'h \<Rightarrow> 'h option" where
  "move_all emp first del add_tail wq rq h =
    (if emp wq h then Some h
     else let e = first wq h
          in move_all emp first del add_tail wq rq (add_tail e rq (del e h)))"

locale list_api =
  fixes emp :: "addr \<Rightarrow> 'h \<Rightarrow> bool"
    and first :: "addr \<Rightarrow> 'h \<Rightarrow> addr"
    and add :: "addr \<Rightarrow> addr \<Rightarrow> 'h \<Rightarrow> 'h"
    and add_tail :: "addr \<Rightarrow> addr \<Rightarrow> 'h \<Rightarrow> 'h"
    and del :: "addr \<Rightarrow> 'h \<Rightarrow> 'h"
    and rel :: "'h \<Rightarrow> addr set \<Rightarrow> lstore \<Rightarrow> bool"
  assumes emp: "rel h Q S \<Longrightarrow> q \<in> Q \<Longrightarrow> emp q h \<longleftrightarrow> S q = []"
    and first: "rel h Q S \<Longrightarrow> q \<in> Q \<Longrightarrow> S q \<noteq> [] \<Longrightarrow> first q h = hd (S q)"
    and add: "rel h Q S \<Longrightarrow> q \<in> Q \<Longrightarrow> n \<notin> store_nodes Q S \<Longrightarrow> rel (add n q h) Q (spec_add n q S)"
    and add_tail: "rel h Q S \<Longrightarrow> q \<in> Q \<Longrightarrow> n \<notin> store_nodes Q S \<Longrightarrow>
      rel (add_tail n q h) Q (spec_add_tail n q S)"
    and del: "rel h Q S \<Longrightarrow> q \<in> Q \<Longrightarrow> e \<in> set (S q) \<Longrightarrow> rel (del e h) Q (spec_del e S)"
    and rel_cong: "rel h Q S \<Longrightarrow> (\<And>q. q \<in> Q \<Longrightarrow> S q = T q) \<Longrightarrow> rel h Q T"
    and distinct: "rel h Q S \<Longrightarrow> q \<in> Q \<Longrightarrow> distinct (q # S q)"
    and disjoint: "rel h Q S \<Longrightarrow> q \<in> Q \<Longrightarrow> r \<in> Q \<Longrightarrow> q \<noteq> r \<Longrightarrow>
      nodes q (S q) \<inter> nodes r (S r) = {}"
begin

lemma move_first:
  assumes rel: "rel h Q S" and q: "wq \<in> Q" "rq \<in> Q" "wq \<noteq> rq" and S: "S wq = x # xs"
  shows "rel (add_tail x rq (del x h)) Q (S(wq := xs, rq := S rq @ [x]))"
proof -
  have only: "x \<notin> nodes r (S r)" if "r \<in> Q" "r \<noteq> wq" for r
    using disjoint [OF rel q(1) that(1)] that(2) S by auto
  have x: "x \<noteq> wq" "x \<notin> set xs"
    using distinct [OF rel q(1)] S by auto
  have del: "rel (del x h) Q (spec_del x S)"
    using del [OF rel q(1)] S by simp
  have "x \<notin> nodes r (spec_del x S r)" if "r \<in> Q" for r
  proof (cases "r = wq")
    case True
    with x S show ?thesis by (simp add: spec_del_def)
  next
    case False
    with only [OF that] show ?thesis by (auto simp: spec_del_def dest: notin_set_remove1)
  qed
  then have "x \<notin> store_nodes Q (spec_del x S)"
    unfolding store_nodes_def by blast
  then have "rel (add_tail x rq (del x h)) Q (spec_add_tail x rq (spec_del x S))"
    by (rule add_tail [OF del q(2)])
  moreover have "spec_add_tail x rq (spec_del x S) r = (S(wq := xs, rq := S rq @ [x])) r" if "r \<in> Q" for r
  proof -
    have "remove1 x (S r) = (if r = wq then xs else S r)"
      using only [OF that] S by (simp add: remove1_idem)
    moreover have "remove1 x (S rq) = S rq"
      using only [OF q(2)] q(3) by (simp add: remove1_idem)
    ultimately show ?thesis
      using q(3) by (simp add: spec_add_tail_def spec_del_def)
  qed
  ultimately show ?thesis
    by (rule rel_cong)
qed

lemma move_all_rel:
  assumes "rel h Q S" and "wq \<in> Q" "rq \<in> Q" "wq \<noteq> rq"
  shows "\<exists>h'. move_all emp first del add_tail wq rq h = Some h'
    \<and> rel h' Q (S(wq := [], rq := S rq @ S wq))"
  using assms
proof (induction "S wq" arbitrary: h S)
  case Nil
  then have "rel h Q (S(wq := [], rq := S rq @ S wq))"
    by (intro rel_cong [OF Nil.prems(1)]) auto
  with Nil show ?case
    by (subst move_all.simps) (simp add: emp [OF Nil.prems(1,2)])
next
  case (Cons x xs)
  let ?S = "S(wq := xs, rq := S rq @ [x])" and ?h = "add_tail x rq (del x h)"
  have "rel ?h Q ?S"
    using Cons.hyps(2) by (intro move_first Cons.prems) simp
  moreover have "xs = ?S wq"
    using Cons.prems(4) by simp
  ultimately obtain h' where h': "move_all emp first del add_tail wq rq ?h = Some h'"
      "rel h' Q (?S(wq := [], rq := ?S rq @ ?S wq))"
    using Cons.hyps(1) Cons.prems(2-4) by blast
  have "?S(wq := [], rq := ?S rq @ ?S wq) = S(wq := [], rq := S rq @ S wq)"
    using Cons.prems(4) by (auto simp: Cons.hyps(2) [symmetric])
  moreover have "move_all emp first del add_tail wq rq h = Some h'"
    using h'(1) Cons.prems
    by (subst move_all.simps) (simp add: emp first Let_def Cons.hyps(2) [symmetric])
  ultimately show ?case
    using h'(2) by auto
qed

end

interpretation lists: list_api list_empty "\<lambda>q h. lnext (h q)" list_add list_add_tail list_del store_rel
proof (unfold_locales, goal_cases)
  case (2 h Q S q)
  then show ?case by (simp add: store_rel_next)
next
  case (6 h Q S T)
  then show ?case using store_rel_cong by blast
next
  case (7 h Q S q)
  then show ?case by (simp add: store_rel_def dlist_def)
next
  case (8 h Q S q r)
  then show ?case by (simp add: store_rel_def)
qed (simp_all add: store_rel_empty store_rel_add store_rel_add_tail store_rel_del)

section \<open>Sorted insertion\<close>

text \<open>What the scan of \<open>list_add_sorted\<close> returns, over the HOL list.\<close>

fun scan_spec :: "(addr \<Rightarrow> addr \<Rightarrow> int) \<Rightarrow> addr \<Rightarrow> addr list \<Rightarrow> addr \<Rightarrow> scan" where
  "scan_spec cmp n [] pos = Position pos"
| "scan_spec cmp n (y # ys) pos =
    (if cmp n y < 0 then scan_spec cmp n ys y
     else if cmp n y = 0 then Duplicate else scan_spec cmp n ys pos)"

lemma sorted_scan_eq:
  "dlist h q (zs @ ys) \<Longrightarrow> sorted_scan h q cmp n (first_node q ys) pos = Some (scan_spec cmp n ys pos)"
proof (induction ys arbitrary: zs pos)
  case Nil
  then show ?case by (simp add: sorted_scan.simps)
next
  case (Cons y ys)
  have "lnext (h y) = first_node q ys" "y \<noteq> q"
    using dlist_neighbours [OF Cons.prems] Cons.prems by (auto simp: dlist_def)
  moreover have "sorted_scan h q cmp n (first_node q ys) p = Some (scan_spec cmp n ys p)" for p
    using Cons.IH [of "zs @ [y]"] Cons.prems by simp
  ultimately show ?case
    by (simp add: sorted_scan.simps [of h q cmp n y])
qed

text \<open>The list after the insertion: before the last element greater than \<open>n\<close>, or at the end.\<close>

definition sorted_spec :: "(addr \<Rightarrow> addr \<Rightarrow> int) \<Rightarrow> addr \<Rightarrow> addr list \<Rightarrow> addr list" where
  "sorted_spec cmp n xs =
    (case scan_spec cmp n xs 0 of
       Duplicate \<Rightarrow> xs
     | Position p \<Rightarrow>
         if p = 0 then xs @ [n]
         else takeWhile (\<lambda>x. x \<noteq> p) xs @ n # dropWhile (\<lambda>x. x \<noteq> p) xs)"

lemma scan_spec_position: "scan_spec cmp n ys pos = Position p \<Longrightarrow> p = pos \<or> p \<in> set ys"
  by (induction cmp n ys pos rule: scan_spec.induct) (auto split: if_splits)

lemma dlist_add_sorted:
  assumes d: "dlist h q xs" and n: "n \<notin> nodes q xs"
  shows "\<exists>h'. list_add_sorted n q cmp h = Some h' \<and> dlist h' q (sorted_spec cmp n xs)"
proof -
  have scan: "sorted_scan h q cmp n (lnext (h q)) 0 = Some (scan_spec cmp n xs 0)"
    using sorted_scan_eq [of h q "[]" xs cmp n 0] d
    by (cases xs) (simp_all add: dlist_next)
  show ?thesis
  proof (cases "scan_spec cmp n xs 0")
    case Duplicate
    with scan d show ?thesis
      by (simp add: list_add_sorted_def sorted_spec_def)
  next
    case (Position p)
    show ?thesis
    proof (cases "p = 0")
      case True
      with Position scan dlist_add_tail [OF d n] show ?thesis
        by (simp add: list_add_sorted_def sorted_spec_def)
    next
      case False
      let ?us = "takeWhile (\<lambda>x. x \<noteq> p) xs"
      have "p \<in> set xs"
        using scan_spec_position [OF Position] False by simp
      then obtain vs where vs: "dropWhile (\<lambda>x. x \<noteq> p) xs = p # vs"
        by (metis (mono_tags, lifting) dropWhile_eq_Nil_conv hd_dropWhile list.collapse)
      then have xs: "xs = ?us @ p # vs"
        using takeWhile_dropWhile_id [of "\<lambda>x. x \<noteq> p" xs] by simp
      have "dlist (list_add_between n (lprev (h p)) p h) q (?us @ n # p # vs)"
        using dlist_between [of h q ?us "p # vs" n] dlist_neighbours(1) [of h q ?us p vs] d n xs
        by simp
      with Position False scan vs show ?thesis
        by (simp add: list_add_sorted_def sorted_spec_def)
    qed
  qed
qed

section \<open>Properties\<close>

datatype list_op = AddOp addr addr | AddTailOp addr addr | DelOp addr

fun run_op :: "list_op \<Rightarrow> lheap \<Rightarrow> lheap" where
  "run_op (AddOp n q) h = list_add n q h"
| "run_op (AddTailOp n q) h = list_add_tail n q h"
| "run_op (DelOp e) h = list_del e h"

fun spec_op :: "list_op \<Rightarrow> lstore \<Rightarrow> lstore" where
  "spec_op (AddOp n q) S = spec_add n q S"
| "spec_op (AddTailOp n q) S = spec_add_tail n q S"
| "spec_op (DelOp e) S = spec_del e S"

text \<open>
  A caller may add a cell that is on no list, to a list it initialised, and unlink a cell
  that is on some list.
\<close>

fun legal_op :: "addr set \<Rightarrow> list_op \<Rightarrow> lstore \<Rightarrow> bool" where
  "legal_op Q (AddOp n q) S \<longleftrightarrow> q \<in> Q \<and> n \<notin> store_nodes Q S"
| "legal_op Q (AddTailOp n q) S \<longleftrightarrow> q \<in> Q \<and> n \<notin> store_nodes Q S"
| "legal_op Q (DelOp e) S \<longleftrightarrow> (\<exists>q\<in>Q. e \<in> set (S q))"

fun legal_ops :: "addr set \<Rightarrow> list_op list \<Rightarrow> lstore \<Rightarrow> bool" where
  "legal_ops Q [] S \<longleftrightarrow> True"
| "legal_ops Q (p # ps) S \<longleftrightarrow> legal_op Q p S \<and> legal_ops Q ps (spec_op p S)"

lemma run_op_rel: "store_rel h Q S \<Longrightarrow> legal_op Q p S \<Longrightarrow> store_rel (run_op p h) Q (spec_op p S)"
  by (cases p) (auto intro: lists.add lists.add_tail lists.del)

text \<open>C1: Refinement of the pointer lists: any sequence of additions (at either end) and
  removals, of any length and over any set of list heads that share the heap, leaves in the heap
  exactly the lists that the same sequence leaves in a store of HOL lists, well linked in both
  directions and with no cell on two of them, as long as each added cell was on no list and each
  removed cell was on one.\<close>

theorem list_store_refinement:
  assumes "store_rel h Q S" and "legal_ops Q ps S"
  shows "store_rel (fold run_op ps h) Q (fold spec_op ps S)"
  using assms
  by (induction ps arbitrary: h S) (auto intro: run_op_rel)

lemma two_empty_lists:
  "q \<noteq> r \<Longrightarrow> store_rel (init_list_head r (init_list_head q h)) {q, r} (\<lambda>_. [])"
  by (auto simp: store_rel_def dlist_def init_list_head_def)

theorem list_store_refinement_witness:
  "store_rel (fold run_op [AddTailOp 30 1, AddOp 20 1, DelOp 30, AddTailOp 30 2]
      (init_list_head 2 (init_list_head 1 (\<lambda>_. \<lparr>lprev = 0, lnext = 0\<rparr>)))) {1, 2}
    (fold spec_op [AddTailOp 30 1, AddOp 20 1, DelOp 30, AddTailOp 30 2] (\<lambda>_. []))
  \<and> fold spec_op [AddTailOp 30 1, AddOp 20 1, DelOp 30, AddTailOp 30 2] (\<lambda>_. []) 1 = [20]"
proof -
  have "legal_ops {1, 2} [AddTailOp 30 1, AddOp 20 1, DelOp 30, AddTailOp 30 2] (\<lambda>_. [])"
    by (simp add: store_nodes_def spec_add_tail_def spec_add_def spec_del_def)
  from list_store_refinement [OF two_empty_lists this, of "\<lambda>_. \<lparr>lprev = 0, lnext = 0\<rparr>"]
  show ?thesis
    by (simp add: spec_add_tail_def spec_add_def spec_del_def)
qed



text \<open>\<open>list_add_sorted\<close> terminates on a well-formed list and leaves one; it inserts the new
  cell before the last cell that compares greater (at the end when there is none, not at all when
  an equal cell is met). So it does not keep a list sorted: inserting 20 into 10, 30, 50 gives
  10, 30, 20, 50.\<close>

theorem list_add_sorted_spec:
  assumes "dlist h q xs" and "n \<notin> nodes q xs"
  shows "(\<exists>h'. list_add_sorted n q cmp h = Some h' \<and> dlist h' q (sorted_spec cmp n xs))
    \<and> sorted_spec (\<lambda>a b. uint a - uint b) 20 [10, 30, 50] = [10, 30, 20, 50]"
  using dlist_add_sorted [OF assms] by (simp add: sorted_spec_def)

theorem list_add_sorted_spec_witness:
  "\<exists>h'. list_add_sorted 20 1 (\<lambda>a b. uint a - uint b)
      (init_list_head 1 (\<lambda>_. \<lparr>lprev = 0, lnext = 0\<rparr>)) = Some h' \<and> dlist h' 1 [20]"
  using list_add_sorted_spec [OF dlist_init, of 20 1 "\<lambda>a b. uint a - uint b" "\<lambda>_. \<lparr>lprev = 0, lnext = 0\<rparr>"]
  by (simp add: sorted_spec_def)

end
