(* ===== verification/Bits.thy ===== *)
theory Bits
  imports Prelude
begin

text \<open>
  The bit-field helpers of src/include/types.h. A register or flag field is the
  pair \<open>(POS, SZ)\<close> of the header's two macros; \<open>bits_set(F, v)\<close> expands to
  \<open>bits_arrange(F_POS, F_SZ, v)\<close>, and so on. \<open>uintptr_t\<close> is \<open>32 word\<close>; the mask is
  computed in 64 bits (\<open>1ull\<close>) and truncated, as in the header.
\<close>

type_synonym field = "nat \<times> nat"

definition bits_mask :: "nat \<Rightarrow> u32" where
  "bits_mask sz = ucast (push_bit sz (1 :: 64 word) - 1)"

definition bits_mask_shifted :: "nat \<Rightarrow> nat \<Rightarrow> u32" where
  "bits_mask_shifted pos sz = push_bit pos (bits_mask sz)"

definition bits_arrange :: "nat \<Rightarrow> nat \<Rightarrow> u32 \<Rightarrow> u32" where
  "bits_arrange pos sz val = push_bit pos (val AND bits_mask sz)"

definition bits_extract :: "u32 \<Rightarrow> nat \<Rightarrow> nat \<Rightarrow> u32" where
  "bits_extract val pos sz = drop_bit pos val AND bits_mask sz"

definition bits_set :: "field \<Rightarrow> u32 \<Rightarrow> u32" where
  "bits_set f val = bits_arrange (fst f) (snd f) val"

definition bits_get :: "u32 \<Rightarrow> field \<Rightarrow> u32" where
  "bits_get val f = bits_extract val (fst f) (snd f)"

definition bits_extract_nodatashift :: "u32 \<Rightarrow> nat \<Rightarrow> nat \<Rightarrow> u32" where
  "bits_extract_nodatashift val pos sz = val AND push_bit pos (bits_mask sz)"

definition bits_pull :: "u32 \<Rightarrow> field \<Rightarrow> u32" where
  "bits_pull val f = bits_extract_nodatashift val (fst f) (snd f)"

definition bits_push :: "field \<Rightarrow> u32 \<Rightarrow> u32" where
  "bits_push f val = bits_extract_nodatashift val (fst f) (snd f)"

definition bits_on :: "field \<Rightarrow> u32" where
  "bits_on f = push_bit (fst f) (bits_mask (snd f))"

definition bits_off :: "field \<Rightarrow> u32" where
  "bits_off f = NOT (push_bit (fst f) (bits_mask (snd f)))"

text \<open>The alignment macros; \<open>a\<close> must be a power of two.\<close>

definition align_dn :: "u32 \<Rightarrow> u32 \<Rightarrow> u32" where
  "align_dn v a = v AND NOT (a - 1)"

definition align_up :: "u32 \<Rightarrow> u32 \<Rightarrow> u32" where
  "align_up v a = (v + a - 1) AND NOT (a - 1)"

definition aligned :: "u32 \<Rightarrow> u32 \<Rightarrow> bool" where
  "aligned v a \<longleftrightarrow> v AND (a - 1) = 0"

lemmas bits_defs = bits_set_def bits_get_def bits_pull_def bits_push_def bits_on_def bits_off_def
  bits_arrange_def bits_extract_def bits_extract_nodatashift_def

section \<open>Fields and their bits\<close>

definition field_ok :: "field \<Rightarrow> bool" where
  "field_ok f \<longleftrightarrow> fst f + snd f \<le> 32"

definition fields_disjoint :: "field \<Rightarrow> field \<Rightarrow> bool" where
  "fields_disjoint f g \<longleftrightarrow> fst f + snd f \<le> fst g \<or> fst g + snd g \<le> fst f"

lemma bits_mask_eq: "sz < 64 \<Longrightarrow> bits_mask sz = mask sz"
  by (rule bit_word_eqI)
    (auto simp: bits_mask_def bit_simps push_bit_of_1 simp flip: mask_eq_exp_minus_1)

lemma bit_bits_mask: "sz \<le> 32 \<Longrightarrow> bit (bits_mask sz) k \<longleftrightarrow> k < sz"
  by (auto simp: bits_mask_eq bit_simps)

lemma bit_bits_set:
  "field_ok f \<Longrightarrow> bit (bits_set f v) k \<longleftrightarrow> fst f \<le> k \<and> k < fst f + snd f \<and> bit v (k - fst f)"
  by (auto simp: field_ok_def bits_defs bit_simps bits_mask_eq)

lemma bit_bits_get:
  "field_ok f \<Longrightarrow> bit (bits_get v f) k \<longleftrightarrow> k < snd f \<and> bit v (fst f + k)"
  by (auto simp: field_ok_def bits_defs bit_simps bits_mask_eq add.commute)

lemma bit_bits_push:
  "field_ok f \<Longrightarrow> bit (bits_push f v) k \<longleftrightarrow> fst f \<le> k \<and> k < fst f + snd f \<and> bit v k"
  by (auto simp: field_ok_def bits_defs bit_simps bits_mask_eq)

lemma bit_bits_pull:
  "field_ok f \<Longrightarrow> bit (bits_pull v f) k \<longleftrightarrow> fst f \<le> k \<and> k < fst f + snd f \<and> bit v k"
  by (auto simp: field_ok_def bits_defs bit_simps bits_mask_eq)

lemma bit_bits_on:
  "field_ok f \<Longrightarrow> bit (bits_on f) k \<longleftrightarrow> fst f \<le> k \<and> k < fst f + snd f"
  by (auto simp: field_ok_def bits_defs bit_simps bits_mask_eq)

lemma bit_bits_off:
  "field_ok f \<Longrightarrow> bit (bits_off f) k \<longleftrightarrow> k < 32 \<and> \<not> (fst f \<le> k \<and> k < fst f + snd f)"
  by (auto simp: field_ok_def bits_defs bit_simps bits_mask_eq)

lemmas bit_fields = bit_bits_set bit_bits_get bit_bits_push bit_bits_pull bit_bits_on bit_bits_off

section \<open>Reading back what was written\<close>

lemma bits_get_or: "bits_get (a OR b) f = bits_get a f OR bits_get b f"
  by (simp add: bits_defs bit.conj_disj_distrib2 drop_bit_or)

lemma bits_pull_or: "bits_pull (a OR b) f = bits_pull a f OR bits_pull b f"
  by (simp add: bits_defs bit.conj_disj_distrib2)

lemma bits_get_zero [simp]: "bits_get 0 f = 0"
  by (simp add: bits_defs)

lemma bits_pull_zero [simp]: "bits_pull 0 f = 0"
  by (simp add: bits_defs)

lemma bits_get_set_same:
  "field_ok f \<Longrightarrow> bits_get (bits_set f v) f = v AND mask (snd f)"
  by (rule bit_word_eqI) (auto simp: bit_fields bit_simps field_ok_def)

lemma bits_get_set_other:
  "field_ok f \<Longrightarrow> field_ok g \<Longrightarrow> fields_disjoint f g \<Longrightarrow> bits_get (bits_set g v) f = 0"
  by (rule bit_word_eqI) (auto simp: bit_fields bit_simps fields_disjoint_def)

lemma bits_get_on_same: "field_ok f \<Longrightarrow> bits_get (bits_on f) f = mask (snd f)"
  by (rule bit_word_eqI) (auto simp: bit_fields bit_simps field_ok_def)

lemma bits_get_on_other:
  "field_ok f \<Longrightarrow> field_ok g \<Longrightarrow> fields_disjoint f g \<Longrightarrow> bits_get (bits_on g) f = 0"
  by (rule bit_word_eqI) (auto simp: bit_fields bit_simps fields_disjoint_def)

lemma bits_get_push_other:
  "field_ok f \<Longrightarrow> field_ok g \<Longrightarrow> fields_disjoint f g \<Longrightarrow> bits_get (bits_push g v) f = 0"
  by (rule bit_word_eqI) (auto simp: bit_fields bit_simps fields_disjoint_def)

lemma bits_pull_push_same: "field_ok f \<Longrightarrow> bits_pull (bits_push f v) f = bits_push f v"
  by (rule bit_word_eqI) (auto simp: bit_fields)

lemma bits_pull_set_other:
  "field_ok f \<Longrightarrow> field_ok g \<Longrightarrow> fields_disjoint f g \<Longrightarrow> bits_pull (bits_set g v) f = 0"
  by (rule bit_word_eqI) (auto simp: bit_fields bit_simps fields_disjoint_def)

lemma bits_pull_on_other:
  "field_ok f \<Longrightarrow> field_ok g \<Longrightarrow> fields_disjoint f g \<Longrightarrow> bits_pull (bits_on g) f = 0"
  by (rule bit_word_eqI) (auto simp: bit_fields bit_simps fields_disjoint_def)

lemma bits_pull_push_other:
  "field_ok f \<Longrightarrow> field_ok g \<Longrightarrow> fields_disjoint f g \<Longrightarrow> bits_pull (bits_push g v) f = 0"
  by (rule bit_word_eqI) (auto simp: bit_fields bit_simps fields_disjoint_def)

lemmas field_read = bits_get_or bits_pull_or bits_get_set_same bits_get_set_other bits_get_on_same
  bits_get_on_other bits_get_push_other bits_pull_push_same bits_pull_set_other bits_pull_on_other
  bits_pull_push_other field_ok_def fields_disjoint_def

lemma bits_get_less: "field_ok f \<Longrightarrow> snd f < 32 \<Longrightarrow> unat (bits_get v f) < 2 ^ snd f"
proof -
  assume f: "field_ok f" "snd f < 32"
  have "bits_get v f = take_bit (snd f) (bits_get v f)"
    by (rule bit_word_eqI) (use f in \<open>auto simp: bit_fields bit_simps\<close>)
  then have "unat (bits_get v f) = take_bit (snd f) (unat (bits_get v f))"
    by (metis unsigned_take_bit_eq)
  then show ?thesis
    by (metis take_bit_nat_less_exp)
qed

lemma unat_bits_get: "field_ok f \<Longrightarrow> unat (bits_get v f) = unat v div 2 ^ fst f mod 2 ^ snd f"
proof -
  assume f: "field_ok f"
  have "bits_get v f = take_bit (snd f) (drop_bit (fst f) v)"
    by (rule bit_word_eqI) (use f in \<open>auto simp: bit_fields bit_simps add.commute field_ok_def\<close>)
  then have "unat (bits_get v f) = take_bit (snd f) (drop_bit (fst f) (unat v))"
    by (simp only: unsigned_take_bit_eq unsigned_drop_bit_eq) simp
  then show ?thesis
    by (simp add: take_bit_eq_mod drop_bit_eq_div)
qed

section \<open>Alignment\<close>

lemma unat_and_not_mask: "unat ((v :: u32) AND NOT (mask k)) = unat v div 2 ^ k * 2 ^ k"
proof -
  have "v AND NOT (mask k) = push_bit k (drop_bit k v)"
    by (rule bit_word_eqI) (auto simp: bit_simps)
  then have "unat (v AND NOT (mask k)) = take_bit 32 (push_bit k (drop_bit k (unat v)))"
    by (simp only: unsigned_push_bit_eq unsigned_drop_bit_eq) simp
  also have "\<dots> = (unat v div 2 ^ k * 2 ^ k) mod 2 ^ 32"
    by (simp add: take_bit_eq_mod drop_bit_eq_div push_bit_eq_mult)
  also have "\<dots> = unat v div 2 ^ k * 2 ^ k"
    by (rule mod_less) (rule le_less_trans [OF div_times_less_eq_dividend], simp)
  finally show ?thesis .
qed

lemma aligned_iff: "k < 32 \<Longrightarrow> aligned v (2 ^ k) \<longleftrightarrow> unat v mod 2 ^ k = 0"
proof -
  assume "k < 32"
  have "unat (v AND mask k) = unat v mod 2 ^ k"
    by (simp flip: take_bit_eq_mask add: unsigned_take_bit_eq take_bit_eq_mod unat_mod_exp_u32)
  then show ?thesis
    by (simp add: aligned_def flip: mask_eq_exp_minus_1) (metis unat_eq_zero unat_0)
qed

lemma unat_align_up:
  assumes "k < 32" and "unat v + 2 ^ k \<le> 2 ^ 32"
  shows "unat (align_up v (2 ^ k)) = (unat v + 2 ^ k - 1) div 2 ^ k * 2 ^ k"
proof -
  have "unat (v + (2 ^ k - 1)) = unat v + (2 ^ k - 1)"
  proof -
    have "unat (2 ^ k - 1 :: u32) = 2 ^ k - 1"
      using assms(1) by (subst unat_sub_le) (auto simp: unat_exp_u32 word_le_nat_alt)
    with assms(2) show ?thesis
      by (subst unat_add_no_overflow) (auto simp: less_eq_Suc_le)
  qed
  then have "unat (v + 2 ^ k - 1) = unat v + 2 ^ k - 1"
    by (simp add: add_diff_eq)
  then show ?thesis
    by (simp add: align_up_def unat_and_not_mask flip: mask_eq_exp_minus_1)
qed

end
