(* ===== verification/Buddy.thy ===== *)
theory Buddy
  imports Bits
begin

text \<open>
  The buddy bitmap of src/kernel/bdy.c: thirteen levels of one bit per naturally
  aligned block of \<open>2 ^ level\<close> page frames, packed level after level into one array of
  32-bit limbs. A bit is set when some frame of its block is allocated.

  The indices are C \<open>int\<close>s that never go negative; they are naturals here (pm.c keeps the
  number of frames at or below 32768).
\<close>

section \<open>The code\<close>

definition BDY_NLEVELS :: nat where
  "BDY_NLEVELS = 13"

record bdy =
  nbits :: "nat list"
  nbits_until :: "nat list"
  bmap :: "u32 list"

text \<open>\<open>if (n & 1) ++n; n >>= 1;\<close>\<close>

definition halve_up :: "nat \<Rightarrow> nat" where
  "halve_up n = (if odd n then n + 1 else n) div 2"

fun bdy_size_loop :: "nat \<Rightarrow> nat \<Rightarrow> nat \<Rightarrow> nat" where
  "bdy_size_loop 0 n t = t"
| "bdy_size_loop (Suc i) n t = bdy_size_loop i (halve_up n) (t + n)"

definition bdy_map_size :: "nat \<Rightarrow> u32" where
  "bdy_map_size n = drop_bit 3 (align_up (of_nat (bdy_size_loop BDY_NLEVELS n 0)) 8)"

text \<open>\<open>memset(map, 0, sz)\<close> on the limbs (little endian: byte \<open>k\<close> is bits \<open>8k .. 8k+7\<close>).\<close>

definition zero_bytes :: "nat \<Rightarrow> u32 list \<Rightarrow> u32 list" where
  "zero_bytes sz m = map (\<lambda>i. m ! i AND NOT (mask (8 * min 4 (sz - 4 * i)))) [0..<length m]"

definition bdy_init_step :: "nat \<Rightarrow> bdy \<times> nat \<times> nat \<Rightarrow> bdy \<times> nat \<times> nat" where
  "bdy_init_step i = (\<lambda>(b, t, n).
    (b\<lparr>nbits := (nbits b)[i := n], nbits_until := (nbits_until b)[i := t]\<rparr>, t + n, halve_up n))"

definition bdy_init :: "u32 list \<Rightarrow> nat \<Rightarrow> bdy" where
  "bdy_init m n =
    fst (fold bdy_init_step [0..<BDY_NLEVELS]
      (\<lparr>nbits = replicate BDY_NLEVELS 0, nbits_until = replicate BDY_NLEVELS 0,
        bmap = zero_bytes (unat (bdy_map_size n)) m\<rparr>, 0, n))"

definition BDY_LIMB :: "nat \<Rightarrow> nat" where
  "BDY_LIMB pos = drop_bit 5 pos"

definition BDY_BIT :: "nat \<Rightarrow> nat" where
  "BDY_BIT pos = take_bit 5 pos"

definition bdy_is_set :: "bdy \<Rightarrow> nat \<Rightarrow> nat \<Rightarrow> bool" where
  "bdy_is_set b level pos =
    (let pos = pos + nbits_until b ! level; l = BDY_LIMB pos; p = BDY_BIT pos
     in bmap b ! l AND push_bit p 1 \<noteq> 0)"

definition bdy_clr :: "nat \<Rightarrow> nat \<Rightarrow> bdy \<Rightarrow> bdy" where
  "bdy_clr level pos b =
    (let pos = pos + nbits_until b ! level; l = BDY_LIMB pos; p = BDY_BIT pos
     in b\<lparr>bmap := (bmap b)[l := bmap b ! l AND NOT (push_bit p 1)]\<rparr>)"

definition bdy_set :: "nat \<Rightarrow> nat \<Rightarrow> bdy \<Rightarrow> bdy" where
  "bdy_set level pos b =
    (let pos = pos + nbits_until b ! level; l = BDY_LIMB pos; p = BDY_BIT pos
     in b\<lparr>bmap := (bmap b)[l := bmap b ! l OR push_bit p 1]\<rparr>)"

text \<open>
  The descendant loops of \<open>bdy_alloc\<close> and \<open>bdy_free\<close>: at each lower level, the blocks
  \<open>j .. j + 2 ^ (level - i) - 1\<close>, up to the first that does not exist (\<open>break\<close>). \<open>f\<close> is
  \<open>bdy_set\<close> or \<open>bdy_clr\<close>.
\<close>

definition descend_step ::
    "(nat \<Rightarrow> nat \<Rightarrow> bdy \<Rightarrow> bdy) \<Rightarrow> nat \<Rightarrow> nat \<Rightarrow> bdy \<times> nat \<Rightarrow> bdy \<times> nat" where
  "descend_step f level i = (\<lambda>(b, j).
    let j = 2 * j
    in (fold (\<lambda>k. f i (j + k))
          (takeWhile (\<lambda>k. j + k < nbits b ! i) [0..<2 ^ (level - i)]) b, j))"

definition for_descendants ::
    "(nat \<Rightarrow> nat \<Rightarrow> bdy \<Rightarrow> bdy) \<Rightarrow> nat \<Rightarrow> nat \<Rightarrow> bdy \<Rightarrow> bdy" where
  "for_descendants f level pos b = fst (fold (descend_step f level) (rev [0..<level]) (b, pos))"

definition bdy_alloc :: "bdy \<Rightarrow> nat \<Rightarrow> (bdy \<times> nat) option" where
  "bdy_alloc b level =
    (case find (\<lambda>i. \<not> bdy_is_set b level i) [0..<nbits b ! level] of
       None \<Rightarrow> None
     | Some pos \<Rightarrow>
         let b = fst (fold (\<lambda>i (b, j). (bdy_set i j b, j div 2)) [level..<BDY_NLEVELS] (b, pos))
         in Some (for_descendants bdy_set level pos b, pos))"

text \<open>The self and ancestor loop of \<open>bdy_free\<close>; the first argument counts the levels left.\<close>

fun bdy_free_up :: "nat \<Rightarrow> nat \<Rightarrow> nat \<Rightarrow> bdy \<Rightarrow> bdy" where
  "bdy_free_up 0 i j b = b"
| "bdy_free_up (Suc n) i j b =
    (let b = bdy_clr i j b;
         s = (if odd j then j - 1 else j + 1)
     in if s < nbits b ! i \<and> bdy_is_set b i s then b
        else bdy_free_up n (i + 1) (j div 2) b)"

text \<open>\<open>bdy_free\<close> returns 0 in every case.\<close>

definition bdy_free :: "bdy \<Rightarrow> nat \<Rightarrow> nat \<Rightarrow> bdy" where
  "bdy_free b level pos =
    bdy_free_up (BDY_NLEVELS - level) level pos (for_descendants bdy_clr level pos b)"

section \<open>The levels\<close>

text \<open>\<open>lv N i\<close>: the number of blocks at level \<open>i\<close> that hold at least one of the \<open>N\<close> frames.\<close>

definition lv :: "nat \<Rightarrow> nat \<Rightarrow> nat" where
  "lv N i = (N + 2 ^ i - 1) div 2 ^ i"

definition until :: "nat \<Rightarrow> nat \<Rightarrow> nat" where
  "until N i = (\<Sum>k<i. lv N k)"

lemma lv_0 [simp]: "lv N 0 = N"
  by (simp add: lv_def)

lemma halve_up_eq: "halve_up n = (n + 1) div 2"
  by (auto simp: halve_up_def)

lemma lv_Suc: "lv N (Suc i) = halve_up (lv N i)"
proof -
  have "N + 2 ^ Suc i - 1 = N + 2 ^ i - 1 + 2 ^ i"
    using zero_less_power [of "2 :: nat" i] by simp
  then have "lv N (Suc i) = (N + 2 ^ i - 1 + 2 ^ i) div (2 ^ i * 2)"
    by (simp only: lv_def power_Suc mult.commute)
  also have "\<dots> = ((N + 2 ^ i - 1) div 2 ^ i + 1) div 2"
    by (subst div_mult2_eq) (simp only: div_add_self2 power_not_zero numeral_neq_zero not_False_eq_True)
  finally show ?thesis by (simp add: lv_def halve_up_eq)
qed

lemma less_lv: "j < lv N i \<longleftrightarrow> j * 2 ^ i < N"
proof -
  have "j < lv N i \<longleftrightarrow> Suc j * 2 ^ i \<le> N + 2 ^ i - 1"
    unfolding lv_def by (simp add: less_eq_div_iff_mult_less_eq Suc_le_eq [symmetric] del: mult_Suc)
  also have "\<dots> \<longleftrightarrow> j * 2 ^ i < N"
    using zero_less_power [of "2 :: nat" i] by (simp only: mult_Suc) arith
  finally show ?thesis .
qed

lemma frame_less_lv: "f < N \<Longrightarrow> f div 2 ^ i < lv N i"
  by (metis less_lv le_less_trans div_times_less_eq_dividend)

lemma until_Suc [simp]: "until N (Suc i) = until N i + lv N i"
  by (simp add: until_def)

lemma until_0 [simp]: "until N 0 = 0"
  by (simp add: until_def)

lemma until_mono: "i \<le> i' \<Longrightarrow> until N i \<le> until N i'"
  unfolding until_def by (rule sum_mono2) auto

text \<open>Two blocks never share a bit of the map.\<close>

lemma until_inj:
  assumes "j < lv N i" "j' < lv N i'"
  shows "j + until N i = j' + until N i' \<longleftrightarrow> i = i' \<and> j = j'"
proof -
  have "j + until N i \<noteq> j' + until N i'" if "i < i'" "j < lv N i" for i i' j j'
    using until_mono [of "Suc i" i' N] that by simp
  then show ?thesis
    using assms by (metis add_right_cancel linorder_neqE_nat)
qed

lemma bdy_size_loop_eq: "bdy_size_loop k (lv N i) (until N i) = until N (i + k)"
proof (induction k arbitrary: i)
  case 0
  then show ?case by simp
next
  case (Suc k)
  show ?case
    using Suc.IH [of "Suc i"] by (simp add: lv_Suc add.commute)
qed

section \<open>Bits of the map\<close>

text \<open>\<open>geometry N b\<close>: the level tables are those of \<open>N\<close> frames and the map is large enough.\<close>

definition geometry :: "nat \<Rightarrow> bdy \<Rightarrow> bool" where
  "geometry N b \<longleftrightarrow> nbits b = map (lv N) [0..<BDY_NLEVELS]
    \<and> nbits_until b = map (until N) [0..<BDY_NLEVELS]
    \<and> until N BDY_NLEVELS \<le> 32 * length (bmap b)"

text \<open>\<open>valid N i j\<close>: level \<open>i\<close> exists and its block \<open>j\<close> holds a frame.\<close>

definition valid :: "nat \<Rightarrow> nat \<Rightarrow> nat \<Rightarrow> bool" where
  "valid N i j \<longleftrightarrow> i < BDY_NLEVELS \<and> j < lv N i"

definition raw :: "bdy \<Rightarrow> nat \<Rightarrow> bool" where
  "raw b k = bit (bmap b ! (k div 32)) (k mod 32)"

lemma geometry_nbits: "geometry N b \<Longrightarrow> i < BDY_NLEVELS \<Longrightarrow> nbits b ! i = lv N i"
  by (simp add: geometry_def)

lemma geometry_until: "geometry N b \<Longrightarrow> i < BDY_NLEVELS \<Longrightarrow> nbits_until b ! i = until N i"
  by (simp add: geometry_def)

lemma valid_bound: "valid N i j \<Longrightarrow> j + until N i < until N BDY_NLEVELS"
  using until_mono [of "Suc i" BDY_NLEVELS N] by (simp add: valid_def)

lemma limb_in_range:
  "geometry N b \<Longrightarrow> valid N i j \<Longrightarrow> (j + until N i) div 32 < length (bmap b)"
  using valid_bound [of N i j] by (simp add: geometry_def div_less_iff_less_mult)

lemma limb_bit [simp]: "BDY_LIMB k = k div 32" "BDY_BIT k = k mod 32"
  by (simp_all add: BDY_LIMB_def BDY_BIT_def drop_bit_eq_div take_bit_eq_mod)

lemma is_set_raw:
  "geometry N b \<Longrightarrow> valid N i j \<Longrightarrow> bdy_is_set b i j = raw b (j + until N i)"
  by (simp add: bdy_is_set_def raw_def geometry_until valid_def Let_def push_bit_of_1
      and_exp_eq_0_iff_not_bit)

lemma geometry_update:
  "geometry N b \<Longrightarrow> length m = length (bmap b) \<Longrightarrow> geometry N (b\<lparr>bmap := m\<rparr>)"
  by (simp add: geometry_def)

lemma geometry_set: "geometry N b \<Longrightarrow> geometry N (bdy_set i j b)"
  by (simp add: bdy_set_def Let_def geometry_update)

lemma geometry_clr: "geometry N b \<Longrightarrow> geometry N (bdy_clr i j b)"
  by (simp add: bdy_clr_def Let_def geometry_update)

lemma raw_eq_iff: "k div 32 = k' div 32 \<Longrightarrow> k mod 32 = k' mod 32 \<longleftrightarrow> k = (k' :: nat)"
  by (metis div_mult_mod_eq)

lemma raw_set:
  assumes "geometry N b" and "valid N i j"
  shows "raw (bdy_set i j b) k \<longleftrightarrow> k = j + until N i \<or> raw b k"
  using limb_in_range [OF assms] assms raw_eq_iff [of k "j + until N i"]
  by (auto simp: raw_def bdy_set_def Let_def geometry_until valid_def nth_list_update_if
      bit_simps push_bit_of_1)

lemma raw_clr:
  assumes "geometry N b" and "valid N i j"
  shows "raw (bdy_clr i j b) k \<longleftrightarrow> k \<noteq> j + until N i \<and> raw b k"
  using limb_in_range [OF assms] assms raw_eq_iff [of k "j + until N i"]
  by (auto simp: raw_def bdy_clr_def Let_def geometry_until valid_def nth_list_update_if
      bit_simps push_bit_of_1)

text \<open>Sets of bits: \<open>touched b P\<close> after a loop that sets (clears) the blocks in \<open>P\<close>.\<close>

definition pos_of :: "nat \<Rightarrow> nat \<times> nat \<Rightarrow> nat" where
  "pos_of N = (\<lambda>(i, j). j + until N i)"

lemma fold_set:
  assumes "geometry N b" and "\<And>x. x \<in> set xs \<Longrightarrow> valid N (fst x) (snd x)"
  shows "geometry N (fold (\<lambda>(i, j). bdy_set i j) xs b)
    \<and> (raw (fold (\<lambda>(i, j). bdy_set i j) xs b) k \<longleftrightarrow> k \<in> pos_of N ` set xs \<or> raw b k)"
  using assms
proof (induction xs arbitrary: b)
  case Nil
  then show ?case by simp
next
  case (Cons x xs)
  then show ?case
    by (cases x) (auto simp: geometry_set raw_set pos_of_def)
qed

lemma fold_clr:
  assumes "geometry N b" and "\<And>x. x \<in> set xs \<Longrightarrow> valid N (fst x) (snd x)"
  shows "geometry N (fold (\<lambda>(i, j). bdy_clr i j) xs b)
    \<and> (raw (fold (\<lambda>(i, j). bdy_clr i j) xs b) k \<longleftrightarrow> k \<notin> pos_of N ` set xs \<and> raw b k)"
  using assms
proof (induction xs arbitrary: b)
  case Nil
  then show ?case by simp
next
  case (Cons x xs)
  then show ?case
    by (cases x) (auto simp: geometry_clr raw_clr pos_of_def)
qed

section \<open>The descendant loops visit exactly the descendants\<close>

definition row :: "nat \<Rightarrow> nat \<Rightarrow> nat \<Rightarrow> nat \<Rightarrow> (nat \<times> nat) list" where
  "row N level pos i = map (\<lambda>k. (i, pos * 2 ^ (level - i) + k))
    (takeWhile (\<lambda>k. pos * 2 ^ (level - i) + k < lv N i) [0..<2 ^ (level - i)])"

definition descendants :: "nat \<Rightarrow> nat \<Rightarrow> nat \<Rightarrow> (nat \<times> nat) list" where
  "descendants N level pos = concat (map (row N level pos) (rev [0..<level]))"

lemma descend_step_eq:
  "2 * j = pos * 2 ^ (level - i) \<Longrightarrow> nbits b ! i = lv N i \<Longrightarrow>
   descend_step f level i (b, j) = (fold (\<lambda>(i, j). f i j) (row N level pos i) b, pos * 2 ^ (level - i))"
  by (simp add: descend_step_def row_def fold_map comp_def Let_def del: upt_Suc)

lemma for_descendants_eq:
  assumes g: "geometry N b" and l: "level \<le> BDY_NLEVELS"
    and f: "\<And>i j b. nbits (f i j b) = nbits b"
  shows "for_descendants f level pos b = fold (\<lambda>(i, j). f i j) (descendants N level pos) b"
proof -
  have nb: "nbits (fold (\<lambda>(i, j). f i j) xs b) = nbits b" for xs b
    by (induction xs arbitrary: b) (auto simp: f)
  have "fold (descend_step f level) (rev [n..<level]) (b, pos)
      = (fold (\<lambda>(i, j). f i j) (concat (map (row N level pos) (rev [n..<level]))) b, pos * 2 ^ (level - n))"
    if "n \<le> level" for n
    using that
  proof (induction "level - n" arbitrary: n)
    case 0
    then show ?case by simp
  next
    case (Suc d)
    let ?b = "fold (\<lambda>(i, j). f i j) (concat (map (row N level pos) (rev [Suc n..<level]))) b"
    have n: "n < level" "2 * (pos * 2 ^ (level - Suc n)) = pos * 2 ^ (level - n)"
      using Suc.hyps(2) by (auto simp: power_Suc [symmetric] Suc_diff_Suc simp del: power_Suc)
    have "fold (descend_step f level) (rev [Suc n..<level]) (b, pos) = (?b, pos * 2 ^ (level - Suc n))"
      using Suc.hyps n(1) by (intro Suc.hyps(1)) auto
    moreover have "nbits ?b ! n = lv N n"
      using g l n(1) by (simp add: nb geometry_nbits)
    moreover have "rev [n..<level] = rev [Suc n..<level] @ [n]"
      using n(1) by (simp add: upt_conv_Cons)
    ultimately show ?case
      using n(2) by (simp add: descend_step_eq)
  qed
  from this [of 0] show ?thesis
    by (simp add: for_descendants_def descendants_def)
qed

lemma takeWhile_less_upt: "takeWhile (\<lambda>k. k < c) [0..<n] = [0..<min n (c :: nat)]"
proof (cases "n \<le> c")
  case True
  then have "takeWhile (\<lambda>k. k < c) [0..<n] = [0..<n]"
    by (simp add: takeWhile_eq_all_conv)
  with True show ?thesis by simp
next
  case False
  then have "[0..<n] = [0..<c] @ c # [Suc c..<n]"
    using upt_add_eq_append [of 0 c "n - c"] upt_conv_Cons [of c n] by simp
  then have "takeWhile (\<lambda>k. k < c) [0..<n] = [0..<c]"
    by (simp only:) (subst takeWhile_append2, auto)
  with False show ?thesis by simp
qed

lemma set_takeWhile_upt: "set (takeWhile (\<lambda>k. a + k < m) [0..<n]) = {k. k < n \<and> a + k < (m :: nat)}"
proof -
  have "(\<lambda>k. a + k < m) = (\<lambda>k. k < m - a)" by auto
  then show ?thesis by (auto simp only: takeWhile_less_upt set_upt) auto
qed

lemma block_index: "(\<exists>k<2 ^ d. j = pos * 2 ^ d + k) \<longleftrightarrow> j div 2 ^ d = (pos :: nat)"
proof
  assume "j div 2 ^ d = pos"
  then have "j mod 2 ^ d < 2 ^ d \<and> j = pos * 2 ^ d + j mod 2 ^ d"
    by (metis div_mult_mod_eq mod_less_divisor zero_less_numeral zero_less_power)
  then show "\<exists>k<2 ^ d. j = pos * 2 ^ d + k" by blast
qed auto

lemma set_row:
  "(i', j) \<in> set (row N level pos i) \<longleftrightarrow> i' = i \<and> j div 2 ^ (level - i) = pos \<and> j < lv N i"
  unfolding block_index [symmetric] by (auto simp: row_def set_takeWhile_upt)

lemma set_descendants:
  "(i, j) \<in> set (descendants N level pos)
    \<longleftrightarrow> i < level \<and> j div 2 ^ (level - i) = pos \<and> j < lv N i"
  by (auto simp: descendants_def set_row)

section \<open>What the bits mean\<close>

text \<open>
  The abstract state is the set \<open>A\<close> of allocated frames; the bit of a block is set exactly
  when one of its frames is in \<open>A\<close>.
\<close>

definition block :: "nat \<Rightarrow> nat \<Rightarrow> nat \<Rightarrow> nat set" where
  "block N level pos = {f. f < N \<and> f div 2 ^ level = pos}"

definition hit :: "nat set \<Rightarrow> nat \<Rightarrow> nat \<Rightarrow> bool" where
  "hit A i j \<longleftrightarrow> (\<exists>f\<in>A. f div 2 ^ i = j)"

definition bdy_rel :: "nat \<Rightarrow> nat set \<Rightarrow> bdy \<Rightarrow> bool" where
  "bdy_rel N A b \<longleftrightarrow> geometry N b \<and> A \<subseteq> {..<N}
    \<and> (\<forall>i j. valid N i j \<longrightarrow> (bdy_is_set b i j \<longleftrightarrow> hit A i j))"

lemma bdy_relD:
  assumes "bdy_rel N A b"
  shows "geometry N b" "A \<subseteq> {..<N}" "valid N i j \<Longrightarrow> bdy_is_set b i j \<longleftrightarrow> hit A i j"
  using assms by (simp_all add: bdy_rel_def)

lemma div_exp_div: "i \<le> i' \<Longrightarrow> (f :: nat) div 2 ^ i div 2 ^ (i' - i) = f div 2 ^ i'"
  by (simp flip: div_mult2_eq power_add)

lemma hit_Un: "hit (A \<union> B) i j \<longleftrightarrow> hit A i j \<or> hit B i j"
  by (auto simp: hit_def)

lemma block_empty_iff: "hit A level pos \<longleftrightarrow> A \<inter> block N level pos \<noteq> {}" if "A \<subseteq> {..<N}"
  using that by (auto simp: hit_def block_def)

lemma hit_block_up:
  assumes "level \<le> i" and "pos < lv N level"
  shows "hit (block N level pos) i j \<longleftrightarrow> j = pos div 2 ^ (i - level)"
proof -
  have "pos * 2 ^ level \<in> block N level pos"
    using assms(2) by (simp add: block_def less_lv)
  moreover have "f div 2 ^ i = pos div 2 ^ (i - level)" if "f \<in> block N level pos" for f
    using that div_exp_div [OF assms(1), of f] by (simp add: block_def)
  ultimately show ?thesis by (auto simp: hit_def)
qed

lemma hit_block_down:
  assumes "i < level" and "j < lv N i"
  shows "hit (block N level pos) i j \<longleftrightarrow> j div 2 ^ (level - i) = pos"
proof
  assume "hit (block N level pos) i j"
  then show "j div 2 ^ (level - i) = pos"
    using div_exp_div [of i level] assms(1) by (auto simp: hit_def block_def)
next
  assume pos: "j div 2 ^ (level - i) = pos"
  have "j * 2 ^ i div 2 ^ level = pos"
    using pos div_exp_div [of i level "j * 2 ^ i"] assms(1) by simp
  then have "j * 2 ^ i \<in> block N level pos"
    using assms(2) by (simp add: block_def less_lv)
  then show "hit (block N level pos) i j"
    unfolding hit_def by (rule rev_bexI) simp
qed

lemma valid_up: "valid N level pos \<Longrightarrow> level \<le> i \<Longrightarrow> i < BDY_NLEVELS \<Longrightarrow> valid N i (pos div 2 ^ (i - level))"
proof -
  assume v: "valid N level pos" "level \<le> i" "i < BDY_NLEVELS"
  then have "pos * 2 ^ level < N" by (simp add: valid_def less_lv)
  from frame_less_lv [OF this, of i] have "pos div 2 ^ (i - level) < lv N i"
    using div_exp_div [OF v(2), of "pos * 2 ^ level"] by simp
  with v(3) show ?thesis by (simp add: valid_def)
qed

section \<open>Allocation\<close>

definition ancestors :: "nat \<Rightarrow> nat \<Rightarrow> (nat \<times> nat) list" where
  "ancestors level pos = map (\<lambda>i. (i, pos div 2 ^ (i - level))) [level..<BDY_NLEVELS]"

lemma fold_ancestors:
  "level \<le> n \<Longrightarrow> fold (\<lambda>i (b, j). (bdy_set i j b, j div 2)) [level..<n] (b, pos)
    = (fold (\<lambda>(i, j). bdy_set i j) (map (\<lambda>i. (i, pos div 2 ^ (i - level))) [level..<n]) b,
       pos div 2 ^ (n - level))"
proof (induction n rule: dec_induct)
  case base
  then show ?case by simp
next
  case (step n)
  then have "[level..<Suc n] = [level..<n] @ [n]" "Suc n - level = Suc (n - level)"
    by simp_all
  then show ?case
    using step.IH by (simp add: div_mult2_eq power_Suc2 del: power_Suc upt_Suc)
qed

lemma bdy_set_nbits [simp]: "nbits (bdy_set i j b) = nbits b"
  by (simp add: bdy_set_def Let_def)

lemma bdy_clr_nbits [simp]: "nbits (bdy_clr i j b) = nbits b"
  by (simp add: bdy_clr_def Let_def)

lemma pos_of_mem:
  assumes "valid N i j" and "\<And>x. x \<in> set xs \<Longrightarrow> valid N (fst x) (snd x)"
  shows "j + until N i \<in> pos_of N ` set xs \<longleftrightarrow> (i, j) \<in> set xs"
proof
  assume "j + until N i \<in> pos_of N ` set xs"
  then obtain x where x: "x \<in> set xs" "j + until N i = snd x + until N (fst x)"
    by (auto simp: pos_of_def)
  with until_inj [of j N i "snd x" "fst x"] assms(1) assms(2) [OF x(1)]
  have "i = fst x" "j = snd x" by (simp_all add: valid_def)
  with x(1) show "(i, j) \<in> set xs" by simp
next
  assume "(i, j) \<in> set xs"
  then show "j + until N i \<in> pos_of N ` set xs"
    by (force simp: pos_of_def)
qed

lemma mark_block:
  assumes g: "geometry N b" and v: "valid N level pos"
  defines "b' \<equiv> fold (\<lambda>(i, j). bdy_set i j) (ancestors level pos @ descendants N level pos) b"
  shows "geometry N b'"
    and "valid N i j \<Longrightarrow> bdy_is_set b' i j \<longleftrightarrow> bdy_is_set b i j \<or> hit (block N level pos) i j"
    and "(\<And>i j. valid N i j \<Longrightarrow> k \<noteq> j + until N i) \<Longrightarrow> raw b' k = raw b k"
proof -
  let ?xs = "ancestors level pos @ descendants N level pos"
  have val: "valid N (fst x) (snd x)" if "x \<in> set ?xs" for x
    using that v valid_up [OF v] set_descendants [of "fst x" "snd x"]
    by (auto simp: ancestors_def valid_def)
  note f = fold_set [where xs = ?xs, OF g val, folded b'_def]
  show geo: "geometry N b'" using f by blast
  show "bdy_is_set b' i j \<longleftrightarrow> bdy_is_set b i j \<or> hit (block N level pos) i j" if ij: "valid N i j"
  proof -
    have "(i, j) \<in> set ?xs \<longleftrightarrow> hit (block N level pos) i j"
    proof (cases "level \<le> i")
      case True
      then show ?thesis
        using ij v hit_block_up [OF True, of pos N j] set_descendants [of i j]
        by (auto simp: ancestors_def valid_def)
    next
      case False
      then show ?thesis
        using ij hit_block_down [of i level j N pos] set_descendants [of i j]
        by (auto simp: ancestors_def valid_def)
    qed
    then show ?thesis
      using f pos_of_mem [OF ij val] is_set_raw [OF geo ij] is_set_raw [OF g ij] by blast
  qed
  show "raw b' k = raw b k" if k: "\<And>i j. valid N i j \<Longrightarrow> k \<noteq> j + until N i"
  proof -
    have "k \<noteq> pos_of N x" if "x \<in> set ?xs" for x
      using k [OF val [OF that]] by (simp add: pos_of_def case_prod_beta)
    then show ?thesis using f by blast
  qed
qed

lemma bdy_alloc_eq:
  assumes "geometry N b" and "level < BDY_NLEVELS"
  shows "bdy_alloc b level =
    map_option (\<lambda>pos. (fold (\<lambda>(i, j). bdy_set i j) (ancestors level pos @ descendants N level pos) b, pos))
      (find (\<lambda>i. \<not> bdy_is_set b level i) [0..<lv N level])"
proof -
  have val: "valid N i j" if "(i, j) \<in> set (ancestors level pos)" "valid N level pos" for i j pos
    using that valid_up by (auto simp: ancestors_def)
  have "geometry N (fold (\<lambda>(i, j). bdy_set i j) (ancestors level pos) b)" if "valid N level pos" for pos
    using fold_set [OF assms(1), of "ancestors level pos"] val that by fastforce
  then have "for_descendants bdy_set level pos (fold (\<lambda>(i, j). bdy_set i j) (ancestors level pos) b)
      = fold (\<lambda>(i, j). bdy_set i j) (descendants N level pos)
          (fold (\<lambda>(i, j). bdy_set i j) (ancestors level pos) b)" if "valid N level pos" for pos
    using that assms(2) by (simp add: for_descendants_eq)
  note desc = this
  show ?thesis
  proof (cases "find (\<lambda>i. \<not> bdy_is_set b level i) [0..<lv N level]")
    case None
    with assms show ?thesis by (simp add: bdy_alloc_def geometry_nbits)
  next
    case (Some pos)
    then have "valid N level pos"
      using assms(2) by (auto simp: find_Some_iff valid_def)
    with Some assms desc fold_ancestors [of level BDY_NLEVELS b] show ?thesis
      by (simp add: bdy_alloc_def geometry_nbits ancestors_def [symmetric])
  qed
qed

lemma bdy_alloc_Some:
  assumes r: "bdy_rel N A b" and l: "level < BDY_NLEVELS" and a: "bdy_alloc b level = Some (b', pos)"
  shows "pos < lv N level" and "A \<inter> block N level pos = {}"
    and "\<And>q. q < pos \<Longrightarrow> A \<inter> block N level q \<noteq> {}"
    and "bdy_rel N (A \<union> block N level pos) b'"
proof -
  note g = bdy_relD(1) [OF r] and sub = bdy_relD(2) [OF r]
  have find: "find (\<lambda>i. \<not> bdy_is_set b level i) [0..<lv N level] = Some pos"
    and b': "b' = fold (\<lambda>(i, j). bdy_set i j) (ancestors level pos @ descendants N level pos) b"
    using a by (auto simp: bdy_alloc_eq [OF g l])
  show pos: "pos < lv N level"
    using find by (auto simp: find_Some_iff)
  then have v: "valid N level pos" using l by (simp add: valid_def)
  have "\<not> bdy_is_set b level pos"
    using find by (auto simp: find_Some_iff)
  then show "A \<inter> block N level pos = {}"
    using bdy_relD(3) [OF r v] block_empty_iff [OF sub] by blast
  show "A \<inter> block N level q \<noteq> {}" if "q < pos" for q
  proof -
    have "bdy_is_set b level q"
      using find that pos by (auto simp: find_Some_iff)
    moreover have "valid N level q"
      using that pos l by (simp add: valid_def)
    ultimately show ?thesis
      using bdy_relD(3) [OF r] block_empty_iff [OF sub] by blast
  qed
  show "bdy_rel N (A \<union> block N level pos) b'"
    using mark_block(1,2) [OF g v, folded b'] bdy_relD(3) [OF r] sub
    by (auto simp: bdy_rel_def hit_Un block_def)
qed

lemma bdy_alloc_None:
  assumes r: "bdy_rel N A b" and l: "level < BDY_NLEVELS"
  shows "bdy_alloc b level = None \<longleftrightarrow> (\<forall>q<lv N level. A \<inter> block N level q \<noteq> {})"
proof -
  have "bdy_alloc b level = None \<longleftrightarrow> (\<forall>q<lv N level. bdy_is_set b level q)"
    by (auto simp: bdy_alloc_eq [OF bdy_relD(1) [OF r] l] find_None_iff)
  also have "\<dots> \<longleftrightarrow> (\<forall>q<lv N level. A \<inter> block N level q \<noteq> {})"
    using bdy_relD(3) [OF r] block_empty_iff [OF bdy_relD(2) [OF r]] l by (simp add: valid_def)
  finally show ?thesis .
qed

section \<open>Release\<close>

text \<open>
  \<open>free_up_inv\<close>: before the ascent handles level \<open>i\<close>, the lower levels already describe
  \<open>A - B\<close> and the others still describe \<open>A\<close>.
\<close>

definition free_up_inv :: "nat \<Rightarrow> nat set \<Rightarrow> nat set \<Rightarrow> nat \<Rightarrow> bdy \<Rightarrow> bool" where
  "free_up_inv N A B n b \<longleftrightarrow> geometry N b
    \<and> (\<forall>i j. valid N i j \<longrightarrow> (bdy_is_set b i j \<longleftrightarrow> hit (if i < n then A - B else A) i j))"

lemma hit_mono: "hit A i j \<Longrightarrow> A \<subseteq> B \<Longrightarrow> hit B i j"
  by (auto simp: hit_def)

lemma hit_valid: "hit A i j \<Longrightarrow> A \<subseteq> {..<N} \<Longrightarrow> j < lv N i"
  using frame_less_lv by (auto simp: hit_def)

lemma hit_parent: "i \<le> i' \<Longrightarrow> hit A i j \<Longrightarrow> hit A i' (j div 2 ^ (i' - i))"
  using div_exp_div by (auto simp: hit_def)

lemma bdy_is_set_clr:
  assumes "geometry N b" "valid N i j" "valid N i' j'"
  shows "bdy_is_set (bdy_clr i j b) i' j' \<longleftrightarrow> (i', j') \<noteq> (i, j) \<and> bdy_is_set b i' j'"
proof -
  have "j' + until N i' = j + until N i \<longleftrightarrow> i' = i \<and> j' = j"
    by (rule until_inj) (use assms in \<open>simp_all add: valid_def\<close>)
  then show ?thesis
    by (simp add: is_set_raw [OF geometry_clr [OF assms(1)] assms(3)]
        is_set_raw [OF assms(1,3)] raw_clr [OF assms(1,2)])
qed

text \<open>
  One round of the ascent at a block \<open>j\<close> all of whose allocated frames are in \<open>B\<close>, where
  the frames of \<open>B\<close> all lie in block \<open>j\<close>: if the sibling has an allocated frame, all levels
  describe \<open>A - B\<close>; otherwise the invariant moves up.
\<close>

definition sibling :: "nat \<Rightarrow> nat" where
  "sibling j = (if odd j then j - 1 else j + 1)"

lemma sibling_div2: "sibling j div 2 = j div 2" and sibling_neq: "sibling j \<noteq> j"
  by (auto simp: sibling_def elim!: oddE)

lemma div2_eq_sibling: "k div 2 = j div 2 \<longleftrightarrow> k = j \<or> k = sibling j"
  by (auto simp: sibling_def elim!: oddE evenE)

lemma free_up_round:
  assumes inv: "free_up_inv N A B i b" and v: "valid N i j"
    and B: "\<And>f. f \<in> B \<Longrightarrow> f div 2 ^ i = j" and gone: "\<not> hit (A - B) i j"
  shows "free_up_inv N A B (Suc i) (bdy_clr i j b)"
    and "valid N i (sibling j) \<Longrightarrow> bdy_is_set (bdy_clr i j b) i (sibling j) \<longleftrightarrow> hit (A - B) i (sibling j)"
proof -
  have g: "geometry N b" using inv by (simp add: free_up_inv_def)
  have other: "hit (A - B) i k \<longleftrightarrow> k \<noteq> j \<and> hit A i k" for k
    using B gone by (auto simp: hit_def)
  show up: "free_up_inv N A B (Suc i) (bdy_clr i j b)"
    unfolding free_up_inv_def
  proof (intro conjI allI impI geometry_clr g)
    fix i' j' assume v': "valid N i' j'"
    then show "bdy_is_set (bdy_clr i j b) i' j' \<longleftrightarrow> hit (if i' < Suc i then A - B else A) i' j'"
      using inv other [of j'] by (cases "i' = i") (auto simp: free_up_inv_def bdy_is_set_clr [OF g v])
  qed
  show "bdy_is_set (bdy_clr i j b) i (sibling j) \<longleftrightarrow> hit (A - B) i (sibling j)"
    if "valid N i (sibling j)"
    using up that by (simp add: free_up_inv_def)
qed

lemma free_up_correct:
  assumes "i + n = BDY_NLEVELS" and "free_up_inv N A B i b" and "A \<subseteq> {..<N}"
    and "i < BDY_NLEVELS \<Longrightarrow> valid N i j"
    and "\<And>f. f \<in> B \<Longrightarrow> f div 2 ^ i = j" and "\<not> hit (A - B) i j"
  shows "free_up_inv N A B BDY_NLEVELS (bdy_free_up n i j b)"
  using assms
proof (induction n arbitrary: i j b)
  case 0
  then show ?case by simp
next
  case (Suc n)
  then have i: "i < BDY_NLEVELS" and v: "valid N i j" by auto
  let ?b = "bdy_clr i j b"
  note round = free_up_round [OF Suc.prems(2) v Suc.prems(5,6)]
  have g: "geometry N ?b" using round(1) by (simp add: free_up_inv_def)
  have Bup: "f div 2 ^ Suc i = j div 2" if "f \<in> B" for f
    using Suc.prems(5) [OF that] by (simp add: div_mult2_eq power_Suc2 del: power_Suc)
  have step: "bdy_free_up (Suc n) i j b = (if valid N i (sibling j) \<and> bdy_is_set ?b i (sibling j)
      then ?b else bdy_free_up n (Suc i) (j div 2) ?b)"
    using geometry_nbits [OF g i] i
    by (simp add: sibling_def valid_def Let_def)
  show ?case
  proof (cases "valid N i (sibling j) \<and> bdy_is_set ?b i (sibling j)")
    case True
    then have sib: "hit (A - B) i (sibling j)" using round(2) by blast
    have "hit (A - B) k m \<longleftrightarrow> hit A k m" if "Suc i \<le> k" for k m
    proof (cases "m = j div 2 ^ (k - i)")
      case True
      have "j div 2 ^ (k - i) = sibling j div 2 ^ (k - i)"
        using that div_exp_div [of 1 "k - i" j] div_exp_div [of 1 "k - i" "sibling j"]
        by (simp add: sibling_div2)
      then have "hit (A - B) k m"
        using hit_parent [OF _ sib, of k] that True by simp
      then show ?thesis using hit_mono by blast
    next
      case False
      have "f div 2 ^ k = j div 2 ^ (k - i)" if "f \<in> B" for f
        using Suc.prems(5) [OF that] div_exp_div [of i k f] \<open>Suc i \<le> k\<close> by simp
      with False show ?thesis by (auto simp: hit_def)
    qed
    then have "free_up_inv N A B BDY_NLEVELS ?b"
      using round(1) by (auto simp: free_up_inv_def valid_def not_less)
    then show ?thesis using step True by simp
  next
    case False
    have "\<not> hit (A - B) i (sibling j)"
    proof (cases "valid N i (sibling j)")
      case True
      with False round(2) show ?thesis by blast
    next
      case False
      then have "\<not> hit A i (sibling j)"
        using i Suc.prems(3) by (auto simp: valid_def dest: hit_valid)
      then show ?thesis using hit_mono by blast
    qed
    moreover have "hit (A - B) (Suc i) (j div 2) \<Longrightarrow> hit (A - B) i j \<or> hit (A - B) i (sibling j)"
      unfolding hit_def power_Suc2 div_mult2_eq div2_eq_sibling by blast
    ultimately have gone: "\<not> hit (A - B) (Suc i) (j div 2)"
      using Suc.prems(6) by blast
    have "valid N (Suc i) (j div 2)" if "Suc i < BDY_NLEVELS"
      using valid_up [OF v, of "Suc i"] that by simp
    then have "free_up_inv N A B BDY_NLEVELS (bdy_free_up n (Suc i) (j div 2) ?b)"
      using Suc.prems(1,3) by (intro Suc.IH round(1) Bup gone) auto
    then show ?thesis using step False by simp
  qed
qed

lemma bdy_free_rel:
  assumes r: "bdy_rel N A b" and v: "valid N level pos"
  shows "bdy_rel N (A - block N level pos) (bdy_free b level pos)"
proof -
  let ?B = "block N level pos" and ?xs = "descendants N level pos"
  have l: "level < BDY_NLEVELS" using v by (simp add: valid_def)
  note g = bdy_relD(1) [OF r]
  let ?b = "fold (\<lambda>(i, j). bdy_clr i j) ?xs b"
  have val: "valid N (fst x) (snd x)" if "x \<in> set ?xs" for x
    using that l set_descendants [of "fst x" "snd x"] by (auto simp: valid_def)
  note f = fold_clr [where xs = ?xs, OF g val]
  have hitA: "hit (A - ?B) i j \<longleftrightarrow> \<not> hit ?B i j \<and> hit A i j" if "i < level" "valid N i j" for i j
  proof -
    have key: "f \<in> ?B \<longleftrightarrow> j div 2 ^ (level - i) = pos" if "f < N" "f div 2 ^ i = j" for f
      using that div_exp_div [of i level f] \<open>i < level\<close> by (auto simp: block_def)
    have "hit ?B i j \<longleftrightarrow> j div 2 ^ (level - i) = pos"
      using hit_block_down [OF that(1)] that(2) by (simp add: valid_def)
    moreover have "f < N" if "f \<in> A" for f
      using that bdy_relD(2) [OF r] by auto
    ultimately show ?thesis
      using key by (auto simp: hit_def)
  qed
  have "free_up_inv N A ?B level ?b"
    unfolding free_up_inv_def
  proof (intro conjI allI impI)
    show "geometry N ?b" using f by blast
    fix i j assume ij: "valid N i j"
    have "bdy_is_set ?b i j \<longleftrightarrow> (i, j) \<notin> set ?xs \<and> bdy_is_set b i j"
      using f pos_of_mem [OF ij val] is_set_raw [OF _ ij] g by blast
    then show "bdy_is_set ?b i j \<longleftrightarrow> hit (if i < level then A - ?B else A) i j"
      using ij hitA [OF _ ij] hit_block_down [of i level j N pos] set_descendants [of i j N level pos]
        bdy_relD(3) [OF r ij]
      by (auto simp: valid_def)
  qed
  moreover have "\<not> hit (A - ?B) level pos"
    using bdy_relD(2) [OF r] by (auto simp: hit_def block_def)
  ultimately have "free_up_inv N A ?B BDY_NLEVELS (bdy_free b level pos)"
    unfolding bdy_free_def for_descendants_eq [OF g less_imp_le [OF l] bdy_clr_nbits]
    using l v bdy_relD(2) [OF r] by (intro free_up_correct) (auto simp: block_def)
  then show ?thesis
    using bdy_relD(2) [OF r] by (auto simp: bdy_rel_def free_up_inv_def valid_def)
qed

section \<open>Initialisation\<close>

lemma fold_init_step:
  "n \<le> K \<Longrightarrow> fold bdy_init_step [0..<n]
     (\<lparr>nbits = replicate K 0, nbits_until = replicate K 0, bmap = m\<rparr>, 0, N)
   = (\<lparr>nbits = map (lv N) [0..<n] @ replicate (K - n) 0,
       nbits_until = map (until N) [0..<n] @ replicate (K - n) 0, bmap = m\<rparr>, until N n, lv N n)"
proof (induction n)
  case 0
  then show ?case by simp
next
  case (Suc n)
  then have "replicate (K - n) (0 :: nat) = 0 # replicate (K - Suc n) 0"
    by (metis Suc_diff_Suc Suc_le_lessD replicate_Suc)
  with Suc show ?case
    by (simp add: bdy_init_step_def list_update_append lv_Suc)
qed

lemma unat_bdy_map_size:
  assumes "until N BDY_NLEVELS + 8 \<le> 2 ^ 32"
  shows "unat (bdy_map_size N) = (until N BDY_NLEVELS + 7) div 8"
proof -
  have t: "bdy_size_loop BDY_NLEVELS N 0 = until N BDY_NLEVELS"
    using bdy_size_loop_eq [of BDY_NLEVELS N 0] by simp
  have u: "unat (of_nat (until N BDY_NLEVELS) :: u32) = until N BDY_NLEVELS"
    using assms by (simp add: unat_of_nat)
  have "unat (align_up (of_nat (until N BDY_NLEVELS)) (2 ^ 3)) = (until N BDY_NLEVELS + 7) div 8 * 8"
    using assms by (subst unat_align_up) (simp_all add: u)
  then show ?thesis
    unfolding bdy_map_size_def t
    by (simp add: drop_bit_eq_div unat_div_exp_u32 [of _ 3, simplified])
qed

lemma byte_in_limb: "k div 8 < s \<Longrightarrow> k mod 32 < 8 * min 4 (s - 4 * (k div 32))" for k s :: nat
proof -
  assume k: "k div 8 < s"
  define q r where "q = k div 32" and "r = k mod 32"
  have "k = 8 * (4 * q) + r"
    by (simp add: q_def r_def)
  then have "k div 8 = 4 * q + r div 8"
    by simp
  with k have "r div 8 < s - 4 * q" by linarith
  moreover have "r < 32" by (simp add: r_def)
  ultimately show ?thesis
    unfolding q_def [symmetric] r_def [symmetric] by (simp add: div_less_iff_less_mult min_def)
qed

lemma bdy_init_rel:
  assumes "until N BDY_NLEVELS \<le> 32 * length m" and "until N BDY_NLEVELS + 8 \<le> 2 ^ 32"
  shows "bdy_rel N {} (bdy_init m N)"
proof -
  let ?sz = "(until N BDY_NLEVELS + 7) div 8"
  have b: "bdy_init m N = \<lparr>nbits = map (lv N) [0..<BDY_NLEVELS],
      nbits_until = map (until N) [0..<BDY_NLEVELS], bmap = zero_bytes ?sz m\<rparr>"
    using unat_bdy_map_size [OF assms(2)] by (simp add: bdy_init_def fold_init_step)
  have g: "geometry N (bdy_init m N)"
    using assms(1) by (simp add: geometry_def b zero_bytes_def)
  have "\<not> raw (bdy_init m N) k" if k: "k < until N BDY_NLEVELS" for k
  proof -
    have "k div 32 < length m" "k div 8 < ?sz"
      using k assms(1) by (auto simp: div_less_iff_less_mult less_eq_div_iff_mult_less_eq Suc_le_eq [symmetric])
    then show ?thesis
      using byte_in_limb by (auto simp: raw_def b zero_bytes_def bit_simps)
  qed
  then have "\<not> bdy_is_set (bdy_init m N) i j" if "valid N i j" for i j
    using is_set_raw [OF g that] valid_bound [OF that] by simp
  then show ?thesis
    using g by (simp add: bdy_rel_def hit_def)
qed

section \<open>The state is determined by the allocated frames\<close>

text \<open>\<open>same_frame\<close>: the two states differ at most in bits that stand for a block.\<close>

definition same_frame :: "nat \<Rightarrow> bdy \<Rightarrow> bdy \<Rightarrow> bool" where
  "same_frame N b b' \<longleftrightarrow> nbits b = nbits b' \<and> nbits_until b = nbits_until b'
    \<and> length (bmap b) = length (bmap b')
    \<and> (\<forall>k. (\<forall>i j. valid N i j \<longrightarrow> k \<noteq> j + until N i) \<longrightarrow> raw b k = raw b' k)"

lemma same_frame_refl: "same_frame N b b"
  by (simp add: same_frame_def)

lemma same_frame_trans: "same_frame N a b \<Longrightarrow> same_frame N b c \<Longrightarrow> same_frame N a c"
  by (simp add: same_frame_def)

lemma same_frame_set: "geometry N b \<Longrightarrow> valid N i j \<Longrightarrow> same_frame N b (bdy_set i j b)"
  by (auto simp: same_frame_def raw_set) (simp_all add: bdy_set_def Let_def)

lemma same_frame_clr: "geometry N b \<Longrightarrow> valid N i j \<Longrightarrow> same_frame N b (bdy_clr i j b)"
  by (auto simp: same_frame_def raw_clr) (simp_all add: bdy_clr_def Let_def)

lemma fold_same_frame:
  assumes "geometry N b" and "\<And>x. x \<in> set xs \<Longrightarrow> valid N (fst x) (snd x)"
    and "\<And>i j b. geometry N b \<Longrightarrow> valid N i j \<Longrightarrow> same_frame N b (f i j b) \<and> geometry N (f i j b)"
  shows "same_frame N b (fold (\<lambda>(i, j). f i j) xs b) \<and> geometry N (fold (\<lambda>(i, j). f i j) xs b)"
  using assms(1,2)
proof (induction xs arbitrary: b)
  case Nil
  then show ?case by (simp add: same_frame_refl)
next
  case (Cons x xs)
  have v: "valid N (fst x) (snd x)" using Cons.prems(2) by simp
  note step = assms(3) [OF Cons.prems(1) v]
  have "same_frame N (f (fst x) (snd x) b) (fold (\<lambda>(i, j). f i j) xs (f (fst x) (snd x) b))
      \<and> geometry N (fold (\<lambda>(i, j). f i j) xs (f (fst x) (snd x) b))"
    using step Cons.prems(2) by (intro Cons.IH) auto
  then show ?case
    using step same_frame_trans by (cases x) auto
qed

lemma free_up_same_frame:
  assumes "geometry N b" and "i + n = BDY_NLEVELS" and "n \<noteq> 0 \<Longrightarrow> valid N i j"
  shows "same_frame N b (bdy_free_up n i j b)"
  using assms
proof (induction n arbitrary: i j b)
  case 0
  then show ?case by (simp add: same_frame_refl)
next
  case (Suc n)
  then have v: "valid N i j" by simp
  note step = same_frame_clr [OF Suc.prems(1) v] geometry_clr [OF Suc.prems(1), of i j]
  have "same_frame N (bdy_clr i j b) (bdy_free_up n (Suc i) (j div 2) (bdy_clr i j b))"
    using Suc.prems valid_up [OF v, of "Suc i"] by (intro Suc.IH step(2)) auto
  then have "same_frame N b (bdy_free_up n (Suc i) (j div 2) (bdy_clr i j b))"
    using same_frame_trans step(1) by blast
  then show ?case
    using step(1) by (simp add: Let_def)
qed

lemma bdy_free_same_frame:
  assumes g: "geometry N b" and v: "valid N level pos"
  shows "same_frame N b (bdy_free b level pos)"
proof -
  have l: "level < BDY_NLEVELS" using v by (simp add: valid_def)
  let ?b = "fold (\<lambda>(i, j). bdy_clr i j) (descendants N level pos) b"
  have "same_frame N b ?b \<and> geometry N ?b"
    using g l set_descendants [of _ _ N level pos]
    by (intro fold_same_frame conjI same_frame_clr geometry_clr) (force simp: valid_def)+
  moreover from this have "same_frame N ?b (bdy_free_up (BDY_NLEVELS - level) level pos ?b)"
    using l v by (intro free_up_same_frame) auto
  ultimately show ?thesis
    unfolding bdy_free_def for_descendants_eq [OF g less_imp_le [OF l] bdy_clr_nbits]
    using same_frame_trans by blast
qed

lemma bdy_alloc_same_frame:
  assumes g: "geometry N b" and l: "level < BDY_NLEVELS" and a: "bdy_alloc b level = Some (b', pos)"
  shows "same_frame N b b'"
proof -
  have "valid N level pos" and b': "b' = fold (\<lambda>(i, j). bdy_set i j) (ancestors level pos @ descendants N level pos) b"
    using a l by (auto simp: bdy_alloc_eq [OF g l] find_Some_iff valid_def)
  then have "valid N (fst x) (snd x)" if "x \<in> set (ancestors level pos @ descendants N level pos)" for x
    using that valid_up [of N level pos] set_descendants [of "fst x" "snd x"]
    by (auto simp: ancestors_def valid_def)
  then show ?thesis
    unfolding b' using fold_same_frame [OF g, of _ bdy_set] same_frame_set geometry_set by blast
qed

lemma bdy_eqI:
  assumes f: "same_frame N b b'" and r: "bdy_rel N A b" "bdy_rel N A b'"
  shows "b = b'"
proof -
  have raw: "raw b k = raw b' k" for k
  proof (cases "\<exists>i j. valid N i j \<and> k = j + until N i")
    case True
    then obtain i j where v: "valid N i j" and k: "k = j + until N i" by blast
    then show ?thesis
      using bdy_relD(3) [OF r(1) v] bdy_relD(3) [OF r(2) v]
        is_set_raw [OF bdy_relD(1) [OF r(1)] v] is_set_raw [OF bdy_relD(1) [OF r(2)] v]
      by simp
  next
    case False
    with f show ?thesis unfolding same_frame_def by blast
  qed
  have "bmap b = bmap b'"
  proof (rule nth_equalityI)
    show "length (bmap b) = length (bmap b')"
      using f by (simp add: same_frame_def)
    fix l assume "l < length (bmap b)"
    show "bmap b ! l = bmap b' ! l"
    proof (rule bit_word_eqI)
      fix n assume "n < LENGTH(32)"
      then show "bit (bmap b ! l) n = bit (bmap b' ! l) n"
        using raw [of "32 * l + n"] by (simp add: raw_def)
    qed
  qed
  then show ?thesis
    using f by (simp add: same_frame_def)
qed

lemma bdy_free_alloc:
  assumes r: "bdy_rel N A b" and l: "level < BDY_NLEVELS" and a: "bdy_alloc b level = Some (b', pos)"
  shows "bdy_free b' level pos = b"
proof -
  note s = bdy_alloc_Some [OF r l a]
  have v: "valid N level pos" using s(1) l by (simp add: valid_def)
  have "bdy_rel N (A \<union> block N level pos - block N level pos) (bdy_free b' level pos)"
    by (rule bdy_free_rel [OF s(4) v])
  moreover have "A \<union> block N level pos - block N level pos = A"
    using s(2) by blast
  moreover have "same_frame N b (bdy_free b' level pos)"
    using bdy_alloc_same_frame [OF bdy_relD(1) [OF r] l a]
      bdy_free_same_frame [OF bdy_relD(1) [OF s(4)] v] same_frame_trans by blast
  ultimately show ?thesis
    using bdy_eqI [OF _ r] by (simp add: eq_commute [of b])
qed

section \<open>The interface of a block allocator\<close>

text \<open>
  What src/kernel/pm.c relies on. Its loop over the units of a request, and its rollback,
  are written once over the interface: \<open>alloc_many\<close> returns the state, the positions taken and
  whether all \<open>n\<close> units were found; \<open>free_all\<close> is the rollback, last unit first.
\<close>

fun alloc_many :: "('b \<Rightarrow> nat \<Rightarrow> ('b \<times> nat) option) \<Rightarrow> nat \<Rightarrow> nat \<Rightarrow> 'b \<Rightarrow> 'b \<times> nat list \<times> bool" where
  "alloc_many al l 0 b = (b, [], True)"
| "alloc_many al l (Suc n) b =
    (case al b l of
       None \<Rightarrow> (b, [], False)
     | Some (b', p) \<Rightarrow> (case alloc_many al l n b' of (b'', ps, ok) \<Rightarrow> (b'', p # ps, ok)))"

definition free_all :: "('b \<Rightarrow> nat \<Rightarrow> nat \<Rightarrow> 'b) \<Rightarrow> nat \<Rightarrow> nat list \<Rightarrow> 'b \<Rightarrow> 'b" where
  "free_all fr l ps b = fold (\<lambda>p b. fr b l p) (rev ps) b"

locale block_allocator =
  fixes alloc :: "'b \<Rightarrow> nat \<Rightarrow> ('b \<times> nat) option"
    and free :: "'b \<Rightarrow> nat \<Rightarrow> nat \<Rightarrow> 'b"
    and rel :: "nat set \<Rightarrow> 'b \<Rightarrow> bool"
    and levels :: nat
    and blk :: "nat \<Rightarrow> nat \<Rightarrow> nat set"
    and ex :: "nat \<Rightarrow> nat \<Rightarrow> bool"
  assumes alloc_Some: "rel A b \<Longrightarrow> l < levels \<Longrightarrow> alloc b l = Some (b', p) \<Longrightarrow>
      ex l p \<and> A \<inter> blk l p = {} \<and> rel (A \<union> blk l p) b'"
    and alloc_None: "rel A b \<Longrightarrow> l < levels \<Longrightarrow> alloc b l = None \<Longrightarrow> ex l p \<Longrightarrow> A \<inter> blk l p \<noteq> {}"
    and free_rel: "rel A b \<Longrightarrow> ex l p \<Longrightarrow> rel (A - blk l p) (free b l p)"
    and free_alloc: "rel A b \<Longrightarrow> l < levels \<Longrightarrow> alloc b l = Some (b', p) \<Longrightarrow> free b' l p = b"
    and blk_nonempty: "ex l p \<Longrightarrow> blk l p \<noteq> {}"
    and blk_disjoint: "p \<noteq> q \<Longrightarrow> blk l p \<inter> blk l q = {}"
    and ex_finite: "finite {p. ex l p}"
begin

lemma alloc_many_rel:
  assumes "rel A b" and "l < levels" and "alloc_many alloc l n b = (b', ps, ok)"
  shows "rel (A \<union> (\<Union>p\<in>set ps. blk l p)) b' \<and> distinct ps \<and> (ok \<longrightarrow> length ps = n)
    \<and> (\<forall>p\<in>set ps. ex l p \<and> A \<inter> blk l p = {})"
  using assms
proof (induction n arbitrary: A b b' ps ok)
  case 0
  then show ?case by simp
next
  case (Suc n)
  show ?case
  proof (cases "alloc b l")
    case None
    with Suc.prems show ?thesis by simp
  next
    case (Some bp)
    then obtain b1 p where al: "alloc b l = Some (b1, p)" by (cases bp) simp
    obtain ps' where rest: "alloc_many alloc l n b1 = (b', ps', ok)" and ps: "ps = p # ps'"
      using Suc.prems(3) al by (auto split: prod.splits)
    note s = alloc_Some [OF Suc.prems(1,2) al]
    note IH = Suc.IH [OF _ Suc.prems(2) rest, of "A \<union> blk l p"]
    have "p \<notin> set ps'"
      using IH s blk_nonempty [of l p] by auto
    then show ?thesis
      using IH s ps by (auto simp: Un_assoc Int_Un_distrib2)
  qed
qed

lemma alloc_many_free_all:
  assumes "rel A b" and "l < levels" and "alloc_many alloc l n b = (b', ps, ok)"
  shows "free_all free l ps b' = b"
  using assms
proof (induction n arbitrary: A b b' ps ok)
  case 0
  then show ?case by (simp add: free_all_def)
next
  case (Suc n)
  show ?case
  proof (cases "alloc b l")
    case None
    with Suc.prems show ?thesis by (simp add: free_all_def)
  next
    case (Some bp)
    then obtain b1 p where al: "alloc b l = Some (b1, p)" by (cases bp) simp
    obtain ps' where rest: "alloc_many alloc l n b1 = (b', ps', ok)" and ps: "ps = p # ps'"
      using Suc.prems(3) al by (auto split: prod.splits)
    have "free_all free l ps' b' = b1"
      using Suc.IH [OF _ Suc.prems(2) rest] alloc_Some [OF Suc.prems(1,2) al] by blast
    then show ?thesis
      using free_alloc [OF Suc.prems(1,2) al] ps by (simp add: free_all_def)
  qed
qed

lemma alloc_many_ok:
  assumes "rel A b" and "l < levels"
  shows "snd (snd (alloc_many alloc l n b)) \<longleftrightarrow> n \<le> card {p. ex l p \<and> A \<inter> blk l p = {}}"
  using assms
proof (induction n arbitrary: A b)
  case 0
  then show ?case by simp
next
  case (Suc n)
  let ?F = "\<lambda>A. {p. ex l p \<and> A \<inter> blk l p = {}}"
  show ?case
  proof (cases "alloc b l")
    case None
    then have "?F A = {}"
      using alloc_None [OF Suc.prems] by blast
    with None show ?thesis by (simp del: Collect_empty_eq)
  next
    case (Some bp)
    then obtain b1 p where al: "alloc b l = Some (b1, p)" by (cases bp) simp
    note s = alloc_Some [OF Suc.prems al]
    have "?F (A \<union> blk l p) = ?F A - {p}"
    proof -
      have "blk l p \<inter> blk l q = {} \<longleftrightarrow> q \<noteq> p" for q
        using blk_disjoint [of p q l] blk_nonempty [of l p] s by auto
      then show ?thesis
        by (simp only: Int_Un_distrib2 Un_empty) blast
    qed
    moreover have "p \<in> ?F A" "finite (?F A)"
      using s ex_finite [of l] by auto
    ultimately have "card (?F A) = Suc (card (?F (A \<union> blk l p)))"
      by (metis (no_types, lifting) card.remove)
    moreover have "snd (snd (alloc_many alloc l (Suc n) b)) = snd (snd (alloc_many alloc l n b1))"
      using al by (simp split: prod.splits)
    ultimately show ?thesis
      using Suc.IH [of "A \<union> blk l p" b1] s Suc.prems(2) by simp
  qed
qed

end

interpretation bdy: block_allocator bdy_alloc bdy_free "bdy_rel N" BDY_NLEVELS "block N" "valid N" for N
proof (unfold_locales, goal_cases)
  case (1 A b l b' p)
  then show ?case
    using bdy_alloc_Some [OF 1(1) 1(2) 1(3)] by (simp add: valid_def)
next
  case (2 A b l p)
  then show ?case
    using bdy_alloc_None [of N A b l] by (simp add: valid_def)
next
  case (3 A b l p)
  then show ?case by (rule bdy_free_rel)
next
  case (4 A b l b' p)
  then show ?case by (rule bdy_free_alloc)
next
  case (5 l p)
  then show ?case
    using hit_block_up [of l l p N p] by (auto simp: valid_def hit_def)
next
  case (6 p q l)
  then show ?case by (auto simp: block_def)
next
  case (7 l)
  have "{p. valid N l p} \<subseteq> {..<lv N l}" by (auto simp: valid_def)
  then show ?case by (rule finite_subset) simp
qed

section \<open>The bitmap at start\<close>

lemma bdy_alloc_next:
  assumes r: "bdy_rel N {..<k * 2 ^ l} b" and l: "l < BDY_NLEVELS" and fits: "Suc k * 2 ^ l \<le> N"
  shows "\<exists>b'. bdy_alloc b l = Some (b', k) \<and> bdy_rel N {..<Suc k * 2 ^ l} b'"
proof -
  have blk: "block N l q = {q * 2 ^ l..<Suc q * 2 ^ l}" if "q \<le> k" for q
  proof -
    have idx: "f div 2 ^ l = q \<longleftrightarrow> q * 2 ^ l \<le> f \<and> f < Suc q * 2 ^ l" for f
    proof -
      have "q \<le> f div 2 ^ l \<longleftrightarrow> q * 2 ^ l \<le> f" by (rule less_eq_div_iff_mult_less_eq) simp
      moreover have "f div 2 ^ l < Suc q \<longleftrightarrow> f < Suc q * 2 ^ l" by (rule div_less_iff_less_mult) simp
      ultimately show ?thesis by linarith
    qed
    have "Suc q * 2 ^ l \<le> Suc k * 2 ^ l" using that by (intro mult_le_mono1) simp
    then have "f < Suc q * 2 ^ l \<Longrightarrow> f < N" for f using fits by linarith
    then show ?thesis unfolding block_def idx by auto
  qed
  have disj: "{..<k * 2 ^ l} \<inter> block N l k = {}" using blk [of k] by auto
  have "k * 2 ^ l < N" using fits by (rule less_le_trans [rotated]) simp
  then have "k < lv N l" by (simp add: less_lv)
  with disj have "bdy_alloc b l \<noteq> None" using bdy_alloc_None [OF r l] by blast
  then obtain b' q where a: "bdy_alloc b l = Some (b', q)" by (metis option.exhaust prod.collapse)
  note s = bdy_alloc_Some [OF r l a]
  have "q = k"
  proof (rule ccontr)
    assume "q \<noteq> k"
    then consider "q < k" | "k < q" by linarith
    then show False
    proof cases
      case 1
      then have "Suc q * 2 ^ l \<le> k * 2 ^ l" by (intro mult_le_mono1) simp
      then have "q * 2 ^ l \<in> {..<k * 2 ^ l} \<inter> block N l q" using blk [of q] 1 by simp
      with s(2) show False by blast
    next
      case 2
      with s(3) disj show False by blast
    qed
  qed
  moreover have "{..<k * 2 ^ l} \<union> block N l k = {..<Suc k * 2 ^ l}" using blk [of k] by auto
  ultimately show ?thesis using a s(4) by auto
qed

lemma alloc_many_next:
  assumes "bdy_rel N {..<k * 2 ^ l} b" and "l < BDY_NLEVELS" and "(k + n) * 2 ^ l \<le> N"
  shows "\<exists>b'. alloc_many bdy_alloc l n b = (b', [k..<k + n], True) \<and> bdy_rel N {..<(k + n) * 2 ^ l} b'"
  using assms(1,3)
proof (induction n arbitrary: k b)
  case (Suc n)
  have "Suc k * 2 ^ l \<le> (k + Suc n) * 2 ^ l" by (intro mult_le_mono1) simp
  then obtain b1 where b1: "bdy_alloc b l = Some (b1, k)" "bdy_rel N {..<Suc k * 2 ^ l} b1"
    using bdy_alloc_next [OF Suc.prems(1) assms(2)] Suc.prems(2) by (meson le_trans)
  obtain b' where "alloc_many bdy_alloc l n b1 = (b', [Suc k..<Suc k + n], True)" "bdy_rel N {..<(Suc k + n) * 2 ^ l} b'"
    using Suc.IH [OF b1(2)] Suc.prems(2) by (auto simp del: mult_Suc)
  with b1(1) show ?case by (simp add: upt_conv_Cons)
qed simp

lemma until_mono_frames: "N \<le> M \<Longrightarrow> until N i \<le> until M i"
  unfolding until_def by (intro sum_mono) (simp add: lv_def div_le_mono)

lemma until_128mb: "until 32768 BDY_NLEVELS = 65528"
proof -
  have n: "BDY_NLEVELS = Suc (Suc (Suc (Suc (Suc (Suc (Suc (Suc (Suc (Suc (Suc (Suc (Suc 0))))))))))))"
    by (simp add: BDY_NLEVELS_def)
  have "bdy_size_loop BDY_NLEVELS 32768 0 = 65528" unfolding n bdy_size_loop.simps halve_up_eq by simp
  then show ?thesis using bdy_size_loop_eq [of BDY_NLEVELS 32768 0] by simp
qed

section \<open>Properties\<close>

text \<open>\<open>bdy_init\<close> on a map of at least \<open>bdy_map_size n\<close> bytes, whatever it held, gives a
  well-formed buddy state in which no frame is allocated, and \<open>bdy_map_size\<close> is the number of
  bits of all thirteen levels, rounded up to bytes.\<close>

theorem bdy_init_all_free:
  assumes "until N BDY_NLEVELS + 8 \<le> 2 ^ 32" and "unat (bdy_map_size N) \<le> 4 * length m"
  shows "bdy_rel N {} (bdy_init m N) \<and> unat (bdy_map_size N) = (until N BDY_NLEVELS + 7) div 8"
proof -
  have "until N BDY_NLEVELS \<le> 32 * length m"
    using assms(2) unat_bdy_map_size [OF assms(1)] by linarith
  then show ?thesis
    using bdy_init_rel assms(1) unat_bdy_map_size by blast
qed

lemma four_frames: "until 4 BDY_NLEVELS = 17" "unat (bdy_map_size 4) = 3"
proof -
  have "bdy_size_loop BDY_NLEVELS 4 0 = 17" by code_simp
  then show u: "until 4 BDY_NLEVELS = 17"
    using bdy_size_loop_eq [of BDY_NLEVELS 4 0] by simp
  show "unat (bdy_map_size 4) = 3"
    using unat_bdy_map_size [of 4] by (simp add: u)
qed

theorem bdy_init_all_free_witness: "bdy_rel 4 {} (bdy_init [0xdeadbeef] 4)"
  using bdy_init_all_free [of 4 "[0xdeadbeef]"] by (simp add: four_frames)

text \<open>C3: \<open>bdy_alloc\<close> is first fit: it fails exactly when every block of the level holds an
  allocated frame; otherwise it returns the lowest block with no allocated frame, and afterwards
  exactly the frames of that block are allocated in addition, at every level of the bitmap.\<close>

theorem bdy_alloc_first_fit:
  assumes "bdy_rel N A b" and "level < BDY_NLEVELS"
  shows "case bdy_alloc b level of
      None \<Rightarrow> \<forall>q<lv N level. A \<inter> block N level q \<noteq> {}
    | Some (b', pos) \<Rightarrow> pos < lv N level \<and> A \<inter> block N level pos = {}
        \<and> (\<forall>q<pos. A \<inter> block N level q \<noteq> {}) \<and> bdy_rel N (A \<union> block N level pos) b'"
  using bdy_alloc_None [OF assms] bdy_alloc_Some [OF assms] by (auto split: option.splits)

theorem bdy_alloc_first_fit_witness:
  "case bdy_alloc (bdy_init [0] 4) 1 of None \<Rightarrow> False
    | Some (b', pos) \<Rightarrow> bdy_rel 4 (block 4 1 pos) b'"
proof -
  have r: "bdy_rel 4 {} (bdy_init [0] 4)"
    by (rule bdy_init_rel) (simp_all add: four_frames)
  have "(0 :: nat) < lv 4 1" by (simp add: lv_def)
  then show ?thesis
    using bdy_alloc_first_fit [OF r, of 1] by (auto simp: BDY_NLEVELS_def split: option.splits)
qed

text \<open>C4: \<open>bdy_free\<close> of any existing block, at any level, releases exactly the frames of that block:
  every bit of every level is afterwards set exactly when a frame of its block that was allocated
  before and is not in the released block remains.\<close>

theorem bdy_free_releases_block:
  assumes "bdy_rel N A b" and "level < BDY_NLEVELS" and "pos < lv N level"
  shows "bdy_rel N (A - block N level pos) (bdy_free b level pos)"
  using bdy_free_rel [OF assms(1)] assms(2,3) by (simp add: valid_def)

theorem bdy_free_releases_block_witness: "bdy_rel 4 {} (bdy_free (bdy_init [0] 4) 2 0)"
proof -
  have "bdy_rel 4 {} (bdy_init [0] 4)"
    by (rule bdy_init_rel) (simp_all add: four_frames)
  from bdy_free_releases_block [OF this, of 2 0] show ?thesis
    by (simp add: BDY_NLEVELS_def lv_def)
qed

text \<open>Releasing the block that \<open>bdy_alloc\<close> just returned restores the whole structure, the
  level tables and every limb of the map, to what it was.\<close>

theorem bdy_alloc_free_roundtrip:
  assumes "bdy_rel N A b" and "level < BDY_NLEVELS" and "bdy_alloc b level = Some (b', pos)"
  shows "bdy_free b' level pos = b"
  using assms by (rule bdy_free_alloc)

theorem bdy_alloc_free_roundtrip_witness:
  "\<exists>b' pos. bdy_alloc (bdy_init [0] 4) 1 = Some (b', pos) \<and> bdy_free b' 1 pos = bdy_init [0] 4"
proof -
  have r: "bdy_rel 4 {} (bdy_init [0] 4)"
    by (rule bdy_init_rel) (simp_all add: four_frames)
  have l: "1 < BDY_NLEVELS" by (simp add: BDY_NLEVELS_def)
  have "(0 :: nat) < lv 4 1" by (simp add: lv_def)
  then have "bdy_alloc (bdy_init [0] 4) 1 \<noteq> None"
    using bdy_alloc_None [OF r l] by blast
  then obtain b' pos where a: "bdy_alloc (bdy_init [0] 4) 1 = Some (b', pos)"
    by (metis option.exhaust prod.collapse)
  with bdy_alloc_free_roundtrip [OF r l a] show ?thesis by blast
qed

text \<open>When the number of frames is a multiple of the block size, an allocated block lies wholly
  below the end of memory. When it is not, \<open>bdy_alloc\<close> can return a block that reaches past it:
  with three frames, the second allocation of two frames returns frames 2 and 3.\<close>

theorem bdy_alloc_in_memory:
  assumes "bdy_rel N A b" and "level < BDY_NLEVELS" and "bdy_alloc b level = Some (b', pos)"
    and "2 ^ level dvd N"
  shows "pos * 2 ^ level + 2 ^ level \<le> N
    \<and> map_option snd (Option.bind (bdy_alloc (bdy_init [0] 3) 1) (\<lambda>(b, _). bdy_alloc b 1)) = Some 1"
proof -
  have "pos * 2 ^ level < N"
    using bdy_alloc_Some(1) [OF assms(1-3)] by (simp add: less_lv)
  with assms(4) have "(pos + 1) * 2 ^ level \<le> N"
    by (metis dvdE mult.commute Suc_eq_plus1 Suc_leI mult_le_mono1 nat_mult_less_cancel_disj)
  moreover have "map_option snd (Option.bind (bdy_alloc (bdy_init [0] 3) 1) (\<lambda>(b, _). bdy_alloc b 1)) = Some 1"
    by code_simp
  ultimately show ?thesis by simp
qed

theorem bdy_alloc_in_memory_witness:
  "\<exists>b' pos. bdy_alloc (bdy_init [0] 4) 1 = Some (b', pos) \<and> pos * 2 + 2 \<le> 4"
proof -
  have r: "bdy_rel 4 {} (bdy_init [0] 4)"
    by (rule bdy_init_rel) (simp_all add: four_frames)
  have l: "1 < BDY_NLEVELS" by (simp add: BDY_NLEVELS_def)
  have "(0 :: nat) < lv 4 1" by (simp add: lv_def)
  then have "bdy_alloc (bdy_init [0] 4) 1 \<noteq> None"
    using bdy_alloc_None [OF r l] by blast
  then obtain b' pos where a: "bdy_alloc (bdy_init [0] 4) 1 = Some (b', pos)"
    by (metis option.exhaust prod.collapse)
  with bdy_alloc_in_memory [OF r l a] show ?thesis by auto
qed

end
