(* ===== verification/Pm.thy ===== *)
theory Pm
  imports Buddy
begin

text \<open>
  The page-frame manager of src/kernel/pm.c: allocation and release of naturally aligned
  runs of physical page frames on top of the buddy bitmap, with one \<open>struct page\<close> per
  frame. The mutex \<open>ram_map_lock\<close> is taken on entry and released on every return of the
  three operations and never held across a call that can block, so the sequential model
  leaves it out.
\<close>

section \<open>Data\<close>

definition PAGE_SIZE_SZ :: nat where
  "PAGE_SIZE_SZ = 12"

text \<open>\<open>enum pm_alloc_units\<close>: the unit \<open>u\<close> is \<open>2 ^ u\<close> pages.\<close>

type_synonym pm_unit = nat

definition PM_UNIT_PAGE :: pm_unit where
  "PM_UNIT_PAGE = 0"

definition PM_UNIT_LARGE_PAGE :: pm_unit where
  "PM_UNIT_LARGE_PAGE = 4"

definition PM_UNIT_SECTION :: pm_unit where
  "PM_UNIT_SECTION = 8"

definition PM_UNIT_2MB :: pm_unit where
  "PM_UNIT_2MB = 9"

definition PM_UNIT_SUPER_SECTION :: pm_unit where
  "PM_UNIT_SUPER_SECTION = 12"

definition PM_UNIT_MAX :: nat where
  "PM_UNIT_MAX = 13"

lemmas pm_consts = PAGE_SIZE_SZ_def PM_UNIT_PAGE_def PM_UNIT_LARGE_PAGE_def PM_UNIT_SECTION_def
  PM_UNIT_2MB_def PM_UNIT_SUPER_SECTION_def PM_UNIT_MAX_def BDY_NLEVELS_def

datatype pm_usage = PGF_USE_NORMAL | PGF_USE_SLUB

definition usage_val :: "pm_usage \<Rightarrow> u32" where
  "usage_val use = (case use of PGF_USE_NORMAL \<Rightarrow> 0 | PGF_USE_SLUB \<Rightarrow> 1)"

definition PGF_UNIT :: field where
  [fields]: "PGF_UNIT = (0, 4)"

definition PGF_USE :: field where
  [fields]: "PGF_USE = (4, 1)"

definition PGF_SLUB_LSIZE :: field where
  [fields]: "PGF_SLUB_LSIZE = (5, 5)"

text \<open>\<open>u0\<close> is the union of the reference count and the slab pointer.\<close>

record page =
  pflags :: u32
  u0 :: u32

text \<open>
  \<open>ram_map\<close> is the array at \<open>ram_map_start\<close>; \<open>pm_init\<close> maps a whole section for it, so
  entries past the last frame are memory too, and the array is a total map here.
\<close>

record pm_state =
  bdy_ram :: bdy
  ram_map :: "nat \<Rightarrow> page"
  ramsz :: u32

section \<open>Allocation\<close>

text \<open>
  \<open>_pm_ram_alloc\<close>. The result is the state and the array of addresses, or \<open>None\<close> for the
  return value -1. With \<open>n = 0\<close> the initial \<open>ret = -1\<close> survives the loop.
\<close>

definition pm_pa :: "pm_unit \<Rightarrow> nat \<Rightarrow> addr" where
  "pm_pa unit pos = push_bit PAGE_SIZE_SZ (push_bit unit (of_nat pos))"

definition pm_ram_alloc0 :: "pm_unit \<Rightarrow> nat \<Rightarrow> pm_state \<Rightarrow> (pm_state \<times> addr list option) res" where
  "pm_ram_alloc0 unit n pm =
    assert_that ''pm.c:146'' (unit < PM_UNIT_MAX)
      (case alloc_many bdy_alloc unit n (bdy_ram pm) of (b, ps, ok) \<Rightarrow>
         if ok \<and> n \<noteq> 0
         then Inr (pm\<lparr>bdy_ram := b\<rparr>, Some (map (pm_pa unit) ps))
         else Inr (pm\<lparr>bdy_ram := free_all bdy_free unit ps b\<rparr>, None))"

definition new_page :: "pm_unit \<Rightarrow> pm_usage \<Rightarrow> page \<Rightarrow> page" where
  "new_page unit use pg =
    (let pg = pg\<lparr>pflags := 0, u0 := 0\<rparr>;
         pg = pg\<lparr>pflags := pflags pg OR bits_set PGF_UNIT (of_nat unit)\<rparr>;
         pg = pg\<lparr>pflags := pflags pg OR bits_set PGF_USE (usage_val use)\<rparr>
     in if use = PGF_USE_NORMAL then pg\<lparr>u0 := 1\<rparr> else pg)"

definition frame_of :: "addr \<Rightarrow> nat" where
  "frame_of pa = unat (drop_bit PAGE_SIZE_SZ pa)"

definition mark_pages :: "pm_unit \<Rightarrow> pm_usage \<Rightarrow> addr \<Rightarrow> (nat \<Rightarrow> page) \<Rightarrow> nat \<Rightarrow> page" where
  "mark_pages unit use pa m =
    fold (\<lambda>j m. m(frame_of pa + j := new_page unit use (m (frame_of pa + j)))) [0..<2 ^ unit] m"

definition pm_ram_alloc ::
    "pm_unit \<Rightarrow> pm_usage \<Rightarrow> nat \<Rightarrow> pm_state \<Rightarrow> (pm_state \<times> addr list option) res" where
  "pm_ram_alloc unit use n pm =
    bind_res (pm_ram_alloc0 unit n pm) (\<lambda>(pm, pas).
      case pas of
        None \<Rightarrow> Inr (pm, None)
      | Some pas \<Rightarrow> Inr (pm\<lparr>ram_map := fold (mark_pages unit use) pas (ram_map pm)\<rparr>, Some pas))"

section \<open>Release\<close>

text \<open>The assertions on one \<open>struct page\<close>.\<close>

definition check_page :: "pm_unit \<Rightarrow> pm_usage \<Rightarrow> nat \<Rightarrow> pm_state \<Rightarrow> pm_state res" where
  "check_page unit use f pm =
    (let pg = ram_map pm f
     in assert_that ''pm.c:225'' (bits_get (pflags pg) PGF_UNIT = of_nat unit)
       (assert_that ''pm.c:226'' (bits_get (pflags pg) PGF_USE = usage_val use)
         (if use = PGF_USE_NORMAL then assert_that ''pm.c:228'' (u0 pg = 1) (Inr pm) else Inr pm)))"

definition pm_free_one :: "pm_unit \<Rightarrow> pm_usage \<Rightarrow> addr \<Rightarrow> pm_state \<Rightarrow> pm_state res" where
  "pm_free_one unit use pa pm =
    (let p = drop_bit PAGE_SIZE_SZ pa; mask = 2 ^ unit - 1
     in assert_that ''pm.c:218'' (p AND mask = 0)
       (bind_res (for_res (unat p) (2 ^ unit) (check_page unit use) pm) (\<lambda>pm.
         let pm = pm\<lparr>bdy_ram := bdy_free (bdy_ram pm) unit (unat (drop_bit unit p))\<rparr>
         in Inr (pm\<lparr>ram_map := fold (\<lambda>j m. m(unat p + j := (m (unat p + j))\<lparr>u0 := 0\<rparr>))
              [0..<2 ^ unit] (ram_map pm)\<rparr>))))"

text \<open>\<open>pm_ram_free\<close> returns 0 whenever it returns.\<close>

definition pm_ram_free :: "pm_unit \<Rightarrow> pm_usage \<Rightarrow> addr list \<Rightarrow> pm_state \<Rightarrow> pm_state res" where
  "pm_ram_free unit use pas pm =
    assert_that ''pm.c:205'' (unit < PM_UNIT_MAX) (for_each_res (pm_free_one unit use) pas pm)"

text \<open>\<open>pm_ram_get_page\<close>: the pointer into \<open>ram_map\<close> is the index.\<close>

definition pm_ram_get_page :: "addr \<Rightarrow> pm_state \<Rightarrow> nat res" where
  "pm_ram_get_page pa pm = assert_that ''pm.c:249'' (pa < ramsz pm) (Inr (frame_of pa))"

section \<open>Addresses and frames\<close>

lemma frame_of_pm_pa:
  assumes "pos * 2 ^ unit * 4096 < 2 ^ 32"
  shows "unat (pm_pa unit pos) = pos * 2 ^ unit * 4096" and "frame_of (pm_pa unit pos) = pos * 2 ^ unit"
proof -
  have "pm_pa unit pos = of_nat (pos * 2 ^ unit * 4096)"
    by (simp add: pm_pa_def PAGE_SIZE_SZ_def push_bit_eq_mult)
  then show u: "unat (pm_pa unit pos) = pos * 2 ^ unit * 4096"
    using assms by (simp only: unat_of_nat len_of_numeral_defs) simp
  show "frame_of (pm_pa unit pos) = pos * 2 ^ unit"
    using u by (simp add: frame_of_def PAGE_SIZE_SZ_def drop_bit_eq_div unat_div_exp_u32 [of _ 12, simplified])
qed

lemma frame_of_unat: "frame_of pa = unat pa div 4096"
  by (simp add: frame_of_def PAGE_SIZE_SZ_def drop_bit_eq_div unat_div_exp_u32 [of _ 12, simplified])

definition frames :: "pm_unit \<Rightarrow> addr \<Rightarrow> nat set" where
  "frames unit pa = {frame_of pa ..< frame_of pa + 2 ^ unit}"

lemma block_frames:
  assumes "pos * 2 ^ unit * 4096 < 2 ^ 32"
  shows "block N unit pos = frames unit (pm_pa unit pos) \<inter> {..<N}"
proof -
  have "f div 2 ^ unit = pos \<longleftrightarrow> pos * 2 ^ unit \<le> f \<and> f < pos * 2 ^ unit + 2 ^ unit" for f
  proof -
    have "pos \<le> f div 2 ^ unit \<longleftrightarrow> pos * 2 ^ unit \<le> f"
      by (rule less_eq_div_iff_mult_less_eq) simp
    moreover have "f div 2 ^ unit < Suc pos \<longleftrightarrow> f < Suc pos * 2 ^ unit"
      by (rule div_less_iff_less_mult) simp
    ultimately show ?thesis by auto
  qed
  note idx = this
  show ?thesis
    unfolding block_def frames_def frame_of_pm_pa(2) [OF assms] set_eq_iff mem_Collect_eq Int_iff
      atLeastLessThan_iff lessThan_iff idx
    by blast
qed

lemma new_page_eq:
  "new_page unit use pg =
    \<lparr>pflags = bits_set PGF_UNIT (of_nat unit) OR bits_set PGF_USE (usage_val use),
     u0 = (if use = PGF_USE_NORMAL then 1 else 0)\<rparr>"
  by (simp add: new_page_def Let_def)

lemma fold_fun_upd:
  "fold (\<lambda>j m. m(t + j := F (m (t + j)))) [0..<n] m f
    = (if t \<le> f \<and> f < t + n then F (m f) else m (f :: nat))"
  by (induction n) auto

lemma mark_pages_eq:
  "mark_pages unit use pa m f = (if f \<in> frames unit pa then new_page unit use (m f) else m f)"
  by (simp add: mark_pages_def fold_fun_upd frames_def)

lemma fold_mark_pages:
  "fold (mark_pages unit use) pas m f
    = (if \<exists>pa\<in>set pas. f \<in> frames unit pa then new_page unit use (m f) else m f)"
  by (induction pas arbitrary: m) (auto simp: mark_pages_eq new_page_eq)

section \<open>Allocation on a well-formed bitmap\<close>

lemma valid_fits:
  assumes "valid N unit pos" and "N \<le> 2 ^ 20"
  shows "pos * 2 ^ unit * 4096 < 2 ^ 32"
proof -
  have "pos * 2 ^ unit < 2 ^ 20"
    using assms by (simp add: valid_def less_lv)
  then have "pos * 2 ^ unit * 4096 < 2 ^ 20 * 4096"
    by (simp only: mult_less_mono1)
  then show ?thesis by simp
qed

lemma pm_pa_aligned:
  assumes "valid N unit pos" and "N \<le> 2 ^ 20"
  shows "unat (pm_pa unit pos) mod (2 ^ unit * 4096) = 0" and "frame_of (pm_pa unit pos) mod 2 ^ unit = 0"
  by (simp_all add: frame_of_pm_pa [OF valid_fits [OF assms]] mult.assoc)

lemma inj_pm_pa:
  assumes "valid N unit p" and "valid N unit q" and "N \<le> 2 ^ 20" and "pm_pa unit p = pm_pa unit q"
  shows "p = q"
proof -
  have "p * 2 ^ unit = q * 2 ^ unit"
    unfolding frame_of_pm_pa(2) [OF valid_fits [OF assms(1,3)], symmetric]
      frame_of_pm_pa(2) [OF valid_fits [OF assms(2,3)], symmetric] assms(4) ..
  then show ?thesis by (simp only: mult_cancel2 power_eq_0_iff) simp
qed

lemma frames_disjoint_aligned:
  assumes "frame_of a mod 2 ^ unit = 0" and "frame_of b mod 2 ^ unit = 0" and "frame_of a \<noteq> frame_of b"
  shows "frames unit a \<inter> frames unit b = {}"
proof -
  have *: "f div 2 ^ unit = frame_of c div 2 ^ unit" if fc: "f \<in> frames unit c" "frame_of c mod 2 ^ unit = 0" for f c
  proof -
    obtain q where q: "frame_of c = 2 ^ unit * q"
      using fc(2) by (metis mod_0_imp_dvd dvd_def)
    have "f div 2 ^ unit = q"
      by (rule div_nat_eqI) (use fc(1) q in \<open>auto simp: frames_def algebra_simps\<close>)
    then show ?thesis using q by simp
  qed
  have "frame_of c = frame_of c div 2 ^ unit * 2 ^ unit" if "frame_of c mod 2 ^ unit = 0" for c
    using that by auto
  then show ?thesis
    using * assms by (metis disjoint_iff)
qed

text \<open>The units of a request that are entirely free.\<close>

definition free_units :: "nat \<Rightarrow> pm_unit \<Rightarrow> nat set \<Rightarrow> nat set" where
  "free_units N unit A = {p. valid N unit p \<and> A \<inter> block N unit p = {}}"

definition page_ok :: "pm_unit \<Rightarrow> pm_usage \<Rightarrow> page \<Rightarrow> bool" where
  "page_ok unit use pg \<longleftrightarrow> bits_get (pflags pg) PGF_UNIT = of_nat unit
    \<and> bits_get (pflags pg) PGF_USE = usage_val use \<and> (use = PGF_USE_NORMAL \<longrightarrow> u0 pg = 1)"

lemma page_ok_new_page: "unit < PM_UNIT_MAX \<Longrightarrow> page_ok unit use (new_page unit use pg)"
proof -
  assume "unit < PM_UNIT_MAX"
  then have "take_bit 4 unit = unit"
    by (simp add: PM_UNIT_MAX_def take_bit_nat_eq_self)
  then have "take_bit 4 (of_nat unit :: u32) = of_nat unit"
    by (simp only: take_bit_of_nat)
  then have "(of_nat unit :: u32) AND mask 4 = of_nat unit"
    by (simp only: take_bit_eq_mask)
  moreover have "usage_val use AND mask 1 = usage_val use"
    by (cases use) (simp_all add: usage_val_def)
  ultimately show ?thesis
    by (simp add: page_ok_def new_page_eq field_read fields)
qed

lemma pm_ram_alloc_spec:
  assumes r: "bdy_rel N A (bdy_ram pm)" and u: "unit < PM_UNIT_MAX" and N: "N \<le> 2 ^ 20"
  shows "\<exists>ps. (\<forall>p\<in>set ps. p \<in> free_units N unit A) \<and> distinct ps \<and>
    (if n \<noteq> 0 \<and> n \<le> card (free_units N unit A)
     then length ps = n \<and> (\<exists>b. bdy_rel N (A \<union> (\<Union>p\<in>set ps. block N unit p)) b
       \<and> pm_ram_alloc unit use n pm = Inr (pm\<lparr>bdy_ram := b,
            ram_map := fold (mark_pages unit use) (map (pm_pa unit) ps) (ram_map pm)\<rparr>, Some (map (pm_pa unit) ps)))
     else pm_ram_alloc unit use n pm = Inr (pm, None))"
proof -
  have u': "unit < BDY_NLEVELS"
    using u by (simp add: PM_UNIT_MAX_def BDY_NLEVELS_def)
  obtain b ps ok where al: "alloc_many bdy_alloc unit n (bdy_ram pm) = (b, ps, ok)"
    by (metis prod_cases3)
  have ok: "ok \<longleftrightarrow> n \<le> card (free_units N unit A)"
    using bdy.alloc_many_ok [OF r u', of n] al by (simp add: free_units_def)
  note R = bdy.alloc_many_rel [OF r u' al]
  have undo: "free_all bdy_free unit ps b = bdy_ram pm"
    by (rule bdy.alloc_many_free_all [OF r u' al])
  have "(\<forall>p\<in>set ps. p \<in> free_units N unit A) \<and> distinct ps"
    using R by (auto simp: free_units_def)
  moreover have "pm_ram_alloc unit use n pm = Inr (pm\<lparr>bdy_ram := b,
      ram_map := fold (mark_pages unit use) (map (pm_pa unit) ps) (ram_map pm)\<rparr>, Some (map (pm_pa unit) ps))"
    if "ok" and "n \<noteq> 0"
    using u that by (simp add: pm_ram_alloc_def pm_ram_alloc0_def al)
  moreover have "pm_ram_alloc unit use n pm = Inr (pm, None)" if "\<not> (ok \<and> n \<noteq> 0)"
    using u that by (auto simp: pm_ram_alloc_def pm_ram_alloc0_def al undo)
  ultimately show ?thesis
    using R ok by (intro exI [of _ ps]) auto
qed

lemma free_units_frames:
  assumes "bdy_rel N A b" and "N \<le> 2 ^ 20" and "p \<in> free_units N unit A"
  shows "frames unit (pm_pa unit p) \<inter> A = {}" and "block N unit p = frames unit (pm_pa unit p) \<inter> {..<N}"
proof -
  have v: "valid N unit p" using assms(3) by (simp add: free_units_def)
  show b: "block N unit p = frames unit (pm_pa unit p) \<inter> {..<N}"
    by (rule block_frames [OF valid_fits [OF v assms(2)]])
  show "frames unit (pm_pa unit p) \<inter> A = {}"
    using assms(3) b bdy_relD(2) [OF assms(1)] by (auto simp: free_units_def)
qed

section \<open>Release of described pages\<close>

lemma page_check_sites:
  "check_page unit use f pm = (if page_ok unit use (ram_map pm f) then Inr pm
    else Inl (Assert (if bits_get (pflags (ram_map pm f)) PGF_UNIT \<noteq> of_nat unit then ''pm.c:225''
      else if bits_get (pflags (ram_map pm f)) PGF_USE \<noteq> usage_val use then ''pm.c:226'' else ''pm.c:228'')))"
  by (auto simp: check_page_def page_ok_def Let_def assert_that_def)

lemma aligned_frame: "drop_bit PAGE_SIZE_SZ pa AND (2 ^ unit - 1) = 0 \<longleftrightarrow> frame_of pa mod 2 ^ unit = 0"
proof -
  have "drop_bit PAGE_SIZE_SZ pa AND (2 ^ unit - 1) = take_bit unit (drop_bit PAGE_SIZE_SZ pa)"
    by (simp add: take_bit_eq_mask mask_eq_exp_minus_1)
  then show ?thesis
    by (metis frame_of_def take_bit_eq_mod unat_eq_zero unat_0 unsigned_take_bit_eq)
qed

definition released :: "pm_unit \<Rightarrow> addr \<Rightarrow> pm_state \<Rightarrow> pm_state" where
  "released unit pa pm = pm\<lparr>bdy_ram := bdy_free (bdy_ram pm) unit (frame_of pa div 2 ^ unit),
    ram_map := (\<lambda>f. if f \<in> frames unit pa then (ram_map pm f)\<lparr>u0 := 0\<rparr> else ram_map pm f)\<rparr>"

lemma pm_free_one_eq:
  assumes "frame_of pa mod 2 ^ unit = 0" and "\<forall>f\<in>frames unit pa. page_ok unit use (ram_map pm f)"
  shows "pm_free_one unit use pa pm = Inr (released unit pa pm)"
proof -
  have "for_res (frame_of pa) (2 ^ unit) (check_page unit use) pm = Inr pm"
    by (rule for_res_check(1) [OF page_check_sites]) (use assms(2) in \<open>simp add: frames_def\<close>)
  moreover have "unat (drop_bit unit (drop_bit PAGE_SIZE_SZ pa)) = frame_of pa div 2 ^ unit"
    by (simp only: frame_of_def drop_bit_eq_div unat_div_exp_u32)
  moreover have "fold (\<lambda>j m. m(frame_of pa + j := (m (frame_of pa + j))\<lparr>u0 := 0\<rparr>)) [0..<2 ^ unit] (ram_map pm)
      = (\<lambda>f. if f \<in> frames unit pa then (ram_map pm f)\<lparr>u0 := 0\<rparr> else ram_map pm f)"
    by (rule ext) (simp add: fold_fun_upd [where F = "\<lambda>p. p\<lparr>u0 := 0\<rparr>"] frames_def)
  ultimately show ?thesis
    using assms(1) by (simp add: pm_free_one_def Let_def released_def aligned_frame flip: frame_of_def)
qed

lemma pm_free_one_bad:
  assumes "frame_of pa mod 2 ^ unit = 0" and "\<exists>f\<in>frames unit pa. \<not> page_ok unit use (ram_map pm f)"
  shows "\<exists>f\<in>frames unit pa. \<not> page_ok unit use (ram_map pm f) \<and>
    (\<forall>g\<in>frames unit pa. g < f \<longrightarrow> page_ok unit use (ram_map pm g)) \<and>
    (\<exists>e. check_page unit use f pm = Inl e \<and> pm_free_one unit use pa pm = Inl e)"
proof -
  have "\<not> (\<forall>j. frame_of pa \<le> j \<and> j < frame_of pa + 2 ^ unit \<longrightarrow> page_ok unit use (ram_map pm j))"
    using assms(2) by (auto simp: frames_def)
  note bad = this
  have step: "check_page unit use j pm = (if page_ok unit use (ram_map pm j) then Inr pm
    else Inl ((\<lambda>j. case check_page unit use j pm of Inl e \<Rightarrow> e) j))" for j
    by (simp add: page_check_sites)
  note for_res_check(2) [of "frame_of pa" "2 ^ unit" "check_page unit use" pm
    "\<lambda>j. page_ok unit use (ram_map pm j)", OF step bad]
  then
  obtain f e where f: "frame_of pa \<le> f" "f < frame_of pa + 2 ^ unit" "\<not> page_ok unit use (ram_map pm f)"
      "\<forall>j'. frame_of pa \<le> j' \<and> j' < f \<longrightarrow> page_ok unit use (ram_map pm j')"
      "for_res (frame_of pa) (2 ^ unit) (check_page unit use) pm = Inl e" "check_page unit use f pm = Inl e"
    using step by (metis (no_types, lifting))
  then have "pm_free_one unit use pa pm = Inl e"
    using assms(1) by (simp add: pm_free_one_def Let_def aligned_frame flip: frame_of_def)
  with f show ?thesis
    by (intro bexI [of _ f]) (auto simp: frames_def)
qed

lemma block_of_aligned:
  assumes "valid N unit (frame_of pa div 2 ^ unit)" and "frame_of pa mod 2 ^ unit = 0" and "N \<le> 2 ^ 20"
  shows "block N unit (frame_of pa div 2 ^ unit) = frames unit pa \<inter> {..<N}"
proof -
  have "frame_of pa div 2 ^ unit * 2 ^ unit = frame_of pa"
    using assms(2) by auto
  then have "frame_of (pm_pa unit (frame_of pa div 2 ^ unit)) = frame_of pa"
    using frame_of_pm_pa(2) [OF valid_fits [OF assms(1,3)]] by simp
  then show ?thesis
    using block_frames [OF valid_fits [OF assms(1,3)]] by (simp add: frames_def)
qed

lemma released_rel:
  assumes "bdy_rel N A (bdy_ram pm)" and "frame_of pa mod 2 ^ unit = 0" and "frame_of pa < N"
    and "unit < PM_UNIT_MAX" and "N \<le> 2 ^ 20"
  shows "bdy_rel N (A - frames unit pa) (bdy_ram (released unit pa pm))"
proof -
  have v: "valid N unit (frame_of pa div 2 ^ unit)"
    using assms(3,4) by (simp add: valid_def frame_less_lv PM_UNIT_MAX_def BDY_NLEVELS_def)
  have "A - block N unit (frame_of pa div 2 ^ unit) = A - frames unit pa"
    using block_of_aligned [OF v assms(2,5)] bdy_relD(2) [OF assms(1)] by auto
  then show ?thesis
    using bdy_free_rel [OF assms(1) v] by (simp add: released_def)
qed

text \<open>The pages of several disjoint units.\<close>

lemma pm_free_units:
  assumes "bdy_rel N A (bdy_ram pm)" and "unit < PM_UNIT_MAX" and "N \<le> 2 ^ 20" and "distinct pas"
    and "\<forall>pa\<in>set pas. frame_of pa mod 2 ^ unit = 0 \<and> frame_of pa < N \<and>
      (\<forall>f\<in>frames unit pa. page_ok unit use (ram_map pm f))"
    and "\<forall>a\<in>set pas. \<forall>b\<in>set pas. a \<noteq> b \<longrightarrow> frames unit a \<inter> frames unit b = {}"
  shows "\<exists>pm'. for_each_res (pm_free_one unit use) pas pm = Inr pm' \<and>
    bdy_rel N (A - (\<Union>pa\<in>set pas. frames unit pa)) (bdy_ram pm') \<and> ramsz pm' = ramsz pm \<and>
    (\<forall>f. ram_map pm' f = (if \<exists>pa\<in>set pas. f \<in> frames unit pa then (ram_map pm f)\<lparr>u0 := 0\<rparr> else ram_map pm f))"
  using assms
proof (induction pas arbitrary: A pm)
  case (Cons pa pas)
  let ?pm = "released unit pa pm"
  have one: "pm_free_one unit use pa pm = Inr ?pm"
    by (rule pm_free_one_eq) (use Cons.prems(5) in auto)
  have r: "bdy_rel N (A - frames unit pa) (bdy_ram ?pm)"
    by (rule released_rel) (use Cons.prems in auto)
  have dis: "f \<notin> frames unit pa" if "b \<in> set pas" "f \<in> frames unit b" for b f
    using Cons.prems(4,6) that by (auto simp: disjoint_iff)
  have map: "ram_map ?pm f = (if f \<in> frames unit pa then (ram_map pm f)\<lparr>u0 := 0\<rparr> else ram_map pm f)" for f
    by (simp add: released_def)
  have "\<exists>pm'. for_each_res (pm_free_one unit use) pas ?pm = Inr pm' \<and>
    bdy_rel N (A - frames unit pa - (\<Union>pa\<in>set pas. frames unit pa)) (bdy_ram pm') \<and> ramsz pm' = ramsz ?pm \<and>
    (\<forall>f. ram_map pm' f = (if \<exists>pa\<in>set pas. f \<in> frames unit pa then (ram_map ?pm f)\<lparr>u0 := 0\<rparr> else ram_map ?pm f))"
  proof (rule Cons.IH [OF r Cons.prems(2,3)])
    show "distinct pas" using Cons.prems(4) by simp
    show "\<forall>pa\<in>set pas. frame_of pa mod 2 ^ unit = 0 \<and> frame_of pa < N \<and>
      (\<forall>f\<in>frames unit pa. page_ok unit use (ram_map ?pm f))"
      using Cons.prems(5) dis by (auto simp: map)
    show "\<forall>a\<in>set pas. \<forall>b\<in>set pas. a \<noteq> b \<longrightarrow> frames unit a \<inter> frames unit b = {}"
      using Cons.prems(6) by auto
  qed
  then obtain pm' where pm': "for_each_res (pm_free_one unit use) pas ?pm = Inr pm'"
    "bdy_rel N (A - frames unit pa - (\<Union>pa\<in>set pas. frames unit pa)) (bdy_ram pm')" "ramsz pm' = ramsz ?pm"
    "\<forall>f. ram_map pm' f = (if \<exists>pa\<in>set pas. f \<in> frames unit pa then (ram_map ?pm f)\<lparr>u0 := 0\<rparr> else ram_map ?pm f)"
    by blast
  have "A - frames unit pa - (\<Union>pa\<in>set pas. frames unit pa) = A - (\<Union>pa\<in>set (pa # pas). frames unit pa)"
    by auto
  with pm' one show ?case
    by (intro exI [of _ pm']) (auto simp: map released_def)
qed auto

section \<open>Properties\<close>

definition pm4 :: pm_state where
  "pm4 = \<lparr>bdy_ram = bdy_init [0] 4, ram_map = (\<lambda>_. \<lparr>pflags = 0, u0 = 0\<rparr>), ramsz = 0x4000\<rparr>"

lemma pm4_rel: "bdy_rel 4 {} (bdy_ram pm4)"
  unfolding pm4_def by simp (rule bdy_init_rel, simp_all add: four_frames)

lemma pm4_free_units: "card (free_units 4 (Suc 0) {}) = 2"
proof -
  have "p < lv 4 1 \<longleftrightarrow> p = 0 \<or> p = 1" for p by (auto simp: less_lv)
  then have "free_units 4 1 {} = {0, 1}"
    by (auto simp: free_units_def valid_def BDY_NLEVELS_def)
  then show ?thesis by simp
qed

text \<open>C5: A request for \<open>n > 0\<close> units succeeds exactly when at least \<open>n\<close> units have no allocated frame.
  It then returns \<open>n\<close> distinct aligned addresses of pairwise disjoint runs of frames that were free;
  those frames, and only those, become allocated, and each gets a fresh \<open>struct page\<close> carrying the unit
  and the usage, while every other \<open>struct page\<close> keeps its contents. A request that fails gives back
  the units it had taken: the whole state is what it was.\<close>

theorem pm_ram_alloc_correct:
  assumes "bdy_rel N A (bdy_ram pm)" and "unit < PM_UNIT_MAX" and "N \<le> 2 ^ 20"
  shows "case pm_ram_alloc unit use n pm of
      Inl _ \<Rightarrow> False
    | Inr (pm', None) \<Rightarrow> pm' = pm \<and> (n = 0 \<or> card (free_units N unit A) < n)
    | Inr (pm', Some pas) \<Rightarrow> length pas = n \<and> n \<le> card (free_units N unit A) \<and> distinct pas
        \<and> (\<forall>pa\<in>set pas. unat pa mod (2 ^ unit * 4096) = 0 \<and> frame_of pa < N \<and> frames unit pa \<inter> A = {})
        \<and> (\<forall>a\<in>set pas. \<forall>b\<in>set pas. a \<noteq> b \<longrightarrow> frames unit a \<inter> frames unit b = {})
        \<and> bdy_rel N (A \<union> (\<Union>pa\<in>set pas. frames unit pa \<inter> {..<N})) (bdy_ram pm')
        \<and> (\<forall>f. ram_map pm' f = (if f \<in> (\<Union>pa\<in>set pas. frames unit pa)
            then new_page unit use (ram_map pm f) else ram_map pm f))"
proof -
  let ?F = "free_units N unit A"
  obtain ps where ps: "\<forall>p\<in>set ps. p \<in> ?F" "distinct ps" and
    res: "if n \<noteq> 0 \<and> n \<le> card ?F
     then length ps = n \<and> (\<exists>b. bdy_rel N (A \<union> (\<Union>p\<in>set ps. block N unit p)) b
       \<and> pm_ram_alloc unit use n pm = Inr (pm\<lparr>bdy_ram := b,
            ram_map := fold (mark_pages unit use) (map (pm_pa unit) ps) (ram_map pm)\<rparr>, Some (map (pm_pa unit) ps)))
     else pm_ram_alloc unit use n pm = Inr (pm, None)"
    using pm_ram_alloc_spec [OF assms, of n use] by blast
  have v: "valid N unit p" if "p \<in> set ps" for p
    using ps(1) that by (auto simp: free_units_def)
  have dis: "frames unit (pm_pa unit p) \<inter> frames unit (pm_pa unit q) = {}"
    if "p \<in> set ps" "q \<in> set ps" "pm_pa unit p \<noteq> pm_pa unit q" for p q
  proof (rule frames_disjoint_aligned)
    show "frame_of (pm_pa unit p) mod 2 ^ unit = 0" "frame_of (pm_pa unit q) mod 2 ^ unit = 0"
      using pm_pa_aligned(2) v that assms(3) by blast+
    show "frame_of (pm_pa unit p) \<noteq> frame_of (pm_pa unit q)"
      using frame_of_pm_pa(2) [OF valid_fits [OF v assms(3)]] that by (metis mult_cancel2 power_not_zero zero_neq_numeral)
  qed
  have bl: "(\<Union>p\<in>set ps. block N unit p) = (\<Union>pa\<in>set (map (pm_pa unit) ps). frames unit pa \<inter> {..<N})"
    using free_units_frames(2) [OF assms(1,3)] ps(1) by simp
  have props: "distinct (map (pm_pa unit) ps)"
    "\<forall>pa\<in>set (map (pm_pa unit) ps). unat pa mod (2 ^ unit * 4096) = 0 \<and> frame_of pa < N \<and> frames unit pa \<inter> A = {}"
    using ps inj_pm_pa [OF v v assms(3)] pm_pa_aligned(1) [OF v assms(3)]
      free_units_frames(1) [OF assms(1,3)] frame_of_pm_pa(2) [OF valid_fits [OF v assms(3)]] v
    by (auto simp: distinct_map inj_on_def valid_def less_lv)
  show ?thesis
  proof (cases "n \<noteq> 0 \<and> n \<le> card ?F")
    case True
    with res obtain b where b: "length ps = n" "bdy_rel N (A \<union> (\<Union>p\<in>set ps. block N unit p)) b"
      "pm_ram_alloc unit use n pm = Inr (pm\<lparr>bdy_ram := b,
            ram_map := fold (mark_pages unit use) (map (pm_pa unit) ps) (ram_map pm)\<rparr>, Some (map (pm_pa unit) ps))"
      by auto
    show ?thesis
      unfolding b(3) sum.case prod.case option.case
      using props dis True b(1) b(2) [unfolded bl]
      by (intro conjI) (simp_all add: fold_mark_pages)
  next
    case False
    with res show ?thesis by auto
  qed
qed

theorem pm_ram_alloc_correct_witness:
  "\<exists>pm' pas. pm_ram_alloc 1 PGF_USE_NORMAL 2 pm4 = Inr (pm', Some pas) \<and> length pas = 2"
proof -
  have "1 < PM_UNIT_MAX" by (simp add: PM_UNIT_MAX_def)
  from pm_ram_alloc_correct [OF pm4_rel this, where use = PGF_USE_NORMAL and n = 2] show ?thesis
    by (auto simp: pm4_free_units split: sum.splits option.splits)
qed

text \<open>C6: The units a successful \<open>pm_ram_alloc\<close> returned can be released with the same unit and
  usage, in one call: no assertion of \<open>pm_ram_free\<close> fails, exactly the frames of before the allocation are
  allocated again, no other \<open>struct page\<close> changes, and the released ones have a zero reference.\<close>

theorem pm_alloc_free_roundtrip:
  assumes "bdy_rel N A (bdy_ram pm)" and "unit < PM_UNIT_MAX" and "N \<le> 2 ^ 20"
    and "pm_ram_alloc unit use n pm = Inr (pm', Some pas)"
  shows "\<exists>pm''. pm_ram_free unit use pas pm' = Inr pm'' \<and> bdy_rel N A (bdy_ram pm'')
    \<and> (\<forall>f. if f \<in> (\<Union>pa\<in>set pas. frames unit pa) then u0 (ram_map pm'' f) = 0
           else ram_map pm'' f = ram_map pm f)"
proof -
  obtain ps where ps: "\<forall>p\<in>set ps. p \<in> free_units N unit A" "distinct ps" and
    res: "if n \<noteq> 0 \<and> n \<le> card (free_units N unit A)
     then length ps = n \<and> (\<exists>b. bdy_rel N (A \<union> (\<Union>p\<in>set ps. block N unit p)) b
       \<and> pm_ram_alloc unit use n pm = Inr (pm\<lparr>bdy_ram := b,
            ram_map := fold (mark_pages unit use) (map (pm_pa unit) ps) (ram_map pm)\<rparr>, Some (map (pm_pa unit) ps)))
     else pm_ram_alloc unit use n pm = Inr (pm, None)"
    using pm_ram_alloc_spec [OF assms(1-3), of n use] by blast
  with assms(4) obtain b where b: "bdy_rel N (A \<union> (\<Union>p\<in>set ps. block N unit p)) b"
    and pm': "pm' = pm\<lparr>bdy_ram := b, ram_map := fold (mark_pages unit use) pas (ram_map pm)\<rparr>"
    and pas: "pas = map (pm_pa unit) ps"
    by (auto split: if_splits)
  have v: "valid N unit p" if "p \<in> set ps" for p
    using ps(1) that by (auto simp: free_units_def)
  have al: "\<forall>pa\<in>set pas. frame_of pa mod 2 ^ unit = 0 \<and> frame_of pa < N"
    using pm_pa_aligned(2) [OF v assms(3)] frame_of_pm_pa(2) [OF valid_fits [OF v assms(3)]] v
    by (auto simp: pas valid_def less_lv)
  have ok: "\<forall>pa\<in>set pas. \<forall>f\<in>frames unit pa. page_ok unit use (ram_map pm' f)"
    using page_ok_new_page [OF assms(2)] by (auto simp: pm' fold_mark_pages)
  have inj: "frame_of a \<noteq> frame_of b" if "a \<in> set pas" "b \<in> set pas" "a \<noteq> b" for a b
    using that frame_of_pm_pa(2) [OF valid_fits [OF v assms(3)]]
    by (auto simp: pas)
  have dis: "\<forall>a\<in>set pas. \<forall>b\<in>set pas. a \<noteq> b \<longrightarrow> frames unit a \<inter> frames unit b = {}"
    using frames_disjoint_aligned [OF conjunct1 [OF bspec [OF al]] conjunct1 [OF bspec [OF al]] inj] by simp
  have "distinct pas"
    using ps inj_pm_pa [OF v v assms(3)] by (auto simp: pas distinct_map inj_on_def)
  moreover have "(A \<union> (\<Union>p\<in>set ps. block N unit p)) - (\<Union>pa\<in>set pas. frames unit pa) = A"
    using free_units_frames [OF assms(1,3)] ps(1) by (fastforce simp: pas)
  moreover have "bdy_rel N (A \<union> (\<Union>p\<in>set ps. block N unit p)) (bdy_ram pm')"
    using b by (simp add: pm')
  ultimately obtain pm'' where pm'': "for_each_res (pm_free_one unit use) pas pm' = Inr pm''"
    "bdy_rel N A (bdy_ram pm'')"
    "\<forall>f. ram_map pm'' f = (if \<exists>pa\<in>set pas. f \<in> frames unit pa then (ram_map pm' f)\<lparr>u0 := 0\<rparr> else ram_map pm' f)"
    using pm_free_units [OF _ assms(2,3), of _ pm' pas use] al ok dis by force
  then show ?thesis
    using assms(2) by (intro exI [of _ pm'']) (auto simp: pm_ram_free_def pm' fold_mark_pages)
qed

theorem pm_alloc_free_roundtrip_witness:
  "\<exists>pm' pas pm''. pm_ram_alloc 1 PGF_USE_SLUB 2 pm4 = Inr (pm', Some pas)
    \<and> pm_ram_free 1 PGF_USE_SLUB pas pm' = Inr pm'' \<and> bdy_rel 4 {} (bdy_ram pm'')"
proof -
  have u: "1 < PM_UNIT_MAX" by (simp add: PM_UNIT_MAX_def)
  obtain ps b where "pm_ram_alloc 1 PGF_USE_SLUB 2 pm4 = Inr (pm4\<lparr>bdy_ram := b,
     ram_map := fold (mark_pages 1 PGF_USE_SLUB) (map (pm_pa 1) ps) (ram_map pm4)\<rparr>, Some (map (pm_pa 1) ps))"
    using pm_ram_alloc_spec [OF pm4_rel u, of 2 PGF_USE_SLUB] by (auto simp: pm4_free_units)
  from this pm_alloc_free_roundtrip [OF pm4_rel u _ this] show ?thesis by auto
qed

text \<open>Releasing a unit twice. After a release with usage NORMAL a second release of the same unit
  stops in the assertion on the reference count. With usage SLUB the second release returns normally:
  nothing checks that the frames are allocated, as the comment in the loop says.\<close>

theorem pm_double_free:
  assumes "unit < PM_UNIT_MAX" and "pm_ram_free unit use [pa] pm = Inr pm'"
  shows "case use of
      PGF_USE_NORMAL \<Rightarrow> pm_ram_free unit use [pa] pm' = Inl (Assert ''pm.c:228'')
    | PGF_USE_SLUB \<Rightarrow> ok_res (pm_ram_free unit use [pa] pm')"
proof -
  have al: "frame_of pa mod 2 ^ unit = 0"
  proof (rule ccontr)
    assume "frame_of pa mod 2 ^ unit \<noteq> 0"
    then have "pm_free_one unit use pa pm = Inl (Assert ''pm.c:218'')"
      by (simp add: pm_free_one_def Let_def aligned_frame)
    with assms show False by (simp add: pm_ram_free_def)
  qed
  have ok: "\<forall>f\<in>frames unit pa. page_ok unit use (ram_map pm f)"
  proof (rule ccontr)
    assume "\<not> ?thesis"
    then obtain e where "pm_free_one unit use pa pm = Inl e"
      using pm_free_one_bad [OF al, of use pm] by blast
    with assms show False by (simp add: pm_ram_free_def)
  qed
  have pm': "pm' = released unit pa pm"
    using assms pm_free_one_eq [OF al ok] by (simp add: pm_ram_free_def)
  have fr: "frame_of pa \<in> frames unit pa" by (simp add: frames_def)
  show ?thesis
  proof (cases use)
    case PGF_USE_NORMAL
    have "\<exists>f\<in>frames unit pa. \<not> page_ok unit use (ram_map pm' f)"
      using fr PGF_USE_NORMAL by (auto simp: pm' released_def page_ok_def)
    from pm_free_one_bad [OF al this] obtain f e where
      "f \<in> frames unit pa" "check_page unit use f pm' = Inl e" "pm_free_one unit use pa pm' = Inl e"
      by blast
    moreover have "check_page unit use f pm' = Inl (Assert ''pm.c:228'')" if "f \<in> frames unit pa" for f
      using that ok PGF_USE_NORMAL by (simp add: check_page_def Let_def pm' released_def page_ok_def)
    ultimately show ?thesis
      using PGF_USE_NORMAL assms(1) by (simp add: pm_ram_free_def)
  next
    case PGF_USE_SLUB
    have "\<forall>f\<in>frames unit pa. page_ok unit use (ram_map pm' f)"
      using ok PGF_USE_SLUB by (simp add: pm' released_def page_ok_def)
    then show ?thesis
      using pm_free_one_eq [OF al] PGF_USE_SLUB assms(1) by (simp add: pm_ram_free_def)
  qed
qed

theorem pm_double_free_witness:
  "\<exists>pm pm' pa. pm_ram_free 1 PGF_USE_NORMAL [pa] pm = Inr pm'
    \<and> pm_ram_free 1 PGF_USE_NORMAL [pa] pm' = Inl (Assert ''pm.c:228'')"
proof -
  let ?pm = "pm4\<lparr>ram_map := \<lambda>_. new_page 1 PGF_USE_NORMAL \<lparr>pflags = 0, u0 = 0\<rparr>\<rparr>"
  have u: "1 < PM_UNIT_MAX" by (simp add: PM_UNIT_MAX_def)
  have "pm_ram_free 1 PGF_USE_NORMAL [0] ?pm = Inr (released 1 0 ?pm)"
    using pm_free_one_eq [of 0 1 PGF_USE_NORMAL ?pm] page_ok_new_page [OF u] u
    by (simp add: pm_ram_free_def frame_of_def)
  with pm_double_free [OF u this] show ?thesis by auto
qed

end
