(* ===== verification/Mmu.thy ===== *)
theory Mmu
  imports Bits Pm
begin

text \<open>
  The page-table code of src/kernel/mmu.c: short descriptors of the ARM1176, one page
  directory of 4096 entries (\<open>k_pd\<close>), four second-level tables of 256 entries at
  \<open>k_pt_start\<close> for the 4 MB at 0x40000000, and further tables of 1 KB that
  src/kernel/slub.c hands out.

  The three tables are separate objects in memory and separate maps here: \<open>pd\<close>, \<open>kpt\<close> and
  \<open>ptm\<close>, the words of the tables from the slab, by virtual address. \<open>tlb\<close> is the set of pages
  whose old translation may still be cached; the code's invalidation by address takes a page
  out. Cleaning the data cache has no effect on this state. \<open>k_pd_lock\<close> is a scheduler lock
  (\<open>preempt_disable\<close>), which no other step of a sequential run observes.

  \<open>mmu_slub_alloc\<close> and \<open>mmu_slub_pa_to_va\<close> of src/kernel/slub.c call back into this
  file; they are the arguments \<open>sa\<close> and \<open>p2v\<close>.
\<close>

section \<open>Descriptor fields\<close>

definition PDE_TYPE0 :: field where
  [fields]: "PDE_TYPE0 = (0, 2)"

definition PDE_B :: field where
  [fields]: "PDE_B = (2, 1)"

definition PDE_C :: field where
  [fields]: "PDE_C = (3, 1)"

definition PDE_XN :: field where
  [fields]: "PDE_XN = (4, 1)"

definition PDE_DOM :: field where
  [fields]: "PDE_DOM = (5, 4)"

definition PDE_AF :: field where
  [fields]: "PDE_AF = (10, 1)"

definition PDE_AP :: field where
  [fields]: "PDE_AP = (11, 1)"

definition PDE_TEX :: field where
  [fields]: "PDE_TEX = (12, 3)"

definition PDE_APX :: field where
  [fields]: "PDE_APX = (15, 1)"

definition PDE_SHR :: field where
  [fields]: "PDE_SHR = (16, 1)"

definition PDE_NG :: field where
  [fields]: "PDE_NG = (17, 1)"

definition PDE_TYPE1 :: field where
  [fields]: "PDE_TYPE1 = (18, 1)"

definition PDE_NS :: field where
  [fields]: "PDE_NS = (19, 1)"

definition PDE_PT_BASE :: field where
  [fields]: "PDE_PT_BASE = (10, 22)"

definition PDE_S_BASE :: field where
  [fields]: "PDE_S_BASE = (20, 12)"

definition PDE_SS_BASE :: field where
  [fields]: "PDE_SS_BASE = (24, 8)"

definition PDE_PT_NS :: field where
  [fields]: "PDE_PT_NS = (3, 1)"

definition PTE_SP_XN :: field where
  [fields]: "PTE_SP_XN = (0, 1)"

definition PTE_LP_XN :: field where
  [fields]: "PTE_LP_XN = (15, 1)"

definition PTE_TYPE :: field where
  [fields]: "PTE_TYPE = (0, 2)"

definition PTE_B :: field where
  [fields]: "PTE_B = (2, 1)"

definition PTE_C :: field where
  [fields]: "PTE_C = (3, 1)"

definition PTE_AF :: field where
  [fields]: "PTE_AF = (4, 1)"

definition PTE_AP :: field where
  [fields]: "PTE_AP = (5, 1)"

definition PTE_SP_TEX :: field where
  [fields]: "PTE_SP_TEX = (6, 3)"

definition PTE_LP_TEX :: field where
  [fields]: "PTE_LP_TEX = (12, 3)"

definition PTE_APX :: field where
  [fields]: "PTE_APX = (9, 1)"

definition PTE_SHR :: field where
  [fields]: "PTE_SHR = (10, 1)"

definition PTE_NG :: field where
  [fields]: "PTE_NG = (11, 1)"

definition PTE_SP_BASE :: field where
  [fields]: "PTE_SP_BASE = (12, 20)"

definition PTE_LP_BASE :: field where
  [fields]: "PTE_LP_BASE = (16, 16)"

definition VA_PDE_IX :: field where
  [fields]: "VA_PDE_IX = (20, 12)"

definition VA_PTE_IX :: field where
  [fields]: "VA_PTE_IX = (12, 8)"

definition TTBCR_PD0 :: field where
  [fields]: "TTBCR_PD0 = (4, 1)"

definition MMR_XN :: field where
  [fields]: "MMR_XN = (0, 1)"

definition MMR_NG :: field where
  [fields]: "MMR_NG = (1, 1)"

definition MMR_SHR :: field where
  [fields]: "MMR_SHR = (2, 1)"

definition MMR_AF :: field where
  [fields]: "MMR_AF = (3, 1)"

definition MMR_DOM :: field where
  [fields]: "MMR_DOM = (4, 4)"

section \<open>Requests\<close>

datatype mmu_mem_type = MT_SO | MT_DEV_SHR | MT_NRM_IO_WTNA | MT_NRM_IO_WBNA | MT_NRM_IO_NC
  | MT_RES0 | MT_RES1 | MT_NRM_IO_WBA | MT_DEV_NS | MT_MAX

primrec mt_val :: "mmu_mem_type \<Rightarrow> u32" where
  "mt_val MT_SO = 0"
| "mt_val MT_DEV_SHR = 1"
| "mt_val MT_NRM_IO_WTNA = 2"
| "mt_val MT_NRM_IO_WBNA = 3"
| "mt_val MT_NRM_IO_NC = 4"
| "mt_val MT_RES0 = 5"
| "mt_val MT_RES1 = 6"
| "mt_val MT_NRM_IO_WBA = 7"
| "mt_val MT_DEV_NS = 8"
| "mt_val MT_MAX = 9"

datatype mmu_access_perm = AP_SRW | AP_SRW_URW | AP_SRO | AP_SRO_URO | AP_MAX

primrec ap_val :: "mmu_access_perm \<Rightarrow> u32" where
  "ap_val AP_SRW = 0"
| "ap_val AP_SRW_URW = 1"
| "ap_val AP_SRO = 2"
| "ap_val AP_SRO_URO = 3"
| "ap_val AP_MAX = 4"

datatype mmu_map_unit = MAP_UNIT_PAGE | MAP_UNIT_LARGE_PAGE | MAP_UNIT_SECTION
  | MAP_UNIT_SUPER_SECTION | MAP_UNIT_MAX

record mmu_map_req =
  mr_n :: int
  mr_va_start :: addr
  mr_pa_start :: addr
  mr_mt :: mmu_mem_type
  mr_ap :: mmu_access_perm
  mr_mu :: mmu_map_unit
  mr_flags :: u32

text \<open>\<open>map_units\<close> and \<open>pm_alloc_nunits\<close>; both arrays have four elements, and both callers have
  checked \<open>mu < MAP_UNIT_MAX\<close> before they read one.\<close>

primrec map_units :: "mmu_map_unit \<Rightarrow> pm_unit" where
  "map_units MAP_UNIT_PAGE = PM_UNIT_PAGE"
| "map_units MAP_UNIT_LARGE_PAGE = PM_UNIT_LARGE_PAGE"
| "map_units MAP_UNIT_SECTION = PM_UNIT_SECTION"
| "map_units MAP_UNIT_SUPER_SECTION = PM_UNIT_SUPER_SECTION"
| "map_units MAP_UNIT_MAX = 0"

primrec pm_alloc_nunits :: "mmu_map_unit \<Rightarrow> nat" where
  "pm_alloc_nunits MAP_UNIT_PAGE = 1"
| "pm_alloc_nunits MAP_UNIT_LARGE_PAGE = 16"
| "pm_alloc_nunits MAP_UNIT_SECTION = 1"
| "pm_alloc_nunits MAP_UNIT_SUPER_SECTION = 16"
| "pm_alloc_nunits MAP_UNIT_MAX = 0"

definition map_inc :: "mmu_map_unit \<Rightarrow> u32" where
  "map_inc mu = push_bit (map_units mu + PAGE_SIZE_SZ) 1"

section \<open>State\<close>

record mmu_state =
  pd :: "nat \<Rightarrow> u32"
  kpt :: "nat \<Rightarrow> u32"
  ptm :: "addr \<Rightarrow> u32"
  tlb :: "addr set"

text \<open>A pointer to an entry of a second-level table.\<close>

datatype ptab = Static nat | Slab addr

fun pt_get :: "ptab \<Rightarrow> nat \<Rightarrow> 'a mmu_state_scheme \<Rightarrow> u32" where
  "pt_get (Static b) k st = kpt st (b + k)"
| "pt_get (Slab va) k st = ptm st (va + 4 * of_nat k)"

fun pt_set :: "ptab \<Rightarrow> nat \<Rightarrow> u32 \<Rightarrow> 'a mmu_state_scheme \<Rightarrow> 'a mmu_state_scheme" where
  "pt_set (Static b) k v st = st\<lparr>kpt := (kpt st)(b + k := v)\<rparr>"
| "pt_set (Slab va) k v st = st\<lparr>ptm := (ptm st)(va + 4 * of_nat k := v)\<rparr>"

fun pt_index :: "ptab \<Rightarrow> nat \<Rightarrow> ptab" where
  "pt_index (Static b) k = Static (b + k)"
| "pt_index (Slab va) k = Slab (va + 4 * of_nat k)"

definition pd_set :: "nat \<Rightarrow> u32 \<Rightarrow> 'a mmu_state_scheme \<Rightarrow> 'a mmu_state_scheme" where
  "pd_set j v st = st\<lparr>pd := (pd st)(j := v)\<rparr>"

section \<open>Invalidation of the TLB\<close>

text \<open>The end \<open>s + sz\<close> and the loop variable wrap at 32 bits.\<close>

partial_function (option) tlb_loop :: "addr \<Rightarrow> addr \<Rightarrow> addr set \<Rightarrow> addr set option" where
  "tlb_loop i e t = (if i < e then tlb_loop (i + 4096) e (t - {i}) else Some t)"

definition mmu_tlb_invalidate :: "addr \<Rightarrow> u32 \<Rightarrow> 'a mmu_state_scheme \<Rightarrow> 'a mmu_state_scheme res" where
  "mmu_tlb_invalidate va sz st =
    (if sz = 0 then Inr st
     else let s = align_dn va (push_bit PAGE_SIZE_SZ 1); e = s + sz
       in case tlb_loop s e (tlb st) of
            None \<Rightarrow> Inl Endless
          | Some t \<Rightarrow> Inr (st\<lparr>tlb := t\<rparr>))"

text \<open>\<open>mmu_init\<close>, less the write of TTBCR: the four entries of the identity map go.\<close>

definition mmu_init :: "'a mmu_state_scheme \<Rightarrow> 'a mmu_state_scheme res" where
  "mmu_init st =
    (let st = fold (\<lambda>k. pd_set k 0) [0..<4] st
     in mmu_tlb_invalidate 0 (1024 * push_bit PAGE_SIZE_SZ 1) st)"

section \<open>Mapping\<close>

text \<open>The descriptor of a section or super section, and of a page or large page.\<close>

definition when_flag :: "u32 \<Rightarrow> field \<Rightarrow> field \<Rightarrow> u32 \<Rightarrow> u32" where
  "when_flag flags F on d = (if bits_get flags F \<noteq> 0 then d OR bits_on on else d)"

definition section_de :: "mmu_map_req \<Rightarrow> addr \<Rightarrow> u32" where
  "section_de r pa =
    (let de = bits_set PDE_TYPE0 2;
         de = (if mr_mu r = MAP_UNIT_SUPER_SECTION
               then de OR bits_on PDE_TYPE1 OR bits_push PDE_SS_BASE pa
               else de OR bits_set PDE_DOM (bits_get (mr_flags r) MMR_DOM) OR bits_push PDE_S_BASE pa);
         de = when_flag (mr_flags r) MMR_XN PDE_XN de;
         de = when_flag (mr_flags r) MMR_SHR PDE_SHR de;
         de = when_flag (mr_flags r) MMR_NG PDE_NG de;
         de = when_flag (mr_flags r) MMR_AF PDE_AF de;
         de = de OR bits_set PDE_TEX (drop_bit 2 (mt_val (mr_mt r)));
         de = de OR bits_set PDE_C (drop_bit 1 (mt_val (mr_mt r)));
         de = de OR bits_set PDE_B (mt_val (mr_mt r));
         de = de OR bits_set PDE_APX (drop_bit 1 (ap_val (mr_ap r)))
     in de OR bits_set PDE_AP (ap_val (mr_ap r)))"

definition page_te :: "mmu_map_req \<Rightarrow> addr \<Rightarrow> u32" where
  "page_te r pa =
    (let te = (if mr_mu r = MAP_UNIT_LARGE_PAGE
               then when_flag (mr_flags r) MMR_XN PTE_LP_XN
                      (bits_set PTE_TYPE 1 OR bits_push PTE_LP_BASE pa)
                    OR bits_set PTE_LP_TEX (drop_bit 2 (mt_val (mr_mt r)))
               else when_flag (mr_flags r) MMR_XN PTE_SP_XN
                      (bits_set PTE_TYPE 2 OR bits_push PTE_SP_BASE pa)
                    OR bits_set PTE_SP_TEX (drop_bit 2 (mt_val (mr_mt r))));
         te = when_flag (mr_flags r) MMR_SHR PTE_SHR te;
         te = when_flag (mr_flags r) MMR_NG PTE_NG te;
         te = when_flag (mr_flags r) MMR_AF PTE_AF te;
         te = te OR bits_set PTE_C (drop_bit 1 (mt_val (mr_mt r)));
         te = te OR bits_set PTE_B (mt_val (mr_mt r));
         te = te OR bits_set PTE_APX (drop_bit 1 (ap_val (mr_ap r)))
     in te OR bits_set PTE_AP (ap_val (mr_ap r)))"

text \<open>One round of a loop over \<open>r->n\<close> units: the loop variables are \<open>va\<close>, \<open>pa\<close> and the state.\<close>

definition unit_loop ::
    "mmu_map_req \<Rightarrow> (addr \<Rightarrow> addr \<Rightarrow> 's \<Rightarrow> (addr \<times> 's) res) \<Rightarrow> 's \<Rightarrow> 's res" where
  "unit_loop r body st =
    bind_res
      (for_res 0 (nat (mr_n r))
        (\<lambda>i (va, pa, st).
          bind_res (body va pa st) (\<lambda>(pa, st).
            Inr (va + map_inc (mr_mu r), pa + map_inc (mr_mu r), st)))
        (mr_va_start r, mr_pa_start r, st))
      (\<lambda>(va, pa, st). Inr st)"

definition map_section_one ::
    "mmu_map_req \<Rightarrow> addr \<Rightarrow> addr \<Rightarrow> 'a mmu_state_scheme \<Rightarrow> (addr \<times> 'a mmu_state_scheme) res" where
  "map_section_one r va pa st =
    (let n = pm_alloc_nunits (mr_mu r); j = unat (bits_get va VA_PDE_IX)
     in assert_that ''mmu.c:151'' (mr_va_start r \<le> va)
       (assert_that ''mmu.c:152'' (mr_pa_start r \<le> pa)
         (assert_that ''mmu.c:158'' (\<forall>k<n. bits_get (pd st (j + k)) PDE_TYPE0 = 0)
           (let st = fold (\<lambda>k. pd_set (j + k) (section_de r pa)) [0..<n] st
            in bind_res (mmu_tlb_invalidate va (map_inc (mr_mu r)) st) (\<lambda>st. Inr (pa, st))))))"

definition mmu_map_sections :: "mmu_map_req \<Rightarrow> 'a mmu_state_scheme \<Rightarrow> 'a mmu_state_scheme res" where
  "mmu_map_sections r st = unit_loop r (map_section_one r) st"

section \<open>Translation\<close>

text \<open>The second-level table of entry \<open>j\<close>: \<open>k_pt\<close> for the 4 MB at 0x40000000, otherwise the
  slab page the directory entry points to.\<close>

definition pt_of ::
    "('a mmu_state_scheme \<Rightarrow> addr \<Rightarrow> addr res) \<Rightarrow> nat \<Rightarrow> 'a mmu_state_scheme \<Rightarrow> ptab res" where
  "pt_of p2v j st =
    (if 0x400 \<le> j \<and> j < 0x404 then Inr (Static ((j - 0x400) * 0x100))
     else bind_res (p2v st (bits_pull (pd st j) PDE_PT_BASE)) (\<lambda>va. Inr (Slab va)))"

definition base_pa :: "field \<Rightarrow> u32 \<Rightarrow> addr \<Rightarrow> addr" where
  "base_pa F d va = bits_pull d F + (va AND NOT (bits_on F))"

definition mmu_va_to_pa ::
    "('a mmu_state_scheme \<Rightarrow> addr \<Rightarrow> addr res) \<Rightarrow> addr \<Rightarrow> 'a mmu_state_scheme \<Rightarrow> addr res" where
  "mmu_va_to_pa p2v va st =
    (let i = unat (bits_get va VA_PDE_IX); j = bits_get (pd st i) PDE_TYPE0
     in assert_that ''mmu.c:418'' (j = 1 \<or> j = 2)
       (if j = 2
        then if bits_get (pd st i) PDE_TYPE1 = 0
             then Inr (base_pa PDE_S_BASE (pd st i) va)
             else Inr (base_pa PDE_SS_BASE (pd st i) va)
        else bind_res (pt_of p2v i st) (\<lambda>pt.
          let te = pt_get (pt_index pt (unat (bits_get va VA_PTE_IX))) 0 st; j = bits_get te PTE_TYPE
          in assert_that ''mmu.c:446'' (j \<noteq> 0)
            (if j = 1 then Inr (base_pa PTE_LP_BASE te va) else Inr (base_pa PTE_SP_BASE te va)))))"

definition map_page_one ::
    "('a mmu_state_scheme \<Rightarrow> ('a mmu_state_scheme \<times> addr) res) \<Rightarrow>
     ('a mmu_state_scheme \<Rightarrow> addr \<Rightarrow> addr res) \<Rightarrow>
     mmu_map_req \<Rightarrow> addr \<Rightarrow> addr \<Rightarrow> 'a mmu_state_scheme \<Rightarrow> (addr \<times> 'a mmu_state_scheme) res" where
  "map_page_one sa p2v r va pa st =
    (let n = pm_alloc_nunits (mr_mu r); j = unat (bits_get va VA_PDE_IX)
     in assert_that ''mmu.c:209'' (mr_va_start r \<le> va)
       (assert_that ''mmu.c:210'' (mr_pa_start r \<le> pa)
         (let k = bits_get (pd st j) PDE_TYPE0
          in assert_that ''mmu.c:218'' (k = 0 \<or> k = 1)
            (bind_res
              (if k = 0
               then bind_res (sa st) (\<lambda>(st, pt).
                      bind_res (mmu_va_to_pa p2v pt st) (\<lambda>tpa.
                        let st = fold (\<lambda>k. pt_set (Slab pt) k 0) [0..<256] st;
                            de = bits_set PDE_TYPE0 1 OR bits_push PDE_PT_BASE tpa
                        in Inr (pd_set j de st, Slab pt)))
               else bind_res (pt_of p2v j st) (\<lambda>pt. Inr (st, pt)))
              (\<lambda>(st, pt).
                let pt = pt_index pt (unat (bits_get va VA_PTE_IX))
                in assert_that ''mmu.c:254'' (\<forall>k<n. bits_get (pt_get pt k st) PTE_TYPE = 0)
                  (let st = fold (\<lambda>k. pt_set pt k (page_te r pa)) [0..<n] st
                   in bind_res (mmu_tlb_invalidate va (map_inc (mr_mu r)) st) (\<lambda>st. Inr (pa, st))))))))"

definition mmu_map_pages ::
    "('a mmu_state_scheme \<Rightarrow> ('a mmu_state_scheme \<times> addr) res) \<Rightarrow>
     ('a mmu_state_scheme \<Rightarrow> addr \<Rightarrow> addr res) \<Rightarrow>
     mmu_map_req \<Rightarrow> 'a mmu_state_scheme \<Rightarrow> 'a mmu_state_scheme res" where
  "mmu_map_pages sa p2v r st = unit_loop r (map_page_one sa p2v r) st"

text \<open>\<open>mmu_map\<close> returns 0 whenever it returns. The request is not NULL.\<close>

definition mmu_map ::
    "('a mmu_state_scheme \<Rightarrow> ('a mmu_state_scheme \<times> addr) res) \<Rightarrow>
     ('a mmu_state_scheme \<Rightarrow> addr \<Rightarrow> addr res) \<Rightarrow>
     mmu_map_req \<Rightarrow> 'a mmu_state_scheme \<Rightarrow> 'a mmu_state_scheme res" where
  "mmu_map sa p2v r st =
    assert_that ''mmu.c:297'' (0 < mr_n r)
      (assert_that ''mmu.c:298'' (mt_val (mr_mt r) < mt_val MT_MAX)
        (assert_that ''mmu.c:299'' (ap_val (mr_ap r) < ap_val AP_MAX)
          (assert_that ''mmu.c:300'' (mr_mu r \<noteq> MAP_UNIT_MAX)
            (let mask = map_inc (mr_mu r) - 1
             in assert_that ''mmu.c:313'' (mr_va_start r AND mask = 0)
               (assert_that ''mmu.c:314'' (mr_pa_start r AND mask = 0)
                 (if mr_mu r = MAP_UNIT_SECTION \<or> mr_mu r = MAP_UNIT_SUPER_SECTION
                  then mmu_map_sections r st
                  else mmu_map_pages sa p2v r st))))))"

section \<open>Unmapping\<close>

definition unmap_section_one ::
    "mmu_map_req \<Rightarrow> addr \<Rightarrow> addr \<Rightarrow> 'a mmu_state_scheme \<Rightarrow> (addr \<times> 'a mmu_state_scheme) res" where
  "unmap_section_one r va pa st =
    assert_that ''mmu.c:354'' (mr_va_start r \<le> va)
      (assert_that ''mmu.c:355'' (mr_pa_start r \<le> pa)
        (bind_res (mmu_tlb_invalidate va (map_inc (mr_mu r)) st) (\<lambda>st.
          let j = unat (bits_get va VA_PDE_IX)
          in Inr (pa, fold (\<lambda>k. pd_set (j + k) 0) [0..<pm_alloc_nunits (mr_mu r)] st))))"

text \<open>In the loop over pages, \<open>pa\<close> also holds the address of the table, and the loop goes on
  from that value.\<close>

definition unmap_page_one ::
    "('a mmu_state_scheme \<Rightarrow> addr \<Rightarrow> addr res) \<Rightarrow>
     mmu_map_req \<Rightarrow> addr \<Rightarrow> addr \<Rightarrow> 'a mmu_state_scheme \<Rightarrow> (addr \<times> 'a mmu_state_scheme) res" where
  "unmap_page_one p2v r va pa st =
    assert_that ''mmu.c:370'' (mr_va_start r \<le> va)
      (assert_that ''mmu.c:371'' (mr_pa_start r \<le> pa)
        (bind_res (mmu_tlb_invalidate va (map_inc (mr_mu r)) st) (\<lambda>st.
          let j = unat (bits_get va VA_PDE_IX)
          in assert_that ''mmu.c:379'' (bits_get (pd st j) PDE_TYPE0 = 1)
            (bind_res (pt_of p2v j st) (\<lambda>pt.
              let pa = (if 0x400 \<le> j \<and> j < 0x404 then pa else bits_pull (pd st j) PDE_PT_BASE);
                  pt = pt_index pt (unat (bits_get va VA_PTE_IX))
              in Inr (pa, fold (\<lambda>k. pt_set pt k 0) [0..<pm_alloc_nunits (mr_mu r)] st))))))"

definition mmu_unmap ::
    "('a mmu_state_scheme \<Rightarrow> addr \<Rightarrow> addr res) \<Rightarrow>
     mmu_map_req \<Rightarrow> 'a mmu_state_scheme \<Rightarrow> 'a mmu_state_scheme res" where
  "mmu_unmap p2v r st =
    assert_that ''mmu.c:332'' (0 < mr_n r)
      (assert_that ''mmu.c:333'' (mr_mu r \<noteq> MAP_UNIT_MAX)
        (let mask = map_inc (mr_mu r) - 1
         in assert_that ''mmu.c:346'' (mr_va_start r AND mask = 0)
           (assert_that ''mmu.c:347'' (mr_pa_start r AND mask = 0)
             (if mr_mu r = MAP_UNIT_SECTION \<or> mr_mu r = MAP_UNIT_SUPER_SECTION
              then unit_loop r (unmap_section_one r) st
              else unit_loop r (unmap_page_one p2v r) st))))"

section \<open>The TLB loop\<close>

lemma page_step:
  assumes "unat (i :: addr) mod 4096 = 0" and "unat e mod 4096 = 0" and "i < e"
  shows "unat (i + 4096) = unat i + 4096" and "i + 4096 \<le> e"
proof -
  have "unat i < unat e" using assms(3) by (simp add: word_less_nat_alt)
  obtain p q where pq: "unat i = 4096 * p" "unat e = 4096 * q"
    using assms(1,2) by (metis mod_0_imp_dvd dvd_def)
  with \<open>unat i < unat e\<close> have "unat i + 4096 \<le> unat e" by simp
  from le_less_trans [OF this unat_u32_less] have "unat i + 4096 < 4294967296" .
  then show u: "unat (i + 4096) = unat i + 4096"
    using unat_add_no_overflow [of i 4096] by simp
  with \<open>unat i + 4096 \<le> unat e\<close> show "i + 4096 \<le> e"
    by (simp add: word_le_nat_alt)
qed

lemma tlb_loop_pages:
  assumes "unat i mod 4096 = 0" and "unat e mod 4096 = 0"
  shows "tlb_loop i e t = Some (t - {x. i \<le> x \<and> x < e \<and> unat x mod 4096 = 0})"
  using assms
proof (induction "unat e - unat i" arbitrary: i t rule: less_induct)
  case less
  show ?case
  proof (cases "i < e")
    case False
    then have none: "{x. i \<le> x \<and> x < e \<and> unat x mod 4096 = 0} = {}" by auto
    show ?thesis
      unfolding none using False by (simp add: tlb_loop.simps [of i e])
  next
    case True
    note st = page_step [OF less.prems True]
    have down: "unat e - unat (i + 4096) < unat e - unat i"
      using st(1) True by (simp add: word_less_nat_alt)
    have al: "unat (i + 4096) mod 4096 = 0" using st(1) less.prems(1) by simp
    have rest: "tlb_loop (i + 4096) e (t - {i}) = Some (t - {i} - {x. i + 4096 \<le> x \<and> x < e \<and> unat x mod 4096 = 0})"
      by (rule less.hyps [OF down al less.prems(2)])
    have "i \<le> x \<longleftrightarrow> x = i \<or> i + 4096 \<le> x" if x: "unat x mod 4096 = 0" for x
    proof -
      obtain p q where pq: "unat i = 4096 * p" "unat x = 4096 * q"
        using less.prems(1) x by (metis mod_0_imp_dvd dvd_def)
      have "4096 * p + 4096 = 4096 * Suc p" by simp
      then have "4096 * p \<le> 4096 * q \<longleftrightarrow> 4096 * q = 4096 * p \<or> 4096 * p + 4096 \<le> 4096 * q"
        unfolding mult_le_cancel1 by auto
      then show ?thesis
        unfolding word_le_nat_alt word_unat_eq_iff st(1) pq .
    qed
    note ix = this
    have "{x. i \<le> x \<and> x < e \<and> unat x mod 4096 = 0}
        = insert i {x. i + 4096 \<le> x \<and> x < e \<and> unat x mod 4096 = 0}"
    proof (rule set_eqI)
      fix x
      show "x \<in> {x. i \<le> x \<and> x < e \<and> unat x mod 4096 = 0} \<longleftrightarrow>
          x \<in> insert i {x. i + 4096 \<le> x \<and> x < e \<and> unat x mod 4096 = 0}"
        unfolding mem_Collect_eq insert_iff using ix [of x] True less.prems(1) by metis
    qed
    moreover have "tlb_loop i e t = tlb_loop (i + 4096) e (t - {i})"
      by (rule trans [OF tlb_loop.simps]) (rule if_P [OF True])
    ultimately show ?thesis
      using rest Diff_insert2 [of t i "{x. i + 4096 \<le> x \<and> x < e \<and> unat x mod 4096 = 0}"]
      by (simp only:)
  qed
qed

lemma unat_align_dn_page: "unat (align_dn va (2 ^ PAGE_SIZE_SZ)) = unat va div 4096 * 4096"
  using unat_and_not_mask [of va 12] by (simp add: align_dn_def PAGE_SIZE_SZ_def mask_eq_exp_minus_1 push_bit_eq_mult)

lemma mmu_tlb_invalidate_pages:
  assumes "unat sz mod 4096 = 0"
  shows "\<exists>t. mmu_tlb_invalidate va sz st = Inr (st\<lparr>tlb := t\<rparr>) \<and> t \<subseteq> tlb st"
proof -
  let ?s = "align_dn va (2 ^ PAGE_SIZE_SZ)"
  have "unat ?s mod 4096 = 0" by (simp add: unat_align_dn_page)
  moreover have "unat (?s + sz) mod 4096 = 0"
    using assms unat_align_dn_page [of va]
    by (simp add: unat_word_ariths mod_mod_cancel dvd_def)
  ultimately have "sz \<noteq> 0 \<Longrightarrow> ?thesis"
    by (auto simp: mmu_tlb_invalidate_def Let_def tlb_loop_pages)
  then show ?thesis
    by (cases "sz = 0") (auto simp: mmu_tlb_invalidate_def intro!: exI [of _ "tlb st"])
qed

section \<open>What the four loops over units share\<close>

text \<open>
  A loop over the units of a request writes the slots of each unit: directory entries for
  sections, entries of second-level tables, by page number, for pages. \<open>b\<close> is the width of
  the offset in a slot, \<open>k\<close> that in a unit. \<open>ok\<close> restricts the addresses that the loop visits,
  \<open>desc\<close> is what a unit's slots get, and \<open>need\<close> what they must hold before.
\<close>

definition slots :: "nat \<Rightarrow> nat \<Rightarrow> addr \<Rightarrow> nat set" where
  "slots b k va = {unat va div 2 ^ b ..< unat va div 2 ^ b + 2 ^ (k - b)}"

lemma aligned_unit:
  assumes "k < 32" and "unat (a :: addr) mod 2 ^ k = 0"
  shows "unat (a + of_nat i * 2 ^ k) mod 2 ^ k = 0"
proof -
  have "a + of_nat i * 2 ^ k = of_nat (unat a + i * 2 ^ k)" by simp
  then have "unat (a + of_nat i * 2 ^ k) = (unat a + i * 2 ^ k) mod 2 ^ 32"
    by (simp only: unat_of_nat len_of_numeral_defs) simp
  also have "\<dots> mod 2 ^ k = (unat a + i * 2 ^ k) mod 2 ^ k"
    by (rule mod_mod_cancel) (use assms(1) in \<open>simp only: le_imp_power_dvd less_imp_le\<close>)
  finally show ?thesis using assms(2) by simp
qed

locale unit_writer =
  fixes r :: mmu_map_req
    and body :: "addr \<Rightarrow> addr \<Rightarrow> 's \<Rightarrow> (addr \<times> 's) res"
    and get :: "'s \<Rightarrow> nat \<Rightarrow> 'd"
    and inv :: "'s \<Rightarrow> bool"
    and ok :: "addr \<Rightarrow> bool"
    and need :: "'d \<Rightarrow> bool"
    and desc :: "addr \<Rightarrow> 'd"
    and b k :: nat
  assumes inc: "map_inc (mr_mu r) = 2 ^ k" and bk: "b \<le> k" and k32: "k < 32"
    and step: "inv st \<Longrightarrow> ok va \<Longrightarrow> unat va mod 2 ^ k = 0 \<Longrightarrow> body va pa st = Inr (pa', st') \<Longrightarrow>
      mr_va_start r \<le> va \<and> pa' = pa \<and> inv st' \<and> (\<forall>x\<in>slots b k va. need (get st x)) \<and>
      (\<forall>x. get st' x = (if x \<in> slots b k va then desc pa else get st x))"
    and total: "inv st \<Longrightarrow> ok va \<Longrightarrow> unat va mod 2 ^ k = 0 \<Longrightarrow> mr_va_start r \<le> va \<Longrightarrow>
      mr_pa_start r \<le> pa \<Longrightarrow> (\<And>x. x \<in> slots b k va \<Longrightarrow> need (get st x)) \<Longrightarrow> \<exists>pa' st'. body va pa st = Inr (pa', st')"
    and busy: "\<not> need (desc pa)"
begin

definition written :: "nat \<Rightarrow> 's \<Rightarrow> nat \<Rightarrow> 'd" where
  "written i st x =
    (let s = unat (mr_va_start r) div 2 ^ b; n = 2 ^ (k - b)
     in if s \<le> x \<and> x < s + i * n then desc (mr_pa_start r + of_nat ((x - s) div n) * 2 ^ k) else get st x)"

lemma slots_of_unit:
  assumes "unat va = unat (mr_va_start r) + i * 2 ^ k" and "unat (mr_va_start r) mod 2 ^ k = 0"
  shows "slots b k va = {unat (mr_va_start r) div 2 ^ b + i * 2 ^ (k - b) ..< unat (mr_va_start r) div 2 ^ b + Suc i * 2 ^ (k - b)}"
proof -
  have "(2 :: nat) ^ k = 2 ^ (k - b) * 2 ^ b"
    using bk by (simp flip: power_add)
  then have "unat va div 2 ^ b = unat (mr_va_start r) div 2 ^ b + i * 2 ^ (k - b)"
    using assms(1) by (simp add: mult.assoc [symmetric])
  then show ?thesis by (simp add: slots_def add.commute add.left_commute)
qed

lemma written_0: "written 0 st x = get st x"
  by (auto simp: written_def Let_def)

lemma written_Suc:
  "written (Suc i) st x =
    (let s = unat (mr_va_start r) div 2 ^ b; n = 2 ^ (k - b)
     in if s + i * n \<le> x \<and> x < s + Suc i * n then desc (mr_pa_start r + of_nat i * 2 ^ k) else written i st x)"
proof -
  have "(x - s) div n = i" if "s + i * n \<le> x" "x < s + Suc i * n" for s n :: nat
    by (rule div_nat_eqI) (use that in \<open>simp_all add: mult.commute [of n i]\<close>)
  then show ?thesis
    by (auto simp: written_def Let_def)
qed

lemma no_wrap:
  assumes "inv t" and "ok v" and "unat (mr_va_start r) mod 2 ^ k = 0"
    and "unat (mr_va_start r) + i * 2 ^ k \<le> 2 ^ 32" and v: "v = mr_va_start r + of_nat i * 2 ^ k"
    and get: "\<And>x. get t x = written i st x" and one: "body v p t = Inr (p', t')"
  shows "unat v = unat (mr_va_start r) + i * 2 ^ k" and "unat (mr_va_start r) + Suc i * 2 ^ k \<le> 2 ^ 32"
proof -
  let ?a = "unat (mr_va_start r)"
  have u: "unat v = (?a + i * 2 ^ k) mod 2 ^ 32"
  proof -
    have "v = of_nat (?a + i * 2 ^ k)" by (simp add: v)
    then show ?thesis by (simp only: unat_of_nat len_of_numeral_defs) simp
  qed
  obtain q where q: "?a = 2 ^ k * q" using assms(3) by (metis mod_0_imp_dvd dvd_def)
  have p32: "(2 :: nat) ^ 32 = 2 ^ k * 2 ^ (32 - k)"
    using k32 by (simp flip: power_add)
  have al: "unat v mod 2 ^ k = 0"
    unfolding v by (rule aligned_unit [OF k32 assms(3)])
  note st = step [OF assms(1,2) al one]
  have ne: "?a + i * 2 ^ k \<noteq> 2 ^ 32"
  proof
    assume e: "?a + i * 2 ^ k = 2 ^ 32"
    then have "v = 0" using u by (simp add: unat_eq_zero)
    with st have a0: "mr_va_start r = 0" by simp
    with e have "0 < i" by (cases i) simp_all
    have "0 \<in> slots b k v" using \<open>v = 0\<close> by (simp add: slots_def)
    with st have "need (get t 0)" by blast
    moreover have "get t 0 = desc (mr_pa_start r)"
      using \<open>0 < i\<close> by (simp add: get written_def a0)
    ultimately show False using busy by simp
  qed
  then have lt: "?a + i * 2 ^ k < 2 ^ 32" using assms(4) by simp
  then show "unat v = ?a + i * 2 ^ k" using u by simp
  have "2 ^ k * (q + i) < 2 ^ k * 2 ^ (32 - k)"
    using lt unfolding p32 q by (simp add: algebra_simps)
  then have "q + Suc i \<le> 2 ^ (32 - k)" by simp
  then have "2 ^ k * (q + Suc i) \<le> 2 ^ k * 2 ^ (32 - k)" by (rule mult_le_mono2)
  then show "?a + Suc i * 2 ^ k \<le> 2 ^ 32"
    unfolding p32 q by (simp add: algebra_simps)
qed

text \<open>The slot of byte \<open>d\<close> of the request.\<close>

lemma written_byte:
  assumes "unat (mr_va_start r) mod 2 ^ k = 0" and "d < n * 2 ^ k"
  shows "written n st ((unat (mr_va_start r) + d) div 2 ^ b) = desc (mr_pa_start r + of_nat (d div 2 ^ k) * 2 ^ k)"
proof -
  let ?a = "unat (mr_va_start r)"
  have kb: "(2 :: nat) ^ k = 2 ^ b * 2 ^ (k - b)"
    using bk by (simp flip: power_add)
  then have "?a mod 2 ^ b = 0"
    using assms(1) by (metis mod_mult_self1_is_0 mod_mult2_eq mod_mod_trivial mult_0_right add_is_0)
  then have x: "(?a + d) div 2 ^ b = ?a div 2 ^ b + d div 2 ^ b"
    by (subst div_plus_div_distrib_dvd_left) auto
  have "d div 2 ^ b div 2 ^ (k - b) = d div 2 ^ k"
    unfolding kb by (rule div_mult2_eq [symmetric])
  moreover have "d div 2 ^ b < n * 2 ^ (k - b)"
    using assms(2) unfolding kb by (intro less_mult_imp_div_less) (simp add: mult_ac)
  ultimately show ?thesis
    by (simp add: written_def x Let_def)
qed

lemma written_outside:
  assumes "unat va < unat (mr_va_start r) \<or> unat (mr_va_start r) + n * 2 ^ k \<le> unat va"
    and "unat (mr_va_start r) mod 2 ^ k = 0"
  shows "written n st (unat va div 2 ^ b) = get st (unat va div 2 ^ b)"
proof -
  have kb: "(2 :: nat) ^ k = 2 ^ b * 2 ^ (k - b)"
    using bk by (simp flip: power_add)
  obtain q where "unat (mr_va_start r) = 2 ^ k * q" using assms(2) by (metis mod_0_imp_dvd dvd_def)
  then obtain s where s: "unat (mr_va_start r) = s * 2 ^ b"
    unfolding kb by (metis mult.commute mult.assoc)
  have "unat va < s * 2 ^ b \<or> (s + n * 2 ^ (k - b)) * 2 ^ b \<le> unat va"
    using assms(1) unfolding s kb by (simp add: algebra_simps)
  then have "unat va div 2 ^ b < s \<or> s + n * 2 ^ (k - b) \<le> unat va div 2 ^ b"
    by (simp only: div_less_iff_less_mult less_eq_div_iff_mult_less_eq zero_less_power zero_less_numeral)
  then show ?thesis
    by (auto simp: written_def s)
qed

definition at :: "'s \<Rightarrow> nat \<Rightarrow> addr \<times> addr \<times> 's \<Rightarrow> bool" where
  "at st i = (\<lambda>(v, p, t). inv t \<and> unat (mr_va_start r) + i * 2 ^ k \<le> 2 ^ 32
    \<and> v = mr_va_start r + of_nat i * 2 ^ k \<and> p = mr_pa_start r + of_nat i * 2 ^ k
    \<and> (\<forall>x. get t x = written i st x)
    \<and> (\<forall>x. unat (mr_va_start r) div 2 ^ b \<le> x \<and> x < unat (mr_va_start r) div 2 ^ b + i * 2 ^ (k - b)
        \<longrightarrow> need (get st x)))"

lemma at_0: "inv st \<Longrightarrow> at st 0 (mr_va_start r, mr_pa_start r, st)"
  using unat_u32_less [of "mr_va_start r"] by (auto simp: at_def written_0 intro: less_imp_le)

lemma at_Suc:
  assumes a: "at st i (v, p, t)" and okv: "ok v" and al: "unat (mr_va_start r) mod 2 ^ k = 0"
    and one: "body v p t = Inr (p', t')"
  shows "at st (Suc i) (v + 2 ^ k, p' + 2 ^ k, t')"
proof -
  let ?s = "unat (mr_va_start r) div 2 ^ b" and ?n = "2 ^ (k - b) :: nat"
  have Pt: "inv t" "unat (mr_va_start r) + i * 2 ^ k \<le> 2 ^ 32" "v = mr_va_start r + of_nat i * 2 ^ k"
    "p = mr_pa_start r + of_nat i * 2 ^ k" "\<And>x. get t x = written i st x"
    "\<And>x. ?s \<le> x \<Longrightarrow> x < ?s + i * ?n \<Longrightarrow> need (get st x)"
    using a by (auto simp: at_def)
  note nw = no_wrap [OF Pt(1) okv al Pt(2,3,5) one]
  have "unat v mod 2 ^ k = 0" using nw(1) al by simp
  note st = step [OF Pt(1) okv this one]
  note sl = slots_of_unit [OF nw(1) al]
  have "get t' x = written (Suc i) st x" for x
    using st by (simp add: sl written_Suc Pt(4,5) Let_def)
  moreover have "need (get st x)" if "?s \<le> x" "x < ?s + Suc i * ?n" for x
  proof (cases "x < ?s + i * ?n")
    case True
    with that show ?thesis using Pt(6) by blast
  next
    case False
    then have "need (get t x)" using st that by (simp add: sl)
    moreover have "get t x = get st x" using False by (simp add: Pt(5) written_def)
    ultimately show ?thesis by simp
  qed
  ultimately show ?thesis
    using st nw(2) by (simp add: at_def Pt(3,4) algebra_simps)
qed

lemma loop:
  assumes "inv st" and "unat (mr_va_start r) mod 2 ^ k = 0"
    and "\<And>i. i < nat (mr_n r) \<Longrightarrow> ok (mr_va_start r + of_nat i * 2 ^ k)"
    and "unit_loop r body st = Inr st'"
  shows "inv st' \<and> unat (mr_va_start r) + nat (mr_n r) * 2 ^ k \<le> 2 ^ 32
    \<and> (\<forall>x. get st' x = written (nat (mr_n r)) st x)
    \<and> (\<forall>x. unat (mr_va_start r) div 2 ^ b \<le> x \<and> x < unat (mr_va_start r) div 2 ^ b + nat (mr_n r) * 2 ^ (k - b)
        \<longrightarrow> need (get st x))"
proof -
  obtain va pa where fr: "for_res 0 (nat (mr_n r)) (\<lambda>i (va, pa, st). bind_res (body va pa st) (\<lambda>(pa, st).
        Inr (va + map_inc (mr_mu r), pa + map_inc (mr_mu r), st))) (mr_va_start r, mr_pa_start r, st)
      = Inr (va, pa, st')"
    using assms(4) by (auto simp: unit_loop_def bind_res_Inr)
  have "at st (0 + nat (mr_n r)) (va, pa, st')"
  proof (rule for_res_invariant [where P = "at st", OF fr at_0 [OF assms(1)]])
    fix i s s'
    assume i: "0 \<le> i" "i < 0 + nat (mr_n r)" and P: "at st i s"
      and bd: "(case s of (va, pa, st) \<Rightarrow> bind_res (body va pa st) (\<lambda>(pa, st).
        Inr (va + map_inc (mr_mu r), pa + map_inc (mr_mu r), st))) = Inr s'"
    obtain v p t where s: "s = (v, p, t)" by (metis prod_cases3)
    obtain p' t' where one: "body v p t = Inr (p', t')" and s': "s' = (v + 2 ^ k, p' + 2 ^ k, t')"
      using bd by (auto simp: s bind_res_Inr inc)
    have "ok v" using assms(3) i P by (auto simp: s at_def)
    from at_Suc [OF P [unfolded s] this assms(2) one] show "at st (Suc i) s'"
      unfolding s' .
  qed
  then show ?thesis by (simp add: at_def)
qed

lemma loop_total:
  assumes "inv st" and "unat (mr_va_start r) mod 2 ^ k = 0"
    and "\<And>i. i < nat (mr_n r) \<Longrightarrow> ok (mr_va_start r + of_nat i * 2 ^ k)"
    and "unat (mr_va_start r) + nat (mr_n r) * 2 ^ k \<le> 2 ^ 32"
    and "unat (mr_pa_start r) + nat (mr_n r) * 2 ^ k \<le> 2 ^ 32"
    and "\<forall>x. unat (mr_va_start r) div 2 ^ b \<le> x \<and> x < unat (mr_va_start r) div 2 ^ b + nat (mr_n r) * 2 ^ (k - b)
        \<longrightarrow> need (get st x)"
  shows "\<exists>st'. unit_loop r body st = Inr st'"
proof -
  have "\<exists>t. for_res 0 (nat (mr_n r)) (\<lambda>i (va, pa, st). bind_res (body va pa st) (\<lambda>(pa, st).
        Inr (va + map_inc (mr_mu r), pa + map_inc (mr_mu r), st))) (mr_va_start r, mr_pa_start r, st)
      = Inr t \<and> at st (0 + nat (mr_n r)) t"
  proof (rule for_res_total [where P = "at st", OF at_0 [OF assms(1)]])
    fix i s
    assume i: "0 \<le> i" "i < 0 + nat (mr_n r)" and P: "at st i s"
    obtain v p t where s: "s = (v, p, t)" by (metis prod_cases3)
    have lt: "unat a + i * 2 ^ k < 2 ^ 32" if "unat a + nat (mr_n r) * 2 ^ k \<le> 2 ^ 32" for a :: addr
    proof -
      have "i * 2 ^ k < nat (mr_n r) * 2 ^ k" using i by simp
      with that show ?thesis by linarith
    qed
    have add: "unat (a + of_nat i * 2 ^ k :: addr) = unat a + i * 2 ^ k"
      if "unat a + nat (mr_n r) * 2 ^ k \<le> 2 ^ 32" for a :: addr
    proof -
      have "a + of_nat i * 2 ^ k = of_nat (unat a + i * 2 ^ k)" by simp
      then show ?thesis using lt [OF that] by (simp only: unat_of_nat len_of_numeral_defs) simp
    qed
    have v: "unat v = unat (mr_va_start r) + i * 2 ^ k" and p: "unat p = unat (mr_pa_start r) + i * 2 ^ k"
      using P add [OF assms(4)] add [OF assms(5)] by (simp_all add: s at_def)
    have okv: "ok v" using assms(3) i P by (auto simp: s at_def)
    have "need (get t x)" if "x \<in> slots b k v" for x
    proof -
      have x: "unat (mr_va_start r) div 2 ^ b + i * 2 ^ (k - b) \<le> x" "x < unat (mr_va_start r) div 2 ^ b + Suc i * 2 ^ (k - b)"
        using that by (simp_all add: slots_of_unit [OF v assms(2)])
      have "Suc i * 2 ^ (k - b) \<le> nat (mr_n r) * 2 ^ (k - b)" using i by (intro mult_le_mono1) simp
      with x assms(6) have "need (get st x)" by simp
      moreover have "get t x = get st x"
        using P x(1) by (simp add: s at_def written_def)
      ultimately show ?thesis by simp
    qed
    then obtain p' t' where one: "body v p t = Inr (p', t')"
      using total [of t v p] P okv v p assms(2) by (auto simp: s at_def word_le_nat_alt)
    with at_Suc [OF P [unfolded s] okv assms(2) one] show "\<exists>s'. (case s of (va, pa, st) \<Rightarrow> bind_res (body va pa st) (\<lambda>(pa, st).
        Inr (va + map_inc (mr_mu r), pa + map_inc (mr_mu r), st))) = Inr s' \<and> at st (Suc i) s'"
      by (simp add: s inc)
  qed
  then show ?thesis by (auto simp: unit_loop_def)
qed

end

section \<open>Descriptors read back\<close>

lemma when_flag_read:
  assumes "field_ok F" "field_ok g" "fields_disjoint F g"
  shows "bits_get (when_flag fl m g d) F = bits_get d F" "bits_pull (when_flag fl m g d) F = bits_pull d F"
  using assms by (simp_all add: when_flag_def bits_get_or bits_pull_or bits_get_on_other bits_pull_on_other)

lemma section_de_type: "bits_get (section_de r pa) PDE_TYPE0 = 2"
  by (simp add: section_de_def Let_def when_flag_read field_read fields mask_eq_exp_minus_1)

lemma section_de_type1:
  "bits_get (section_de r pa) PDE_TYPE1 = (if mr_mu r = MAP_UNIT_SUPER_SECTION then 1 else 0)"
  by (simp add: section_de_def Let_def when_flag_read field_read fields)

lemma section_de_base: "mr_mu r \<noteq> MAP_UNIT_SUPER_SECTION \<Longrightarrow> bits_pull (section_de r pa) PDE_S_BASE = bits_push PDE_S_BASE pa"
  by (simp add: section_de_def Let_def when_flag_read field_read fields)

lemma super_section_de_base:
  "mr_mu r = MAP_UNIT_SUPER_SECTION \<Longrightarrow> bits_pull (section_de r pa) PDE_SS_BASE = bits_push PDE_SS_BASE pa"
  by (simp add: section_de_def Let_def when_flag_read field_read fields)

lemma page_te_type: "bits_get (page_te r pa) PTE_TYPE = (if mr_mu r = MAP_UNIT_LARGE_PAGE then 1
    else if bits_get (mr_flags r) MMR_XN = 0 then 2 else 3)"
proof -
  have "bits_get (bits_on PTE_SP_XN) PTE_TYPE = 1"
    by (simp add: bits_defs bits_mask_def fields)
  then have "bits_get (when_flag (mr_flags r) MMR_XN PTE_SP_XN (bits_set PTE_TYPE 2 OR bits_push PTE_SP_BASE pa)) PTE_TYPE
      = (if bits_get (mr_flags r) MMR_XN = 0 then 2 else 3)"
    unfolding when_flag_def
    by (simp only: bits_get_or split: if_split) (simp add: field_read PTE_TYPE_def PTE_SP_BASE_def mask_eq_exp_minus_1)
  then show ?thesis
    by (simp add: page_te_def Let_def when_flag_read bits_get_or bits_get_set_same bits_get_set_other
        bits_get_push_other field_ok_def fields_disjoint_def PTE_TYPE_def PTE_SP_BASE_def PTE_LP_BASE_def
        PTE_SHR_def PTE_NG_def PTE_AF_def PTE_C_def PTE_B_def PTE_APX_def PTE_AP_def PTE_LP_XN_def PTE_LP_TEX_def
        PTE_SP_TEX_def mask_eq_exp_minus_1)
qed

lemma page_te_base: "mr_mu r \<noteq> MAP_UNIT_LARGE_PAGE \<Longrightarrow> bits_pull (page_te r pa) PTE_SP_BASE = bits_push PTE_SP_BASE pa"
  by (simp add: page_te_def Let_def when_flag_read field_read fields)

lemma large_page_te_base:
  "mr_mu r = MAP_UNIT_LARGE_PAGE \<Longrightarrow> bits_pull (page_te r pa) PTE_LP_BASE = bits_push PTE_LP_BASE pa"
  by (simp add: page_te_def Let_def when_flag_read field_read fields)

section \<open>Directory entries\<close>

lemma unat_va_pde: "unat (bits_get va VA_PDE_IX) = unat va div 2 ^ 20"
proof -
  have "unat va div 2 ^ 20 < 2 ^ 12"
    by (rule less_mult_imp_div_less) simp
  then show ?thesis
    by (subst unat_bits_get) (simp_all add: field_ok_def VA_PDE_IX_def)
qed

lemma unat_va_pte: "unat (bits_get va VA_PTE_IX) = unat va div 2 ^ 12 mod 2 ^ 8"
  by (subst unat_bits_get) (simp_all add: field_ok_def VA_PTE_IX_def)

lemma fold_pd_set:
  "fold (\<lambda>k. pd_set (j + k) d) [0..<n] st = st\<lparr>pd := (\<lambda>x. if j \<le> x \<and> x < j + n then d else pd st x)\<rparr>"
proof (induction n)
  case 0
  have "(\<lambda>x. if j \<le> x \<and> x < j then d else pd st x) = pd st" by (rule ext) auto
  then show ?case by simp
next
  case (Suc n)
  then show ?case by (auto simp: pd_set_def fun_eq_iff)
qed

lemma map_inc_page_multiple:
  "mu \<noteq> MAP_UNIT_MAX \<Longrightarrow> unat (map_inc mu) mod 4096 = 0"
  by (cases mu) (simp_all add: map_inc_def pm_consts)

lemma mask_aligned: "k < 32 \<Longrightarrow> (v :: u32) AND (2 ^ k - 1) = 0 \<longleftrightarrow> unat v mod 2 ^ k = 0"
  using aligned_iff [of k v] by (simp add: aligned_def)

text \<open>An address in the block that an aligned base \<open>pa\<close> and a field of the top \<open>32 - k\<close> bits name.\<close>

lemma base_pa_aligned:
  assumes "k < 32" and "unat pa mod 2 ^ k = 0" and "bits_pull d (k, 32 - k) = bits_push (k, 32 - k) pa"
    and "unat va = a * 2 ^ k + off" and "off < 2 ^ k"
  shows "base_pa (k, 32 - k) d va = pa + of_nat off"
proof -
  have ok: "field_ok (k, 32 - k)" using assms(1) by (simp add: field_ok_def)
  have off: "va AND NOT (bits_on (k, 32 - k)) = take_bit k va"
    by (rule bit_word_eqI) (use assms(1) ok in \<open>auto simp: bit_simps bit_bits_on\<close>)
  have "unat (take_bit k va) = off"
    using assms(4,5) by (simp add: take_bit_eq_mod unat_mod_exp_u32)
  moreover have "of_nat (unat (take_bit k va)) = take_bit k va"
    by simp
  ultimately have "take_bit k va = of_nat off"
    by simp
  moreover have "bits_push (k, 32 - k) pa = pa"
  proof -
    have "take_bit k pa = 0"
      using assms(2) by (metis unsigned_take_bit_eq take_bit_eq_mod unat_eq_zero)
    have "k \<le> n" if n: "bit pa n" for n
    proof (rule ccontr)
      assume "\<not> k \<le> n"
      with n have "bit (take_bit k pa) n" by (simp add: bit_simps)
      with \<open>take_bit k pa = 0\<close> show False by simp
    qed
    then show ?thesis
      by (intro bit_word_eqI) (use assms(1) ok in \<open>auto simp: bit_bits_push\<close>)
  qed
  ultimately show ?thesis
    by (simp add: base_pa_def assms(3) off)
qed

lemma pde_section_fields: "PDE_S_BASE = (20, 32 - 20)" "PDE_SS_BASE = (24, 32 - 24)"
  "PTE_SP_BASE = (12, 32 - 12)" "PTE_LP_BASE = (16, 32 - 16)"
  by (simp_all add: fields)

section \<open>Sections and super sections\<close>

abbreviation as_unit :: "mmu_map_unit \<Rightarrow> mmu_map_req \<Rightarrow> mmu_map_req" where
  "as_unit mu r \<equiv> r\<lparr>mr_mu := mu\<rparr>"

lemma map_section_one_step:
  assumes "mr_mu r = MAP_UNIT_SECTION \<and> k = 20 \<or> mr_mu r = MAP_UNIT_SUPER_SECTION \<and> k = 24"
    and "map_section_one r va pa st = Inr (pa', st')"
  shows "mr_va_start r \<le> va \<and> pa' = pa \<and> (\<forall>x\<in>slots 20 k va. bits_get (pd st x) PDE_TYPE0 = 0)
    \<and> (\<forall>x. pd st' x = (if x \<in> slots 20 k va then section_de r pa else pd st x))"
proof -
  have n: "pm_alloc_nunits (mr_mu r) = 2 ^ (k - 20)" and mu: "mr_mu r \<noteq> MAP_UNIT_MAX"
    using assms(1) by auto
  let ?st = "fold (\<lambda>i. pd_set (unat va div 2 ^ 20 + i) (section_de r pa)) [0..<2 ^ (k - 20)] st"
  obtain t where t: "mmu_tlb_invalidate va (map_inc (mr_mu r)) ?st = Inr (?st\<lparr>tlb := t\<rparr>)"
    using mmu_tlb_invalidate_pages [OF map_inc_page_multiple [OF mu]] by blast
  have free: "\<forall>i<2 ^ (k - 20). bits_get (pd st (unat va div 2 ^ 20 + i)) PDE_TYPE0 = 0"
    and va: "mr_va_start r \<le> va" and res: "pa' = pa" "st' = ?st\<lparr>tlb := t\<rparr>"
    using assms(2) t unfolding map_section_one_def Let_def unat_va_pde n
    by (auto simp: assert_that_Inr)
  have "bits_get (pd st x) PDE_TYPE0 = 0" if "x \<in> slots 20 k va" for x
    using free [rule_format, of "x - unat va div 2 ^ 20"] that by (auto simp: slots_def)
  then show ?thesis
    using va res by (simp add: fold_pd_set slots_def)
qed

lemma map_section_one_total:
  assumes "mr_mu r = MAP_UNIT_SECTION \<and> k = 20 \<or> mr_mu r = MAP_UNIT_SUPER_SECTION \<and> k = 24"
    and "mr_va_start r \<le> va" "mr_pa_start r \<le> pa" "\<And>x. x \<in> slots 20 k va \<Longrightarrow> bits_get (pd st x) PDE_TYPE0 = 0"
  shows "\<exists>pa' st'. map_section_one r va pa st = Inr (pa', st')"
proof -
  have n: "pm_alloc_nunits (mr_mu r) = 2 ^ (k - 20)" and mu: "mr_mu r \<noteq> MAP_UNIT_MAX"
    using assms(1) by auto
  let ?st = "fold (\<lambda>i. pd_set (unat va div 2 ^ 20 + i) (section_de r pa)) [0..<2 ^ (k - 20)] st"
  obtain t where t: "mmu_tlb_invalidate va (map_inc (mr_mu r)) ?st = Inr (?st\<lparr>tlb := t\<rparr>)"
    using mmu_tlb_invalidate_pages [OF map_inc_page_multiple [OF mu]] by blast
  have "\<forall>i<2 ^ (k - 20). bits_get (pd st (unat va div 2 ^ 20 + i)) PDE_TYPE0 = 0"
    using assms(4) by (simp add: slots_def)
  then show ?thesis
    using assms(2,3) t unfolding map_section_one_def Let_def unat_va_pde n by simp
qed

interpretation section_map: unit_writer "as_unit MAP_UNIT_SECTION r" "map_section_one (as_unit MAP_UNIT_SECTION r)" pd
  "\<lambda>_. True" "\<lambda>_. True" "\<lambda>d. bits_get d PDE_TYPE0 = 0" "section_de (as_unit MAP_UNIT_SECTION r)" 20 20 for r
proof (unfold_locales, goal_cases)
  case 1
  show ?case by (simp add: map_inc_def pm_consts)
next
  case (4 st va pa pa' st')
  show ?case using map_section_one_step [OF _ 4(4), of 20] by simp
next
  case (5 st va pa)
  show ?case by (rule map_section_one_total [of _ 20]) (use 5 in auto)
qed (simp_all add: section_de_type)

interpretation super_map: unit_writer "as_unit MAP_UNIT_SUPER_SECTION r" "map_section_one (as_unit MAP_UNIT_SUPER_SECTION r)" pd
  "\<lambda>_. True" "\<lambda>_. True" "\<lambda>d. bits_get d PDE_TYPE0 = 0" "section_de (as_unit MAP_UNIT_SUPER_SECTION r)" 20 24 for r
proof (unfold_locales, goal_cases)
  case 1
  show ?case by (simp add: map_inc_def pm_consts)
next
  case (4 st va pa pa' st')
  show ?case using map_section_one_step [OF _ 4(4), of 24] by simp
next
  case (5 st va pa)
  show ?case by (rule map_section_one_total [of _ 24]) (use 5 in auto)
qed (simp_all add: section_de_type)

lemma va_to_pa_section:
  assumes "pd st (unat va div 2 ^ 20) = section_de r pa"
    and "mr_mu r = MAP_UNIT_SECTION \<and> k = 20 \<or> mr_mu r = MAP_UNIT_SUPER_SECTION \<and> k = 24"
    and "unat pa mod 2 ^ k = 0" and "unat va = a * 2 ^ k + off" and "off < 2 ^ k"
  shows "mmu_va_to_pa p2v va st = Inr (pa + of_nat off)"
proof -
  have k: "k < 32" using assms(2) by auto
  show ?thesis
  proof (cases "mr_mu r = MAP_UNIT_SECTION")
    case True
    then have k20: "k = 20" using assms(2) by auto
    have "base_pa PDE_S_BASE (section_de r pa) va = pa + of_nat off"
      unfolding pde_section_fields
      by (rule base_pa_aligned) (use assms(3-5) k20 True section_de_base [of r pa] in \<open>simp_all add: PDE_S_BASE_def\<close>)
    then show ?thesis
      by (simp only: mmu_va_to_pa_def Let_def unat_va_pde assms(1))
        (use True in \<open>simp add: section_de_type section_de_type1\<close>)
  next
    case False
    then have k24: "k = 24" and ss: "mr_mu r = MAP_UNIT_SUPER_SECTION" using assms(2) by auto
    have "base_pa PDE_SS_BASE (section_de r pa) va = pa + of_nat off"
      unfolding pde_section_fields
      by (rule base_pa_aligned) (use assms(3-5) k24 super_section_de_base [OF ss, of pa] in \<open>simp_all add: PDE_SS_BASE_def\<close>)
    then show ?thesis
      by (simp only: mmu_va_to_pa_def Let_def unat_va_pde assms(1))
        (use ss in \<open>simp add: section_de_type section_de_type1\<close>)
  qed
qed

definition unit_bits :: "mmu_map_unit \<Rightarrow> nat" where
  "unit_bits mu = map_units mu + PAGE_SIZE_SZ"

lemma map_inc_exp: "map_inc mu = 2 ^ unit_bits mu"
  by (simp add: map_inc_def unit_bits_def)

lemma unit_bits_less: "unit_bits mu < 32"
  by (cases mu) (simp_all add: unit_bits_def pm_consts)

lemma unit_bits_simps [simp]:
  "unit_bits MAP_UNIT_PAGE = 12" "unit_bits MAP_UNIT_LARGE_PAGE = 16"
  "unit_bits MAP_UNIT_SECTION = 20" "unit_bits MAP_UNIT_SUPER_SECTION = 24"
  by (simp_all add: unit_bits_def pm_consts)

lemma mmu_map_checks:
  assumes "mmu_map sa p2v r st = Inr st'"
  shows "0 < mr_n r" "mr_mu r \<noteq> MAP_UNIT_MAX"
    "unat (mr_va_start r) mod 2 ^ unit_bits (mr_mu r) = 0" "unat (mr_pa_start r) mod 2 ^ unit_bits (mr_mu r) = 0"
    "(if mr_mu r = MAP_UNIT_SECTION \<or> mr_mu r = MAP_UNIT_SUPER_SECTION
      then mmu_map_sections r st else mmu_map_pages sa p2v r st) = Inr st'"
  using assms unfolding mmu_map_def Let_def assert_that_Inr map_inc_exp mask_aligned [OF unit_bits_less]
  by simp_all

text \<open>The bytes of a request.\<close>

definition req_bytes :: "mmu_map_req \<Rightarrow> nat" where
  "req_bytes r = nat (mr_n r) * 2 ^ unit_bits (mr_mu r)"

lemma req_byte:
  assumes "unat (mr_va_start r) + req_bytes r \<le> 2 ^ 32" and "d < req_bytes r"
  shows "unat (mr_va_start r + of_nat d) = unat (mr_va_start r) + d"
proof -
  have "mr_va_start r + of_nat d = of_nat (unat (mr_va_start r) + d)" by simp
  moreover have "unat (mr_va_start r) + d < 2 ^ 32" using assms by linarith
  ultimately show ?thesis by (simp only: unat_of_nat len_of_numeral_defs) simp
qed

lemma sections_written:
  assumes "mr_mu r = MAP_UNIT_SECTION \<or> mr_mu r = MAP_UNIT_SUPER_SECTION"
    and "unat (mr_va_start r) mod 2 ^ unit_bits (mr_mu r) = 0" and "mmu_map_sections r st = Inr st'"
  shows "unat (mr_va_start r) + req_bytes r \<le> 2 ^ 32"
    and "\<And>d. d < req_bytes r \<Longrightarrow> pd st' ((unat (mr_va_start r) + d) div 2 ^ 20)
      = section_de r (mr_pa_start r + of_nat (d div 2 ^ unit_bits (mr_mu r)) * 2 ^ unit_bits (mr_mu r))"
    and "\<And>va. unat va < unat (mr_va_start r) \<or> unat (mr_va_start r) + req_bytes r \<le> unat va \<Longrightarrow>
      pd st' (unat va div 2 ^ 20) = pd st (unat va div 2 ^ 20)"
    and "\<And>d. d < req_bytes r \<Longrightarrow> bits_get (pd st ((unat (mr_va_start r) + d) div 2 ^ 20)) PDE_TYPE0 = 0"
proof -
  consider (s) "r = as_unit MAP_UNIT_SECTION r" | (ss) "r = as_unit MAP_UNIT_SUPER_SECTION r"
    using assms(1) by (metis mmu_map_req.surjective mmu_map_req.update_convs(6))
  note cases = this
  have need: "unat va div 2 ^ 20 \<le> (unat va + d) div 2 ^ 20 \<and> (unat va + d) div 2 ^ 20 < unat va div 2 ^ 20 + n * 2 ^ (k - 20)"
    if al: "unat va mod 2 ^ k = 0" and le: "20 \<le> k" and lt: "d < n * 2 ^ k" for va :: addr and d n k :: nat
  proof
    show "unat va div 2 ^ 20 \<le> (unat va + d) div 2 ^ 20" by (simp add: div_le_mono)
    have kb: "(2 :: nat) ^ k = 2 ^ (k - 20) * 2 ^ 20"
      using le by (metis le_add_diff_inverse2 power_add)
    obtain q where q: "unat va = 2 ^ k * q" using al by (metis mod_0_imp_dvd dvd_def)
    then have v: "unat va div 2 ^ 20 = 2 ^ (k - 20) * q" unfolding q kb by simp
    have "unat va + d < (2 ^ (k - 20) * q + n * 2 ^ (k - 20)) * 2 ^ 20"
      using lt unfolding q kb by (simp add: algebra_simps)
    then show "(unat va + d) div 2 ^ 20 < unat va div 2 ^ 20 + n * 2 ^ (k - 20)"
      unfolding v by (rule less_mult_imp_div_less)
  qed
  have main: "unat (mr_va_start r) + req_bytes r \<le> 2 ^ 32 \<and>
    (\<forall>d<req_bytes r. pd st' ((unat (mr_va_start r) + d) div 2 ^ 20)
      = section_de r (mr_pa_start r + of_nat (d div 2 ^ unit_bits (mr_mu r)) * 2 ^ unit_bits (mr_mu r))) \<and>
    (\<forall>va. unat va < unat (mr_va_start r) \<or> unat (mr_va_start r) + req_bytes r \<le> unat va \<longrightarrow>
      pd st' (unat va div 2 ^ 20) = pd st (unat va div 2 ^ 20)) \<and>
    (\<forall>d<req_bytes r. bits_get (pd st ((unat (mr_va_start r) + d) div 2 ^ 20)) PDE_TYPE0 = 0)"
    using cases
  proof cases
    case s
    then have mu: "mr_mu r = MAP_UNIT_SECTION" by (metis mmu_map_req.select_convs(6) mmu_map_req.surjective mmu_map_req.update_convs(6))
    have al: "unat (mr_va_start r) mod 2 ^ 20 = 0" using assms(2) by (simp add: mu)
    note L = section_map.loop [where st = st and r = r and st' = st', folded s, OF TrueI al TrueI assms(3) [unfolded mmu_map_sections_def]]
    note W = section_map.written_byte [where r = r and st = st and n = "nat (mr_n r)", folded s, OF al] section_map.written_outside [where r = r and st = st and n = "nat (mr_n r)", folded s, OF _ al]
    show ?thesis
      using L W need [OF al] by (auto simp: req_bytes_def mu)
  next
    case ss
    then have mu: "mr_mu r = MAP_UNIT_SUPER_SECTION" by (metis mmu_map_req.select_convs(6) mmu_map_req.surjective mmu_map_req.update_convs(6))
    have al: "unat (mr_va_start r) mod 2 ^ 24 = 0" using assms(2) by (simp add: mu)
    note L = super_map.loop [where st = st and r = r and st' = st', folded ss, OF TrueI al TrueI assms(3) [unfolded mmu_map_sections_def]]
    note W = super_map.written_byte [where r = r and st = st and n = "nat (mr_n r)", folded ss, OF al] super_map.written_outside [where r = r and st = st and n = "nat (mr_n r)", folded ss, OF _ al]
    show ?thesis
      using L W need [OF al] by (auto simp: req_bytes_def mu)
  qed
  show "unat (mr_va_start r) + req_bytes r \<le> 2 ^ 32"
    and "\<And>d. d < req_bytes r \<Longrightarrow> pd st' ((unat (mr_va_start r) + d) div 2 ^ 20)
      = section_de r (mr_pa_start r + of_nat (d div 2 ^ unit_bits (mr_mu r)) * 2 ^ unit_bits (mr_mu r))"
    and "\<And>va. unat va < unat (mr_va_start r) \<or> unat (mr_va_start r) + req_bytes r \<le> unat va \<Longrightarrow>
      pd st' (unat va div 2 ^ 20) = pd st (unat va div 2 ^ 20)"
    and "\<And>d. d < req_bytes r \<Longrightarrow> bits_get (pd st ((unat (mr_va_start r) + d) div 2 ^ 20)) PDE_TYPE0 = 0"
    using main by blast+
qed

section \<open>Pages and large pages\<close>

text \<open>
  The second-level tables of a set \<open>D\<close> of directory entries: each entry of \<open>D\<close> points to a
  table, \<open>mmu_slub_pa_to_va\<close> knows the tables from the slab, and tables of different entries do
  not overlap. \<open>mmu_slub_pa_to_va\<close> reads \<open>struct page\<close> and the slab, which this file does not
  change.
\<close>

definition reads_more :: "('a mmu_state_scheme \<Rightarrow> addr \<Rightarrow> addr res) \<Rightarrow> bool" where
  "reads_more p2v \<longleftrightarrow> (\<forall>s s'. mmu_state.more s = mmu_state.more s' \<longrightarrow> p2v s = p2v s')"

lemma reads_moreD: "reads_more p2v \<Longrightarrow> mmu_state.more s = mmu_state.more s' \<Longrightarrow> p2v s = p2v s'"
  unfolding reads_more_def by blast

definition slab_tables :: "('a mmu_state_scheme \<Rightarrow> addr \<Rightarrow> addr res) \<Rightarrow> nat set \<Rightarrow> 'a mmu_state_scheme \<Rightarrow> bool" where
  "slab_tables p2v D st \<longleftrightarrow>
    reads_more p2v \<and>
    (\<forall>j\<in>D. bits_get (pd st j) PDE_TYPE0 = 1 \<and>
      (0x400 \<le> j \<and> j < 0x404 \<or>
       (\<exists>va. p2v st (bits_pull (pd st j) PDE_PT_BASE) = Inr va \<and> unat va mod 1024 = 0))) \<and>
    (\<forall>i\<in>D. \<forall>j\<in>D. i \<noteq> j \<longrightarrow> pt_of p2v i st \<noteq> pt_of p2v j st)"

definition te_at :: "('a mmu_state_scheme \<Rightarrow> addr \<Rightarrow> addr res) \<Rightarrow> nat set \<Rightarrow> 'a mmu_state_scheme \<Rightarrow> nat \<Rightarrow> u32" where
  "te_at p2v D st x =
    (if x div 256 \<in> D
     then (case pt_of p2v (x div 256) st of Inl _ \<Rightarrow> 0 | Inr pt \<Rightarrow> pt_get (pt_index pt (x mod 256)) 0 st)
     else 0)"

lemma pt_get_index: "pt_get (pt_index pt i) k st = pt_get pt (i + k) st"
  by (cases pt) (simp_all add: algebra_simps)

lemma fold_pt_set_static:
  "fold (\<lambda>k. pt_set (Static b) k d) [0..<n] st
    = st\<lparr>kpt := (\<lambda>x. if b \<le> x \<and> x < b + n then d else kpt st x)\<rparr>"
proof (induction n)
  case 0
  have "(\<lambda>x. if b \<le> x \<and> x < b then d else kpt st x) = kpt st" by (rule ext) auto
  then show ?case by simp
next
  case (Suc n)
  then show ?case by (auto simp: fun_eq_iff)
qed

lemma fold_pt_set_slab:
  "fold (\<lambda>k. pt_set (Slab v) k d) [0..<n] st
    = st\<lparr>ptm := (\<lambda>x. if \<exists>k<n. x = v + 4 * of_nat k then d else ptm st x)\<rparr>"
proof (induction n)
  case (Suc n)
  have "(\<lambda>x. if \<exists>k<n. x = v + 4 * of_nat k then d else ptm st x)(v + 4 * of_nat n := d)
      = (\<lambda>x. if \<exists>k<Suc n. x = v + 4 * of_nat k then d else ptm st x)"
    by (rule ext) (auto simp: less_Suc_eq)
  then show ?case using Suc.IH by simp
qed simp

text \<open>The word \<open>i\<close> of a table is at one address only.\<close>

lemma slab_word_inj:
  assumes "unat v mod 1024 = 0" "unat w mod 1024 = 0" "i < 256" "k < 256"
    and "v + 4 * of_nat i = (w :: addr) + 4 * of_nat k"
  shows "v = w \<and> i = k"
proof -
  have u: "unat (a + 4 * of_nat m :: addr) = unat a + 4 * m" if a: "unat a mod 1024 = 0" and m: "m < 256" for a :: addr and m
  proof -
    obtain q where "unat a = 1024 * q" using a by (metis mod_0_imp_dvd dvd_def)
    moreover have "unat a < 1024 * 4194304" using unat_u32_less [of a] by simp
    ultimately have "unat a + 4 * m < 4294967296" using m by simp
    moreover have "a + 4 * of_nat m = of_nat (unat a + 4 * m)" by simp
    ultimately show ?thesis by (simp only: unat_of_nat len_of_numeral_defs) simp
  qed
  have "unat v + 4 * i = unat w + 4 * k"
    using arg_cong [OF assms(5), of unat] by (simp only: u [OF assms(1,3)] u [OF assms(2,4)])
  moreover obtain p q where "unat v = 1024 * p" "unat w = 1024 * q"
    using assms(1,2) by (metis mod_0_imp_dvd dvd_def)
  moreover have "m + 4 * (l :: nat) = 1024 * p' + 4 * l \<Longrightarrow> (m + 4 * l) div 1024 = p'" if "l < 256" for m l p'
    using that by simp
  ultimately have "p = q" and "4 * i = 4 * k"
    using assms(3,4) by (metis add_left_cancel)+
  then have "unat v = unat w \<and> i = k"
    using \<open>unat v = 1024 * p\<close> \<open>unat w = 1024 * q\<close> by simp
  then show ?thesis by (simp add: word_unat_eq_iff)
qed

fun wf_pt :: "ptab \<Rightarrow> bool" where
  "wf_pt (Static b) \<longleftrightarrow> b mod 256 = 0"
| "wf_pt (Slab v) \<longleftrightarrow> unat v mod 1024 = 0"

lemma static_word_inj:
  assumes "b mod 256 = 0" "c mod 256 = 0" "i < 256" "k < 256" and "b + i = c + (k :: nat)"
  shows "b = c \<and> i = k"
proof -
  obtain p q where "b = 256 * p" "c = 256 * q"
    using assms(1,2) by (metis mod_0_imp_dvd dvd_def)
  moreover have "(256 * m + l) div 256 = m" if "l < 256" for m l :: nat
    using that by simp
  ultimately show ?thesis
    using assms(3-5) by (metis add_left_cancel)
qed

lemma pt_get_fold:
  assumes "wf_pt pt" "wf_pt pt'" "i + n \<le> 256" "x < 256"
  shows "pt_get pt' x (fold (\<lambda>k. pt_set (pt_index pt i) k d) [0..<n] st)
    = (if pt' = pt \<and> i \<le> x \<and> x < i + n then d else pt_get pt' x st)"
proof (cases pt)
  case (Static b)
  then show ?thesis
  proof (cases pt')
    case (Static c)
    have "b + i \<le> c + x \<and> c + x < b + i + n \<longleftrightarrow> c = b \<and> i \<le> x \<and> x < i + n"
    proof
      assume a: "b + i \<le> c + x \<and> c + x < b + i + n"
      then obtain k where k: "c + x = b + (i + k)" "k < n"
        by (metis add.assoc le_Suc_ex add_less_cancel_left)
      have "c = b \<and> x = i + k"
        by (rule static_word_inj) (use assms Static \<open>pt = _\<close> k in simp_all)
      with k show "c = b \<and> i \<le> x \<and> x < i + n" by simp
    qed auto
    then show ?thesis
      using \<open>pt = _\<close> Static by (simp add: fold_pt_set_static)
  qed (simp add: fold_pt_set_static)
next
  case (Slab v)
  then show ?thesis
  proof (cases pt')
    case (Slab w)
    have "(\<exists>k<n. w + 4 * of_nat x = v + 4 * of_nat i + 4 * of_nat k) \<longleftrightarrow> w = v \<and> i \<le> x \<and> x < i + n"
    proof
      assume "\<exists>k<n. w + 4 * of_nat x = v + 4 * of_nat i + 4 * of_nat k"
      then obtain k where k: "k < n" "w + 4 * of_nat x = v + 4 * of_nat (i + k)"
        by (auto simp: algebra_simps)
      have "w = v \<and> x = i + k"
        by (rule slab_word_inj [OF _ _ _ _ k(2)]) (use assms Slab \<open>pt = _\<close> k(1) in simp_all)
      with k show "w = v \<and> i \<le> x \<and> x < i + n" by simp
    next
      assume a: "w = v \<and> i \<le> x \<and> x < i + n"
      then obtain k where k: "x = i + k" by (metis le_Suc_ex)
      with a show "\<exists>k<n. w + 4 * of_nat x = v + 4 * of_nat i + 4 * of_nat k"
        by (intro exI [of _ k]) (simp add: algebra_simps)
    qed
    then show ?thesis
      using \<open>pt = _\<close> Slab by (simp add: fold_pt_set_slab)
  qed (simp add: fold_pt_set_slab)
qed

lemma slab_tables_pt:
  assumes "slab_tables p2v D st" and "j \<in> D"
  shows "\<exists>pt. pt_of p2v j st = Inr pt \<and> wf_pt pt"
proof -
  have "0x400 \<le> j \<and> j < 0x404 \<or> (\<exists>va. p2v st (bits_pull (pd st j) PDE_PT_BASE) = Inr va \<and> unat va mod 1024 = 0)"
    using assms by (simp add: slab_tables_def)
  then show ?thesis by (auto simp: pt_of_def)
qed

text \<open>Writing \<open>n\<close> entries from \<open>i\<close> on of the table of entry \<open>j\<close>.\<close>

lemma te_at_fold:
  assumes tb: "slab_tables p2v D st" and j: "j \<in> D" and pt: "pt_of p2v j st = Inr pt" and n: "i + n \<le> 256"
    and st': "st' = fold (\<lambda>k. pt_set (pt_index pt i) k d) [0..<n] st"
  shows "te_at p2v D st' x = (if j * 256 + i \<le> x \<and> x < j * 256 + i + n then d else te_at p2v D st x)"
    and "pd st' = pd st" and "mmu_state.more st' = mmu_state.more st"
proof -
  show pdm: "pd st' = pd st" and more: "mmu_state.more st' = mmu_state.more st"
    unfolding st' by (cases pt; simp add: fold_pt_set_static fold_pt_set_slab)+
  have p2v: "p2v st' = p2v st"
    using tb more unfolding slab_tables_def by (blast intro: reads_moreD)
  have same: "pt_of p2v l st' = pt_of p2v l st" for l
    by (simp add: pt_of_def p2v pdm)
  show "te_at p2v D st' x = (if j * 256 + i \<le> x \<and> x < j * 256 + i + n then d else te_at p2v D st x)"
  proof (cases "x div 256 \<in> D")
    case False
    then have "\<not> (j * 256 + i \<le> x \<and> x < j * 256 + i + n)"
    proof -
      have "x div 256 = j" if "j * 256 + i \<le> x" "x < j * 256 + i + n"
        by (rule div_nat_eqI) (use that n in simp_all)
      with False j show ?thesis by blast
    qed
    note c = if_not_P [OF this]
    have "te_at p2v D st' x = te_at p2v D st x"
      using False by (simp only: te_at_def if_False)
    then show ?thesis by (simp only: c)
  next
    case True
    have wf: "wf_pt pt" using slab_tables_pt [OF tb j] pt by simp
    obtain pl where pl: "pt_of p2v (x div 256) st = Inr pl" "wf_pt pl"
      using slab_tables_pt [OF tb True] by blast
    have eq: "pl = pt \<longleftrightarrow> x div 256 = j"
      using tb True j pl pt unfolding slab_tables_def by (metis sum.inject(2))
    have "j * 256 + i \<le> x \<and> x < j * 256 + i + n \<longleftrightarrow> x div 256 = j \<and> i \<le> x mod 256 \<and> x mod 256 < i + n"
    proof
      assume a: "j * 256 + i \<le> x \<and> x < j * 256 + i + n"
      have "x div 256 = j" by (rule div_nat_eqI) (use a n in simp_all)
      with a show "x div 256 = j \<and> i \<le> x mod 256 \<and> x mod 256 < i + n"
        using div_mult_mod_eq [of x 256] by auto
    next
      assume a: "x div 256 = j \<and> i \<le> x mod 256 \<and> x mod 256 < i + n"
      then show "j * 256 + i \<le> x \<and> x < j * 256 + i + n"
        using div_mult_mod_eq [of x 256] by auto
    qed
    moreover have "te_at p2v D st' x = pt_get pl (x mod 256) st'" "te_at p2v D st x = pt_get pl (x mod 256) st"
      using True pl by (simp_all add: te_at_def same pt_get_index)
    ultimately show ?thesis
      using pt_get_fold [OF wf pl(2) n, of "x mod 256" d st, folded st'] eq by simp
  qed
qed

definition in_dirs :: "nat set \<Rightarrow> addr \<Rightarrow> bool" where
  "in_dirs D va \<longleftrightarrow> unat va div 2 ^ 20 \<in> D"

lemma page_slot:
  assumes "unat va mod 2 ^ k = 0" and "12 \<le> k" and "k \<le> 20"
  shows "unat va div 2 ^ 12 = unat va div 2 ^ 20 * 256 + unat va div 2 ^ 12 mod 2 ^ 8"
    and "unat va div 2 ^ 12 mod 2 ^ 8 + 2 ^ (k - 12) \<le> 256"
proof -
  have "unat va div 2 ^ 20 = unat va div 2 ^ 12 div 2 ^ 8"
    by (simp flip: div_mult2_eq)
  then show "unat va div 2 ^ 12 = unat va div 2 ^ 20 * 256 + unat va div 2 ^ 12 mod 2 ^ 8"
    by simp
  have kb: "(2 :: nat) ^ k = 2 ^ (k - 12) * 2 ^ 12"
    using assms(2) by (metis le_add_diff_inverse2 power_add)
  obtain q where "unat va = 2 ^ k * q" using assms(1) by (metis mod_0_imp_dvd dvd_def)
  then have q: "unat va div 2 ^ 12 = 2 ^ (k - 12) * q" unfolding kb by simp
  have k8: "(2 :: nat) ^ 8 = 2 ^ (k - 12) * 2 ^ (20 - k)"
    using assms(2,3) by (simp flip: power_add)
  have "2 ^ (k - 12) * q mod 2 ^ 8 = 2 ^ (k - 12) * (q mod 2 ^ (20 - k))"
    unfolding k8 by (rule mult_mod_right [symmetric])
  moreover have "2 ^ (k - 12) * Suc (q mod 2 ^ (20 - k)) \<le> 2 ^ (k - 12) * 2 ^ (20 - k)"
    by (intro mult_le_mono2 Suc_leI) simp
  ultimately show "unat va div 2 ^ 12 mod 2 ^ 8 + 2 ^ (k - 12) \<le> 256"
    unfolding q using k8 by simp
qed

lemma map_page_one_cases:
  assumes tb: "slab_tables p2v D st" and ok: "in_dirs D va" and al: "unat va mod 2 ^ k = 0"
    and mu: "mr_mu r = MAP_UNIT_PAGE \<and> k = 12 \<or> mr_mu r = MAP_UNIT_LARGE_PAGE \<and> k = 16"
  shows "\<exists>st'. slab_tables p2v D st' \<and> map_page_one sa p2v r va pa st =
      assert_that ''mmu.c:209'' (mr_va_start r \<le> va)
       (assert_that ''mmu.c:210'' (mr_pa_start r \<le> pa)
         (assert_that ''mmu.c:254'' (\<forall>x\<in>slots 12 k va. bits_get (te_at p2v D st x) PTE_TYPE = 0) (Inr (pa, st'))))
    \<and> (\<forall>x. te_at p2v D st' x = (if x \<in> slots 12 k va then page_te r pa else te_at p2v D st x))"
proof -
  let ?j = "unat va div 2 ^ 20" and ?i = "unat va div 2 ^ 12 mod 2 ^ 8"
  have j: "?j \<in> D" using ok by (simp add: in_dirs_def)
  have k: "12 \<le> k" "k \<le> 20" using mu by auto
  have n: "pm_alloc_nunits (mr_mu r) = 2 ^ (k - 12)" and mum: "mr_mu r \<noteq> MAP_UNIT_MAX" using mu by auto
  have t1: "bits_get (pd st ?j) PDE_TYPE0 = 1" using tb j by (simp add: slab_tables_def)
  obtain pt where pt: "pt_of p2v ?j st = Inr pt" "wf_pt pt" using slab_tables_pt [OF tb j] by blast
  note sl = page_slot [OF al k]
  define st1 where "st1 = fold (\<lambda>k. pt_set (pt_index pt ?i) k (page_te r pa)) [0..<2 ^ (k - 12)] st"
  obtain t where t: "mmu_tlb_invalidate va (map_inc (mr_mu r)) st1 = Inr (st1\<lparr>tlb := t\<rparr>)"
    using mmu_tlb_invalidate_pages [OF map_inc_page_multiple [OF mum]] by blast
  note F = te_at_fold [OF tb j pt(1) sl(2) st1_def]
  have rm: "reads_more p2v" using tb by (simp add: slab_tables_def)
  have mt: "mmu_state.more (s\<lparr>tlb := t\<rparr>) = mmu_state.more s" for s :: "'a mmu_state_scheme" by simp
  have same: "te_at p2v D (st1\<lparr>tlb := t\<rparr>) x = te_at p2v D st1 x"
    and pts: "pt_of p2v l (st1\<lparr>tlb := t\<rparr>) = pt_of p2v l st" for x l
  proof -
    have "p2v (st1\<lparr>tlb := t\<rparr>) = p2v st1" "p2v st1 = p2v st"
      by (rule reads_moreD [OF rm], simp only: mt F(3))+
    then show "pt_of p2v l (st1\<lparr>tlb := t\<rparr>) = pt_of p2v l st"
      by (simp add: pt_of_def F(2))
    have pt_tlb: "pt_get q k (s\<lparr>tlb := t\<rparr>) = pt_get q k s" for q k and s :: "'a mmu_state_scheme"
      by (cases q) simp_all
    have "pt_of p2v l (st1\<lparr>tlb := t\<rparr>) = pt_of p2v l st1" for l
      using \<open>p2v (st1\<lparr>tlb := t\<rparr>) = p2v st1\<close> by (simp add: pt_of_def)
    then show "te_at p2v D (st1\<lparr>tlb := t\<rparr>) x = te_at p2v D st1 x"
      by (simp add: te_at_def pt_tlb split: sum.split)
  qed
  have p2vs: "p2v (st1\<lparr>tlb := t\<rparr>) = p2v st"
    by (rule reads_moreD [OF rm]) (simp only: mt F(3))
  have "slab_tables p2v D (st1\<lparr>tlb := t\<rparr>)"
    using tb pts by (simp add: slab_tables_def F(2) p2vs)
  moreover have "te_at p2v D (st1\<lparr>tlb := t\<rparr>) x = (if x \<in> slots 12 k va then page_te r pa else te_at p2v D st x)" for x
    unfolding same F(1) slots_def sl(1) [symmetric] by simp
  moreover have "(\<forall>l<2 ^ (k - 12). bits_get (pt_get (pt_index pt ?i) l st) PTE_TYPE = 0) \<longleftrightarrow>
      (\<forall>x\<in>slots 12 k va. bits_get (te_at p2v D st x) PTE_TYPE = 0)"
  proof -
    have te: "te_at p2v D st (unat va div 2 ^ 12 + l) = pt_get (pt_index pt ?i) l st" if l: "l < 2 ^ (k - 12)" for l
    proof -
      have "(unat va div 2 ^ 12 + l) div 256 = ?j" "(unat va div 2 ^ 12 + l) mod 256 = ?i + l"
        using sl l by (simp_all add: div_nat_eqI mod_nat_eqI)
      then show ?thesis using j pt by (simp add: te_at_def pt_get_index)
    qed
    show ?thesis
    proof
      assume a: "\<forall>l<2 ^ (k - 12). bits_get (pt_get (pt_index pt ?i) l st) PTE_TYPE = 0"
      show "\<forall>x\<in>slots 12 k va. bits_get (te_at p2v D st x) PTE_TYPE = 0"
      proof
        fix x assume "x \<in> slots 12 k va"
        then obtain l where "x = unat va div 2 ^ 12 + l" "l < 2 ^ (k - 12)"
          unfolding slots_def by (metis atLeastLessThan_iff le_Suc_ex add_less_cancel_left)
        then show "bits_get (te_at p2v D st x) PTE_TYPE = 0" using a te by simp
      qed
    next
      assume a: "\<forall>x\<in>slots 12 k va. bits_get (te_at p2v D st x) PTE_TYPE = 0"
      show "\<forall>l<2 ^ (k - 12). bits_get (pt_get (pt_index pt ?i) l st) PTE_TYPE = 0"
      proof (intro allI impI)
        fix l :: nat
        assume l: "l < 2 ^ (k - 12)"
        then have "unat va div 2 ^ 12 + l \<in> slots 12 k va" by (simp add: slots_def)
        with a have "bits_get (te_at p2v D st (unat va div 2 ^ 12 + l)) PTE_TYPE = 0" by blast
        then show "bits_get (pt_get (pt_index pt ?i) l st) PTE_TYPE = 0"
          by (simp only: te [OF l])
      qed
    qed
  qed
  ultimately show ?thesis
    unfolding map_page_one_def Let_def unat_va_pde unat_va_pte n t1
    using pt t by (intro exI [of _ "st1\<lparr>tlb := t\<rparr>"]) (simp add: assert_that_def flip: st1_def [simplified])
qed

lemma map_page_one_step:
  assumes "mr_mu r = MAP_UNIT_PAGE \<and> k = 12 \<or> mr_mu r = MAP_UNIT_LARGE_PAGE \<and> k = 16"
    and "slab_tables p2v D st" "in_dirs D va" "unat va mod 2 ^ k = 0" "map_page_one sa p2v r va pa st = Inr (pa', st')"
  shows "mr_va_start r \<le> va \<and> pa' = pa \<and> slab_tables p2v D st'
    \<and> (\<forall>x\<in>slots 12 k va. bits_get (te_at p2v D st x) PTE_TYPE = 0)
    \<and> (\<forall>x. te_at p2v D st' x = (if x \<in> slots 12 k va then page_te r pa else te_at p2v D st x))"
proof -
  obtain s1 where s1: "slab_tables p2v D s1" "map_page_one sa p2v r va pa st =
      assert_that ''mmu.c:209'' (mr_va_start r \<le> va)
       (assert_that ''mmu.c:210'' (mr_pa_start r \<le> pa)
         (assert_that ''mmu.c:254'' (\<forall>x\<in>slots 12 k va. bits_get (te_at p2v D st x) PTE_TYPE = 0) (Inr (pa, s1))))"
    "\<forall>x. te_at p2v D s1 x = (if x \<in> slots 12 k va then page_te r pa else te_at p2v D st x)"
    using map_page_one_cases [OF assms(2-4,1), of sa pa] by blast
  then show ?thesis
    using assms(5) unfolding s1(2) assert_that_Inr by blast
qed

lemma map_page_one_total:
  assumes "mr_mu r = MAP_UNIT_PAGE \<and> k = 12 \<or> mr_mu r = MAP_UNIT_LARGE_PAGE \<and> k = 16"
    and "slab_tables p2v D st" "in_dirs D va" "unat va mod 2 ^ k = 0" "mr_va_start r \<le> va" "mr_pa_start r \<le> pa"
    and "\<And>x. x \<in> slots 12 k va \<Longrightarrow> bits_get (te_at p2v D st x) PTE_TYPE = 0"
  shows "\<exists>pa' st'. map_page_one sa p2v r va pa st = Inr (pa', st')"
  using map_page_one_cases [OF assms(2-4,1), of sa pa] assms(5-7) by auto

lemma page_te_busy: "bits_get (page_te r pa) PTE_TYPE \<noteq> 0"
  by (simp add: page_te_type)

interpretation page_map: unit_writer "as_unit MAP_UNIT_PAGE r" "map_page_one sa p2v (as_unit MAP_UNIT_PAGE r)"
  "te_at p2v D" "slab_tables p2v D" "in_dirs D" "\<lambda>d. bits_get d PTE_TYPE = 0" "page_te (as_unit MAP_UNIT_PAGE r)" 12 12
  for r and sa :: "'a mmu_state_scheme \<Rightarrow> ('a mmu_state_scheme \<times> addr) res" and p2v D
proof (unfold_locales, goal_cases)
  case 1
  show ?case by (simp add: map_inc_def pm_consts)
next
  case (4 st va pa pa' st')
  then show ?case using map_page_one_step [OF _ 4] by simp
next
  case (5 st va pa)
  show ?case by (rule map_page_one_total [of _ 12]) (use 5 in auto)
qed (simp_all add: page_te_busy)

interpretation large_map: unit_writer "as_unit MAP_UNIT_LARGE_PAGE r" "map_page_one sa p2v (as_unit MAP_UNIT_LARGE_PAGE r)"
  "te_at p2v D" "slab_tables p2v D" "in_dirs D" "\<lambda>d. bits_get d PTE_TYPE = 0" "page_te (as_unit MAP_UNIT_LARGE_PAGE r)" 12 16
  for r and sa :: "'a mmu_state_scheme \<Rightarrow> ('a mmu_state_scheme \<times> addr) res" and p2v D
proof (unfold_locales, goal_cases)
  case 1
  show ?case by (simp add: map_inc_def pm_consts)
next
  case (4 st va pa pa' st')
  then show ?case using map_page_one_step [OF _ 4] by simp
next
  case (5 st va pa)
  show ?case by (rule map_page_one_total [of _ 16]) (use 5 in auto)
qed (simp_all add: page_te_busy)

text \<open>A request whose directory entries all point to second-level tables.\<close>

definition page_request :: "mmu_map_req \<Rightarrow> nat set \<Rightarrow> bool" where
  "page_request r D \<longleftrightarrow> (mr_mu r = MAP_UNIT_PAGE \<or> mr_mu r = MAP_UNIT_LARGE_PAGE) \<and>
    (\<forall>d<req_bytes r. in_dirs D (mr_va_start r + of_nat d))"

lemma as_unit_same: "mr_mu r = mu \<Longrightarrow> r = as_unit mu r"
  by auto

lemma pages_written:
  assumes rq: "page_request r D" and tb: "slab_tables p2v D st"
    and al: "unat (mr_va_start r) mod 2 ^ unit_bits (mr_mu r) = 0" and m: "mmu_map_pages sa p2v r st = Inr st'"
  shows "slab_tables p2v D st' \<and> unat (mr_va_start r) + req_bytes r \<le> 2 ^ 32 \<and>
    (\<forall>d<req_bytes r. te_at p2v D st' ((unat (mr_va_start r) + d) div 2 ^ 12)
      = page_te r (mr_pa_start r + of_nat (d div 2 ^ unit_bits (mr_mu r)) * 2 ^ unit_bits (mr_mu r))) \<and>
    (\<forall>va. unat va < unat (mr_va_start r) \<or> unat (mr_va_start r) + req_bytes r \<le> unat va \<longrightarrow>
      te_at p2v D st' (unat va div 2 ^ 12) = te_at p2v D st (unat va div 2 ^ 12))"
proof -
  have dirs: "in_dirs D (mr_va_start r + of_nat i * 2 ^ k)"
    if "i < nat (mr_n r)" and k: "unit_bits (mr_mu r) = k" for i k
  proof -
    have "i * 2 ^ k < req_bytes r" using that(1) by (simp add: req_bytes_def k)
    with rq have "in_dirs D (mr_va_start r + of_nat (i * 2 ^ k))" unfolding page_request_def by blast
    then show ?thesis by simp
  qed
  consider (p) "mr_mu r = MAP_UNIT_PAGE" | (lp) "mr_mu r = MAP_UNIT_LARGE_PAGE"
    using rq by (auto simp: page_request_def)
  then show ?thesis
  proof cases
    case p
    note e = as_unit_same [OF p, symmetric]
    have al: "unat (mr_va_start r) mod 2 ^ 12 = 0" using al by (simp add: p)
    note L = page_map.loop [where st = st and r = r and st' = st' and D = D and sa = sa and ?p2v.0 = p2v, unfolded e,
        OF tb al dirs m [unfolded mmu_map_pages_def]]
    note W = page_map.written_byte [where r = r and st = st and n = "nat (mr_n r)" and D = D and ?p2v.0 = p2v, unfolded e, OF al]
      page_map.written_outside [where r = r and st = st and n = "nat (mr_n r)" and D = D and ?p2v.0 = p2v, unfolded e, OF _ al]
    show ?thesis using L W by (auto simp: req_bytes_def p)
  next
    case lp
    note e = as_unit_same [OF lp, symmetric]
    have al: "unat (mr_va_start r) mod 2 ^ 16 = 0" using al by (simp add: lp)
    note L = large_map.loop [where st = st and r = r and st' = st' and D = D and sa = sa and ?p2v.0 = p2v, unfolded e,
        OF tb al dirs m [unfolded mmu_map_pages_def]]
    note W = large_map.written_byte [where r = r and st = st and n = "nat (mr_n r)" and D = D and ?p2v.0 = p2v, unfolded e, OF al]
      large_map.written_outside [where r = r and st = st and n = "nat (mr_n r)" and D = D and ?p2v.0 = p2v, unfolded e, OF _ al]
    show ?thesis using L W by (auto simp: req_bytes_def lp)
  qed
qed

lemma va_to_pa_page:
  assumes tb: "slab_tables p2v D st" and d: "in_dirs D va"
    and te: "te_at p2v D st (unat va div 2 ^ 12) = page_te r pa"
    and mu: "mr_mu r = MAP_UNIT_PAGE \<and> k = 12 \<or> mr_mu r = MAP_UNIT_LARGE_PAGE \<and> k = 16"
    and pa: "unat pa mod 2 ^ k = 0" and va: "unat va = a * 2 ^ k + off" and off: "off < 2 ^ k"
  shows "mmu_va_to_pa p2v va st = Inr (pa + of_nat off)"
proof -
  let ?j = "unat va div 2 ^ 20"
  have j: "?j \<in> D" using d by (simp add: in_dirs_def)
  obtain pt where pt: "pt_of p2v ?j st = Inr pt" using slab_tables_pt [OF tb j] by blast
  have t1: "bits_get (pd st ?j) PDE_TYPE0 = 1" using tb j by (simp add: slab_tables_def)
  have e: "pt_get (pt_index pt (unat va div 2 ^ 12 mod 2 ^ 8)) 0 st = page_te r pa"
  proof -
    have q: "unat va div 2 ^ 12 div 256 = ?j" by (simp flip: div_mult2_eq)
    have "te_at p2v D st (unat va div 2 ^ 12) = pt_get (pt_index pt (unat va div 2 ^ 12 mod 256)) 0 st"
      using j pt unfolding te_at_def q by simp
    with te show ?thesis by simp
  qed
  show ?thesis
  proof (cases "mr_mu r = MAP_UNIT_LARGE_PAGE")
    case True
    then have k: "k = 16" using mu by auto
    have "base_pa PTE_LP_BASE (page_te r pa) va = pa + of_nat off"
      unfolding pde_section_fields
      by (rule base_pa_aligned) (use pa va off k large_page_te_base [OF True, of pa] in \<open>simp_all add: PTE_LP_BASE_def\<close>)
    then show ?thesis
      using pt unfolding mmu_va_to_pa_def Let_def unat_va_pde unat_va_pte t1
      by simp (use e True in \<open>simp add: page_te_type\<close>)
  next
    case False
    then have k: "k = 12" using mu by auto
    have "base_pa PTE_SP_BASE (page_te r pa) va = pa + of_nat off"
      unfolding pde_section_fields
      by (rule base_pa_aligned) (use pa va off k page_te_base [OF False, of pa] in \<open>simp_all add: PTE_SP_BASE_def\<close>)
    then show ?thesis
      using pt unfolding mmu_va_to_pa_def Let_def unat_va_pde unat_va_pte t1
      by simp (use e False in \<open>simp add: page_te_type\<close>)
  qed
qed

lemma aligned_split:
  assumes "(m :: nat) mod 2 ^ k = 0"
  shows "m + d = (m div 2 ^ k + d div 2 ^ k) * 2 ^ k + d mod 2 ^ k"
proof -
  have "m = m div 2 ^ k * 2 ^ k" using div_mult_mod_eq [of m "2 ^ k"] assms by simp
  moreover have "d = d div 2 ^ k * 2 ^ k + d mod 2 ^ k" by (rule div_mult_mod_eq [symmetric])
  ultimately show ?thesis by (metis add.assoc add_mult_distrib)
qed

lemma byte_split: "(of_nat (d div 2 ^ k) * 2 ^ k + of_nat (d mod 2 ^ k) :: addr) = of_nat d"
  by (metis div_mult_mod_eq of_nat_add of_nat_mult of_nat_numeral of_nat_power)

lemma request_slots:
  assumes "(m :: nat) mod 2 ^ k = 0" and "b \<le> k" and "m div 2 ^ b \<le> x" and "x < m div 2 ^ b + n * 2 ^ (k - b)"
  shows "\<exists>d<n * 2 ^ k. x = (m + d) div 2 ^ b"
proof -
  have kb: "(2 :: nat) ^ k = 2 ^ (k - b) * 2 ^ b"
    using assms(2) by (metis le_add_diff_inverse2 power_add)
  obtain q where "m = 2 ^ k * q" using assms(1) by (metis mod_0_imp_dvd dvd_def)
  then have m: "m = m div 2 ^ b * 2 ^ b" unfolding kb by simp
  obtain l where l: "x = m div 2 ^ b + l" "l < n * 2 ^ (k - b)"
    using assms(3,4) by (metis le_Suc_ex add_less_cancel_left)
  then have "l * 2 ^ b < n * 2 ^ k"
    unfolding kb by (simp add: mult.assoc [symmetric])
  moreover have "x = (m + l * 2 ^ b) div 2 ^ b"
    using l by simp
  ultimately show ?thesis by blast
qed

text \<open>A request that \<open>mmu_map\<close> accepts, before its tables are looked at.\<close>

definition req_ok :: "mmu_map_req \<Rightarrow> bool" where
  "req_ok r \<longleftrightarrow> 0 < mr_n r \<and> mr_mt r \<noteq> MT_MAX \<and> mr_ap r \<noteq> AP_MAX \<and> mr_mu r \<noteq> MAP_UNIT_MAX
    \<and> unat (mr_va_start r) mod 2 ^ unit_bits (mr_mu r) = 0 \<and> unat (mr_pa_start r) mod 2 ^ unit_bits (mr_mu r) = 0
    \<and> unat (mr_va_start r) + req_bytes r \<le> 2 ^ 32 \<and> unat (mr_pa_start r) + req_bytes r \<le> 2 ^ 32"

lemma mmu_map_ok:
  assumes "req_ok r"
  shows "mmu_map sa p2v r st = (if mr_mu r = MAP_UNIT_SECTION \<or> mr_mu r = MAP_UNIT_SUPER_SECTION
      then mmu_map_sections r st else mmu_map_pages sa p2v r st)"
proof -
  have "mt_val (mr_mt r) < mt_val MT_MAX" "ap_val (mr_ap r) < ap_val AP_MAX"
    using assms by (cases "mr_mt r"; cases "mr_ap r"; simp add: req_ok_def)+
  then show ?thesis
    using assms unfolding mmu_map_def Let_def map_inc_exp mask_aligned [OF unit_bits_less] req_ok_def
    by simp
qed

lemma sections_total:
  assumes mu: "mr_mu r = MAP_UNIT_SECTION \<or> mr_mu r = MAP_UNIT_SUPER_SECTION" and ok: "req_ok r"
    and free: "\<forall>d<req_bytes r. bits_get (pd st ((unat (mr_va_start r) + d) div 2 ^ 20)) PDE_TYPE0 = 0"
  shows "\<exists>st'. mmu_map sa p2v r st = Inr st'"
proof -
  let ?k = "unit_bits (mr_mu r)"
  have al: "unat (mr_va_start r) mod 2 ^ ?k = 0" and va: "unat (mr_va_start r) + nat (mr_n r) * 2 ^ ?k \<le> 2 ^ 32"
    and pa: "unat (mr_pa_start r) + nat (mr_n r) * 2 ^ ?k \<le> 2 ^ 32"
    using ok by (auto simp: req_ok_def req_bytes_def)
  have k: "20 \<le> ?k" using mu by auto
  have need: "\<forall>x. unat (mr_va_start r) div 2 ^ 20 \<le> x \<and> x < unat (mr_va_start r) div 2 ^ 20 + nat (mr_n r) * 2 ^ (?k - 20)
        \<longrightarrow> bits_get (pd st x) PDE_TYPE0 = 0"
    using request_slots [OF al k] free unfolding req_bytes_def by blast
  have "\<exists>st'. mmu_map_sections r st = Inr st'"
    using mu
  proof
    assume s: "mr_mu r = MAP_UNIT_SECTION"
    from section_map.loop_total [where r = r and st = st, unfolded as_unit_same [OF s, symmetric] mmu_map_sections_def [symmetric]]
    show ?thesis using al va pa need by (simp add: s)
  next
    assume s: "mr_mu r = MAP_UNIT_SUPER_SECTION"
    from super_map.loop_total [where r = r and st = st, unfolded as_unit_same [OF s, symmetric] mmu_map_sections_def [symmetric]]
    show ?thesis using al va pa need by (simp add: s)
  qed
  then show ?thesis using mu by (simp add: mmu_map_ok [OF ok])
qed

text \<open>Mapping sections changes the page directory and the TLB only.\<close>

lemma tlb_keep: "mmu_tlb_invalidate va sz st = Inr st' \<Longrightarrow> \<exists>t. st' = st\<lparr>tlb := t\<rparr>"
  by (auto simp: mmu_tlb_invalidate_def Let_def split: if_splits option.splits intro: exI [of _ "tlb st"])

lemma sections_keep:
  assumes mu: "mr_mu r = MAP_UNIT_SECTION \<or> mr_mu r = MAP_UNIT_SUPER_SECTION" and st': "mmu_map sa p2v r st = Inr st'"
  shows "\<exists>p t. st' = st\<lparr>pd := p, tlb := t\<rparr>"
proof -
  have "mmu_map_sections r st = Inr st'" using mmu_map_checks(5) [OF st'] mu by auto
  then obtain va pa where loop: "for_res 0 (nat (mr_n r))
      (\<lambda>i (va, pa, st). bind_res (map_section_one r va pa st) (\<lambda>(pa, st).
        Inr (va + map_inc (mr_mu r), pa + map_inc (mr_mu r), st))) (mr_va_start r, mr_pa_start r, st) = Inr (va, pa, st')"
    by (auto simp: mmu_map_sections_def unit_loop_def bind_res_Inr)
  have one: "\<exists>p t. s' = s\<lparr>pd := p, tlb := t\<rparr>" if "map_section_one r va pa s = Inr (pa', s')" for va pa s pa' s'
    using that by (auto simp: map_section_one_def Let_def assert_that_Inr bind_res_Inr fold_pd_set dest!: tlb_keep)
  let ?P = "\<lambda>(i :: nat) (va :: addr, pa :: addr, s). \<exists>p t. s = st\<lparr>pd := p, tlb := t\<rparr>"
  have "?P (0 + nat (mr_n r)) (va, pa, st')"
  proof (rule for_res_invariant [OF loop, of ?P])
    show "?P 0 (mr_va_start r, mr_pa_start r, st)" by (simp add: exI [of _ "pd st"] exI [of _ "tlb st"])
  next
    fix j x x'
    assume P: "?P j x" and b: "(case x of (va, pa, st) \<Rightarrow> bind_res (map_section_one r va pa st) (\<lambda>(pa, st).
        Inr (va + map_inc (mr_mu r), pa + map_inc (mr_mu r), st))) = Inr x'"
    obtain va pa s where x: "x = (va, pa, s)" by (cases x)
    obtain pa' s' where o: "map_section_one r va pa s = Inr (pa', s')" "x' = (va + map_inc (mr_mu r), pa' + map_inc (mr_mu r), s')"
      using b by (auto simp: x bind_res_Inr)
    obtain p t where "s' = s\<lparr>pd := p, tlb := t\<rparr>" using one [OF o(1)] by blast
    moreover obtain p0 t0 where "s = st\<lparr>pd := p0, tlb := t0\<rparr>" using P x by auto
    ultimately have "s' = st\<lparr>pd := p, tlb := t\<rparr>" by simp
    then show "?P (Suc j) x'" unfolding o(2) prod.case by blast
  qed
  then show ?thesis by simp
qed

lemma pages_total:
  assumes rq: "page_request r D" and tb: "slab_tables p2v D st" and ok: "req_ok r"
    and free: "\<forall>d<req_bytes r. bits_get (te_at p2v D st ((unat (mr_va_start r) + d) div 2 ^ 12)) PTE_TYPE = 0"
  shows "\<exists>st'. mmu_map sa p2v r st = Inr st'"
proof -
  let ?k = "unit_bits (mr_mu r)"
  have al: "unat (mr_va_start r) mod 2 ^ ?k = 0" and va: "unat (mr_va_start r) + nat (mr_n r) * 2 ^ ?k \<le> 2 ^ 32"
    and pa: "unat (mr_pa_start r) + nat (mr_n r) * 2 ^ ?k \<le> 2 ^ 32"
    using ok by (auto simp: req_ok_def req_bytes_def)
  have k: "12 \<le> ?k" using rq by (auto simp: page_request_def)
  have dirs: "in_dirs D (mr_va_start r + of_nat i * 2 ^ ?k)" if "i < nat (mr_n r)" for i
  proof -
    have "i * 2 ^ ?k < req_bytes r" using that by (simp add: req_bytes_def)
    with rq have "in_dirs D (mr_va_start r + of_nat (i * 2 ^ ?k))" unfolding page_request_def by blast
    then show ?thesis by simp
  qed
  have need: "\<forall>x. unat (mr_va_start r) div 2 ^ 12 \<le> x \<and> x < unat (mr_va_start r) div 2 ^ 12 + nat (mr_n r) * 2 ^ (?k - 12)
        \<longrightarrow> bits_get (te_at p2v D st x) PTE_TYPE = 0"
    using request_slots [OF al k] free unfolding req_bytes_def by blast
  consider (p) "mr_mu r = MAP_UNIT_PAGE" | (lp) "mr_mu r = MAP_UNIT_LARGE_PAGE"
    using rq by (auto simp: page_request_def)
  then have "\<exists>st'. mmu_map_pages sa p2v r st = Inr st'"
  proof cases
    case p
    from page_map.loop_total [where r = r and st = st and sa = sa and ?p2v.0 = p2v and D = D,
        unfolded as_unit_same [OF p, symmetric] mmu_map_pages_def [symmetric], OF tb]
    show ?thesis using al va pa need dirs by (simp add: p)
  next
    case lp
    from large_map.loop_total [where r = r and st = st and sa = sa and ?p2v.0 = p2v and D = D,
        unfolded as_unit_same [OF lp, symmetric] mmu_map_pages_def [symmetric], OF tb]
    show ?thesis using al va pa need dirs by (simp add: lp)
  qed
  then show ?thesis using rq by (auto simp: mmu_map_ok [OF ok] page_request_def)
qed

section \<open>Properties\<close>

definition mmu0 :: mmu_state where
  "mmu0 = \<lparr>pd = (\<lambda>_. 0), kpt = (\<lambda>_. 0), ptm = (\<lambda>_. 0), tlb = {}\<rparr>"

definition io_req :: mmu_map_req where
  "io_req = \<lparr>mr_n = 4, mr_va_start = 0xf8000000, mr_pa_start = 0x20000000, mr_mt = MT_DEV_SHR,
     mr_ap = AP_SRW, mr_mu = MAP_UNIT_SECTION, mr_flags = 0xd\<rparr>"

lemma io_req_ok: "req_ok io_req"
  by (simp add: req_ok_def io_req_def req_bytes_def)

lemma sections_translate:
  assumes "mr_mu r = MAP_UNIT_SECTION \<or> mr_mu r = MAP_UNIT_SUPER_SECTION" and "mmu_map sa p2v r st = Inr st'"
  shows "unat (mr_va_start r) + req_bytes r \<le> 2 ^ 32
    \<and> (\<forall>d<req_bytes r. mmu_va_to_pa p2v (mr_va_start r + of_nat d) st' = Inr (mr_pa_start r + of_nat d)
        \<and> bits_get (pd st ((unat (mr_va_start r) + d) div 2 ^ 20)) PDE_TYPE0 = 0)
    \<and> (\<forall>va. unat va < unat (mr_va_start r) \<or> unat (mr_va_start r) + req_bytes r \<le> unat va \<longrightarrow>
        pd st' (unat va div 2 ^ 20) = pd st (unat va div 2 ^ 20))"
proof -
  let ?k = "unit_bits (mr_mu r)"
  note ck = mmu_map_checks [OF assms(2)]
  have ms: "mmu_map_sections r st = Inr st'" using ck(5) assms(1) by auto
  note W = sections_written [OF assms(1) ck(3) ms]
  have "mmu_va_to_pa p2v (mr_va_start r + of_nat d) st' = Inr (mr_pa_start r + of_nat d)" if d: "d < req_bytes r" for d
  proof -
    note u = req_byte [OF W(1) d]
    from aligned_split [OF ck(3), of d, folded u] have "mmu_va_to_pa p2v (mr_va_start r + of_nat d) st'
        = Inr (mr_pa_start r + of_nat (d div 2 ^ ?k) * 2 ^ ?k + of_nat (d mod 2 ^ ?k))"
      by (rule va_to_pa_section [rotated 3])
        (use W(2) [OF d] u assms(1) aligned_unit [OF unit_bits_less ck(4)] in auto)
    then show ?thesis by (simp only: add.assoc byte_split)
  qed
  with W show ?thesis by blast
qed

text \<open>The same with the directory and the translations in one place.\<close>

lemma sections_mapped:
  assumes mu: "mr_mu r = MAP_UNIT_SECTION" and ok: "req_ok r" and a: "unat (mr_va_start r) = a * 2 ^ 20"
    and free: "\<And>j. a \<le> j \<Longrightarrow> j < a + nat (mr_n r) \<Longrightarrow> bits_get (pd st j) PDE_TYPE0 = 0"
  shows "\<exists>p t. mmu_map sa p2v r st = Inr (st\<lparr>pd := p, tlb := t\<rparr>)
    \<and> (\<forall>j<4096. p j = (if a \<le> j \<and> j < a + nat (mr_n r) then section_de r (mr_pa_start r + of_nat (j - a) * 2 ^ 20) else pd st j))
    \<and> (\<forall>d<nat (mr_n r) * 2 ^ 20. \<forall>p2v. mmu_va_to_pa p2v (mr_va_start r + of_nat d) (st\<lparr>pd := p, tlb := t\<rparr>) = Inr (mr_pa_start r + of_nat d))"
proof -
  have n: "req_bytes r = nat (mr_n r) * 2 ^ 20" by (simp add: req_bytes_def mu)
  have mu': "mr_mu r = MAP_UNIT_SECTION \<or> mr_mu r = MAP_UNIT_SUPER_SECTION" using mu by simp
  have ix: "(a * 2 ^ 20 + d) div 2 ^ 20 = a + d div 2 ^ 20" for d :: nat by simp
  have "\<forall>d<req_bytes r. bits_get (pd st ((unat (mr_va_start r) + d) div 2 ^ 20)) PDE_TYPE0 = 0"
    unfolding a n ix by (intro allI impI free) (simp_all add: less_mult_imp_div_less)
  then obtain st' where st': "mmu_map sa p2v r st = Inr st'" using sections_total [OF mu' ok] by blast
  obtain p t where e: "st' = st\<lparr>pd := p, tlb := t\<rparr>" using sections_keep [OF mu' st'] by blast
  note ck = mmu_map_checks [OF st']
  have ms: "mmu_map_sections r st = Inr st'" using ck(5) mu by auto
  note W = sections_written [OF mu' ck(3) ms, unfolded n a]
  have tr: "mmu_va_to_pa q2v (mr_va_start r + of_nat d) st' = Inr (mr_pa_start r + of_nat d)" if "d < nat (mr_n r) * 2 ^ 20" for d q2v
  proof -
    have "mmu_map sa q2v r st = Inr st'" using st' mu by (simp add: mmu_map_def)
    from sections_translate [OF mu' this, unfolded n] that show ?thesis by blast
  qed
  have "p j = (if a \<le> j \<and> j < a + nat (mr_n r) then section_de r (mr_pa_start r + of_nat (j - a) * 2 ^ 20) else pd st j)" if j: "j < 4096" for j
  proof -
    let ?va = "of_nat (j * 0x100000) :: addr"
    have "j * 0x100000 < 0x100000000" using j by simp
    then have u: "unat ?va = j * 0x100000" by (simp only: unat_of_nat len_of_numeral_defs) simp
    show ?thesis
    proof (cases "a \<le> j \<and> j < a + nat (mr_n r)")
      case True
      then have "(j - a) * 2 ^ 20 < nat (mr_n r) * 2 ^ 20" by (intro mult_strict_right_mono) auto
      from W(2) [OF this] True show ?thesis by (simp add: e mu flip: add_mult_distrib)
    next
      case False
      then have "j * 2 ^ 20 < a * 2 ^ 20 \<or> (a + nat (mr_n r)) * 2 ^ 20 \<le> j * 2 ^ 20"
        by (metis linorder_not_less mult_le_mono1 mult_strict_right_mono zero_less_numeral zero_less_power)
      then have "unat ?va < a * 2 ^ 20 \<or> a * 2 ^ 20 + nat (mr_n r) * 2 ^ 20 \<le> unat ?va" unfolding u by (simp add: add_mult_distrib)
      from W(3) [OF this] False show ?thesis unfolding u by (auto simp: e)
    qed
  qed
  then show ?thesis using st' tr unfolding e by (intro exI [of _ p] exI [of _ t]) blast
qed

text \<open>Translation looks at one entry of the directory, and of the static tables.\<close>

lemma va_to_pa_cong:
  assumes "pd st' (unat va div 2 ^ 20) = pd st (unat va div 2 ^ 20)"
    and "bits_get (pd st (unat va div 2 ^ 20)) PDE_TYPE0 = 2
      \<or> 0x400 \<le> unat va div 2 ^ 20 \<and> unat va div 2 ^ 20 < 0x404 \<and> kpt st' (unat va div 2 ^ 12 - 0x40000) = kpt st (unat va div 2 ^ 12 - 0x40000)"
  shows "mmu_va_to_pa p2v va st' = mmu_va_to_pa q2v va st"
  using assms(2)
proof
  assume "bits_get (pd st (unat va div 2 ^ 20)) PDE_TYPE0 = 2"
  then show ?thesis using assms(1) by (simp add: mmu_va_to_pa_def Let_def unat_va_pde)
next
  assume k: "0x400 \<le> unat va div 2 ^ 20 \<and> unat va div 2 ^ 20 < 0x404 \<and> kpt st' (unat va div 2 ^ 12 - 0x40000) = kpt st (unat va div 2 ^ 12 - 0x40000)"
  have "(unat va div 2 ^ 20 - 0x400) * 0x100 + unat va div 2 ^ 12 mod 2 ^ 8 = unat va div 2 ^ 12 - 0x40000"
  proof -
    have "unat va div 2 ^ 20 = unat va div 2 ^ 12 div 2 ^ 8" by (simp add: div_mult2_eq [symmetric])
    moreover have "unat va div 2 ^ 12 div 2 ^ 8 * 256 + unat va div 2 ^ 12 mod 2 ^ 8 = unat va div 2 ^ 12"
      using div_mult_mod_eq [of "unat va div 2 ^ 12" "2 ^ 8"] by simp
    ultimately show ?thesis using k by linarith
  qed
  then show ?thesis using k assms(1)
    by (simp only: mmu_va_to_pa_def Let_def unat_va_pde unat_va_pte pt_of_def simp_thms if_True bind_res_simps pt_index.simps pt_get.simps add_0_right)
qed

lemma page_translates:
  assumes j: "unat va div 2 ^ 20 = j" "unat va div 2 ^ 12 mod 2 ^ 8 = i" and d: "unat va = n * 4096 + d" "d < 4096"
    and t: "bits_get (pd st j) PDE_TYPE0 = 1" "pt_of p2v j st = Inr pt" and te: "pt_get pt i st = page_te r pa"
    and r: "mr_mu r = MAP_UNIT_PAGE" "unat pa mod 4096 = 0"
  shows "mmu_va_to_pa p2v va st = Inr (pa + of_nat d)"
proof -
  have v: "unat (bits_get va VA_PDE_IX) = j" "unat (bits_get va VA_PTE_IX) = i" unfolding unat_va_pde unat_va_pte using j by simp_all
  have te': "pt_get (pt_index pt i) 0 st = page_te r pa" using te by (simp add: pt_get_index)
  have "base_pa PTE_SP_BASE (page_te r pa) va = pa + of_nat d"
    unfolding pde_section_fields
    by (rule base_pa_aligned [where a = n]) (use page_te_base [of r pa] r d in \<open>simp_all add: pde_section_fields\<close>)
  then show ?thesis
    unfolding mmu_va_to_pa_def v Let_def using t te' r by (simp add: page_te_type)
qed

text \<open>C7: Mapping sections or super sections. When \<open>mmu_map\<close> returns, the request did not run past the
  end of the address space, none of its directory entries was in use, every byte of the virtual range
  translates to the byte at the same distance from the physical start, and the directory entry of every
  address outside the range is what it was.\<close>

theorem mmu_map_sections_translate:
  assumes "mr_mu r = MAP_UNIT_SECTION \<or> mr_mu r = MAP_UNIT_SUPER_SECTION" and "mmu_map sa p2v r st = Inr st'"
  shows "unat (mr_va_start r) + req_bytes r \<le> 2 ^ 32
    \<and> (\<forall>d<req_bytes r. mmu_va_to_pa p2v (mr_va_start r + of_nat d) st' = Inr (mr_pa_start r + of_nat d)
        \<and> bits_get (pd st ((unat (mr_va_start r) + d) div 2 ^ 20)) PDE_TYPE0 = 0)
    \<and> (\<forall>va. unat va < unat (mr_va_start r) \<or> unat (mr_va_start r) + req_bytes r \<le> unat va \<longrightarrow>
        pd st' (unat va div 2 ^ 20) = pd st (unat va div 2 ^ 20))"
  by (rule sections_translate [OF assms])

theorem mmu_map_sections_translate_witness:
  "\<exists>st'. mmu_map (\<lambda>_. Inl Deadlock) (\<lambda>_ _. Inl Deadlock) io_req mmu0 = Inr st'
    \<and> mmu_va_to_pa (\<lambda>_ _. Inl Deadlock) 0xf8201000 st' = Inr 0x20201000"
proof -
  have mu: "mr_mu io_req = MAP_UNIT_SECTION \<or> mr_mu io_req = MAP_UNIT_SUPER_SECTION"
    by (simp add: io_req_def)
  obtain st' where st': "mmu_map (\<lambda>_. Inl Deadlock) (\<lambda>_ _. Inl Deadlock) io_req mmu0 = Inr st'"
    using sections_total [OF mu io_req_ok, of mmu0] by (auto simp: mmu0_def)
  have "0x201000 < req_bytes io_req" by (simp add: io_req_def req_bytes_def)
  then have "mmu_va_to_pa (\<lambda>_ _. Inl Deadlock) (mr_va_start io_req + of_nat 0x201000) st' = Inr (mr_pa_start io_req + of_nat 0x201000)"
    using mmu_map_sections_translate [OF mu st'] by blast
  with st' show ?thesis by (simp add: io_req_def)
qed

text \<open>\<open>mmu_map\<close> of sections or super sections returns whenever the request is aligned, stays within
  32 bits on both sides and all its directory entries are free; no assertion fails and no loop is endless.\<close>

theorem mmu_map_sections_returns:
  assumes "mr_mu r = MAP_UNIT_SECTION \<or> mr_mu r = MAP_UNIT_SUPER_SECTION" and "req_ok r"
    and "\<forall>d<req_bytes r. bits_get (pd st ((unat (mr_va_start r) + d) div 2 ^ 20)) PDE_TYPE0 = 0"
  shows "\<exists>st'. mmu_map sa p2v r st = Inr st'"
  using assms by (rule sections_total)

theorem mmu_map_sections_returns_witness:
  "\<exists>st'. mmu_map (\<lambda>_. Inl Deadlock) (\<lambda>_ _. Inl Deadlock) io_req mmu0 = Inr st'"
  by (rule mmu_map_sections_returns) (simp_all add: io_req_ok, simp_all add: io_req_def mmu0_def)

text \<open>C8: Mapping pages or large pages into existing second-level tables, static or from the slab. When
  \<open>mmu_map\<close> returns, the tables are still well formed, every byte of the range translates to the byte at
  the same distance from the physical start, and the entry of every page outside the range, in any of
  these tables, is what it was.\<close>

theorem mmu_map_pages_translate:
  assumes "page_request r D" and "slab_tables p2v D st" and "mmu_map sa p2v r st = Inr st'"
  shows "slab_tables p2v D st' \<and> unat (mr_va_start r) + req_bytes r \<le> 2 ^ 32
    \<and> (\<forall>d<req_bytes r. mmu_va_to_pa p2v (mr_va_start r + of_nat d) st' = Inr (mr_pa_start r + of_nat d))
    \<and> (\<forall>va. unat va < unat (mr_va_start r) \<or> unat (mr_va_start r) + req_bytes r \<le> unat va \<longrightarrow>
        te_at p2v D st' (unat va div 2 ^ 12) = te_at p2v D st (unat va div 2 ^ 12))"
proof -
  let ?k = "unit_bits (mr_mu r)"
  note ck = mmu_map_checks [OF assms(3)]
  have mp: "mmu_map_pages sa p2v r st = Inr st'"
    using ck(5) assms(1) by (auto simp: page_request_def)
  note W = pages_written [OF assms(1,2) ck(3) mp]
  have "mmu_va_to_pa p2v (mr_va_start r + of_nat d) st' = Inr (mr_pa_start r + of_nat d)" if d: "d < req_bytes r" for d
  proof -
    have u: "unat (mr_va_start r + of_nat d) = unat (mr_va_start r) + d"
      using req_byte W d by blast
    from aligned_split [OF ck(3), of d, folded u]
    have "mmu_va_to_pa p2v (mr_va_start r + of_nat d) st'
        = Inr (mr_pa_start r + of_nat (d div 2 ^ ?k) * 2 ^ ?k + of_nat (d mod 2 ^ ?k))"
      by (rule va_to_pa_page [of p2v D, rotated 5])
        (use W u d assms(1) aligned_unit [OF unit_bits_less ck(4)] in \<open>auto simp: page_request_def\<close>)
    then show ?thesis by (simp only: add.assoc byte_split)
  qed
  with W show ?thesis by blast
qed

text \<open>A table from the slab at 0xf7ff8000, for the megabyte at 0xf0000000.\<close>

definition mmu1 :: mmu_state where
  "mmu1 = mmu0\<lparr>pd := (\<lambda>_. 0)(0xf00 := 0x00801001)\<rparr>"

definition pt_at :: "addr \<Rightarrow> 's \<Rightarrow> addr \<Rightarrow> addr res" where
  "pt_at va st pa = Inr va"

definition slab_req :: mmu_map_req where
  "slab_req = \<lparr>mr_n = 2, mr_va_start = 0xf0010000, mr_pa_start = 0x01000000, mr_mt = MT_NRM_IO_WBA,
     mr_ap = AP_SRW, mr_mu = MAP_UNIT_PAGE, mr_flags = 0x9\<rparr>"

lemma mmu1_tables: "slab_tables (pt_at 0xf7ff8000) {0xf00} (mmu1 :: mmu_state)"
  by (simp add: slab_tables_def reads_more_def pt_at_def fun_eq_iff mmu1_def bits_defs bits_mask_def fields)

lemma slab_req_page: "page_request slab_req {0xf00}" and slab_req_ok: "req_ok slab_req"
proof -
  show ok: "req_ok slab_req" by (simp add: req_ok_def slab_req_def req_bytes_def)
  have "unat (0xf0010000 + of_nat d :: addr) div 2 ^ 20 = 0xf00" if d: "d < 2 * 2 ^ 12" for d
  proof -
    have "unat (mr_va_start slab_req + of_nat d) = unat (mr_va_start slab_req) + d"
      using ok d by (intro req_byte) (simp_all add: req_ok_def req_bytes_def slab_req_def)
    then have "unat (0xf0010000 + of_nat d :: addr) = 0xf0010000 + d" by (simp add: slab_req_def)
    moreover have "(0xf0010000 + d) div 2 ^ 20 = 0xf00"
      by (rule div_nat_eqI) (use d in simp_all)
    ultimately show ?thesis by simp
  qed
  then show "page_request slab_req {0xf00}"
    by (simp add: page_request_def in_dirs_def slab_req_def req_bytes_def)
qed

lemma mmu1_entries: "te_at (pt_at 0xf7ff8000) {0xf00} mmu1 x = 0"
  by (simp add: te_at_def pt_of_def pt_at_def mmu1_def mmu0_def)

theorem mmu_map_pages_translate_witness:
  "\<exists>st'. mmu_map (\<lambda>_. Inl Deadlock) (pt_at 0xf7ff8000) slab_req mmu1 = Inr st'
    \<and> mmu_va_to_pa (pt_at 0xf7ff8000) 0xf0011234 st' = Inr 0x01001234"
proof -
  obtain st' where st': "mmu_map (\<lambda>_. Inl Deadlock) (pt_at 0xf7ff8000) slab_req mmu1 = Inr st'"
    using pages_total [OF slab_req_page mmu1_tables slab_req_ok] by (auto simp: mmu1_entries)
  have "0x1234 < req_bytes slab_req" by (simp add: slab_req_def req_bytes_def)
  then have "mmu_va_to_pa (pt_at 0xf7ff8000) (mr_va_start slab_req + of_nat 0x1234) st' = Inr (mr_pa_start slab_req + of_nat 0x1234)"
    using mmu_map_pages_translate [OF slab_req_page mmu1_tables st'] by blast
  with st' show ?thesis by (simp add: slab_req_def)
qed

text \<open>C9: Unmapping two or more pages through a table from the slab. The loop reuses the variable \<open>pa\<close> for
  the physical address of the table, so when the table lies below the mapped memory the assertion on the
  next \<open>pa\<close> stops the kernel in the second round, although the request is well formed.\<close>

theorem mmu_unmap_second_page_stops:
  assumes "req_ok r" and "mr_mu r = MAP_UNIT_PAGE" and "2 \<le> mr_n r"
    and "unat (mr_va_start r) div 2 ^ 20 < 0x400 \<or> 0x404 \<le> unat (mr_va_start r) div 2 ^ 20"
    and "bits_get (pd st (unat (mr_va_start r) div 2 ^ 20)) PDE_TYPE0 = 1"
    and "reads_more p2v"
    and "p2v st (bits_pull (pd st (unat (mr_va_start r) div 2 ^ 20)) PDE_PT_BASE) = Inr pt"
    and "unat (bits_pull (pd st (unat (mr_va_start r) div 2 ^ 20)) PDE_PT_BASE) + 4096 < unat (mr_pa_start r)"
  shows "mmu_unmap p2v r st = Inl (Assert ''mmu.c:371'')"
proof -
  let ?j = "unat (mr_va_start r) div 2 ^ 20"
  let ?pa = "bits_pull (pd st ?j) PDE_PT_BASE"
  have mu: "mr_mu r \<noteq> MAP_UNIT_MAX" and al: "mr_va_start r AND (map_inc (mr_mu r) - 1) = 0"
    "mr_pa_start r AND (map_inc (mr_mu r) - 1) = 0"
    using assms(1) unfolding map_inc_exp mask_aligned [OF unit_bits_less] req_ok_def by simp_all
  obtain t where t: "mmu_tlb_invalidate (mr_va_start r) (map_inc (mr_mu r)) st = Inr (st\<lparr>tlb := t\<rparr>)"
    using mmu_tlb_invalidate_pages [OF map_inc_page_multiple [OF mu]] by blast
  have "p2v (st\<lparr>tlb := t\<rparr>) = p2v st"
    by (rule reads_moreD [OF assms(6)]) simp
  then have ptof: "pt_of p2v ?j (st\<lparr>tlb := t\<rparr>) = Inr (Slab pt)"
    using assms(4,7) by (auto simp: pt_of_def)
  have "\<not> (0x400 \<le> ?j \<and> ?j < 0x404)" using assms(4) by linarith
  then have one: "\<exists>s. unmap_page_one p2v r (mr_va_start r) (mr_pa_start r) st = Inr (?pa, s)"
    using assms(5) t ptof unfolding unmap_page_one_def unat_va_pde Let_def by auto
  have inc: "map_inc (mr_mu r) = 4096" using assms(2) by (simp add: map_inc_exp)
  have "2 * 4096 \<le> req_bytes r"
    using assms(2,3) by (simp add: req_bytes_def)
  then have "unat (mr_va_start r) + 4096 < 2 ^ 32"
    using assms(1) unfolding req_ok_def by linarith
  then have va: "mr_va_start r \<le> mr_va_start r + 4096"
    using unat_add_no_overflow [of "mr_va_start r" 4096] by (simp add: word_le_nat_alt)
  have pa: "\<not> mr_pa_start r \<le> ?pa + 4096"
  proof -
    have "unat (mr_pa_start r) < 4294967296" by simp
    then have "unat ?pa + 4096 < 4294967296" using assms(8) by linarith
    then have "unat (?pa + 4096) = unat ?pa + 4096"
      using unat_add_no_overflow [of ?pa 4096] by simp
    then show ?thesis using assms(8) by (simp add: word_le_nat_alt)
  qed
  have two: "unmap_page_one p2v r (mr_va_start r + 4096) (?pa + 4096) s = Inl (Assert ''mmu.c:371'')" for s
    using va pa by (simp add: unmap_page_one_def)
  have "nat (mr_n r) = Suc (Suc (nat (mr_n r) - 2))"
    using assms(3) by simp
  then obtain m where m: "nat (mr_n r) = Suc (Suc m)" by blast
  from one obtain s where "unmap_page_one p2v r (mr_va_start r) (mr_pa_start r) st = Inr (?pa, s)" by blast
  then have "unit_loop r (unmap_page_one p2v r) st = Inl (Assert ''mmu.c:371'')"
    using two by (simp add: unit_loop_def inc m)
  then show ?thesis
    using assms(1,2) al by (simp add: mmu_unmap_def req_ok_def)
qed

theorem mmu_unmap_second_page_stops_witness:
  "mmu_unmap (pt_at 0xf7ff8000) slab_req mmu1 = Inl (Assert ''mmu.c:371'')"
  by (rule mmu_unmap_second_page_stops [where pt = "0xf7ff8000", OF slab_req_ok])
    (simp_all add: slab_req_def mmu1_def pt_at_def fun_eq_iff reads_more_def bits_defs bits_mask_def fields)

text \<open>The TLB loop. A page-aligned range is invalidated page by page, all of it and nothing else, and the
  loop ends. But the end of the range is a wrapped 32-bit sum: for a range that ends with the address space
  nothing is invalidated.\<close>

theorem mmu_tlb_invalidate_range:
  assumes "unat va mod 4096 = 0" and "0 < unat sz" and "unat va + unat sz \<le> 2 ^ 32" and "unat sz mod 4096 = 0"
  shows "mmu_tlb_invalidate va sz st = Inr
    (if unat va + unat sz = 2 ^ 32 then st
     else st\<lparr>tlb := tlb st - {x. unat va \<le> unat x \<and> unat x < unat va + unat sz \<and> unat x mod 4096 = 0}\<rparr>)"
proof -
  have s: "align_dn va (2 ^ PAGE_SIZE_SZ) = va"
    using unat_align_dn_page [of va] assms(1) by (simp add: word_unat_eq_iff mod_0_imp_dvd)
  have nz: "sz \<noteq> 0" using assms(2) by auto
  show ?thesis
  proof (cases "unat va + unat sz = 2 ^ 32")
    case True
    have "unat (va + sz) = 0" using True by (simp add: unat_word_ariths)
    then have e: "va + sz = 0" by (simp add: unat_eq_zero)
    have "tlb_loop va 0 (tlb st) = Some (tlb st)" by (simp add: tlb_loop.simps [of va 0])
    then show ?thesis
      using True nz by (simp add: mmu_tlb_invalidate_def s e Let_def)
  next
    case False
    then have e: "unat (va + sz) = unat va + unat sz"
      using assms(3) by (intro unat_add_no_overflow) simp
    then have "unat (va + sz) mod 4096 = 0" using assms(1,4) by (simp add: mod_add_eq [symmetric])
    from tlb_loop_pages [OF assms(1) this, of "tlb st"] show ?thesis
      using False nz by (simp add: mmu_tlb_invalidate_def s Let_def word_le_nat_alt word_less_nat_alt e)
  qed
qed

theorem mmu_tlb_invalidate_range_witness:
  "mmu_tlb_invalidate 0xfffff000 0x1000 (mmu0\<lparr>tlb := {0xfffff000}\<rparr>) = Inr (mmu0\<lparr>tlb := {0xfffff000}\<rparr>)"
  using mmu_tlb_invalidate_range [of "0xfffff000" "0x1000" "mmu0\<lparr>tlb := {0xfffff000}\<rparr>"] by simp

end
