(* ===== verification/Irq.thy ===== *)
theory Irq
  imports Bits
begin

text \<open>
  Deferred interrupt work: src/kernel/irq.c. Drivers register handlers at three levels; a hard
  handler raises soft interrupts, a soft handler raises scheduler interrupts, and the loops
  \<open>irq_soft\<close> and \<open>irq_sched\<close> run the handlers of the raised bits until no bit is left.

  The tables of handlers are maps to functions on the state; the state is any record that
  extends the two masks. The counters live in the current thread and come with the scheduler
  in Sched. Disabling interrupts and barriers have no effect on one sequential run.
\<close>

section \<open>State\<close>

record irq_masks =
  irq_soft_mask :: u32
  irq_sched_mask :: u32

definition IRQ_HARD_MAX :: nat where "IRQ_HARD_MAX = 4"
definition IRQ_SOFT_TIMER :: nat where "IRQ_SOFT_TIMER = 0"
definition IRQ_SOFT_MAX :: nat where "IRQ_SOFT_MAX = 4"
definition IRQ_SCHED_TIMER :: nat where "IRQ_SCHED_TIMER = 0"
definition IRQ_SCHED_SCHEDULE :: nat where "IRQ_SCHED_SCHEDULE = 4"
definition IRQ_SCHED_MAX :: nat where "IRQ_SCHED_MAX = 5"

lemmas irq_consts = IRQ_HARD_MAX_def IRQ_SOFT_TIMER_def IRQ_SOFT_MAX_def IRQ_SCHED_TIMER_def
  IRQ_SCHED_SCHEDULE_def IRQ_SCHED_MAX_def

type_synonym 's handler = "'s \<Rightarrow> 's res"
type_synonym 's handlers = "nat \<Rightarrow> 's handler option"

section \<open>Registration\<close>

definition irq_insert :: "string \<Rightarrow> string \<Rightarrow> nat \<Rightarrow> nat \<Rightarrow> 's handler \<Rightarrow> 's handlers \<Rightarrow> 's handlers res" where
  "irq_insert site1 site2 mx i fn tab =
    assert_that site1 (i < mx) (assert_that site2 (tab i = None) (Inr (tab(i := Some fn))))"

definition irq_hard_insert :: "nat \<Rightarrow> 's handler \<Rightarrow> 's handlers \<Rightarrow> 's handlers res" where
  "irq_hard_insert = irq_insert ''irq.c:113'' ''irq.c:114'' IRQ_HARD_MAX"

definition irq_soft_insert :: "nat \<Rightarrow> 's handler \<Rightarrow> 's handlers \<Rightarrow> 's handlers res" where
  "irq_soft_insert = irq_insert ''irq.c:124'' ''irq.c:125'' IRQ_SOFT_MAX"

definition irq_sched_insert :: "nat \<Rightarrow> 's handler \<Rightarrow> 's handlers \<Rightarrow> 's handlers res" where
  "irq_sched_insert = irq_insert ''irq.c:135'' ''irq.c:136'' IRQ_SCHED_MAX"

section \<open>Raising\<close>

definition irq_init :: "'a irq_masks_scheme \<Rightarrow> 'a irq_masks_scheme" where
  "irq_init st = st\<lparr>irq_soft_mask := 0, irq_sched_mask := 0\<rparr>"

definition irq_soft_raise :: "nat \<Rightarrow> 'a irq_masks_scheme \<Rightarrow> 'a irq_masks_scheme" where
  "irq_soft_raise i st = st\<lparr>irq_soft_mask := irq_soft_mask st OR push_bit i 1\<rparr>"

definition irq_soft_clear :: "nat \<Rightarrow> 'a irq_masks_scheme \<Rightarrow> 'a irq_masks_scheme" where
  "irq_soft_clear i st = st\<lparr>irq_soft_mask := irq_soft_mask st AND NOT (push_bit i 1)\<rparr>"

definition irq_sched_raise :: "nat \<Rightarrow> 'a irq_masks_scheme \<Rightarrow> 'a irq_masks_scheme" where
  "irq_sched_raise i st = st\<lparr>irq_sched_mask := irq_sched_mask st OR push_bit i 1\<rparr>"

definition irq_sched_clear :: "nat \<Rightarrow> 'a irq_masks_scheme \<Rightarrow> 'a irq_masks_scheme" where
  "irq_sched_clear i st = st\<lparr>irq_sched_mask := irq_sched_mask st AND NOT (push_bit i 1)\<rparr>"

section \<open>Dispatch\<close>

text \<open>The loop \<open>for (i = 0; i < MAX && mask; ++i, mask >>= 1)\<close>, \<open>k\<close> rounds from \<open>i\<close>.\<close>

fun dispatch :: "'s handlers \<Rightarrow> nat \<Rightarrow> nat \<Rightarrow> u32 \<Rightarrow> 's \<Rightarrow> 's res" where
  "dispatch tab i 0 msk st = Inr st"
| "dispatch tab i (Suc k) msk st =
    (if msk = 0 then Inr st
     else bind_res
       (if msk AND 1 \<noteq> 0 then (case tab i of None \<Rightarrow> Inr st | Some fn \<Rightarrow> fn st) else Inr st)
       (dispatch tab (Suc i) k (drop_bit 1 msk)))"

text \<open>\<open>irq_soft\<close> and \<open>irq_sched\<close>. Whether they return depends on the handlers: one that raises its own bit
  each time it runs keeps them running, and \<open>None\<close> is a run that does not end.\<close>

partial_function (option) irq_soft ::
    "'a irq_masks_scheme handlers \<Rightarrow> 'a irq_masks_scheme \<Rightarrow> 'a irq_masks_scheme res option" where
  "irq_soft tab st =
    (let msk = irq_soft_mask st; st = st\<lparr>irq_soft_mask := 0\<rparr>
     in if msk = 0 then Some (Inr st)
        else case dispatch tab 0 IRQ_SOFT_MAX msk st of
               Inl e \<Rightarrow> Some (Inl e)
             | Inr st \<Rightarrow> irq_soft tab st)"

partial_function (option) irq_sched ::
    "'a irq_masks_scheme handlers \<Rightarrow> 'a irq_masks_scheme \<Rightarrow> 'a irq_masks_scheme res option" where
  "irq_sched tab st =
    (let msk = irq_sched_mask st; st = st\<lparr>irq_sched_mask := 0\<rparr>
     in if msk = 0 then Some (Inr st)
        else case dispatch tab 0 IRQ_SCHED_MAX msk st of
               Inl e \<Rightarrow> Some (Inl e)
             | Inr st \<Rightarrow> irq_sched tab st)"

text \<open>\<open>irq_hard\<close> calls every registered handler, in order, and ORs the results, which nothing reads.\<close>

definition irq_hard :: "'s handlers \<Rightarrow> 's \<Rightarrow> 's res" where
  "irq_hard tab = for_each_res (\<lambda>i st. case tab i of None \<Rightarrow> Inr st | Some fn \<Rightarrow> fn st) [0..<IRQ_HARD_MAX]"

text \<open>A run of one of the loops as a result: a run that does not end is \<open>Endless\<close>.\<close>

definition run_loop :: "'s res option \<Rightarrow> 's res" where
  "run_loop r = (case r of None \<Rightarrow> Inl Endless | Some r \<Rightarrow> r)"

section \<open>The loop against the bits of the mask\<close>

definition run_handler :: "'s handlers \<Rightarrow> nat \<Rightarrow> 's \<Rightarrow> 's res" where
  "run_handler tab i st = (case tab i of None \<Rightarrow> Inr st | Some fn \<Rightarrow> fn st)"

lemma dispatch_zero: "dispatch tab i k 0 st = Inr st"
  by (cases k) simp_all

lemma low_bit: "(msk :: u32) AND 1 \<noteq> 0 \<longleftrightarrow> bit msk 0"
  by (metis and_one_eq one_and_eq bit_0 odd_iff_mod_2_eq_one even_iff_mod_2_eq_zero zero_neq_one)

lemma dispatch_bits:
  "dispatch tab i k (drop_bit i msk) st = for_each_res (run_handler tab) [j \<leftarrow> [i..<i + k]. bit msk j] st"
proof (induction k arbitrary: i st)
  case (Suc k)
  have up: "[i..<i + Suc k] = i # [Suc i..<Suc i + k]"
    by (simp add: upt_conv_Cons)
  have d: "drop_bit 1 (drop_bit i msk) = drop_bit (Suc i) msk" by simp
  have b: "bit (drop_bit i msk) 0 \<longleftrightarrow> bit msk i" by (simp add: bit_drop_bit_eq)
  show ?case
  proof (cases "drop_bit i msk = 0")
    case True
    have "\<not> bit msk j" if "i \<le> j" for j
    proof -
      have "bit msk j \<longleftrightarrow> bit (drop_bit i msk) (j - i)" using that by (simp add: bit_drop_bit_eq)
      then show ?thesis by (simp add: True)
    qed
    then have "[j \<leftarrow> [i..<i + Suc k]. bit msk j] = []" by (auto simp: filter_empty_conv)
    then show ?thesis using True by (simp add: dispatch_zero del: upt_Suc)
  next
    case False
    show ?thesis
    proof -
      have "dispatch tab (Suc i) k (drop_bit (Suc i) msk)
          = for_each_res (run_handler tab) [j \<leftarrow> [Suc i..<Suc i + k]. bit msk j]"
        by (rule ext) (rule Suc.IH)
      then show ?thesis
        unfolding up dispatch.simps low_bit b d
        using False by (simp add: run_handler_def [symmetric] del: upt_Suc)
    qed
  qed
qed simp

lemma dispatch_mask: "dispatch tab 0 k msk st = for_each_res (run_handler tab) [j \<leftarrow> [0..<k]. bit msk j] st"
  using dispatch_bits [of tab 0 k msk st] by simp

section \<open>Rounds\<close>

definition sched_round :: "'a irq_masks_scheme handlers \<Rightarrow> 'a irq_masks_scheme \<Rightarrow> 'a irq_masks_scheme res" where
  "sched_round tab st = for_each_res (run_handler tab) [j \<leftarrow> [0..<IRQ_SCHED_MAX]. bit (irq_sched_mask st) j]
    (st\<lparr>irq_sched_mask := 0\<rparr>)"

lemma irq_sched_unfold:
  "irq_sched tab st = (if irq_sched_mask st = 0 then Some (Inr st)
     else case sched_round tab st of Inl e \<Rightarrow> Some (Inl e) | Inr st \<Rightarrow> irq_sched tab st)"
proof -
  have "irq_sched_mask st = 0 \<Longrightarrow> st\<lparr>irq_sched_mask := 0\<rparr> = st" by (cases st) simp
  then show ?thesis
    by (subst irq_sched.simps) (simp add: Let_def dispatch_mask sched_round_def)
qed

text \<open>What every handler preserves, a finished run of the loop preserves, and it leaves no bit raised.\<close>

locale sched_handlers =
  fixes tab :: "'a irq_masks_scheme handlers"
    and inv :: "'a irq_masks_scheme \<Rightarrow> bool"
  assumes inv_mask: "inv st \<Longrightarrow> inv (st\<lparr>irq_sched_mask := 0\<rparr>)"
    and handler: "inv st \<Longrightarrow> tab i = Some fn \<Longrightarrow> fn st = Inr st' \<Longrightarrow> inv st'"
begin

lemma run_inv: "inv st \<Longrightarrow> run_handler tab i st = Inr st' \<Longrightarrow> inv st'"
  by (auto simp: run_handler_def split: option.splits intro: handler)

lemma for_each_inv: "inv st \<Longrightarrow> for_each_res (run_handler tab) js st = Inr st' \<Longrightarrow> inv st'"
  by (induction js arbitrary: st) (auto simp: bind_res_Inr dest: run_inv)

lemma round_inv: "inv st \<Longrightarrow> sched_round tab st = Inr st' \<Longrightarrow> inv st'"
  unfolding sched_round_def using for_each_inv inv_mask by blast

lemma loop_inv_res:
  assumes "irq_sched tab' st = Some r"
  shows "tab' = tab \<longrightarrow> inv st \<longrightarrow> (\<forall>st'. r = Inr st' \<longrightarrow> inv st' \<and> irq_sched_mask st' = 0)"
  using assms
proof (induction rule: irq_sched.raw_induct [rotated 1, consumes 1, case_names round])
  case (round loop tab' st r)
  show ?case
  proof (intro impI allI)
    fix st'
    assume t: "tab' = tab" and i: "inv st" and r: "r = Inr st'"
    show "inv st' \<and> irq_sched_mask st' = 0"
    proof (cases "irq_sched_mask st = 0")
      case True
      then have "st' = st\<lparr>irq_sched_mask := 0\<rparr>"
        using round(2) by (simp add: Let_def r)
      then show ?thesis using inv_mask [OF i] by simp
    next
      case False
      have "dispatch tab 0 IRQ_SCHED_MAX (irq_sched_mask st) (st\<lparr>irq_sched_mask := 0\<rparr>) = sched_round tab st"
        by (simp add: dispatch_mask sched_round_def)
      then obtain s1 where s1: "sched_round tab st = Inr s1" "loop tab s1 = Some r"
        using round(2) False by (cases "sched_round tab st") (simp_all add: Let_def r t)
      from round(1) [OF s1(2)] round_inv [OF i s1(1)] show ?thesis
        by (simp add: r)
    qed
  qed
qed

lemma loop_inv: "irq_sched tab st = Some (Inr st') \<Longrightarrow> inv st \<Longrightarrow> inv st' \<and> irq_sched_mask st' = 0"
  using loop_inv_res by blast

end

end
