(* ===== verification/Sched.thy ===== *)
theory Sched
  imports Irq
begin

text \<open>
  The scheduler of src/kernel/schedc.c with the counters of src/include/sched.h, the mutex, the
  wait queues, the timers of \<open>msleep\<close>, and the interrupt entry of src/kernel/excptc.c.

  A thread is a number, a queue of threads the list of its members in order: DList shows that the
  operations of src/kernel/list.c on linked entries are these list operations as long as no entry
  is on two queues, which the invariant \<open>wf_sched\<close> keeps true. \<open>preempt_disable\<close> makes each
  operation below one step. After \<open>_schedule\<close> (src/kernel/sched.s) the code goes on in the thread it
  switched to; a definition here ends with that switch.

  \<open>char\<close> is unsigned under the AAPCS, which the Makefile selects, so \<open>ticks\<close> is an 8-bit word.
\<close>

section \<open>State\<close>

type_synonym tid = nat

datatype tstate = THRD_STATE_RUNNING | THRD_STATE_READY | THRD_STATE_WAITING | THRD_STATE_WAKING
  | THRD_STATE_MUTEX_WAITING

record thread =
  t_ticks :: u8
  t_state :: tstate
  t_irq_ctx :: bool
  t_soft :: int
  t_sched :: int

text \<open>The queues threads wait on: those of \<open>wait\<close> and \<open>wait_event\<close>, of mutexes, and of timers.\<close>

datatype wqid = WaitQ nat | MutexQ nat | TimerQ nat

record sched = irq_masks +
  thr :: "tid \<Rightarrow> thread"
  ready :: "tid list"
  current :: tid
  idle :: tid
  wqs :: "wqid \<Rightarrow> tid list"
  mlock :: "nat \<Rightarrow> bool"
  timer_heads :: "nat \<Rightarrow> wqid list"
  timer_req_mask :: u32
  timer_recv_mask :: u32
  timer_ticks :: nat

definition THRD_QUOTA :: u8 where "THRD_QUOTA = 5"
definition SCHED_MAX_TOUT_TICKS :: nat where "SCHED_MAX_TOUT_TICKS = 32"
definition HZ :: nat where "HZ = 1"

definition upd_thr :: "tid \<Rightarrow> (thread \<Rightarrow> thread) \<Rightarrow> sched \<Rightarrow> sched" where
  "upd_thr t f st = st\<lparr>thr := (thr st)(t := f (thr st t))\<rparr>"

definition set_current_state :: "tstate \<Rightarrow> sched \<Rightarrow> sched" where
  "set_current_state s st = upd_thr (current st) (\<lambda>t. t\<lparr>t_state := s\<rparr>) st"

section \<open>Timer ticks\<close>

text \<open>\<open>ror\<close> by register uses the low five bits of the amount \<open>32 - c\<close>.\<close>

definition rol :: "u32 \<Rightarrow> nat \<Rightarrow> u32" where
  "rol v c = (if c mod 32 = 0 then v else word_rotr (32 - c mod 32) v)"

definition sched_timer_tick_soft :: "nat \<Rightarrow> sched \<Rightarrow> sched" where
  "sched_timer_tick_soft n st =
    (let st = (if current st \<noteq> idle st
               then let st = upd_thr (current st) (\<lambda>t. t\<lparr>t_ticks := t_ticks t - of_nat n\<rparr>) st
                    in if t_ticks (thr st (current st)) \<le> 0 then irq_sched_raise IRQ_SCHED_SCHEDULE st else st
               else st);
         msk = (if SCHED_MAX_TOUT_TICKS \<le> n then - 1 else rol (push_bit n 1 - 1) (timer_ticks st + 1));
         msk = msk AND timer_req_mask st;
         st = (if msk \<noteq> 0
               then irq_sched_raise IRQ_SCHED_TIMER (st\<lparr>timer_recv_mask := timer_recv_mask st OR msk\<rparr>)
               else st)
     in st\<lparr>timer_ticks := (timer_ticks st + n) mod SCHED_MAX_TOUT_TICKS\<rparr>)"

section \<open>Switching\<close>

datatype sched_ret = SCHED_RET_SWITCH | SCHED_RET_RUN

definition sched_switch :: "tid \<Rightarrow> sched \<Rightarrow> sched" where
  "sched_switch t st =
    (let st = (if t_ticks (thr st t) \<le> 0 then upd_thr t (\<lambda>x. x\<lparr>t_ticks := THRD_QUOTA\<rparr>) st else st);
         st = upd_thr t (\<lambda>x. x\<lparr>t_state := THRD_STATE_RUNNING\<rparr>) st
     in st\<lparr>current := t\<rparr>)"

text \<open>The last part of \<open>schedule_preempt_disabled\<close>: queue the current thread if it wants to go on, and
  switch.\<close>

definition switch_to :: "tid \<Rightarrow> sched \<Rightarrow> (sched \<times> sched_ret) res" where
  "switch_to t st =
    (let st = (if t_state (thr st (current st)) = THRD_STATE_RUNNING
               then let st = set_current_state THRD_STATE_READY st
                    in st\<lparr>ready := ready st @ [current st]\<rparr>
               else st)
     in Inr (sched_switch t st, SCHED_RET_SWITCH))"

definition schedule_preempt_disabled :: "sched \<Rightarrow> (sched \<times> sched_ret) res" where
  "schedule_preempt_disabled st =
    (case ready st of
       [] \<Rightarrow> assert_that ''schedc.c:127'' (current st = idle st) (Inr (st, SCHED_RET_RUN))
     | e # rest \<Rightarrow>
         assert_that ''schedc.c:135'' (current st \<noteq> e)
          (if e = idle st
           then (case rest of
              e' # rest' \<Rightarrow>
                assert_that ''schedc.c:157'' (current st \<noteq> e')
                 (assert_that ''schedc.c:158'' (e' \<noteq> idle st)
                   (switch_to e' (st\<lparr>ready := rest' @ [e]\<rparr>)))
            | [] \<Rightarrow>
                if t_state (thr st (current st)) = THRD_STATE_RUNNING
                then assert_that ''schedc.c:160'' (current st \<noteq> idle st)
                  (let st = st\<lparr>ready := [e]\<rparr>;
                       st = (if t_ticks (thr st (current st)) \<le> 0
                             then upd_thr (current st) (\<lambda>t. t\<lparr>t_ticks := THRD_QUOTA\<rparr>) st else st)
                   in Inr (st, SCHED_RET_RUN))
                else switch_to e (st\<lparr>ready := []\<rparr>))
           else switch_to e (st\<lparr>ready := rest\<rparr>)))"

section \<open>Waiting and waking\<close>

definition list_add_tail_wq :: "wqid \<Rightarrow> tid \<Rightarrow> sched \<Rightarrow> sched" where
  "list_add_tail_wq w t st = st\<lparr>wqs := (wqs st)(w := wqs st w @ [t])\<rparr>"

definition wake_one :: "wqid \<Rightarrow> tid \<Rightarrow> sched \<times> bool \<Rightarrow> (sched \<times> bool) res" where
  "wake_one w t = (\<lambda>(st, queued).
    let st = st\<lparr>wqs := (wqs st)(w := tl (wqs st w))\<rparr>
    in assert_that ''schedc.c:229'' (t \<noteq> idle st)
      (assert_that ''schedc.c:231''
        (t_state (thr st t) = THRD_STATE_WAITING \<or> t_state (thr st t) = THRD_STATE_MUTEX_WAITING)
        (if t = current st
         then Inr (upd_thr t (\<lambda>x. x\<lparr>t_state := THRD_STATE_RUNNING\<rparr>) st, queued)
         else let st = upd_thr t (\<lambda>x. x\<lparr>t_state := THRD_STATE_READY\<rparr>) st
              in Inr (st\<lparr>ready := ready st @ [t]\<rparr>, True))))"

definition wake_up_preempt_disabled :: "wqid \<Rightarrow> sched \<Rightarrow> sched res" where
  "wake_up_preempt_disabled w st =
    bind_res (for_each_res (wake_one w) (wqs st w) (st, False)) (\<lambda>(st, queued).
      Inr (if current st = idle st \<and> queued then irq_sched_raise IRQ_SCHED_SCHEDULE st else st))"

text \<open>The part of \<open>wait(wq)\<close> before it calls \<open>schedule\<close>, and one round of the loop of \<open>mutex_lock\<close>:
  either the mutex is taken, or the thread queues itself and calls \<open>schedule\<close>.\<close>

definition wait_enqueue :: "tstate \<Rightarrow> wqid \<Rightarrow> sched \<Rightarrow> sched" where
  "wait_enqueue s w st =
    (let st = set_current_state s st in list_add_tail_wq w (current st) st)"

definition mutex_lock_round :: "nat \<Rightarrow> sched \<Rightarrow> sched \<times> bool" where
  "mutex_lock_round m st =
    (if mlock st m then (wait_enqueue THRD_STATE_MUTEX_WAITING (MutexQ m) st, False)
     else (st\<lparr>mlock := (mlock st)(m := True)\<rparr>, True))"

definition mutex_unlock :: "nat \<Rightarrow> sched \<Rightarrow> sched res" where
  "mutex_unlock m st = wake_up_preempt_disabled (MutexQ m) (st\<lparr>mlock := (mlock st)(m := False)\<rparr>)"

section \<open>Timers\<close>

text \<open>The timer that \<open>msleep\<close> puts on its stack is the number \<open>k\<close>; its wait queue is \<open>TimerQ k\<close> and
  its function \<open>sched_timer_wakeup\<close>.\<close>

definition msleep_arm :: "nat \<Rightarrow> int \<Rightarrow> sched \<Rightarrow> sched res" where
  "msleep_arm k ms st =
    assert_that ''schedc.c:395'' (0 < ms)
     (let ticks = nat (int HZ * ms div 1000); ticks = (if ticks = 0 then 1 else ticks)
      in assert_that ''schedc.c:402'' (0 < ticks)
       (assert_that ''schedc.c:405'' (ticks \<le> SCHED_MAX_TOUT_TICKS)
         (let ft = (timer_ticks st + ticks) mod SCHED_MAX_TOUT_TICKS
          in Inr (st\<lparr>wqs := (wqs st)(TimerQ k := []),
                     timer_heads := (timer_heads st)(ft := timer_heads st ft @ [TimerQ k]),
                     timer_req_mask := timer_req_mask st OR push_bit ft 1\<rparr>))))"

definition sched_timer_wakeup :: "wqid \<Rightarrow> sched \<Rightarrow> sched res" where
  "sched_timer_wakeup w st = wake_up_preempt_disabled w st"

definition fire_slot :: "nat \<Rightarrow> sched \<Rightarrow> sched res" where
  "fire_slot i st =
    assert_that ''schedc.c:369'' (timer_heads st i \<noteq> [])
      (for_each_res
        (\<lambda>w st. sched_timer_wakeup w (st\<lparr>timer_heads := (timer_heads st)(i := tl (timer_heads st i))\<rparr>))
        (timer_heads st i) st)"

definition sched_irq_timer :: "sched \<Rightarrow> sched res" where
  "sched_irq_timer st =
    (let msk = timer_recv_mask st;
         st = st\<lparr>timer_recv_mask := 0, timer_req_mask := timer_req_mask st AND NOT msk\<rparr>
     in if msk = 0 then Inr st
        else for_res 0 32 (\<lambda>i st. if bit msk i then fire_slot i st else Inr st) st)"

definition sched_irq_schedule :: "sched \<Rightarrow> sched res" where
  "sched_irq_schedule st = bind_res (schedule_preempt_disabled st) (\<lambda>(st, ret). Inr st)"

section \<open>Threads\<close>

definition sched_thread_create :: "tid \<Rightarrow> sched \<Rightarrow> sched" where
  "sched_thread_create t st =
    (let st = upd_thr t (\<lambda>_. \<lparr>t_ticks = THRD_QUOTA, t_state = THRD_STATE_READY, t_irq_ctx = False, t_soft = 0, t_sched = 0\<rparr>) st
     in st\<lparr>ready := ready st @ [t]\<rparr>)"

definition sched_current_init :: "tid \<Rightarrow> sched \<Rightarrow> sched" where
  "sched_current_init t st =
    (upd_thr t (\<lambda>_. \<lparr>t_ticks = THRD_QUOTA, t_state = THRD_STATE_RUNNING, t_irq_ctx = False, t_soft = 0, t_sched = 0\<rparr>) st)
      \<lparr>current := t\<rparr>"

text \<open>\<open>sched_init\<close>: the handlers it registers, and the state with the idle thread \<open>t\<close>.\<close>

definition sched_tab :: "sched handlers \<Rightarrow> sched handlers res" where
  "sched_tab tab =
    bind_res (irq_sched_insert IRQ_SCHED_SCHEDULE sched_irq_schedule tab)
      (irq_sched_insert IRQ_SCHED_TIMER sched_irq_timer)"

definition sched_init :: "tid \<Rightarrow> sched \<Rightarrow> sched" where
  "sched_init t st =
    (let st = sched_thread_create t (st\<lparr>ready := [], timer_heads := (\<lambda>_. [])\<rparr>) in st\<lparr>idle := t\<rparr>)"

section \<open>Nesting counters and the interrupt entry\<close>

text \<open>The counters of thread \<open>t\<close>, the thread that executes these functions. Where \<open>irq_sched\<close> switches
  away, the code goes on when \<open>t\<close> runs again; what other threads do in between is not part of the
  function.\<close>

definition irq_soft_disable :: "tid \<Rightarrow> sched \<Rightarrow> sched \<times> int" where
  "irq_soft_disable t st =
    (let st = upd_thr t (\<lambda>x. x\<lparr>t_soft := t_soft x + 1\<rparr>) st in (st, t_soft (thr st t)))"

definition irq_sched_disable :: "tid \<Rightarrow> sched \<Rightarrow> sched \<times> int" where
  "irq_sched_disable t st =
    (let st = upd_thr t (\<lambda>x. x\<lparr>t_sched := t_sched x + 1\<rparr>) st in (st, t_sched (thr st t)))"

definition irq_soft_enable :: "sched handlers \<Rightarrow> tid \<Rightarrow> sched \<Rightarrow> sched res" where
  "irq_soft_enable soft t st =
    (let v = t_soft (thr st t)
     in bind_res (if \<not> t_irq_ctx (thr st t) \<and> v = 1 then run_loop (irq_soft soft st) else Inr st)
          (\<lambda>st. Inr (upd_thr t (\<lambda>x. x\<lparr>t_soft := t_soft x - 1\<rparr>) st)))"

definition irq_sched_enable :: "sched handlers \<Rightarrow> tid \<Rightarrow> sched \<Rightarrow> sched res" where
  "irq_sched_enable tab t st =
    (let v = t_sched (thr st t)
     in bind_res (if \<not> t_irq_ctx (thr st t) \<and> v = 1 then run_loop (irq_sched tab st) else Inr st)
          (\<lambda>st. Inr (upd_thr t (\<lambda>x. x\<lparr>t_sched := t_sched x - 1\<rparr>) st)))"

definition set_irq_ctx :: "bool \<Rightarrow> tid \<Rightarrow> sched \<Rightarrow> sched" where
  "set_irq_ctx v t = upd_thr t (\<lambda>x. x\<lparr>t_irq_ctx := v\<rparr>)"

text \<open>\<open>excpt_irq\<close>, run by the interrupted thread \<open>t = current\<close>.\<close>

definition excpt_irq :: "sched handlers \<Rightarrow> sched handlers \<Rightarrow> sched handlers \<Rightarrow> tid \<Rightarrow> sched \<Rightarrow> sched res" where
  "excpt_irq hard soft tab t st =
    bind_res (irq_hard hard st) (\<lambda>st.
      case irq_soft_disable t st of (st, depth) \<Rightarrow>
        bind_res
          (if 1 < depth then Inr st
           else
             bind_res (run_loop (irq_soft soft (set_irq_ctx True t st))) (\<lambda>st.
               case irq_sched_disable t st of (st, depth) \<Rightarrow>
                 bind_res (if 1 < depth then Inr st else run_loop (irq_sched tab st)) (\<lambda>st.
                   bind_res (irq_sched_enable tab t st) (\<lambda>st. Inr (set_irq_ctx False t st)))))
          (irq_soft_enable soft t))"

text \<open>\<open>schedule\<close> up to the switch; \<open>wake_up\<close>.\<close>

definition schedule :: "sched \<Rightarrow> (sched \<times> sched_ret) res" where
  "schedule st =
    (case irq_sched_disable (current st) st of (st, ret) \<Rightarrow>
      assert_that ''schedc.c:208'' (ret = 1) (schedule_preempt_disabled st))"

definition wake_up :: "sched handlers \<Rightarrow> wqid \<Rightarrow> sched \<Rightarrow> sched res" where
  "wake_up tab w st =
    (let t = current st
     in case irq_sched_disable t st of (st, ret) \<Rightarrow>
       assert_that ''schedc.c:253'' (ret = 1)
         (bind_res (wake_up_preempt_disabled w st) (irq_sched_enable tab t)))"

section \<open>The invariant\<close>

definition wf_sched :: "sched \<Rightarrow> bool" where
  "wf_sched st \<longleftrightarrow>
    distinct (ready st) \<and> current st \<notin> set (ready st)
    \<and> (idle st = current st \<or> idle st \<in> set (ready st))
    \<and> (\<forall>t\<in>set (ready st). t_state (thr st t) = THRD_STATE_READY)
    \<and> (\<forall>w. distinct (wqs st w))
    \<and> (\<forall>w. \<forall>t\<in>set (wqs st w). t_state (thr st t) \<in> {THRD_STATE_WAITING, THRD_STATE_MUTEX_WAITING})
    \<and> (\<forall>w w' t. t \<in> set (wqs st w) \<longrightarrow> t \<in> set (wqs st w') \<longrightarrow> w = w')
    \<and> (\<forall>w. idle st \<notin> set (wqs st w))
    \<and> (t_state (thr st (current st)) = THRD_STATE_RUNNING \<or> (\<exists>w. current st \<in> set (wqs st w)))"

lemma wf_schedD:
  assumes "wf_sched st"
  shows "distinct (ready st)" "current st \<notin> set (ready st)" "idle st = current st \<or> idle st \<in> set (ready st)"
    "t \<in> set (ready st) \<Longrightarrow> t_state (thr st t) = THRD_STATE_READY"
    "distinct (wqs st w)"
    "t \<in> set (wqs st w) \<Longrightarrow> t_state (thr st t) \<in> {THRD_STATE_WAITING, THRD_STATE_MUTEX_WAITING}"
    "t \<in> set (wqs st w) \<Longrightarrow> t \<in> set (wqs st w') \<Longrightarrow> w = w'"
    "idle st \<notin> set (wqs st w)"
    "t_state (thr st (current st)) = THRD_STATE_RUNNING \<or> (\<exists>w. current st \<in> set (wqs st w))"
    "t \<in> set (wqs st w) \<Longrightarrow> t \<notin> set (ready st)"
proof -
  note d = assms [unfolded wf_sched_def]
  show "distinct (ready st)" using d by (elim conjE)
  show "current st \<notin> set (ready st)" using d by (elim conjE)
  show "idle st = current st \<or> idle st \<in> set (ready st)" using d by (elim conjE)
  show "t_state (thr st (current st)) = THRD_STATE_RUNNING \<or> (\<exists>w. current st \<in> set (wqs st w))"
    using d by (elim conjE)
  show rd: "t_state (thr st t) = THRD_STATE_READY" if "t \<in> set (ready st)" for t
    using d that by simp
  show wt: "t_state (thr st t) \<in> {THRD_STATE_WAITING, THRD_STATE_MUTEX_WAITING}" if "t \<in> set (wqs st w)" for t w
    using d that by (elim conjE) (drule spec [of _ w], drule bspec, assumption, assumption)
  show "distinct (wqs st w)" using d by (elim conjE) (rule spec)
  show "idle st \<notin> set (wqs st w)" using d by (elim conjE) simp
  show "w = w'" if "t \<in> set (wqs st w)" "t \<in> set (wqs st w')"
    using d that by (elim conjE) blast
  show "t \<notin> set (ready st)" if "t \<in> set (wqs st w)"
    using rd [of t] wt [OF that] by auto
qed

lemma upd_thr_simps [simp]:
  "ready (upd_thr t f st) = ready st" "current (upd_thr t f st) = current st" "idle (upd_thr t f st) = idle st"
  "wqs (upd_thr t f st) = wqs st" "mlock (upd_thr t f st) = mlock st" "timer_heads (upd_thr t f st) = timer_heads st"
  "timer_req_mask (upd_thr t f st) = timer_req_mask st" "timer_recv_mask (upd_thr t f st) = timer_recv_mask st"
  "timer_ticks (upd_thr t f st) = timer_ticks st" "irq_sched_mask (upd_thr t f st) = irq_sched_mask st"
  "thr (upd_thr t f st) = (thr st)(t := f (thr st t))"
  by (simp_all add: upd_thr_def)

lemma raise_simps [simp]:
  "ready (irq_sched_raise i st) = ready st" "current (irq_sched_raise i st) = current st"
  "idle (irq_sched_raise i st) = idle st" "wqs (irq_sched_raise i st) = wqs st"
  "mlock (irq_sched_raise i st) = mlock st" "timer_heads (irq_sched_raise i st) = timer_heads st"
  "timer_req_mask (irq_sched_raise i st) = timer_req_mask st"
  "timer_recv_mask (irq_sched_raise i st) = timer_recv_mask st"
  "timer_ticks (irq_sched_raise i st) = timer_ticks st" "thr (irq_sched_raise i st) = thr st"
  by (simp_all add: irq_sched_raise_def)

text \<open>The invariant reads only the states of the threads and the queues.\<close>

lemma wf_sched_cong:
  "ready st' = ready st \<Longrightarrow> current st' = current st \<Longrightarrow> idle st' = idle st \<Longrightarrow> wqs st' = wqs st \<Longrightarrow>
   (\<And>t. t_state (thr st' t) = t_state (thr st t)) \<Longrightarrow> wf_sched st' = wf_sched st"
  by (simp add: wf_sched_def)

section \<open>One call of the scheduler\<close>

definition running :: "sched \<Rightarrow> bool" where
  "running st \<longleftrightarrow> t_state (thr st (current st)) = THRD_STATE_RUNNING"

text \<open>The state after a switch to \<open>t\<close> with \<open>q\<close> left on the ready queue.\<close>

lemma switch_to_fields:
  assumes "switch_to t (st\<lparr>ready := q\<rparr>) = Inr (st', ret)" and "t \<noteq> current st"
  shows "ret = SCHED_RET_SWITCH" "current st' = t" "idle st' = idle st" "wqs st' = wqs st" "mlock st' = mlock st"
    "ready st' = (if running st then q @ [current st] else q)"
    "t_state (thr st' x) = (if x = t then THRD_STATE_RUNNING
       else if x = current st \<and> running st then THRD_STATE_READY else t_state (thr st x))"
    "t_ticks (thr st' x) = (if x = t \<and> t_ticks (thr st t) = 0 then THRD_QUOTA else t_ticks (thr st x))"
    "timer_heads st' = timer_heads st" "timer_req_mask st' = timer_req_mask st"
    "timer_recv_mask st' = timer_recv_mask st" "timer_ticks st' = timer_ticks st"
  using assms by (auto simp: switch_to_def sched_switch_def set_current_state_def running_def Let_def)

lemma switch_to_ok: "\<exists>st'. switch_to t st = Inr (st', SCHED_RET_SWITCH)"
  by (simp add: switch_to_def Let_def)

lemma switch_to_wf:
  assumes wf: "wf_sched st" and q: "distinct (t # q)" "set (ready st) = set (t # q)"
    and sw: "switch_to t (st\<lparr>ready := q\<rparr>) = Inr (st', ret)"
  shows "wf_sched st'"
proof -
  note w = wf_schedD [OF wf]
  have tc: "t \<noteq> current st" using w(2) q(2) by auto
  note f = switch_to_fields [OF sw tc]
  have nw: "t \<notin> set (wqs st x)" for x using w(10) q(2) by auto
  have cq: "current st \<notin> set q" using w(2) q(2) by auto
  have cw: "current st \<notin> set (wqs st x)" if "running st" for x
    using w(6) [of "current st" x] that by (auto simp: running_def)
  have i: "idle st \<in> set (ready st')  \<or> idle st = t"
  proof (cases "idle st = current st")
    case True
    then have "running st" using w(8,9) by (auto simp: running_def)
    then show ?thesis using True f(6) by simp
  next
    case False
    then show ?thesis using w(3) q(2) f(6) by auto
  qed
  have st: "t_state (thr st' x) = t_state (thr st x)" if "x \<in> set (wqs st y)" for x y
    using f(7) nw cw that by metis
  show ?thesis
    unfolding wf_sched_def f(2-4)
  proof (intro conjI ballI allI impI)
    show "distinct (ready st')" using f(6) q(1) cq by simp
    show "t \<notin> set (ready st')" using f(6) q(1) tc by simp
    show "idle st = t \<or> idle st \<in> set (ready st')" using i by blast
    fix x assume "x \<in> set (ready st')"
    then show "t_state (thr st' x) = THRD_STATE_READY"
      using f(6,7) q w(4) tc by (auto split: if_splits)
  next
    fix y show "distinct (wqs st y)" by (rule w(5))
    show "idle st \<notin> set (wqs st y)" by (rule w(8))
    fix x assume x: "x \<in> set (wqs st y)"
    show "t_state (thr st' x) \<in> {THRD_STATE_WAITING, THRD_STATE_MUTEX_WAITING}"
      using w(6) [OF x] st [OF x] by simp
    fix y' assume "x \<in> set (wqs st y')"
    with x show "y = y'" by (rule w(7))
  next
    show "t_state (thr st' t) = THRD_STATE_RUNNING \<or> (\<exists>y. t \<in> set (wqs st y))"
      using f(7) by simp
  qed
qed

text \<open>The thread the scheduler takes: the first of the ready queue, or the second when the first is the
  idle thread.\<close>

definition next_thread :: "sched \<Rightarrow> tid" where
  "next_thread st = (if hd (ready st) = idle st \<and> tl (ready st) \<noteq> [] then hd (tl (ready st)) else hd (ready st))"

definition queue_rest :: "sched \<Rightarrow> tid list" where
  "queue_rest st = (if hd (ready st) = idle st \<and> tl (ready st) \<noteq> [] then tl (tl (ready st)) @ [idle st] else tl (ready st))"

definition keeps_running :: "sched \<Rightarrow> bool" where
  "keeps_running st \<longleftrightarrow> ready st = [] \<or> ready st = [idle st] \<and> running st"

lemma schedule_switch:
  assumes wf: "wf_sched st" and k: "\<not> keeps_running st"
  shows "schedule_preempt_disabled st = switch_to (next_thread st) (st\<lparr>ready := queue_rest st\<rparr>)"
    and "distinct (next_thread st # queue_rest st)" "set (ready st) = set (next_thread st # queue_rest st)"
proof -
  note w = wf_schedD [OF wf]
  obtain e rest where r: "ready st = e # rest" using k by (cases "ready st") (auto simp: keeps_running_def)
  have ce: "current st \<noteq> e" using w(2) r by auto
  show "schedule_preempt_disabled st = switch_to (next_thread st) (st\<lparr>ready := queue_rest st\<rparr>)"
  proof (cases "e = idle st")
    case False
    then show ?thesis using ce r by (simp add: schedule_preempt_disabled_def next_thread_def queue_rest_def)
  next
    case True
    show ?thesis
    proof (cases rest)
      case Nil
      then show ?thesis
        using k r True ce by (simp add: schedule_preempt_disabled_def next_thread_def queue_rest_def keeps_running_def running_def)
    next
      case (Cons e' rest')
      then have "current st \<noteq> e'" "e' \<noteq> idle st" using w(1,2) r True by auto
      with True Cons r ce show ?thesis
        by (simp add: schedule_preempt_disabled_def next_thread_def queue_rest_def)
    qed
  qed
  show "distinct (next_thread st # queue_rest st)"
    using w(1) r by (cases rest) (auto simp: next_thread_def queue_rest_def)
  show "set (ready st) = set (next_thread st # queue_rest st)"
    using r by (cases rest) (auto simp: next_thread_def queue_rest_def)
qed

lemma ready_same: "ready st = q \<Longrightarrow> st\<lparr>ready := q\<rparr> = st"
  by (rule sched.equality) simp_all

lemma schedule_keep:
  assumes wf: "wf_sched st" and k: "keeps_running st"
  shows "schedule_preempt_disabled st = Inr
    (if ready st \<noteq> [] \<and> t_ticks (thr st (current st)) = 0
     then upd_thr (current st) (\<lambda>t. t\<lparr>t_ticks := THRD_QUOTA\<rparr>) st else st, SCHED_RET_RUN)"
proof -
  note w = wf_schedD [OF wf]
  show ?thesis
  proof (cases "ready st")
    case Nil
    then show ?thesis using w(3) by (simp add: schedule_preempt_disabled_def)
  next
    case (Cons e rest)
    then have c: "e = idle st" "rest = []" "running st" "current st \<noteq> idle st"
      using k w(2) by (auto simp: keeps_running_def)
    have "st\<lparr>ready := [idle st]\<rparr> = st"
      by (rule ready_same) (use Cons c in simp)
    note same = this
    show ?thesis
      using Cons c by (simp add: schedule_preempt_disabled_def running_def) (simp only: same simp_thms)
  qed
qed

lemma schedule_wf:
  assumes "wf_sched st"
  shows "\<exists>st' ret. schedule_preempt_disabled st = Inr (st', ret) \<and> wf_sched st'"
proof (cases "keeps_running st")
  case True
  have "wf_sched (upd_thr (current st) (\<lambda>t. t\<lparr>t_ticks := THRD_QUOTA\<rparr>) st)"
    using assms by (subst wf_sched_cong [of _ st]) simp_all
  with True assms show ?thesis by (simp add: schedule_keep)
next
  case False
  note s = schedule_switch [OF assms False]
  obtain st' where "switch_to (next_thread st) (st\<lparr>ready := queue_rest st\<rparr>) = Inr (st', SCHED_RET_SWITCH)"
    using switch_to_ok by blast
  with s switch_to_wf [OF assms s(2,3) this] show ?thesis by auto
qed

section \<open>Waking\<close>

text \<open>One thread of the queue, and the whole queue, against plain updates of the state.\<close>

definition woken :: "sched \<Rightarrow> tid \<Rightarrow> tstate" where
  "woken st t = (if t = current st then THRD_STATE_RUNNING else THRD_STATE_READY)"

definition wake_state :: "wqid \<Rightarrow> tid list \<Rightarrow> sched \<Rightarrow> sched" where
  "wake_state w ts st = st\<lparr>wqs := (wqs st)(w := drop (length ts) (wqs st w)),
     thr := (\<lambda>x. if x \<in> set ts then (thr st x)\<lparr>t_state := woken st x\<rparr> else thr st x),
     ready := ready st @ filter (\<lambda>t. t \<noteq> current st) ts\<rparr>"

lemma wake_state_simps [simp]:
  "current (wake_state w ts st) = current st" "idle (wake_state w ts st) = idle st"
  "timer_heads (wake_state w ts st) = timer_heads st" "timer_req_mask (wake_state w ts st) = timer_req_mask st"
  "timer_recv_mask (wake_state w ts st) = timer_recv_mask st" "timer_ticks (wake_state w ts st) = timer_ticks st"
  "mlock (wake_state w ts st) = mlock st" "irq_sched_mask (wake_state w ts st) = irq_sched_mask st"
  by (simp_all add: wake_state_def)

lemma wake_one_eq:
  assumes "t \<noteq> idle st" "t_state (thr st t) \<in> {THRD_STATE_WAITING, THRD_STATE_MUTEX_WAITING}"
  shows "wake_one w t (st, b) = Inr (wake_state w [t] st, b \<or> t \<noteq> current st)"
proof -
  have "(\<lambda>x. if x \<in> set [t] then (thr st x)\<lparr>t_state := woken st x\<rparr> else thr st x)
      = (thr st)(t := (thr st t)\<lparr>t_state := woken st t\<rparr>)" by (rule ext) simp
  then show ?thesis
    using assms by (auto simp: wake_one_def wake_state_def upd_thr_def woken_def Let_def drop_Suc)
qed

lemma wake_state_Cons:
  "t \<notin> set ts \<Longrightarrow> wake_state w ts (wake_state w [t] st) = wake_state w (t # ts) st"
  by (auto simp: wake_state_def woken_def fun_eq_iff drop_Suc drop_tl)

lemma wake_all:
  assumes "distinct ts" "\<forall>t\<in>set ts. t \<noteq> idle st \<and> t_state (thr st t) \<in> {THRD_STATE_WAITING, THRD_STATE_MUTEX_WAITING}"
  shows "for_each_res (wake_one w) ts (st, b) = Inr (wake_state w ts st, b \<or> (\<exists>t\<in>set ts. t \<noteq> current st))"
  using assms
proof (induction ts arbitrary: st b)
  case Nil
  have "(\<lambda>x. if x \<in> set [] then (thr st x)\<lparr>t_state := woken st x\<rparr> else thr st x) = thr st" by simp
  then show ?case by (simp add: wake_state_def)
next
  case (Cons t ts)
  let ?s = "wake_state w [t] st"
  have "\<forall>x\<in>set ts. x \<noteq> idle ?s \<and> t_state (thr ?s x) \<in> {THRD_STATE_WAITING, THRD_STATE_MUTEX_WAITING}"
    using Cons.prems by (auto simp: wake_state_def)
  with Cons show ?case
    using wake_one_eq [of t st w b] wake_state_Cons [of t ts w st] by auto
qed

definition woken_queue :: "wqid \<Rightarrow> sched \<Rightarrow> sched" where
  "woken_queue w st =
    (let s = wake_state w (wqs st w) st
     in if current st = idle st \<and> (\<exists>t\<in>set (wqs st w). t \<noteq> current st) then irq_sched_raise IRQ_SCHED_SCHEDULE s else s)"

lemma wake_up_eq:
  assumes "wf_sched st"
  shows "wake_up_preempt_disabled w st = Inr (woken_queue w st)"
proof -
  note f = wf_schedD [OF assms]
  have "for_each_res (wake_one w) (wqs st w) (st, False)
      = Inr (wake_state w (wqs st w) st, \<exists>t\<in>set (wqs st w). t \<noteq> current st)"
    by (subst wake_all) (use f(5,6,8) in auto)
  then show ?thesis
    by (simp add: wake_up_preempt_disabled_def woken_queue_def Let_def)
qed

lemma woken_queue_fields:
  "current (woken_queue w st) = current st" "idle (woken_queue w st) = idle st"
  "wqs (woken_queue w st) = (wqs st)(w := [])"
  "ready (woken_queue w st) = ready st @ filter (\<lambda>t. t \<noteq> current st) (wqs st w)"
  "thr (woken_queue w st) x = (if x \<in> set (wqs st w) then (thr st x)\<lparr>t_state := woken st x\<rparr> else thr st x)"
  "mlock (woken_queue w st) = mlock st" "timer_heads (woken_queue w st) = timer_heads st"
  "timer_req_mask (woken_queue w st) = timer_req_mask st" "timer_recv_mask (woken_queue w st) = timer_recv_mask st"
  "timer_ticks (woken_queue w st) = timer_ticks st"
  by (simp_all add: woken_queue_def wake_state_def Let_def)

lemma woken_queue_wf:
  assumes wf: "wf_sched st"
  shows "wf_sched (woken_queue w st)"
proof -
  note f = wf_schedD [OF wf]
  note q = woken_queue_fields [of w st]
  have other: "t \<notin> set (wqs st w)" if "t \<in> set (wqs st y)" "y \<noteq> w" for t y
    using f(7) that by blast
  show ?thesis
    unfolding wf_sched_def q(1-4)
  proof (intro conjI ballI allI impI)
    show "distinct (ready st @ filter (\<lambda>t. t \<noteq> current st) (wqs st w))"
      using f(1,5,10) by auto
    show "current st \<notin> set (ready st @ filter (\<lambda>t. t \<noteq> current st) (wqs st w))"
      using f(2) by simp
    show "idle st = current st \<or> idle st \<in> set (ready st @ filter (\<lambda>t. t \<noteq> current st) (wqs st w))"
      using f(3) by auto
    fix t assume t: "t \<in> set (ready st @ filter (\<lambda>t. t \<noteq> current st) (wqs st w))"
    show "t_state (thr (woken_queue w st) t) = THRD_STATE_READY"
    proof (cases "t \<in> set (wqs st w)")
      case True
      then have "t \<noteq> current st" using t f(10) [OF True] by auto
      with True show ?thesis by (simp add: q(5) woken_def)
    next
      case False
      with t f(4) show ?thesis by (auto simp: q(5))
    qed
  next
    fix y
    show "distinct (((wqs st)(w := [])) y)" using f(5) by simp
    show "idle st \<notin> set (((wqs st)(w := [])) y)" using f(8) by simp
    fix t assume t: "t \<in> set (((wqs st)(w := [])) y)"
    then have y: "y \<noteq> w" "t \<in> set (wqs st y)" by (auto split: if_splits)
    show "t_state (thr (woken_queue w st) t) \<in> {THRD_STATE_WAITING, THRD_STATE_MUTEX_WAITING}"
      using f(6) [OF y(2)] other [OF y(2,1)] by (simp add: q(5))
    fix y' assume "t \<in> set (((wqs st)(w := [])) y')"
    then show "y = y'" using f(7) y by (auto split: if_splits)
  next
    show "t_state (thr (woken_queue w st) (current st)) = THRD_STATE_RUNNING \<or>
        (\<exists>y. current st \<in> set (((wqs st)(w := [])) y))"
    proof (cases "current st \<in> set (wqs st w)")
      case True
      then show ?thesis by (simp add: q(5) woken_def)
    next
      case False
      then show ?thesis using f(9) by (auto simp: q(5))
    qed
  qed
qed

section \<open>Going to sleep\<close>

lemma wait_enqueue_fields:
  "current (wait_enqueue s w st) = current st" "idle (wait_enqueue s w st) = idle st"
  "ready (wait_enqueue s w st) = ready st" "wqs (wait_enqueue s w st) = (wqs st)(w := wqs st w @ [current st])"
  "t_state (thr (wait_enqueue s w st) x) = (if x = current st then s else t_state (thr st x))"
  "mlock (wait_enqueue s w st) = mlock st" "timer_heads (wait_enqueue s w st) = timer_heads st"
  "timer_req_mask (wait_enqueue s w st) = timer_req_mask st" "timer_recv_mask (wait_enqueue s w st) = timer_recv_mask st"
  "timer_ticks (wait_enqueue s w st) = timer_ticks st"
  by (simp_all add: wait_enqueue_def set_current_state_def list_add_tail_wq_def Let_def)

lemma running_not_waiting: "wf_sched st \<Longrightarrow> running st \<Longrightarrow> current st \<notin> set (wqs st w)"
  using wf_schedD(6) [of st "current st" w] by (auto simp: running_def)

lemma wait_enqueue_wf:
  assumes wf: "wf_sched st" and run: "running st" and idle: "current st \<noteq> idle st"
    and s: "s \<in> {THRD_STATE_WAITING, THRD_STATE_MUTEX_WAITING}"
  shows "wf_sched (wait_enqueue s w st)"
proof -
  note f = wf_schedD [OF wf]
  note q = wait_enqueue_fields [of s w st]
  note nc = running_not_waiting [OF wf run]
  show ?thesis
    unfolding wf_sched_def q(1-4)
  proof (intro conjI ballI allI impI)
    show "distinct (ready st)" by (rule f(1))
    show "current st \<notin> set (ready st)" by (rule f(2))
    show "idle st = current st \<or> idle st \<in> set (ready st)" by (rule f(3))
    fix t assume t: "t \<in> set (ready st)"
    with f(2,4) show "t_state (thr (wait_enqueue s w st) t) = THRD_STATE_READY" by (auto simp: q(5))
  next
    fix y
    show "distinct (((wqs st)(w := wqs st w @ [current st])) y)" using f(5) nc by simp
    show "idle st \<notin> set (((wqs st)(w := wqs st w @ [current st])) y)" using f(8) idle by auto
    fix t assume t: "t \<in> set (((wqs st)(w := wqs st w @ [current st])) y)"
    show "t_state (thr (wait_enqueue s w st) t) \<in> {THRD_STATE_WAITING, THRD_STATE_MUTEX_WAITING}"
      using t s f(6) by (auto simp: q(5) split: if_splits)
    fix y' assume "t \<in> set (((wqs st)(w := wqs st w @ [current st])) y')"
    with t show "y = y'" using f(7) nc by (auto split: if_splits)
  next
    show "t_state (thr (wait_enqueue s w st) (current st)) = THRD_STATE_RUNNING \<or>
        (\<exists>y. current st \<in> set (((wqs st)(w := wqs st w @ [current st])) y))"
      by (rule disjI2, rule exI [of _ w]) simp
  qed
qed

section \<open>Timers\<close>

text \<open>A bit of the request mask stands for a nonempty slot, and only requested slots are due.\<close>

definition wf_timers :: "sched \<Rightarrow> bool" where
  "wf_timers st \<longleftrightarrow> (\<forall>i<32. bit (timer_req_mask st) i \<longleftrightarrow> timer_heads st i \<noteq> [])
    \<and> (\<forall>i. bit (timer_recv_mask st) i \<longrightarrow> bit (timer_req_mask st) i) \<and> timer_ticks st < 32"

lemma wf_sched_heads: "wf_sched (st\<lparr>timer_heads := h\<rparr>) = wf_sched st"
  by (rule wf_sched_cong) simp_all

lemma fire_list:
  assumes "wf_sched st" and "timer_heads st i = ws"
  shows "\<exists>st'. for_each_res (\<lambda>w st. sched_timer_wakeup w (st\<lparr>timer_heads := (timer_heads st)(i := tl (timer_heads st i))\<rparr>)) ws st
      = Inr st' \<and> wf_sched st' \<and> timer_heads st' = (timer_heads st)(i := []) \<and> current st' = current st \<and> idle st' = idle st
      \<and> timer_req_mask st' = timer_req_mask st \<and> timer_recv_mask st' = timer_recv_mask st \<and> mlock st' = mlock st
      \<and> timer_ticks st' = timer_ticks st \<and> (\<forall>w. wqs st' w = (if w \<in> set ws then [] else wqs st w))"
  using assms
proof (induction ws arbitrary: st)
  case Nil
  then have "(timer_heads st)(i := []) = timer_heads st" by auto
  with Nil show ?case by simp
next
  case (Cons w ws)
  let ?s = "st\<lparr>timer_heads := (timer_heads st)(i := tl (timer_heads st i))\<rparr>"
  have wf: "wf_sched ?s" using Cons.prems(1) by (simp only: wf_sched_heads)
  have one: "sched_timer_wakeup w ?s = Inr (woken_queue w ?s)"
    by (simp only: sched_timer_wakeup_def wake_up_eq [OF wf])
  have h: "timer_heads (woken_queue w ?s) i = ws"
    using Cons.prems(2) by (simp add: woken_queue_fields)
  obtain st' where st': "for_each_res (\<lambda>w st. sched_timer_wakeup w (st\<lparr>timer_heads := (timer_heads st)(i := tl (timer_heads st i))\<rparr>)) ws
       (woken_queue w ?s) = Inr st'" "wf_sched st'" "timer_heads st' = (timer_heads (woken_queue w ?s))(i := [])"
     "current st' = current (woken_queue w ?s)" "idle st' = idle (woken_queue w ?s)"
     "timer_req_mask st' = timer_req_mask (woken_queue w ?s)" "timer_recv_mask st' = timer_recv_mask (woken_queue w ?s)"
     "mlock st' = mlock (woken_queue w ?s)" "timer_ticks st' = timer_ticks (woken_queue w ?s)"
     "\<forall>x. wqs st' x = (if x \<in> set ws then [] else wqs (woken_queue w ?s) x)"
    using Cons.IH [OF woken_queue_wf [OF wf, of w] h] by blast
  have "for_each_res (\<lambda>w st. sched_timer_wakeup w (st\<lparr>timer_heads := (timer_heads st)(i := tl (timer_heads st i))\<rparr>)) (w # ws) st = Inr st'"
    using one st'(1) by simp
  note main = this
  show ?case
    by (rule exI [of _ st'], rule conjI, rule main) (use st'(2-10) in \<open>auto simp: woken_queue_fields\<close>)
qed

definition slot_fired :: "nat \<Rightarrow> sched \<Rightarrow> sched \<Rightarrow> bool" where
  "slot_fired i st st' \<longleftrightarrow> wf_sched st' \<and> timer_heads st' = (timer_heads st)(i := []) \<and> current st' = current st
      \<and> idle st' = idle st \<and> timer_req_mask st' = timer_req_mask st \<and> timer_recv_mask st' = timer_recv_mask st
      \<and> mlock st' = mlock st \<and> timer_ticks st' = timer_ticks st
      \<and> (\<forall>w. wqs st' w = (if w \<in> set (timer_heads st i) then [] else wqs st w))"

lemma fire_slot_ok: "wf_sched st \<Longrightarrow> timer_heads st i \<noteq> [] \<Longrightarrow> \<exists>st'. fire_slot i st = Inr st' \<and> slot_fired i st st'"
  unfolding fire_slot_def slot_fired_def using fire_list [of st i "timer_heads st i"] by simp

text \<open>The loop over the 32 slots; \<open>msk\<close> is the mask read on entry and \<open>s0\<close> the state after the reset.\<close>

definition fired_upto :: "u32 \<Rightarrow> sched \<Rightarrow> nat \<Rightarrow> sched \<Rightarrow> bool" where
  "fired_upto msk s0 i st \<longleftrightarrow> wf_sched st \<and> current st = current s0 \<and> idle st = idle s0
     \<and> timer_req_mask st = timer_req_mask s0 \<and> timer_recv_mask st = timer_recv_mask s0 \<and> mlock st = mlock s0
     \<and> timer_ticks st = timer_ticks s0
     \<and> (\<forall>j. timer_heads st j = (if j < i \<and> bit msk j then [] else timer_heads s0 j))
     \<and> (\<forall>w. wqs st w = (if \<exists>j<i. bit msk j \<and> w \<in> set (timer_heads s0 j) then [] else wqs s0 w))"

lemma fire_loop:
  assumes wf: "wf_sched s0" and ne: "\<And>j. j < 32 \<Longrightarrow> bit msk j \<Longrightarrow> timer_heads s0 j \<noteq> []"
  shows "\<exists>st'. for_res 0 32 (\<lambda>i st. if bit msk i then fire_slot i st else Inr st) s0 = Inr st' \<and> fired_upto msk s0 (0 + 32) st'"
proof (rule for_res_total [where P = "fired_upto msk s0"])
  show "fired_upto msk s0 0 s0" using wf by (simp add: fired_upto_def)
  fix j st assume j: "0 \<le> j" "j < 0 + 32" and P: "fired_upto msk s0 j st"
  show "\<exists>s'. (if bit msk j then fire_slot j st else Inr st) = Inr s' \<and> fired_upto msk s0 (Suc j) s'"
  proof (cases "bit msk j")
    case True
    have h: "timer_heads st j = timer_heads s0 j" using P by (simp add: fired_upto_def)
    moreover have "timer_heads s0 j \<noteq> []" using ne j True by simp
    moreover have "wf_sched st" using P by (simp add: fired_upto_def)
    ultimately obtain s' where s': "fire_slot j st = Inr s'" "slot_fired j st s'"
      using fire_slot_ok [of st j] by auto
    have "fired_upto msk s0 (Suc j) s'"
      using P s'(2) True h unfolding fired_upto_def slot_fired_def by (auto simp: less_Suc_eq)
    with s'(1) True show ?thesis by simp
  next
    case False
    then have "fired_upto msk s0 (Suc j) st"
      using P unfolding fired_upto_def by (auto simp: less_Suc_eq)
    with False show ?thesis by simp
  qed
qed

lemma sched_irq_timer_ok:
  assumes wf: "wf_sched st" and wt: "wf_timers st"
  shows "\<exists>st'. sched_irq_timer st = Inr st' \<and> wf_sched st' \<and> wf_timers st' \<and> current st' = current st \<and> idle st' = idle st
    \<and> mlock st' = mlock st \<and> timer_ticks st' = timer_ticks st \<and> timer_recv_mask st' = 0
    \<and> (\<forall>j<32. timer_heads st' j = (if bit (timer_recv_mask st) j then [] else timer_heads st j))
    \<and> (\<forall>w. wqs st' w = (if \<exists>j<32. bit (timer_recv_mask st) j \<and> w \<in> set (timer_heads st j) then [] else wqs st w))"
proof -
  let ?msk = "timer_recv_mask st"
  let ?s0 = "st\<lparr>timer_recv_mask := 0, timer_req_mask := timer_req_mask st AND NOT ?msk\<rparr>"
  have wf0: "wf_sched ?s0" using wf by (subst wf_sched_cong [of _ st]) simp_all
  have ne: "timer_heads ?s0 j \<noteq> []" if "j < 32" "bit ?msk j" for j
    using wt that by (auto simp: wf_timers_def)
  show ?thesis
  proof (cases "?msk = 0")
    case True
    then have "sched_irq_timer st = Inr ?s0" by (simp add: sched_irq_timer_def)
    moreover have "wf_timers ?s0" using wt True by (simp add: wf_timers_def)
    ultimately show ?thesis using wf0 True by simp
  next
    case False
    obtain s' where s': "for_res 0 32 (\<lambda>i st. if bit ?msk i then fire_slot i st else Inr st) ?s0 = Inr s'"
      "fired_upto ?msk ?s0 (0 + 32) s'"
      using fire_loop [of ?s0 ?msk, OF wf0 ne] by blast
    have "sched_irq_timer st = Inr s'"
      using False s'(1) by (simp add: sched_irq_timer_def Let_def)
    moreover have "wf_timers s'"
      using s'(2) wt False unfolding fired_upto_def wf_timers_def
      by (simp add: bit_and_iff bit_not_iff)
    ultimately show ?thesis
      using s'(2) unfolding fired_upto_def by auto
  qed
qed

section \<open>Ticks and slots\<close>

lemma bit_rol: "i < 32 \<Longrightarrow> bit (rol v c) i \<longleftrightarrow> bit v ((i + 32 - c mod 32) mod 32)"
  by (auto simp: rol_def bit_word_rotr_iff)

text \<open>How many ticks from now slot \<open>i\<close> is due.\<close>

definition slot_dist :: "sched \<Rightarrow> nat \<Rightarrow> nat" where
  "slot_dist st i = (i + 31 - timer_ticks st) mod 32 + 1"

lemma tick_mask_bit:
  assumes "i < 32" "timer_ticks st < 32" "n < 32"
  shows "bit (rol (push_bit n 1 - 1) (timer_ticks st + 1)) i \<longleftrightarrow> slot_dist st i \<le> n"
proof -
  have "(i + 32 - (timer_ticks st + 1) mod 32) mod 32 = (i + 31 - timer_ticks st) mod 32"
  proof (cases "timer_ticks st = 31")
    case False
    then have "(timer_ticks st + 1) mod 32 = timer_ticks st + 1" using assms(2) by simp
    then show ?thesis by (simp add: add.commute)
  qed simp
  moreover have "(push_bit n 1 - 1 :: u32) = mask n"
    by (simp add: mask_eq_exp_minus_1 push_bit_eq_mult)
  ultimately have "bit (rol (push_bit n 1 - 1) (timer_ticks st + 1)) i \<longleftrightarrow> (i + 31 - timer_ticks st) mod 32 < n"
    using assms(1,3) by (simp add: bit_rol bit_mask_iff)
  then show ?thesis by (auto simp: slot_dist_def)
qed

lemma tick_fields [simp]:
  "timer_ticks (sched_timer_tick_soft n st) = (timer_ticks st + n) mod 32"
  "timer_req_mask (sched_timer_tick_soft n st) = timer_req_mask st"
  "timer_heads (sched_timer_tick_soft n st) = timer_heads st"
  "current (sched_timer_tick_soft n st) = current st" "idle (sched_timer_tick_soft n st) = idle st"
  "ready (sched_timer_tick_soft n st) = ready st" "wqs (sched_timer_tick_soft n st) = wqs st"
  "mlock (sched_timer_tick_soft n st) = mlock st"
  "t_state (thr (sched_timer_tick_soft n st) t) = t_state (thr st t)"
  by (simp_all add: sched_timer_tick_soft_def Let_def SCHED_MAX_TOUT_TICKS_def)

lemma tick_recv:
  assumes "i < 32" "timer_ticks st < 32"
  shows "bit (timer_recv_mask (sched_timer_tick_soft n st)) i \<longleftrightarrow>
    bit (timer_recv_mask st) i \<or> bit (timer_req_mask st) i \<and> slot_dist st i \<le> n"
proof -
  have d: "slot_dist st i \<le> 32" using mod_less_divisor [of 32 "i + 31 - timer_ticks st"] by (simp add: slot_dist_def)
  let ?m = "if SCHED_MAX_TOUT_TICKS \<le> n then - 1 else rol (push_bit n 1 - 1) (timer_ticks st + 1)"
  have m: "bit ?m i \<longleftrightarrow> slot_dist st i \<le> n"
    using assms d tick_mask_bit [OF assms, of n] by (auto simp: SCHED_MAX_TOUT_TICKS_def)
  have "timer_recv_mask (sched_timer_tick_soft n st) = timer_recv_mask st OR (?m AND timer_req_mask st)"
    by (simp add: sched_timer_tick_soft_def Let_def SCHED_MAX_TOUT_TICKS_def)
  then show ?thesis using m by (simp only: bit_or_iff bit_and_iff) blast
qed

lemma slot_arith:
  fixes i t n :: nat
  assumes i: "i < 32" and t: "t < 32" and n: "n \<le> (i + 31 - t) mod 32"
  shows "(i + 31 - (t + n) mod 32) mod 32 = (i + 31 - t) mod 32 - n"
proof -
  define r where "r = (i + 31 - t) mod 32"
  have r: "r < 32" "i + 31 - t = r \<or> i + 31 - t = r + 32"
  proof -
    show "r < 32" by (simp add: r_def)
    have "(i + 31 - t) div 32 = 0 \<or> (i + 31 - t) div 32 = 1"
      using less_mult_imp_div_less [of "i + 31 - t" 2 32] i by linarith
    then show "i + 31 - t = r \<or> i + 31 - t = r + 32"
      using div_mult_mod_eq [of "i + 31 - t" 32] unfolding r_def by linarith
  qed
  define u where "u = (t + n) mod 32"
  have u: "t + n = u \<or> t + n = u + 32"
  proof -
    have "(t + n) div 32 = 0 \<or> (t + n) div 32 = 1"
      using less_mult_imp_div_less [of "t + n" 2 32] t n r(1) unfolding r_def by linarith
    then show ?thesis
      using div_mult_mod_eq [of "t + n" 32] unfolding u_def by linarith
  qed
  have "u < 32" by (simp add: u_def)
  have "n \<le> r" using n by (simp add: r_def)
  have "i + 31 - u = r - n \<or> i + 31 - u = r - n + 32 \<or> i + 31 - u = r - n + 64"
    using r u i t \<open>u < 32\<close> \<open>n \<le> r\<close> by linarith
  moreover have "(r - n + 32) mod 32 = (r - n) mod 32" "(r - n + 64) mod 32 = (r - n) mod 32"
    by (simp_all add: mod_add_right_eq [symmetric, of _ 64])
  ultimately have "(i + 31 - u) mod 32 = (r - n) mod 32" by metis
  then show ?thesis using r(1) by (simp only: u_def [symmetric] r_def [symmetric]) simp
qed

lemma tick_dist:
  assumes "i < 32" "timer_ticks st < 32" "n < slot_dist st i"
  shows "slot_dist (sched_timer_tick_soft n st) i = slot_dist st i - n"
proof -
  have n: "n \<le> (i + 31 - timer_ticks st) mod 32" using assms(3) by (simp add: slot_dist_def)
  show ?thesis
    unfolding slot_dist_def tick_fields(1) slot_arith [OF assms(1,2) n] using n by linarith
qed

lemma tick_wf:
  "wf_sched st \<Longrightarrow> wf_sched (sched_timer_tick_soft n st)"
  by (subst wf_sched_cong [of _ st]) simp_all

lemma tick_wf_timers:
  assumes "wf_timers st" shows "wf_timers (sched_timer_tick_soft n st)"
proof -
  have "bit (timer_req_mask st) i" if "bit (timer_recv_mask (sched_timer_tick_soft n st)) i" for i
  proof -
    have "i < 32" using that bit_imp_le_length [OF that] by simp
    then show ?thesis using tick_recv [of i st n] assms that by (auto simp: wf_timers_def)
  qed
  with assms show ?thesis by (simp add: wf_timers_def)
qed

lemma ticks_due:
  assumes "i < 32" "timer_ticks st < 32" "bit (timer_req_mask st) i" "\<not> bit (timer_recv_mask st) i"
  shows "bit (timer_recv_mask (fold sched_timer_tick_soft ns st)) i \<longleftrightarrow> slot_dist st i \<le> sum_list ns"
proof -
  have stays: "bit (timer_recv_mask (fold sched_timer_tick_soft ms st)) i"
    if "timer_ticks st < 32" "bit (timer_recv_mask st) i" for st ms
    using that
  proof (induction ms arbitrary: st)
    case (Cons n ns)
    then show ?case using tick_recv [OF assms(1) Cons.prems(1), of n] by simp
  qed simp
  show ?thesis
    using assms(2-4)
  proof (induction ns arbitrary: st)
    case Nil
    then show ?case by (simp add: slot_dist_def)
  next
    case (Cons n ns)
    note r = tick_recv [OF assms(1) Cons.prems(1), of n]
    show ?case
    proof (cases "slot_dist st i \<le> n")
      case True
      then have "bit (timer_recv_mask (sched_timer_tick_soft n st)) i" using r Cons.prems(2) by simp
      then have "bit (timer_recv_mask (fold sched_timer_tick_soft ns (sched_timer_tick_soft n st))) i"
        using stays [of "sched_timer_tick_soft n st"] by simp
      with True show ?thesis by simp
    next
      case False
      then have "\<not> bit (timer_recv_mask (sched_timer_tick_soft n st)) i" using r Cons.prems(3) by simp
      then have "bit (timer_recv_mask (fold sched_timer_tick_soft ns (sched_timer_tick_soft n st))) i
          \<longleftrightarrow> slot_dist st i - n \<le> sum_list ns"
        using Cons.IH [of "sched_timer_tick_soft n st"] Cons.prems tick_dist [OF assms(1) Cons.prems(1), of n] False
        by simp
      with False show ?thesis by auto
    qed
  qed
qed

section \<open>The scheduler's handlers under the loop of deferred interrupts\<close>

definition kernel_inv :: "sched \<Rightarrow> bool" where
  "kernel_inv st \<longleftrightarrow> wf_sched st \<and> wf_timers st"

definition sched_table :: "sched handlers" where
  "sched_table = [IRQ_SCHED_SCHEDULE \<mapsto> sched_irq_schedule, IRQ_SCHED_TIMER \<mapsto> sched_irq_timer]"

lemma sched_tab_table: "sched_tab Map.empty = Inr sched_table"
  by (simp add: sched_tab_def irq_sched_insert_def irq_insert_def irq_consts sched_table_def)

lemma wf_timers_cong:
  "timer_heads st' = timer_heads st \<Longrightarrow> timer_req_mask st' = timer_req_mask st \<Longrightarrow>
   timer_recv_mask st' = timer_recv_mask st \<Longrightarrow> timer_ticks st' = timer_ticks st \<Longrightarrow> wf_timers st' = wf_timers st"
  by (simp add: wf_timers_def)

text \<open>One call of the scheduler in every case.\<close>

lemma schedule_cases [consumes 1, case_names keep switch]:
  assumes "wf_sched st"
  obtains st' where "keeps_running st" "schedule_preempt_disabled st = Inr (st', SCHED_RET_RUN)"
      "\<And>t. t_state (thr st' t) = t_state (thr st t)" "ready st' = ready st" "current st' = current st" "idle st' = idle st"
      "wqs st' = wqs st" "mlock st' = mlock st" "timer_heads st' = timer_heads st"
      "timer_req_mask st' = timer_req_mask st" "timer_recv_mask st' = timer_recv_mask st" "timer_ticks st' = timer_ticks st"
      "wf_sched st'"
  | st' where "\<not> keeps_running st" "schedule_preempt_disabled st = Inr (st', SCHED_RET_SWITCH)"
      "current st' = next_thread st" "idle st' = idle st" "wqs st' = wqs st" "mlock st' = mlock st"
      "ready st' = (if running st then queue_rest st @ [current st] else queue_rest st)"
      "\<And>x. t_state (thr st' x) = (if x = next_thread st then THRD_STATE_RUNNING
         else if x = current st \<and> running st then THRD_STATE_READY else t_state (thr st x))"
      "timer_heads st' = timer_heads st"
      "timer_req_mask st' = timer_req_mask st" "timer_recv_mask st' = timer_recv_mask st" "timer_ticks st' = timer_ticks st"
      "wf_sched st'" "next_thread st \<in> set (ready st)" "next_thread st \<noteq> current st"
proof (cases "keeps_running st")
  case True
  let ?s = "if ready st \<noteq> [] \<and> t_ticks (thr st (current st)) = 0
     then upd_thr (current st) (\<lambda>t. t\<lparr>t_ticks := THRD_QUOTA\<rparr>) st else st"
  have "wf_sched ?s" using assms by (subst wf_sched_cong [of _ st]) simp_all
  then show thesis
    by (intro that(1) [of ?s] True) (simp_all add: schedule_keep [OF assms True])
next
  case False
  note s = schedule_switch [OF assms False]
  obtain st' where st': "switch_to (next_thread st) (st\<lparr>ready := queue_rest st\<rparr>) = Inr (st', SCHED_RET_SWITCH)"
    using switch_to_ok by blast
  have n: "next_thread st \<in> set (ready st)" using s(3) by simp
  then have c: "next_thread st \<noteq> current st" using wf_schedD(2) [OF assms] by metis
  note f = switch_to_fields [OF st' c]
  show thesis
    by (rule that(2) [of st']) (use False s(1) st' f n c switch_to_wf [OF assms s(2,3) st'] in simp_all)
qed

lemma schedule_kernel_inv:
  assumes "kernel_inv st" "schedule_preempt_disabled st = Inr (st', ret)"
  shows "kernel_inv st'"
proof -
  have "wf_sched st" using assms(1) by (simp add: kernel_inv_def)
  then show ?thesis
    using assms by (cases rule: schedule_cases) (auto simp: kernel_inv_def wf_timers_def)
qed

interpretation sh: sched_handlers sched_table kernel_inv
proof unfold_locales
  fix st :: sched
  assume i: "kernel_inv st"
  have "wf_sched (st\<lparr>irq_sched_mask := 0\<rparr>) = wf_sched st" by (rule wf_sched_cong) simp_all
  moreover have "wf_timers (st\<lparr>irq_sched_mask := 0\<rparr>) = wf_timers st" by (rule wf_timers_cong) simp_all
  ultimately show "kernel_inv (st\<lparr>irq_sched_mask := 0\<rparr>)" using i by (simp add: kernel_inv_def)
next
  fix st i fn st'
  assume i: "kernel_inv st" and fn: "sched_table i = Some fn" and run: "fn st = Inr st'"
  consider "fn = sched_irq_timer" | "fn = sched_irq_schedule"
    using fn by (auto simp: sched_table_def split: if_splits)
  then show "kernel_inv st'"
  proof cases
    case 1
    then show ?thesis using sched_irq_timer_ok [of st] i run by (auto simp: kernel_inv_def)
  next
    case 2
    then show ?thesis using schedule_kernel_inv [OF i] run by (auto simp: sched_irq_schedule_def bind_res_Inr)
  qed
qed

end
