(* ===== verification/Kernel.thy ===== *)
theory Kernel
  imports Sched
begin

text \<open>
  The threads, the interrupts and the scheduler together: a step relation over the operations of
  Sched, with the place of every thread in its own code as a ghost. Each operation between
  \<open>preempt_disable\<close> and \<open>preempt_enable\<close> is one step; timer ticks, timer interrupts and
  preemption can come between any two steps.

  Mutual exclusion and the absence of lost wakeups of the mutex are invariants of the reachable
  states; that every ready thread runs is a bound on the calls of the scheduler in a run.
\<close>

section \<open>Waiting for a condition\<close>

text \<open>\<open>wait_event(wq, cond)\<close> up to its loop: nothing happens when the condition holds already.\<close>

definition wait_event_enter :: "(sched \<Rightarrow> bool) \<Rightarrow> wqid \<Rightarrow> sched \<Rightarrow> sched \<times> bool" where
  "wait_event_enter cond w st = (if cond st then (st, False) else (wait_enqueue THRD_STATE_WAITING w st, True))"

section \<open>The loop of deferred interrupts returns\<close>

text \<open>A thread is on the processor, ready, or on a queue.\<close>

definition placed :: "sched \<Rightarrow> tid \<Rightarrow> bool" where
  "placed st t \<longleftrightarrow> t = current st \<or> t \<in> set (ready st) \<or> (\<exists>w. t \<in> set (wqs st w))"

text \<open>What waking threads changes of the masks and of the threads.\<close>

definition wakes :: "sched \<Rightarrow> sched \<Rightarrow> bool" where
  "wakes st st' \<longleftrightarrow> (\<forall>j. j \<noteq> IRQ_SCHED_SCHEDULE \<longrightarrow> bit (irq_sched_mask st') j = bit (irq_sched_mask st) j)
     \<and> current st' = current st \<and> idle st' = idle st \<and> (\<exists>q. ready st' = ready st @ q)
     \<and> (\<forall>t. placed st t \<longrightarrow> placed st' t) \<and> (running st \<longrightarrow> running st')"

lemma wakes_refl: "wakes st st"
  by (simp add: wakes_def)

lemma wakes_trans: "wakes st st' \<Longrightarrow> wakes st' st'' \<Longrightarrow> wakes st st''"
  by (auto simp: wakes_def)

lemma wakes_cong:
  "irq_sched_mask st' = irq_sched_mask st \<Longrightarrow> current st' = current st \<Longrightarrow> idle st' = idle st \<Longrightarrow> ready st' = ready st \<Longrightarrow> wqs st' = wqs st
   \<Longrightarrow> thr st' = thr st \<Longrightarrow> wakes st st'"
  by (simp add: wakes_def placed_def running_def)

lemma bit_raised: "bit (v OR 2 ^ k :: u32) j \<longleftrightarrow> bit v j \<or> j = k \<and> j < 32"
  by (auto simp: bit_or_iff bit_exp_iff)

lemma woken_queue_placed: "placed st t \<Longrightarrow> placed (woken_queue w st) t"
  by (auto simp: placed_def woken_queue_fields)

lemma woken_queue_wakes:
  assumes "wf_sched st"
  shows "wakes st (woken_queue w st)"
proof -
  have "running (woken_queue w st)" if "running st"
    using that running_not_waiting [OF assms that] by (simp add: running_def woken_queue_fields)
  moreover have "bit (irq_sched_mask (woken_queue w st)) j = bit (irq_sched_mask st) j" if "j \<noteq> IRQ_SCHED_SCHEDULE" for j
    using that by (auto simp: woken_queue_def Let_def irq_sched_raise_def bit_raised)
  ultimately show ?thesis
    using woken_queue_placed by (auto simp: wakes_def woken_queue_fields(1,2,4))
qed

lemma for_each_mask:
  assumes "for_each_res f xs st = Inr st'"
    and "\<And>x st st'. f x st = Inr st' \<Longrightarrow> wf_sched st \<Longrightarrow> wakes st st' \<and> wf_sched st'" and "wf_sched st"
  shows "wakes st st'"
  using assms(1,3)
proof (induction xs arbitrary: st)
  case (Cons x xs)
  then obtain s1 where s1: "f x st = Inr s1" "for_each_res f xs s1 = Inr st'" by (auto simp: bind_res_Inr)
  from assms(2) [OF s1(1) Cons.prems(2)] Cons.IH [OF s1(2)] show ?case by (blast intro: wakes_trans)
qed (simp add: wakes_refl)

lemma fire_slot_mask:
  assumes "fire_slot i st = Inr st'" "wf_sched st"
  shows "wakes st st' \<and> wf_sched st'"
proof
  have ne: "timer_heads st i \<noteq> []" using assms(1) by (auto simp: fire_slot_def assert_that_Inr)
  then show "wf_sched st'" using fire_slot_ok [OF assms(2) ne] assms(1) by (auto simp: slot_fired_def)
  have "for_each_res (\<lambda>w st. sched_timer_wakeup w (st\<lparr>timer_heads := (timer_heads st)(i := tl (timer_heads st i))\<rparr>))
      (timer_heads st i) st = Inr st'"
    using assms(1) ne by (simp add: fire_slot_def)
  then show "wakes st st'"
  proof (rule for_each_mask [OF _ _ assms(2)])
    fix w and st st' :: sched
    let ?s = "st\<lparr>timer_heads := (timer_heads st)(i := tl (timer_heads st i))\<rparr>"
    assume e: "sched_timer_wakeup w ?s = Inr st'" and wf: "wf_sched st"
    then have wf': "wf_sched ?s" by (simp only: wf_sched_heads)
    then have "st' = woken_queue w ?s" using e by (simp add: sched_timer_wakeup_def wake_up_eq)
    then show "wakes st st' \<and> wf_sched st'"
      using woken_queue_wakes [OF wf', of w] woken_queue_wf [OF wf', of w] wakes_cong [of ?s st]
      by (auto intro: wakes_trans)
  qed
qed

lemma sched_irq_timer_mask:
  assumes "sched_irq_timer st = Inr st'" "wf_sched st"
  shows "wakes st st'"
proof -
  let ?s = "st\<lparr>timer_recv_mask := 0, timer_req_mask := timer_req_mask st AND NOT (timer_recv_mask st)\<rparr>"
  have wf: "wf_sched ?s" using assms(2) by (subst wf_sched_cong [of _ st]) simp_all
  have base: "wakes st ?s" by (rule wakes_cong) simp_all
  show ?thesis
  proof (cases "timer_recv_mask st = 0")
    case True
    then show ?thesis using assms(1) by (auto simp: sched_irq_timer_def intro: wakes_cong)
  next
    case False
    then have e: "for_res 0 32 (\<lambda>i x. if bit (timer_recv_mask st) i then fire_slot i x else Inr x) ?s = Inr st'"
      using assms(1) by (simp add: sched_irq_timer_def Let_def)
    have "wakes st st' \<and> wf_sched st'"
      by (rule for_res_invariant [where P = "\<lambda>_ x. wakes st x \<and> wf_sched x", OF e])
        (use base wf fire_slot_mask in \<open>auto intro: wakes_trans split: if_splits\<close>)
    then show ?thesis by simp
  qed
qed

text \<open>A round with nothing but a request to schedule leaves no request.\<close>

lemma upt_sched: "[0..<IRQ_SCHED_MAX] = [0, 1, 2, 3, 4]"
  by (simp add: IRQ_SCHED_MAX_def upt_rec)

lemma run_handler_table [simp]:
  "run_handler sched_table 0 = sched_irq_timer" "run_handler sched_table 4 = sched_irq_schedule"
  "run_handler sched_table (Suc 0) = Inr" "run_handler sched_table 2 = Inr" "run_handler sched_table 3 = Inr"
  by (auto simp: run_handler_def sched_table_def irq_consts)

lemma schedule_mask:
  assumes "wf_sched st" "sched_irq_schedule st = Inr st'"
  shows "irq_sched_mask st' = irq_sched_mask st"
  using assms schedule_keep [OF assms(1)] schedule_switch(1) [OF assms(1)]
  by (cases "keeps_running st")
    (auto simp: sched_irq_schedule_def bind_res_Inr switch_to_def sched_switch_def set_current_state_def Let_def split: if_splits)

text \<open>The part of a round before the last handler, and the last handler.\<close>

lemma sched_round_eq:
  "sched_round sched_table st =
    bind_res ((if bit (irq_sched_mask st) 0 then sched_irq_timer else Inr) (st\<lparr>irq_sched_mask := 0\<rparr>))
      (if bit (irq_sched_mask st) 4 then sched_irq_schedule else Inr)"
proof -
  have r: "bind_res x Inr = x" for x :: "sched res" by (cases x) simp_all
  show ?thesis
    by (simp add: sched_round_def upt_sched r bind_res_def split: sum.splits)
qed

lemma timer_part:
  assumes "kernel_inv st"
  obtains st' where "(if b then sched_irq_timer else Inr) (st\<lparr>irq_sched_mask := 0\<rparr>) = Inr st'" "kernel_inv st'"
    "\<forall>j. bit (irq_sched_mask st') j \<longrightarrow> j = IRQ_SCHED_SCHEDULE" "\<not> b \<longrightarrow> irq_sched_mask st' = 0"
proof (cases b)
  case True
  let ?s = "st\<lparr>irq_sched_mask := 0\<rparr>"
  have i: "kernel_inv ?s" by (rule sh.inv_mask [OF assms])
  then obtain st' where st': "sched_irq_timer ?s = Inr st'" "kernel_inv st'"
    using sched_irq_timer_ok [of ?s] by (auto simp: kernel_inv_def)
  then have "wakes ?s st'" using i by (intro sched_irq_timer_mask) (simp_all add: kernel_inv_def)
  with st' True show ?thesis by (intro that [of st']) (auto simp: wakes_def)
next
  case False
  then show ?thesis by (intro that [of "st\<lparr>irq_sched_mask := 0\<rparr>"]) (simp_all add: sh.inv_mask [OF assms])
qed

lemma schedule_part:
  assumes "kernel_inv st"
  obtains st' where "(if b then sched_irq_schedule else Inr) st = Inr st'" "kernel_inv st'"
    "irq_sched_mask st' = irq_sched_mask st"
proof (cases b)
  case True
  obtain st' ret where st': "schedule_preempt_disabled st = Inr (st', ret)"
    using schedule_wf [of st] assms by (auto simp: kernel_inv_def)
  then have e: "sched_irq_schedule st = Inr st'" by (simp add: sched_irq_schedule_def)
  have "irq_sched_mask st' = irq_sched_mask st"
    by (rule schedule_mask [OF _ e]) (use assms in \<open>simp add: kernel_inv_def\<close>)
  with e st' schedule_kernel_inv [OF assms st'] True show ?thesis by (intro that [of st']) simp_all
next
  case False
  with assms show ?thesis by (intro that [of st]) simp_all
qed

lemma sched_round_ok:
  assumes "kernel_inv st"
  obtains st' where "sched_round sched_table st = Inr st'" "kernel_inv st'"
    "\<forall>j. bit (irq_sched_mask st') j \<longrightarrow> j = IRQ_SCHED_SCHEDULE"
    "\<not> bit (irq_sched_mask st) 0 \<longrightarrow> irq_sched_mask st' = 0"
proof -
  obtain s1 where s1: "(if bit (irq_sched_mask st) 0 then sched_irq_timer else Inr) (st\<lparr>irq_sched_mask := 0\<rparr>) = Inr s1"
      "kernel_inv s1" "\<forall>j. bit (irq_sched_mask s1) j \<longrightarrow> j = IRQ_SCHED_SCHEDULE"
      "\<not> bit (irq_sched_mask st) 0 \<longrightarrow> irq_sched_mask s1 = 0"
    by (rule timer_part [OF assms])
  obtain s2 where "(if bit (irq_sched_mask st) 4 then sched_irq_schedule else Inr) s1 = Inr s2" "kernel_inv s2"
      "irq_sched_mask s2 = irq_sched_mask s1"
    by (rule schedule_part [OF s1(2)])
  with s1 show ?thesis by (intro that [of s2]) (simp_all only: sched_round_eq bind_res_simps)
qed

lemma irq_sched_step:
  "irq_sched_mask st \<noteq> 0 \<Longrightarrow> sched_round tab st = Inr st' \<Longrightarrow> irq_sched tab st = irq_sched tab st'"
  by (subst irq_sched_unfold) simp

lemma irq_sched_done: "irq_sched_mask st = 0 \<Longrightarrow> irq_sched tab st = Some (Inr st)"
  by (subst irq_sched_unfold) simp

lemma mask_zero: "(\<And>j. \<not> bit (m :: u32) j) \<Longrightarrow> m = 0"
  by (rule bit_eqI) simp

lemma irq_sched_table_returns:
  assumes "kernel_inv st"
  shows "\<exists>st'. irq_sched sched_table st = Some (Inr st') \<and> kernel_inv st' \<and> irq_sched_mask st' = 0"
proof -
  have quiet: "\<exists>st'. irq_sched sched_table st = Some (Inr st')"
    if i: "kernel_inv st" and b: "\<not> bit (irq_sched_mask st) 0" for st
  proof (cases "irq_sched_mask st = 0")
    case True
    then show ?thesis using irq_sched_done by blast
  next
    case False
    obtain s1 where s1: "sched_round sched_table st = Inr s1" "irq_sched_mask s1 = 0"
      using sched_round_ok [OF i] b by metis
    then show ?thesis using irq_sched_step [OF False s1(1)] irq_sched_done [OF s1(2)] by simp
  qed
  have "\<exists>st'. irq_sched sched_table st = Some (Inr st')"
  proof (cases "irq_sched_mask st = 0")
    case True
    then show ?thesis using irq_sched_done by blast
  next
    case False
    obtain s1 where s1: "sched_round sched_table st = Inr s1" "kernel_inv s1"
        "\<forall>j. bit (irq_sched_mask s1) j \<longrightarrow> j = IRQ_SCHED_SCHEDULE"
      using sched_round_ok [OF assms] by metis
    then have "\<not> bit (irq_sched_mask s1) 0" by (auto simp: IRQ_SCHED_SCHEDULE_def)
    from quiet [OF s1(2) this] irq_sched_step [OF False s1(1)] show ?thesis by simp
  qed
  then show ?thesis using sh.loop_inv assms by metis
qed

section \<open>Threads in their own code\<close>

text \<open>Where a thread is: outside the operations below, at the head of the loop of \<open>mutex_lock\<close>, in
  that loop before \<open>schedule\<close>, in \<open>msleep\<close> before \<open>wait\<close>, in \<open>wait\<close> before \<open>schedule\<close>.\<close>

datatype place = Outside | Locking nat | LockSched nat | Armed nat | WaitSched

record kstate =
  ks :: sched
  place :: "tid \<Rightarrow> place"
  held :: "tid \<Rightarrow> nat \<Rightarrow> bool"

datatype event = Tick nat | TimerIrq | Preempt | LockCall nat | LockRound nat | ScheduleCall | Unlock nat
  | WaitOn nat | SleepArm nat int | SleepWait nat | WakeUp wqid | CreateThread tid

definition goes_to :: "place \<Rightarrow> kstate \<Rightarrow> kstate" where
  "goes_to p k = k\<lparr>place := (place k)(current (ks k) := p)\<rparr>"

definition holds :: "bool \<Rightarrow> nat \<Rightarrow> kstate \<Rightarrow> kstate" where
  "holds b m k = k\<lparr>held := (held k)(current (ks k) := (held k (current (ks k)))(m := b))\<rparr>"

definition exec :: "sched \<Rightarrow> kstate \<Rightarrow> kstate" where
  "exec st k = k\<lparr>ks := st\<rparr>"

definition after_schedule :: "place \<Rightarrow> place" where
  "after_schedule p = (case p of LockSched m \<Rightarrow> Locking m | WaitSched \<Rightarrow> Outside | _ \<Rightarrow> p)"

text \<open>The running thread, not the idle one, is at place \<open>p\<close> of its code.\<close>

definition thread_at :: "place \<Rightarrow> kstate \<Rightarrow> bool" where
  "thread_at p k \<longleftrightarrow> current (ks k) \<noteq> idle (ks k) \<and> place k (current (ks k)) = p"

text \<open>
  One step. The guards on the ghosts are the discipline of the callers: a thread unlocks a mutex it
  holds, wakes queues other than those of mutexes, and the timer of \<open>msleep\<close> is a fresh object of
  its stack. Interrupt handlers wake queues, so a step \<open>WakeUp\<close> needs no thread.
\<close>

inductive kstep :: "kstate \<Rightarrow> event \<Rightarrow> kstate \<Rightarrow> bool" where
  tick: "kstep k (Tick n) (exec (sched_timer_tick_soft n (ks k)) k)"
| timer_irq: "sched_irq_timer (ks k) = Inr st \<Longrightarrow> kstep k TimerIrq (exec st k)"
| preempt: "sched_irq_schedule (ks k) = Inr st \<Longrightarrow> kstep k Preempt (exec st k)"
| lock_call: "thread_at Outside k \<Longrightarrow> kstep k (LockCall m) (goes_to (Locking m) k)"
| lock_taken: "thread_at (Locking m) k \<Longrightarrow> mutex_lock_round m (ks k) = (st, True) \<Longrightarrow>
    kstep k (LockRound m) (exec st (holds True m (goes_to Outside k)))"
| lock_wait: "thread_at (Locking m) k \<Longrightarrow> mutex_lock_round m (ks k) = (st, False) \<Longrightarrow>
    kstep k (LockRound m) (exec st (goes_to (LockSched m) k))"
| schedule_call: "place k (current (ks k)) = p \<Longrightarrow> schedule_preempt_disabled (ks k) = Inr (st, ret) \<Longrightarrow>
    kstep k ScheduleCall (exec st (goes_to (after_schedule p) k))"
| unlock: "thread_at Outside k \<Longrightarrow> held k (current (ks k)) m \<Longrightarrow> mutex_unlock m (ks k) = Inr st \<Longrightarrow>
    kstep k (Unlock m) (exec st (holds False m k))"
| wait_on: "thread_at Outside k \<Longrightarrow> kstep k (WaitOn q) (exec (wait_enqueue THRD_STATE_WAITING (WaitQ q) (ks k)) (goes_to WaitSched k))"
| sleep_arm: "thread_at Outside k \<Longrightarrow> (\<forall>i. TimerQ t \<notin> set (timer_heads (ks k) i)) \<Longrightarrow> wqs (ks k) (TimerQ t) = [] \<Longrightarrow>
    msleep_arm t ms (ks k) = Inr st \<Longrightarrow> kstep k (SleepArm t ms) (exec st (goes_to (Armed t) k))"
| sleep_wait: "thread_at (Armed t) k \<Longrightarrow>
    kstep k (SleepWait t) (exec (wait_enqueue THRD_STATE_WAITING (TimerQ t) (ks k)) (goes_to WaitSched k))"
| wake: "(\<forall>m. w \<noteq> MutexQ m) \<Longrightarrow> wake_up_preempt_disabled w (ks k) = Inr st \<Longrightarrow> kstep k (WakeUp w) (exec st k)"
| create: "t \<noteq> current (ks k) \<Longrightarrow> t \<notin> set (ready (ks k)) \<Longrightarrow> (\<forall>w. t \<notin> set (wqs (ks k) w)) \<Longrightarrow> place k t = Outside \<Longrightarrow>
    kstep k (CreateThread t) (exec (sched_thread_create t (ks k)) k)"

inductive kreach :: "kstate \<Rightarrow> event list \<Rightarrow> kstate \<Rightarrow> bool" where
  start: "kreach k [] k"
| step: "kreach k es k' \<Longrightarrow> kstep k' e k'' \<Longrightarrow> kreach k (es @ [e]) k''"

inductive_cases preempt_elim: "kstep k Preempt k'"
inductive_cases schedule_call_elim: "kstep k ScheduleCall k'"
inductive_cases lock_round_elim: "kstep k (LockRound m) k'"
inductive_simps kreach_Nil: "kreach k [] k'"

text \<open>The state after \<open>sched_init\<close> and \<open>sched_current_init\<close>: thread 0 runs, thread 1 is the idle thread.\<close>

definition boot_sched :: "sched" where
  "boot_sched = sched_init 1 (sched_current_init 0
     \<lparr>irq_soft_mask = 0, irq_sched_mask = 0, thr = (\<lambda>_. \<lparr>t_ticks = 0, t_state = THRD_STATE_READY, t_irq_ctx = False, t_soft = 0, t_sched = 0\<rparr>),
      ready = [], current = 0, idle = 0, wqs = (\<lambda>_. []), mlock = (\<lambda>_. False), timer_heads = (\<lambda>_. []),
      timer_req_mask = 0, timer_recv_mask = 0, timer_ticks = 0\<rparr>)"

definition boot_state :: kstate where
  "boot_state = \<lparr>ks = boot_sched, place = (\<lambda>_. Outside), held = (\<lambda>_ _. False)\<rparr>"

section \<open>The invariant of the kernel\<close>

definition mutex_inv :: "kstate \<Rightarrow> bool" where
  "mutex_inv k \<longleftrightarrow>
    (\<forall>m. mlock (ks k) m \<longleftrightarrow> (\<exists>t. held k t m))
    \<and> (\<forall>m t t'. held k t m \<longrightarrow> held k t' m \<longrightarrow> t = t')
    \<and> (\<forall>m. \<not> mlock (ks k) m \<longrightarrow> wqs (ks k) (MutexQ m) = [])"

definition place_inv :: "kstate \<Rightarrow> bool" where
  "place_inv k \<longleftrightarrow>
    (\<forall>t m. t \<in> set (wqs (ks k) (MutexQ m)) \<longrightarrow> place k t \<in> {LockSched m, Locking m})
    \<and> (\<forall>t w m. place k t \<in> {LockSched m, Locking m} \<longrightarrow> t \<in> set (wqs (ks k) w) \<longrightarrow> w = MutexQ m)
    \<and> (\<forall>t. place k t \<noteq> Outside \<longrightarrow> placed (ks k) t)
    \<and> (\<not> running (ks k) \<longrightarrow> place k (current (ks k)) \<in> insert WaitSched (range LockSched))"

definition heads_inv :: "sched \<Rightarrow> bool" where
  "heads_inv st \<longleftrightarrow> (\<forall>i<32. \<forall>w. w \<in> set (timer_heads st i) \<longrightarrow> w \<in> range TimerQ)"

definition kinv :: "kstate \<Rightarrow> bool" where
  "kinv k \<longleftrightarrow> kernel_inv (ks k) \<and> heads_inv (ks k) \<and> mutex_inv k \<and> place_inv k"

lemma kinvD:
  assumes "kinv k"
  shows "wf_sched (ks k)" "wf_timers (ks k)" "heads_inv (ks k)" "mutex_inv k" "place_inv k" "kernel_inv (ks k)"
  using assms by (simp_all add: kinv_def kernel_inv_def)

lemma ghost_simps [simp]:
  "ks (exec st k) = st" "place (exec st k) = place k" "held (exec st k) = held k"
  "ks (goes_to p k) = ks k" "held (goes_to p k) = held k" "place (goes_to p k) = (place k)(current (ks k) := p)"
  "ks (holds b m k) = ks k" "place (holds b m k) = place k"
  "held (holds b m k) t m' = (if t = current (ks k) \<and> m' = m then b else held k t m')"
  by (simp_all add: exec_def goes_to_def holds_def)

lemma place_range [simp]:
  "Outside \<notin> range LockSched" "Locking m \<notin> range LockSched" "Armed t \<notin> range LockSched" "WaitSched \<notin> range LockSched"
  by auto

text \<open>After \<open>schedule\<close> a thread is still in the loop of the same mutex.\<close>

lemma after_schedule_lock: "after_schedule p \<in> {LockSched m, Locking m} \<longleftrightarrow> p \<in> {LockSched m, Locking m}"
  by (auto simp: after_schedule_def split: place.splits)

lemma after_schedule_in: "after_schedule p \<noteq> Outside \<Longrightarrow> p \<noteq> Outside"
  by (auto simp: after_schedule_def)

lemma thread_at_running:
  assumes "kinv k" "thread_at p k" "p \<notin> insert WaitSched (range LockSched)"
  shows "running (ks k)" "current (ks k) \<notin> set (wqs (ks k) w)"
proof -
  show r: "running (ks k)" using assms by (auto simp: kinv_def place_inv_def thread_at_def)
  show "current (ks k) \<notin> set (wqs (ks k) w)" by (rule running_not_waiting [OF kinvD(1) [OF assms(1)] r])
qed

text \<open>Steps that leave the mutexes and the places of the threads alone.\<close>

lemma kinv_frame:
  assumes k: "kinv k" and st: "kernel_inv st" "heads_inv st" and m: "mlock st = mlock (ks k)"
    and q: "\<And>m. wqs st (MutexQ m) = wqs (ks k) (MutexQ m)" "\<And>t w. t \<in> set (wqs st w) \<Longrightarrow> t \<in> set (wqs (ks k) w)"
    and p: "\<And>t. placed (ks k) t \<Longrightarrow> placed st t"
    and r: "running st \<or> current st = current (ks k) \<and> \<not> running (ks k)"
  shows "kinv (exec st k)"
  unfolding kinv_def
proof (intro conjI)
  show "kernel_inv (ks (exec st k))" "heads_inv (ks (exec st k))" using st by simp_all
  show "mutex_inv (exec st k)" using kinvD(4) [OF k] m q(1) by (simp add: mutex_inv_def)
  note i = kinvD(5) [OF k, unfolded place_inv_def]
  have i2: "t \<in> set (wqs st w) \<Longrightarrow> place k t \<in> {LockSched m, Locking m} \<Longrightarrow> w = MutexQ m" for t w m
    using i q(2) [of t w] by metis
  show "place_inv (exec st k)"
    unfolding place_inv_def using i q(1) p r i2 by auto
qed

lemma wakes_frame:
  assumes k: "kinv k" and st: "kernel_inv st" "heads_inv st" and m: "mlock st = mlock (ks k)"
    and q: "\<And>m. wqs st (MutexQ m) = wqs (ks k) (MutexQ m)" "\<And>t w. t \<in> set (wqs st w) \<Longrightarrow> t \<in> set (wqs (ks k) w)"
    and w: "wakes (ks k) st"
  shows "kinv (exec st k)"
  by (rule kinv_frame [OF k st m q]) (use w in \<open>auto simp: wakes_def\<close>)

lemma tick_kinv:
  assumes "kinv k" shows "kinv (exec (sched_timer_tick_soft n (ks k)) k)"
proof (rule kinv_frame [OF assms])
  show "kernel_inv (sched_timer_tick_soft n (ks k))"
    using kinvD(1,2) [OF assms] tick_wf tick_wf_timers by (simp add: kernel_inv_def)
  show "heads_inv (sched_timer_tick_soft n (ks k))" using kinvD(3) [OF assms] by (simp add: heads_inv_def)
qed (auto simp: placed_def running_def)

lemma timer_irq_kinv:
  assumes k: "kinv k" and e: "sched_irq_timer (ks k) = Inr st"
  shows "kinv (exec st k)"
proof -
  note i = kinvD [OF k]
  note f = sched_irq_timer_ok [OF i(1,2), unfolded e]
  have h: "heads_inv st"
    unfolding heads_inv_def
  proof (intro allI impI)
    fix j :: nat and w assume j: "j < 32" "w \<in> set (timer_heads st j)"
    then have "timer_heads st j = timer_heads (ks k) j \<or> timer_heads st j = []" using f by auto
    then show "w \<in> range TimerQ" using i(3) j by (auto simp: heads_inv_def)
  qed
  have mq: "MutexQ m \<notin> set (timer_heads (ks k) j)" if "j < 32" for m j
    using i(3) that by (force simp: heads_inv_def)
  show ?thesis
    by (rule wakes_frame [OF k])
      (use f h mq i(1) sched_irq_timer_mask [OF e i(1)] in \<open>auto simp: kernel_inv_def split: if_splits\<close>)
qed

lemma schedule_effect:
  assumes wf: "wf_sched st" and e: "schedule_preempt_disabled st = Inr (st', ret)"
  shows "mlock st' = mlock st" "wqs st' = wqs st" "timer_heads st' = timer_heads st" "running st'"
    "placed st t \<Longrightarrow> placed st' t" "idle st' = idle st"
proof -
  have "mlock st' = mlock st \<and> wqs st' = wqs st \<and> timer_heads st' = timer_heads st \<and> running st' \<and> idle st' = idle st
    \<and> (\<forall>t. placed st t \<longrightarrow> placed st' t)"
    using wf
  proof (cases rule: schedule_cases)
    case (keep s)
    then have s: "s = st'" using e by simp
    note k = keep [unfolded s]
    have "running st"
      using k(1) wf_schedD(3,8,9) [OF wf] by (auto simp: keeps_running_def running_def)
    then show ?thesis by (simp add: running_def placed_def k)
  next
    case (switch s)
    then have s: "s = st'" using e by simp
    note k = switch [unfolded s]
    have r: "set (ready st) = insert (next_thread st) (set (queue_rest st))"
      using schedule_switch(3) [OF wf k(1)] by simp
    then show ?thesis
      using wf_schedD(9) [OF wf] by (auto simp: placed_def k running_def)
  qed
  then show "mlock st' = mlock st" "wqs st' = wqs st" "timer_heads st' = timer_heads st" "running st'"
    "placed st t \<Longrightarrow> placed st' t" "idle st' = idle st" by simp_all
qed

lemma schedule_effect':
  assumes wf: "wf_sched st" and e: "schedule_preempt_disabled st = Inr (st', ret)"
  shows "kernel_inv st \<Longrightarrow> kernel_inv st'" "heads_inv st \<Longrightarrow> heads_inv st'"
  using schedule_kernel_inv [OF _ e] schedule_effect(3) [OF wf e] by (simp_all add: heads_inv_def)

lemma preempt_kinv:
  assumes k: "kinv k" and e: "sched_irq_schedule (ks k) = Inr st"
  shows "kinv (exec st k)"
proof -
  note i = kinvD [OF k]
  obtain ret where e: "schedule_preempt_disabled (ks k) = Inr (st, ret)"
    using e by (auto simp: sched_irq_schedule_def bind_res_Inr)
  note s = schedule_effect [OF i(1) e] schedule_effect' [OF i(1) e]
  show ?thesis by (rule kinv_frame [OF k]) (use s i in \<open>simp_all\<close>)
qed

text \<open>Steps of the current thread: its place changes, its place in the queues may.\<close>

lemma place_inv_goes:
  assumes i: "place_inv k" and st: "current st = current (ks k)" "running st"
    and q: "\<And>w. wqs st w = wqs (ks k) w" "\<And>t. placed (ks k) t \<Longrightarrow> placed st t"
    and c: "\<And>w. current (ks k) \<notin> set (wqs (ks k) w)"
  shows "place_inv (exec st (goes_to p k))"
proof -
  note i = i [unfolded place_inv_def]
  have "placed st (current (ks k))" using st(1) by (simp add: placed_def)
  then show ?thesis
    unfolding place_inv_def using i st q c by auto
qed

lemma wait_enqueue_placed: "placed st t \<Longrightarrow> placed (wait_enqueue s w st) t"
  by (auto simp: placed_def wait_enqueue_fields)

lemma place_inv_waits:
  assumes i: "place_inv k" and c: "\<And>w. current (ks k) \<notin> set (wqs (ks k) w)"
    and s: "s \<in> {THRD_STATE_WAITING, THRD_STATE_MUTEX_WAITING}"
    and w: "p = WaitSched \<and> w \<notin> range MutexQ \<or> (\<exists>m. p = LockSched m \<and> w = MutexQ m)"
  shows "place_inv (exec (wait_enqueue s w (ks k)) (goes_to p k))"
proof -
  note i = i [unfolded place_inv_def]
  have pl: "placed (wait_enqueue s w (ks k)) (current (ks k))" by (simp add: placed_def wait_enqueue_fields)
  have "p \<in> insert WaitSched (range LockSched)" using w by auto
  then show ?thesis
    unfolding place_inv_def using i c w pl wait_enqueue_placed [of "ks k" _ s w]
    by (auto simp: wait_enqueue_fields split: if_splits)
qed

lemma waits_kinv:
  assumes k: "kinv k" and at: "thread_at q k" "q \<notin> insert WaitSched (range LockSched)"
    and s: "s \<in> {THRD_STATE_WAITING, THRD_STATE_MUTEX_WAITING}"
    and w: "p = WaitSched \<and> w \<notin> range MutexQ \<or> (\<exists>m. p = LockSched m \<and> w = MutexQ m \<and> mlock (ks k) m)"
  shows "kinv (exec (wait_enqueue s w (ks k)) (goes_to p k))"
proof -
  note i = kinvD [OF k] and r = thread_at_running [OF k at]
  have wf: "wf_sched (wait_enqueue s w (ks k))"
    by (rule wait_enqueue_wf) (use i r at s in \<open>simp_all add: thread_at_def\<close>)
  have wt: "wf_timers (wait_enqueue s w (ks k)) = wf_timers (ks k)"
    by (rule wf_timers_cong) (simp_all add: wait_enqueue_fields)
  have "mutex_inv (exec (wait_enqueue s w (ks k)) (goes_to p k))"
    using i(4) w by (auto simp: mutex_inv_def wait_enqueue_fields)
  moreover have "place_inv (exec (wait_enqueue s w (ks k)) (goes_to p k))"
    by (rule place_inv_waits [OF i(5) r(2) s]) (use w in blast)
  ultimately show ?thesis
    using wf wt i(2,3) by (simp add: kinv_def kernel_inv_def heads_inv_def wait_enqueue_fields)
qed

lemma schedule_call_kinv:
  assumes k: "kinv k" and p: "place k (current (ks k)) = p" and e: "schedule_preempt_disabled (ks k) = Inr (st, ret)"
  shows "kinv (exec st (goes_to (after_schedule p) k))"
proof -
  note i = kinvD [OF k]
  note s = schedule_effect [OF i(1) e] schedule_effect' [OF i(1) e]
  note pi = i(5) [unfolded place_inv_def]
  have "mutex_inv (exec st (goes_to (after_schedule p) k))" using i(4) s by (simp add: mutex_inv_def)
  moreover have "place_inv (exec st (goes_to (after_schedule p) k))"
    unfolding place_inv_def
  proof (intro conjI allI impI)
    let ?k = "exec st (goes_to (after_schedule p) k)"
    have a: "place ?k t \<in> {LockSched m, Locking m} \<longleftrightarrow> place k t \<in> {LockSched m, Locking m}" for t m
      using after_schedule_lock [of p m] p by simp
    show "place ?k t \<in> {LockSched m, Locking m}" if "t \<in> set (wqs (ks ?k) (MutexQ m))" for t m
      unfolding a using pi that s(2) by simp
    show "w = MutexQ m" if "place ?k t \<in> {LockSched m, Locking m}" "t \<in> set (wqs (ks ?k) w)" for t w m
      using that(2) pi that(1) [unfolded a] s(2) by auto
    show "placed (ks ?k) t" if "place ?k t \<noteq> Outside" for t
      using that pi s(5) p after_schedule_in [of p] by (auto split: if_splits)
    show "place ?k (current (ks ?k)) \<in> insert WaitSched (range LockSched)" if "\<not> running (ks ?k)"
      using that s(4) by simp
  qed
  ultimately show ?thesis using i s by (simp add: kinv_def)
qed

lemma wf_mlock: "wf_sched (st\<lparr>mlock := l\<rparr>) = wf_sched st" "wf_timers (st\<lparr>mlock := l\<rparr>) = wf_timers st"
  by (rule wf_sched_cong, simp_all) (rule wf_timers_cong, simp_all)

lemma lock_call_kinv:
  assumes k: "kinv k" and at: "thread_at Outside k"
  shows "kinv (goes_to p k)"
proof -
  note i = kinvD [OF k] and r = thread_at_running [OF k at, simplified]
  have e: "exec (ks k) (goes_to p k) = goes_to p k" by (simp add: exec_def goes_to_def)
  have "place_inv (exec (ks k) (goes_to p k))" using place_inv_goes [OF i(5), of "ks k" p] r by simp
  then have "place_inv (goes_to p k)" by (simp only: e)
  then show ?thesis using i by (simp add: kinv_def mutex_inv_def)
qed

lemma lock_taken_kinv:
  assumes k: "kinv k" and at: "thread_at (Locking m) k" and e: "mutex_lock_round m (ks k) = (st, True)"
  shows "kinv (exec st (holds True m (goes_to Outside k)))"
proof -
  note i = kinvD [OF k] and r = thread_at_running [OF k at, simplified]
  have l: "\<not> mlock (ks k) m" and st: "st = ks k\<lparr>mlock := (mlock (ks k))(m := True)\<rparr>"
    using e by (auto simp: mutex_lock_round_def split: if_splits)
  have "place_inv (exec st (goes_to Outside k))"
    by (rule place_inv_goes [OF i(5)]) (use r in \<open>simp_all add: st placed_def running_def\<close>)
  then have "place_inv (exec st (holds True m (goes_to Outside k)))" by (simp add: place_inv_def)
  moreover have "mutex_inv (exec st (holds True m (goes_to Outside k)))"
    using i(4) l by (simp add: mutex_inv_def st)
  ultimately show ?thesis
    using i wf_mlock by (simp add: kinv_def kernel_inv_def heads_inv_def st)
qed

lemma lock_wait_kinv:
  assumes k: "kinv k" and at: "thread_at (Locking m) k" and e: "mutex_lock_round m (ks k) = (st, False)"
  shows "kinv (exec st (goes_to (LockSched m) k))"
proof -
  have "mlock (ks k) m" "st = wait_enqueue THRD_STATE_MUTEX_WAITING (MutexQ m) (ks k)"
    using e by (auto simp: mutex_lock_round_def split: if_splits)
  then show ?thesis using waits_kinv [OF k at] by simp
qed

lemma woken_kinv:
  assumes i: "kernel_inv st" "heads_inv st"
  shows "kernel_inv (woken_queue w st)" "heads_inv (woken_queue w st)"
proof -
  have "wf_timers (woken_queue w st) = wf_timers st" by (rule wf_timers_cong) (simp_all add: woken_queue_fields)
  then show "kernel_inv (woken_queue w st)" "heads_inv (woken_queue w st)"
    using i woken_queue_wf by (simp_all add: kernel_inv_def heads_inv_def woken_queue_fields)
qed

lemma unlock_kinv:
  assumes k: "kinv k" and at: "thread_at Outside k" and h: "held k (current (ks k)) m" and e: "mutex_unlock m (ks k) = Inr st"
  shows "kinv (exec st (holds False m k))"
proof -
  note i = kinvD [OF k] and r = thread_at_running [OF k at, simplified]
  let ?s = "ks k\<lparr>mlock := (mlock (ks k))(m := False)\<rparr>"
  have s: "kernel_inv ?s" "heads_inv ?s" using i wf_mlock by (simp_all add: kernel_inv_def heads_inv_def)
  then have wf: "wf_sched ?s" by (simp add: kernel_inv_def)
  have st: "st = woken_queue (MutexQ m) ?s" using e wake_up_eq [OF wf] by (simp add: mutex_unlock_def)
  have "wakes ?s st" using woken_queue_wakes [OF wf] by (simp add: st)
  moreover have "wakes (ks k) ?s" by (rule wakes_cong) simp_all
  ultimately have w: "wakes (ks k) st" by (rule wakes_trans [rotated])
  have "mutex_inv (exec st (holds False m k))"
    using i(4) h by (simp add: mutex_inv_def st woken_queue_fields) blast
  moreover have "place_inv (exec st (holds False m k))"
    using i(5) w r by (auto simp: place_inv_def st woken_queue_fields wakes_def split: if_splits)
  moreover have "kernel_inv st" "heads_inv st" using woken_kinv [OF s] by (simp_all add: st)
  ultimately show ?thesis by (simp add: kinv_def)
qed

lemma wake_kinv:
  assumes k: "kinv k" and w: "\<forall>m. w \<noteq> MutexQ m" and e: "wake_up_preempt_disabled w (ks k) = Inr st"
  shows "kinv (exec st k)"
proof -
  note i = kinvD [OF k]
  have st: "st = woken_queue w (ks k)" using e wake_up_eq [OF i(1)] by simp
  show ?thesis
    by (rule wakes_frame [OF k])
      (use w woken_kinv [OF i(6,3)] woken_queue_wakes [OF i(1)] in \<open>auto simp: st woken_queue_fields split: if_splits\<close>)
qed

lemma create_kinv:
  assumes k: "kinv k" and t: "t \<noteq> current (ks k)" "t \<notin> set (ready (ks k))" "\<forall>w. t \<notin> set (wqs (ks k) w)"
  shows "kinv (exec (sched_thread_create t (ks k)) k)"
proof -
  note i = kinvD [OF k]
  let ?s = "sched_thread_create t (ks k)"
  have f: "current ?s = current (ks k)" "idle ?s = idle (ks k)" "ready ?s = ready (ks k) @ [t]" "wqs ?s = wqs (ks k)"
    "mlock ?s = mlock (ks k)" "\<And>x. t_state (thr ?s x) = (if x = t then THRD_STATE_READY else t_state (thr (ks k) x))"
    "timer_heads ?s = timer_heads (ks k)" "timer_req_mask ?s = timer_req_mask (ks k)"
    "timer_recv_mask ?s = timer_recv_mask (ks k)" "timer_ticks ?s = timer_ticks (ks k)"
    by (simp_all add: sched_thread_create_def Let_def)
  note w = wf_schedD [OF i(1)]
  have "wf_sched ?s"
    unfolding wf_sched_def f(1-4)
  proof (intro conjI ballI allI impI)
    show "distinct (ready (ks k) @ [t])" "current (ks k) \<notin> set (ready (ks k) @ [t])"
      "idle (ks k) = current (ks k) \<or> idle (ks k) \<in> set (ready (ks k) @ [t])" using w(1-3) t by auto
    show "t_state (thr ?s x) = THRD_STATE_READY" if "x \<in> set (ready (ks k) @ [t])" for x
      using that w(4) by (auto simp: f)
    fix q show "distinct (wqs (ks k) q)" "idle (ks k) \<notin> set (wqs (ks k) q)" using w(5,8) by simp_all
    fix x assume x: "x \<in> set (wqs (ks k) q)"
    with w(6) [OF x] t(3) show "t_state (thr ?s x) \<in> {THRD_STATE_WAITING, THRD_STATE_MUTEX_WAITING}" by (auto simp: f)
    show "q = q'" if "x \<in> set (wqs (ks k) q')" for q' by (rule w(7) [OF x that])
  next
    show "t_state (thr ?s (current (ks k))) = THRD_STATE_RUNNING \<or> (\<exists>q. current (ks k) \<in> set (wqs (ks k) q))"
      using w(9) t(1) by (auto simp: f)
  qed
  moreover have "wf_timers ?s = wf_timers (ks k)" by (rule wf_timers_cong) (simp_all add: f)
  ultimately have "kernel_inv ?s" "heads_inv ?s" using i by (simp_all add: kernel_inv_def heads_inv_def f)
  then show ?thesis
    by (intro kinv_frame [OF k]) (use t(1) in \<open>auto simp: f placed_def running_def\<close>)
qed

lemma arm_dist:
  fixes t k :: nat
  assumes t: "t < 32" and k: "1 \<le> k" "k \<le> 32"
  shows "((t + k) mod 32 + 31 - t) mod 32 + 1 = k"
proof -
  define u where "u = (t + k) mod 32"
  have "(t + k) div 32 = 0 \<or> (t + k) div 32 = 1"
    using less_mult_imp_div_less [of "t + k" 2 32] t k(2) by linarith
  then have "t + k = u \<or> t + k = u + 32"
    using div_mult_mod_eq [of "t + k" 32] unfolding u_def by linarith
  then have "u + 31 - t = (k - 1) + 32 \<or> u + 31 - t = k - 1" using k by linarith
  moreover have "(k - 1 + 32) mod 32 = (k - 1) mod 32" by simp
  ultimately have "(u + 31 - t) mod 32 = (k - 1) mod 32" by metis
  then show ?thesis using k unfolding u_def by simp
qed

text \<open>How many ticks \<open>msleep\<close> asks for.\<close>

definition sleep_ticks :: "int \<Rightarrow> nat" where
  "sleep_ticks ms = max 1 (nat (ms div 1000))"

lemma arm_fields:
  assumes e: "msleep_arm t ms st = Inr st'" and q: "wqs st (TimerQ t) = []"
  obtains ft where "ft < 32" "timer_ticks st < 32 \<longrightarrow> slot_dist st ft = sleep_ticks ms" "st' = st\<lparr>timer_heads := (timer_heads st)(ft := timer_heads st ft @ [TimerQ t]),
      timer_req_mask := timer_req_mask st OR push_bit ft 1\<rparr>"
proof -
  have w: "(wqs st)(TimerQ t := []) = wqs st" using q by auto
  define ticks where "ticks = (if nat (int HZ * ms div 1000) = 0 then 1 else nat (int HZ * ms div 1000))"
  let ?ft = "(timer_ticks st + ticks) mod SCHED_MAX_TOUT_TICKS"
  have "?ft < 32" by (simp add: SCHED_MAX_TOUT_TICKS_def)
  moreover have "timer_ticks st < 32 \<longrightarrow> slot_dist st ?ft = sleep_ticks ms"
  proof
    assume t: "timer_ticks st < 32"
    have "ticks = sleep_ticks ms" by (simp add: ticks_def sleep_ticks_def HZ_def max_def) linarith
    moreover have "ticks \<le> 32"
      using e unfolding msleep_arm_def Let_def ticks_def [symmetric] assert_that_Inr
      by (simp add: SCHED_MAX_TOUT_TICKS_def)
    ultimately show "slot_dist st ?ft = sleep_ticks ms"
      using arm_dist [OF t, of ticks] by (simp add: slot_dist_def SCHED_MAX_TOUT_TICKS_def sleep_ticks_def)
  qed
  moreover have "st' = st\<lparr>wqs := (wqs st)(TimerQ t := []), timer_heads := (timer_heads st)(?ft := timer_heads st ?ft @ [TimerQ t]),
      timer_req_mask := timer_req_mask st OR push_bit ?ft 1\<rparr>"
    using e unfolding msleep_arm_def Let_def ticks_def [symmetric] assert_that_Inr by (auto simp: ticks_def)
  ultimately show ?thesis using that w by simp
qed

lemma sleep_arm_kinv:
  assumes k: "kinv k" and at: "thread_at Outside k" and q: "wqs (ks k) (TimerQ t) = []" and e: "msleep_arm t ms (ks k) = Inr st"
  shows "kinv (exec st (goes_to (Armed t) k))"
proof -
  note i = kinvD [OF k] and r = thread_at_running [OF k at, simplified]
  obtain ft where ft: "ft < 32" and st: "st = ks k\<lparr>timer_heads := (timer_heads (ks k))(ft := timer_heads (ks k) ft @ [TimerQ t]),
      timer_req_mask := timer_req_mask (ks k) OR push_bit ft 1\<rparr>"
    by (rule arm_fields [OF e q])
  have "wf_sched st = wf_sched (ks k)" by (rule wf_sched_cong) (simp_all add: st)
  moreover have "wf_timers st"
    using i(2) ft by (auto simp: wf_timers_def st bit_raised)
  moreover have "heads_inv st" using i(3) by (auto simp: heads_inv_def st)
  moreover have "place_inv (exec st (goes_to (Armed t) k))"
    by (rule place_inv_goes [OF i(5)]) (use r in \<open>simp_all add: st placed_def running_def\<close>)
  moreover have "mutex_inv (exec st (goes_to (Armed t) k))" using i(4) by (simp add: mutex_inv_def st)
  ultimately show ?thesis using i(1) by (simp add: kinv_def kernel_inv_def)
qed

lemma kstep_kinv: "kstep k e k' \<Longrightarrow> kinv k \<Longrightarrow> kinv k'"
proof (induction rule: kstep.induct)
  case (sleep_wait t k)
  then show ?case using waits_kinv [OF sleep_wait(2,1), of THRD_STATE_WAITING WaitSched "TimerQ t"] by auto
next
  case (wait_on k q)
  then show ?case using waits_kinv [OF wait_on(2,1), of THRD_STATE_WAITING WaitSched "WaitQ q"] by auto
qed (simp_all add: tick_kinv timer_irq_kinv preempt_kinv lock_call_kinv lock_taken_kinv lock_wait_kinv schedule_call_kinv
  unlock_kinv sleep_arm_kinv wake_kinv create_kinv)

lemma boot_kinv: "kinv boot_state"
  by (simp add: kinv_def kernel_inv_def heads_inv_def mutex_inv_def place_inv_def wf_sched_def wf_timers_def running_def
    boot_state_def boot_sched_def sched_init_def sched_current_init_def sched_thread_create_def)

lemma kreach_kinv: "kreach k es k' \<Longrightarrow> kinv k \<Longrightarrow> kinv k'"
  by (induction rule: kreach.induct) (auto intro: kstep_kinv)

section \<open>No ready thread waits for ever\<close>

definition nonidle :: "sched \<Rightarrow> tid list" where
  "nonidle st = filter (\<lambda>x. x \<noteq> idle st) (ready st)"

text \<open>How many other threads the scheduler takes before \<open>t\<close>.\<close>

definition rank :: "tid \<Rightarrow> sched \<Rightarrow> nat" where
  "rank t st = length (takeWhile (\<lambda>x. x \<noteq> t) (nonidle st))"

fun schedules :: "event \<Rightarrow> bool" where
  "schedules Preempt = True"
| "schedules ScheduleCall = True"
| "schedules _ = False"

lemma schedule_nonidle:
  assumes wf: "wf_sched st" and ne: "nonidle st \<noteq> []" and e: "schedule_preempt_disabled st = Inr (st', ret)"
  shows "current st' = hd (nonidle st)" "\<exists>q. nonidle st' = tl (nonidle st) @ q" "idle st' = idle st"
proof -
  have "\<not> keeps_running st" using ne by (auto simp: keeps_running_def nonidle_def)
  note nk = this
  have d: "distinct (ready st)" using wf_schedD(1) [OF wf] .
  have n: "next_thread st = hd (nonidle st) \<and> filter (\<lambda>x. x \<noteq> idle st) (queue_rest st) = tl (nonidle st)"
  proof (cases "ready st")
    case Nil
    then show ?thesis using ne by (simp add: nonidle_def)
  next
    case (Cons x xs)
    then show ?thesis using ne d by (cases xs) (auto simp: nonidle_def next_thread_def queue_rest_def)
  qed
  have "current st' = hd (nonidle st) \<and> (\<exists>q. nonidle st' = tl (nonidle st) @ q) \<and> idle st' = idle st"
    using wf
  proof (cases rule: schedule_cases)
    case (switch s)
    then show ?thesis using e n by (auto simp: nonidle_def)
  qed (use nk in simp)
  then show "current st' = hd (nonidle st)" "\<exists>q. nonidle st' = tl (nonidle st) @ q" "idle st' = idle st" by simp_all
qed

text \<open>What a step does to the queue: a call of the scheduler takes its first thread, every other step
  only appends.\<close>

lemma appends_rank:
  assumes "ready st' = ready st @ q" "idle st' = idle st" "t \<in> set (nonidle st)"
  shows "t \<in> set (nonidle st') \<and> rank t st' = rank t st"
  using assms by (auto simp: nonidle_def rank_def)

lemma schedule_rank:
  assumes wf: "wf_sched st" and t: "t \<in> set (nonidle st)" and e: "schedule_preempt_disabled st = Inr (st', ret)"
  shows "current st' = t \<or> t \<in> set (nonidle st') \<and> Suc (rank t st') = rank t st"
proof -
  obtain x xs where x: "nonidle st = x # xs" using t by (cases "nonidle st") auto
  then have ne: "nonidle st \<noteq> []" by simp
  note n = schedule_nonidle [OF wf ne e]
  show ?thesis
  proof (cases "x = t")
    case True
    then show ?thesis using n(1) x by simp
  next
    case False
    then have "t \<in> set xs" using t x by simp
    then show ?thesis using n(2) x False by (auto simp: rank_def)
  qed
qed

lemma kstep_appends:
  assumes "kstep k e k'" "kinv k" "\<not> schedules e"
  shows "idle (ks k') = idle (ks k) \<and> (\<exists>q. ready (ks k') = ready (ks k) @ q)"
  using assms
proof (cases rule: kstep.cases)
  case (timer_irq st)
  then show ?thesis using sched_irq_timer_mask [OF timer_irq(3) kinvD(1) [OF assms(2)]] by (auto simp: wakes_def)
next
  case (lock_taken m st)
  then show ?thesis by (auto simp: mutex_lock_round_def split: if_splits)
next
  case (lock_wait m st)
  then show ?thesis by (auto simp: mutex_lock_round_def wait_enqueue_fields split: if_splits)
next
  case (unlock m st)
  have "wf_sched (ks k\<lparr>mlock := (mlock (ks k))(m := False)\<rparr>)" using kinvD(1) [OF assms(2)] wf_mlock by simp
  then show ?thesis using unlock by (simp add: mutex_unlock_def wake_up_eq) (auto simp: woken_queue_fields)
next
  case (sleep_arm t ms st)
  then show ?thesis by (elim arm_fields) auto
next
  case (wake w st)
  then show ?thesis using wake_up_eq [OF kinvD(1) [OF assms(2)]] by (auto simp: woken_queue_fields)
qed (auto simp: wait_enqueue_fields sched_thread_create_def Let_def)

lemma kstep_rank:
  assumes s: "kstep k e k'" and k: "kinv k" and t: "t \<in> set (nonidle (ks k))"
  shows "current (ks k') = t \<or> t \<in> set (nonidle (ks k')) \<and> rank t (ks k') + (if schedules e then 1 else 0) \<le> rank t (ks k)"
proof (cases "schedules e")
  case False
  then obtain q where "idle (ks k') = idle (ks k)" "ready (ks k') = ready (ks k) @ q" using kstep_appends [OF s k] by blast
  from appends_rank [OF this(2,1) t] show ?thesis using False by simp
next
  case True
  then consider "e = Preempt" | "e = ScheduleCall" by (cases e) simp_all
  then obtain st ret where "schedule_preempt_disabled (ks k) = Inr (st, ret)" "ks k' = st"
  proof cases
    case 1
    then have "kstep k Preempt k'" using s by simp
    then show ?thesis by (rule preempt_elim) (auto simp: sched_irq_schedule_def bind_res_Inr intro: that)
  next
    case 2
    then have "kstep k ScheduleCall k'" using s by simp
    then show ?thesis by (rule schedule_call_elim) (auto intro: that)
  qed
  then show ?thesis using schedule_rank [OF kinvD(1) [OF k] t] True by (metis eq_imp_le Suc_eq_plus1)
qed

lemma kreach_kinv_split:
  "kreach k es k' \<Longrightarrow> kinv k \<Longrightarrow> t \<in> set (nonidle (ks k)) \<Longrightarrow>
   (\<exists>es1 es2 k1. es = es1 @ es2 \<and> kreach k es1 k1 \<and> current (ks k1) = t)
   \<or> t \<in> set (nonidle (ks k')) \<and> rank t (ks k') + length (filter schedules es) \<le> rank t (ks k)"
proof (induction rule: kreach.induct)
  case (step k es k' e k'')
  have all: "kreach k (es @ [e]) k''" using step.hyps by (rule kreach.step)
  from step.IH [OF step.prems] show ?case
  proof
    assume "\<exists>es1 es2 k1. es = es1 @ es2 \<and> kreach k es1 k1 \<and> current (ks k1) = t"
    then show ?thesis by (metis append.assoc)
  next
    assume i: "t \<in> set (nonidle (ks k')) \<and> rank t (ks k') + length (filter schedules es) \<le> rank t (ks k)"
    have "kinv k'" using kreach_kinv step by blast
    from kstep_rank [OF step.hyps(2) this] i
    consider "current (ks k'') = t"
      | "t \<in> set (nonidle (ks k''))" "rank t (ks k'') + (if schedules e then 1 else 0) \<le> rank t (ks k')" by blast
    then show ?thesis
    proof cases
      case 1
      have "es @ [e] = (es @ [e]) @ []" by simp
      with all 1 show ?thesis by blast
    next
      case 2
      then show ?thesis using i by (simp split: if_splits)
    qed
  qed
qed simp

section \<open>Properties\<close>


text \<open>A run in which thread 0 takes mutex 0.\<close>

lemma boot_current [simp]: "current (ks boot_state) = 0" "idle (ks boot_state) = 1" "mlock (ks boot_state) m = False"
  by (simp_all add: boot_state_def boot_sched_def sched_init_def sched_current_init_def sched_thread_create_def Let_def)

definition lock_run :: kstate where
  "lock_run = exec (fst (mutex_lock_round 0 (ks boot_state))) (holds True 0 (goes_to Outside (goes_to (Locking 0) boot_state)))"

lemma lock_called: "kreach boot_state [LockCall 0] (goes_to (Locking 0) boot_state)"
proof -
  have "thread_at Outside boot_state" by (simp add: thread_at_def) (simp add: boot_state_def)
  from kreach.step [OF kreach.start kstep.lock_call [OF this]] show ?thesis by simp
qed

lemma lock_run: "kreach boot_state [LockCall 0, LockRound 0] lock_run"
proof -
  have at: "thread_at (Locking 0) (goes_to (Locking 0) boot_state)" by (simp add: thread_at_def)
  have e: "mutex_lock_round 0 (ks (goes_to (Locking 0) boot_state)) = (fst (mutex_lock_round 0 (ks boot_state)), True)"
    by (simp add: mutex_lock_round_def)
  from kreach.step [OF lock_called kstep.lock_taken [OF at e]] show ?thesis by (simp add: lock_run_def)
qed



text \<open>C11: No wakeup of a mutex is lost: a thread inside \<open>mutex_lock\<close> that is neither running nor ready is on
  the queue of its mutex, and a thread that will unlock the mutex, and so wake it, holds it.\<close>

theorem no_lost_mutex_wakeup:
  assumes "kreach boot_state es k" and "place k t \<in> {Locking m, LockSched m}"
    and "t \<noteq> current (ks k)" and "t \<notin> set (ready (ks k))"
  shows "t \<in> set (wqs (ks k) (MutexQ m)) \<and> (\<exists>t'. held k t' m)"
proof -
  have k: "kinv k" by (rule kreach_kinv [OF assms(1) boot_kinv])
  note p = kinvD(5) [OF k, unfolded place_inv_def] and m = kinvD(4) [OF k, unfolded mutex_inv_def]
  have "place k t \<noteq> Outside" using assms(2) by auto
  then have "placed (ks k) t" using p by blast
  then obtain w where w: "t \<in> set (wqs (ks k) w)" using assms(3,4) by (auto simp: placed_def)
  have "w = MutexQ m" using p assms(2) w by auto
  with w have "wqs (ks k) (MutexQ m) \<noteq> []" by auto
  then show ?thesis using m w \<open>w = MutexQ m\<close> by blast
qed

text \<open>A run in which thread 2 waits for the mutex that thread 0 holds.\<close>

definition "wait_run1 = exec (sched_thread_create 2 (ks lock_run)) lock_run"
definition "wait_run2 = exec (projr (sched_irq_schedule (ks wait_run1))) wait_run1"
definition "wait_run3 = goes_to (Locking 0) wait_run2"
definition "wait_run4 = exec (fst (mutex_lock_round 0 (ks wait_run3))) (goes_to (LockSched 0) wait_run3)"
definition "wait_run5 = exec (fst (projr (schedule_preempt_disabled (ks wait_run4)))) (goes_to (Locking 0) wait_run4)"

lemma right_value: "\<not> isl x \<Longrightarrow> x = Inr (projr x)"
  by (cases x) simp_all

lemma wait_run: "kreach boot_state [LockCall 0, LockRound 0, CreateThread 2, Preempt, LockCall 0, LockRound 0, ScheduleCall] wait_run5"
proof -
  have g: "\<forall>w. 2 \<notin> set (wqs (ks lock_run) w)"
    by (simp add: lock_run_def mutex_lock_round_def)
      (simp add: boot_state_def boot_sched_def sched_init_def sched_current_init_def sched_thread_create_def Let_def)
  have s1: "kstep lock_run (CreateThread 2) wait_run1"
    unfolding wait_run1_def by (rule kstep.create [OF _ _ g]) code_simp+
  have s2: "kstep wait_run1 Preempt wait_run2"
    unfolding wait_run2_def by (rule kstep.preempt, rule right_value) code_simp
  have s3: "kstep wait_run2 (LockCall 0) wait_run3"
    unfolding wait_run3_def by (rule kstep.lock_call) code_simp
  have "\<not> snd (mutex_lock_round 0 (ks wait_run3))" by code_simp
  then have w: "mutex_lock_round 0 (ks wait_run3) = (fst (mutex_lock_round 0 (ks wait_run3)), False)"
    by (cases "mutex_lock_round 0 (ks wait_run3)") simp
  have s4: "kstep wait_run3 (LockRound 0) wait_run4"
    unfolding wait_run4_def by (rule kstep.lock_wait [OF _ w]) code_simp
  have p: "place wait_run4 (current (ks wait_run4)) = LockSched 0" by code_simp
  have a: "after_schedule (LockSched 0) = Locking 0" by (simp add: after_schedule_def)
  have "\<not> isl (schedule_preempt_disabled (ks wait_run4))" by code_simp
  then have "schedule_preempt_disabled (ks wait_run4) = Inr (fst (projr (schedule_preempt_disabled (ks wait_run4))), snd (projr (schedule_preempt_disabled (ks wait_run4))))"
    using right_value by simp
  from kstep.schedule_call [OF p this] have s5: "kstep wait_run4 ScheduleCall wait_run5"
    by (simp only: wait_run5_def a)
  note run = kreach.step [OF kreach.step [OF kreach.step [OF kreach.step [OF kreach.step [OF lock_run s1] s2] s3] s4] s5]
  then show ?thesis by simp
qed

theorem no_lost_mutex_wakeup_witness: "2 \<in> set (wqs (ks wait_run5) (MutexQ 0)) \<and> (\<exists>t'. held wait_run5 t' 0)"
proof (rule no_lost_mutex_wakeup [OF wait_run])
  show "place wait_run5 2 \<in> {Locking 0, LockSched 0}" "2 \<noteq> current (ks wait_run5)" "2 \<notin> set (ready (ks wait_run5))"
    by code_simp+
qed

text \<open>C12: No ready thread starves: in a run in which the scheduler is called more often than other threads
  are in front of \<open>t\<close>, thread \<open>t\<close> is on the processor at some point.\<close>

theorem no_starvation:
  assumes "kreach boot_state es0 k" and "kreach k es k'"
    and "t \<in> set (ready (ks k))" and "t \<noteq> idle (ks k)" and "rank t (ks k) < length (filter schedules es)"
  shows "\<exists>es1 es2 k1. es = es1 @ es2 \<and> kreach k es1 k1 \<and> current (ks k1) = t"
proof -
  have "kinv k" by (rule kreach_kinv [OF assms(1) boot_kinv])
  moreover have "t \<in> set (nonidle (ks k))" using assms(3,4) by (simp add: nonidle_def)
  ultimately show ?thesis using kreach_kinv_split [OF assms(2)] assms(5) by fastforce
qed

theorem no_starvation_witness:
  "\<exists>es1 es2 k1. [Preempt] = es1 @ es2 \<and> kreach wait_run1 es1 k1 \<and> current (ks k1) = 2"
proof (rule no_starvation)
  have g: "\<forall>w. 2 \<notin> set (wqs (ks lock_run) w)"
    by (simp add: lock_run_def mutex_lock_round_def)
      (simp add: boot_state_def boot_sched_def sched_init_def sched_current_init_def sched_thread_create_def Let_def)
  have s1: "kstep lock_run (CreateThread 2) wait_run1"
    unfolding wait_run1_def by (rule kstep.create [OF _ _ g]) code_simp+
  from kreach.step [OF lock_run this] show "kreach boot_state ([LockCall 0, LockRound 0] @ [CreateThread 2]) wait_run1" .
  have "kstep wait_run1 Preempt wait_run2"
    unfolding wait_run2_def by (rule kstep.preempt, rule right_value) code_simp
  from kreach.step [OF kreach.start this] show "kreach wait_run1 [Preempt] wait_run2" by simp
  show "2 \<in> set (ready (ks wait_run1))" "2 \<noteq> idle (ks wait_run1)"
    "rank 2 (ks wait_run1) < length (filter schedules [Preempt])" by code_simp+
qed



text \<open>C14: The loop of deferred scheduler interrupts always ends, with no request left and the queues and
  timers well formed, whatever requests are pending.\<close>

theorem irq_sched_returns:
  assumes "wf_sched st" and "wf_timers st"
  shows "\<exists>st'. irq_sched sched_table st = Some (Inr st') \<and> wf_sched st' \<and> wf_timers st' \<and> irq_sched_mask st' = 0"
  using irq_sched_table_returns [of st] assms by (auto simp: kernel_inv_def)

theorem irq_sched_returns_witness:
  "\<exists>st'. irq_sched sched_table (ks wait_run5) = Some (Inr st') \<and> wf_sched st' \<and> wf_timers st' \<and> irq_sched_mask st' = 0"
  using irq_sched_returns [OF kinvD(1,2) [OF kreach_kinv [OF wait_run boot_kinv]]] .

text \<open>One call of the scheduler: the current thread goes on exactly when no other thread can take the
  processor. Otherwise the head of the ready queue gets it, after an idle thread in front has moved to the
  end if anything else is ready, and the thread that was running joins the end of the queue.\<close>

theorem schedule_round_robin:
  assumes "wf_sched st"
  shows "\<exists>st'. wf_sched st' \<and> wqs st' = wqs st \<and> running st' \<and>
    (if ready st = [] \<or> ready st = [idle st] \<and> running st
     then schedule_preempt_disabled st = Inr (st', SCHED_RET_RUN) \<and> current st' = current st \<and> ready st' = ready st
     else let q = (if hd (ready st) = idle st \<and> tl (ready st) \<noteq> [] then tl (ready st) @ [idle st] else ready st)
       in schedule_preempt_disabled st = Inr (st', SCHED_RET_SWITCH) \<and> current st' = hd q
         \<and> ready st' = tl q @ (if running st then [current st] else []))"
  using assms
proof (cases rule: schedule_cases)
  case (keep st')
  then show ?thesis using schedule_effect(4) [OF assms keep(2)] by (intro exI [of _ st']) (simp add: keeps_running_def)
next
  case (switch st')
  then show ?thesis
    using schedule_effect(4) [OF assms switch(2)]
    by (intro exI [of _ st']) (auto simp: Let_def keeps_running_def next_thread_def queue_rest_def)
qed

lemma kreach_wf: "kreach boot_state es k \<Longrightarrow> wf_sched (ks k)"
  using kinvD(1) kreach_kinv boot_kinv by blast

theorem schedule_round_robin_witness:
  "\<exists>st'. schedule_preempt_disabled (ks wait_run5) = Inr (st', SCHED_RET_RUN) \<or> current st' = hd (ready (ks wait_run5))
    \<or> current st' = hd (tl (ready (ks wait_run5)) @ [idle (ks wait_run5)])"
  using schedule_round_robin [OF kreach_wf [OF wait_run]]
  by (elim exE, simp only: Let_def split: if_splits) blast+

text \<open>A wakeup empties the queue and makes every thread of it ready, in order, at the end of the ready
  queue; a thread that is still on the processor goes on running instead, and the scheduler is requested
  exactly when the processor idles and a thread became ready.\<close>

theorem wake_up_wakes_all:
  assumes "wf_sched st"
  shows "\<exists>st'. wake_up_preempt_disabled w st = Inr st' \<and> wf_sched st' \<and> wqs st' = (wqs st)(w := [])
    \<and> ready st' = ready st @ filter (\<lambda>t. t \<noteq> current st) (wqs st w) \<and> current st' = current st
    \<and> (\<forall>t. t_state (thr st' t) = (if t \<in> set (wqs st w)
         then if t = current st then THRD_STATE_RUNNING else THRD_STATE_READY else t_state (thr st t)))
    \<and> irq_sched_mask st' = (if current st = idle st \<and> wqs st w \<noteq> []
         then irq_sched_mask st OR push_bit IRQ_SCHED_SCHEDULE 1 else irq_sched_mask st)"
proof -
  have "current st = idle st \<Longrightarrow> (\<exists>t\<in>set (wqs st w). t \<noteq> current st) \<longleftrightarrow> wqs st w \<noteq> []"
    using wf_schedD(8) [OF assms, of w] by (cases "wqs st w") auto
  then have "irq_sched_mask (woken_queue w st) = (if current st = idle st \<and> wqs st w \<noteq> []
      then irq_sched_mask st OR push_bit IRQ_SCHED_SCHEDULE 1 else irq_sched_mask st)"
    by (auto simp: woken_queue_def Let_def irq_sched_raise_def)
  then show ?thesis
    using wake_up_eq [OF assms] woken_queue_wf [OF assms]
    by (intro exI [of _ "woken_queue w st"]) (simp add: woken_queue_fields woken_def)
qed

theorem wake_up_wakes_all_witness:
  "\<exists>st'. wake_up_preempt_disabled (MutexQ 0) (ks wait_run5) = Inr st' \<and> 2 \<in> set (ready st')"
proof -
  have "2 \<in> set (filter (\<lambda>t. t \<noteq> current (ks wait_run5)) (wqs (ks wait_run5) (MutexQ 0)))" by code_simp
  then show ?thesis using wake_up_wakes_all [OF kreach_wf [OF wait_run], of "MutexQ 0"] by (elim exE) auto
qed

text \<open>A timer slot is due at the tick its distance says, however the ticks are grouped into interrupts:
  neither early nor late.\<close>

theorem timer_slot_due:
  assumes "i < 32" "timer_ticks st < 32" "bit (timer_req_mask st) i" "\<not> bit (timer_recv_mask st) i"
  shows "bit (timer_recv_mask (fold sched_timer_tick_soft ns st)) i \<longleftrightarrow> slot_dist st i \<le> sum_list ns"
  by (rule ticks_due [OF assms])

definition timer_example :: sched where
  "timer_example = boot_sched\<lparr>timer_req_mask := 8\<rparr>"

theorem timer_slot_due_witness: "bit (timer_recv_mask (fold sched_timer_tick_soft [1, 2] timer_example)) 3"
proof -
  have "slot_dist timer_example 3 \<le> sum_list [1, 2]" by code_simp
  moreover have "timer_ticks timer_example < 32" "bit (timer_req_mask timer_example) 3"
    "\<not> bit (timer_recv_mask timer_example) 3" by code_simp+
  ultimately show ?thesis using timer_slot_due [of 3 timer_example "[1, 2]"] by simp
qed

text \<open>\<open>msleep\<close> can lose its wakeup: when the ticks and the timer interrupt come between arming the timer and
  \<open>wait\<close>, the thread queues itself on a timer that is no longer armed, so no tick will wake it.\<close>

theorem msleep_can_lose_wakeup:
  assumes inv: "wf_sched st" "wf_timers st"
    and fresh: "\<forall>i. TimerQ t \<notin> set (timer_heads st i)" "wqs st (TimerQ t) = []"
    and arm: "msleep_arm t ms st = Inr st1" and n: "sleep_ticks ms \<le> n"
  shows "\<exists>st2. sched_irq_timer (sched_timer_tick_soft n st1) = Inr st2
    \<and> (let st3 = wait_enqueue THRD_STATE_WAITING (TimerQ t) st2
       in current st \<in> set (wqs st3 (TimerQ t)) \<and> (\<forall>i<32. TimerQ t \<notin> set (timer_heads st3 i)))"
proof -
  obtain ft where ft: "ft < 32" and d: "timer_ticks st < 32 \<longrightarrow> slot_dist st ft = sleep_ticks ms" and st1: "st1 = st\<lparr>timer_heads := (timer_heads st)(ft := timer_heads st ft @ [TimerQ t]),
      timer_req_mask := timer_req_mask st OR push_bit ft 1\<rparr>"
    by (rule arm_fields [OF arm fresh(2)])
  have "wf_sched st1 = wf_sched st" by (rule wf_sched_cong) (simp_all add: st1)
  moreover have wt: "wf_timers st1" using inv(2) ft by (auto simp: wf_timers_def st1 bit_raised)
  ultimately have w: "wf_sched (sched_timer_tick_soft n st1)" "wf_timers (sched_timer_tick_soft n st1)"
    using inv(1) tick_wf tick_wf_timers by simp_all
  have tt: "timer_ticks st1 < 32" using wt by (simp add: wf_timers_def)
  have "slot_dist st1 ft = slot_dist st ft" by (simp add: slot_dist_def st1)
  then have "slot_dist st1 ft \<le> n" using n d tt by (simp add: st1)
  then have due: "bit (timer_recv_mask (sched_timer_tick_soft n st1)) ft"
    using tick_recv [OF ft tt, of n] ft by (simp add: st1 bit_raised)
  obtain st2 where s2: "sched_irq_timer (sched_timer_tick_soft n st1) = Inr st2" "current st2 = current st"
      "\<forall>j<32. timer_heads st2 j = (if bit (timer_recv_mask (sched_timer_tick_soft n st1)) j then [] else timer_heads st1 j)"
    using sched_irq_timer_ok [OF w] by (auto simp: st1)
  have "TimerQ t \<notin> set (timer_heads st2 i)" if "i < 32" for i
    using s2(3) that due fresh(1) by (auto simp: st1)
  with s2 show ?thesis by (intro exI [of _ st2]) (simp add: wait_enqueue_fields Let_def)
qed

theorem msleep_can_lose_wakeup_witness:
  "\<exists>st2. sched_irq_timer (sched_timer_tick_soft 1 (projr (msleep_arm 0 1 (ks lock_run)))) = Inr st2
    \<and> (let st3 = wait_enqueue THRD_STATE_WAITING (TimerQ 0) st2
       in current (ks lock_run) \<in> set (wqs st3 (TimerQ 0)) \<and> (\<forall>i<32. TimerQ 0 \<notin> set (timer_heads st3 i)))"
proof (rule msleep_can_lose_wakeup)
  note k = kinvD [OF kreach_kinv [OF lock_run boot_kinv]]
  show "wf_sched (ks lock_run)" "wf_timers (ks lock_run)" using k by simp_all
  show "\<forall>i. TimerQ 0 \<notin> set (timer_heads (ks lock_run) i)"
    by (simp add: lock_run_def mutex_lock_round_def)
      (simp add: boot_state_def boot_sched_def sched_init_def sched_current_init_def sched_thread_create_def Let_def)
  show "wqs (ks lock_run) (TimerQ 0) = []" by code_simp
  show "msleep_arm 0 1 (ks lock_run) = Inr (projr (msleep_arm 0 1 (ks lock_run)))" by (rule right_value) code_simp
qed (simp add: sleep_ticks_def)

text \<open>C15: A timer interrupt wakes every thread that sleeps on a due timer: it is ready afterwards, or still on the
  processor.\<close>

theorem due_timer_wakes_sleepers:
  assumes "kreach boot_state es k" and "t \<in> set (wqs (ks k) w)" and "w \<in> set (timer_heads (ks k) i)"
    and "i < 32" and "bit (timer_recv_mask (ks k)) i"
  shows "\<exists>st. sched_irq_timer (ks k) = Inr st \<and> (t \<in> set (ready st) \<or> t = current st) \<and> timer_heads st i = []"
proof -
  note k = kinvD [OF kreach_kinv [OF assms(1) boot_kinv]]
  obtain st where st: "sched_irq_timer (ks k) = Inr st" "wf_sched st" "timer_heads st i = []"
      "\<forall>v. wqs st v = (if \<exists>j<32. bit (timer_recv_mask (ks k)) j \<and> v \<in> set (timer_heads (ks k) j) then [] else wqs (ks k) v)"
    using sched_irq_timer_ok [OF k(1,2)] assms(4,5) by auto
  have "placed (ks k) t" using assms(2) by (auto simp: placed_def)
  then have "placed st t" using sched_irq_timer_mask [OF st(1) k(1)] by (simp add: wakes_def)
  moreover have "t \<notin> set (wqs st v)" for v
  proof
    assume v: "t \<in> set (wqs st v)"
    then have "t \<in> set (wqs (ks k) v)" using st(4) by (auto split: if_splits)
    then have "v = w" by (rule wf_schedD(7) [OF k(1) _ assms(2)])
    then have "wqs st v = []" using st(4) assms(3-5) by auto
    with v show False by simp
  qed
  ultimately show ?thesis using st by (auto simp: placed_def)
qed

text \<open>Thread 0 sleeps for one tick, which has passed.\<close>

definition "sleep_run1 = exec (projr (msleep_arm 0 1 (ks boot_state))) (goes_to (Armed 0) boot_state)"
definition "sleep_run2 = exec (wait_enqueue THRD_STATE_WAITING (TimerQ 0) (ks sleep_run1)) (goes_to WaitSched sleep_run1)"
definition "sleep_run3 = exec (sched_timer_tick_soft 1 (ks sleep_run2)) sleep_run2"

lemma sleep_run: "kreach boot_state [SleepArm 0 1, SleepWait 0, Tick 1] sleep_run3"
proof -
  have at: "thread_at Outside boot_state" "thread_at (Armed 0) sleep_run1" by code_simp+
  have g: "\<forall>i. TimerQ 0 \<notin> set (timer_heads (ks boot_state) i)"
    by (simp add: boot_state_def boot_sched_def sched_init_def sched_current_init_def sched_thread_create_def Let_def)
  have q: "wqs (ks boot_state) (TimerQ 0) = []" by code_simp
  have e: "msleep_arm 0 1 (ks boot_state) = Inr (projr (msleep_arm 0 1 (ks boot_state)))" by (rule right_value) code_simp
  have s1: "kstep boot_state (SleepArm 0 1) sleep_run1"
    unfolding sleep_run1_def by (rule kstep.sleep_arm [OF at(1) g q e])
  have s2: "kstep sleep_run1 (SleepWait 0) sleep_run2"
    unfolding sleep_run2_def by (rule kstep.sleep_wait [OF at(2)])
  have s3: "kstep sleep_run2 (Tick 1) sleep_run3"
    unfolding sleep_run3_def by (rule kstep.tick)
  from kreach.step [OF kreach.step [OF kreach.step [OF kreach.start s1] s2] s3] show ?thesis by simp
qed

theorem due_timer_wakes_sleepers_witness:
  "\<exists>st. sched_irq_timer (ks sleep_run3) = Inr st \<and> (0 \<in> set (ready st) \<or> 0 = current st) \<and> timer_heads st 1 = []"
  by (rule due_timer_wakes_sleepers [OF sleep_run, of _ "TimerQ 0"]) code_simp+

text \<open>A thread is charged with wrap-around: ticks beyond what is left of its quota leave it a large count and
  request no call of the scheduler, since the counter is unsigned and only the value 0 is noticed.\<close>

theorem charged_ticks_wrap:
  assumes "current st \<noteq> idle st" and "unat (t_ticks (thr st (current st))) < n" and "n < 256"
  shows "unat (t_ticks (thr (sched_timer_tick_soft n st) (current st))) = 256 + unat (t_ticks (thr st (current st))) - n
    \<and> bit (irq_sched_mask (sched_timer_tick_soft n st)) IRQ_SCHED_SCHEDULE = bit (irq_sched_mask st) IRQ_SCHED_SCHEDULE"
proof -
  let ?v = "t_ticks (thr st (current st))"
  have n: "unat (of_nat n :: u8) = n" using assms(3) by (simp add: unat_of_nat)
  then have lt: "?v < of_nat n" using assms(2) by (simp add: word_less_nat_alt)
  have u: "unat (?v - of_nat n) = 256 + unat ?v - n"
    using lt n unat_sub_if_size [of ?v "of_nat n"] assms(2) by (simp add: word_size)
  then have nz: "?v - of_nat n \<noteq> 0" using assms(2,3) by (metis unat_0 add.commute diff_is_0_eq le_add2 less_le_trans not_le trans_le_add2)
  then have "\<not> ?v - of_nat n \<le> 0" unfolding word_le_0_iff .
  then show ?thesis
    using assms(1) u nz
    by (simp add: sched_timer_tick_soft_def Let_def irq_sched_raise_def irq_consts bit_or_iff)
qed

theorem charged_ticks_wrap_witness:
  "unat (t_ticks (thr (sched_timer_tick_soft 6 boot_sched) 0)) = 255"
proof -
  have c: "current boot_sched \<noteq> idle boot_sched" "current boot_sched = 0"
    "unat (t_ticks (thr boot_sched (current boot_sched))) = 5" by code_simp+
  then show ?thesis using charged_ticks_wrap [of boot_sched 6] by simp
qed

section \<open>The interrupt entry\<close>

lemma counter_simps:
  "thr (fst (irq_soft_disable t st)) = (thr st)(t := (thr st t)\<lparr>t_soft := t_soft (thr st t) + 1\<rparr>)"
  "snd (irq_soft_disable t st) = t_soft (thr st t) + 1"
  by (simp_all add: irq_soft_disable_def Let_def)

lemma upd_back: "f (g (thr st t)) = thr st t \<Longrightarrow> upd_thr t f (upd_thr t g st) = st"
  by (simp add: upd_thr_def)

text \<open>An interrupt that arrives while soft interrupts are disabled, or inside another interrupt, runs the hard
  handlers and nothing else: the state after it is the state after them.\<close>

theorem nested_irq_runs_hard_only:
  assumes "irq_hard hard st = Inr st1" and "1 \<le> t_soft (thr st1 t)"
  shows "excpt_irq hard soft tab t st = Inr st1"
proof -
  have "upd_thr t (\<lambda>x. x\<lparr>t_soft := t_soft x - 1\<rparr>) (upd_thr t (\<lambda>x. x\<lparr>t_soft := t_soft x + 1\<rparr>) st1) = st1"
    by (rule upd_back) simp
  then show ?thesis
    using assms by (simp add: excpt_irq_def irq_soft_disable_def irq_soft_enable_def Let_def)
qed

theorem nested_irq_runs_hard_only_witness:
  "excpt_irq Map.empty Map.empty sched_table 0 (set_irq_ctx True 0 (fst (irq_soft_disable 0 boot_sched)))
    = Inr (set_irq_ctx True 0 (fst (irq_soft_disable 0 boot_sched)))"
proof (rule nested_irq_runs_hard_only)
  show "irq_hard Map.empty (set_irq_ctx True 0 (fst (irq_soft_disable 0 boot_sched)))
      = Inr (set_irq_ctx True 0 (fst (irq_soft_disable 0 boot_sched)))"
    by (simp add: irq_hard_def IRQ_HARD_MAX_def upt_rec)
  show "1 \<le> t_soft (thr (set_irq_ctx True 0 (fst (irq_soft_disable 0 boot_sched))) 0)" by code_simp
qed

text \<open>Registration gives every interrupt line one handler: a line in range that has none gets it, and a second
  registration or a line out of range stops in an assertion.\<close>

theorem irq_insert_once:
  "irq_insert site1 site2 mx i fn tab =
    (if mx \<le> i then Inl (Assert site1) else if tab i \<noteq> None then Inl (Assert site2) else Inr (tab(i := Some fn)))
   \<and> (\<forall>tab'. irq_insert site1 site2 mx i fn tab = Inr tab' \<longrightarrow> irq_insert site1 site2 mx i fn' tab' = Inl (Assert site2))"
  by (auto simp: irq_insert_def assert_that_def split: if_splits)

theorem irq_insert_once_witness:
  "bind_res (irq_sched_insert IRQ_SCHED_TIMER sched_irq_timer Map.empty) (irq_sched_insert IRQ_SCHED_TIMER sched_irq_schedule)
    = Inl (Assert ''irq.c:136'')"
  using irq_insert_once [of "''irq.c:135''" "''irq.c:136''" IRQ_SCHED_MAX IRQ_SCHED_TIMER sched_irq_timer Map.empty sched_irq_schedule]
  by (simp add: irq_sched_insert_def irq_consts)

text \<open>C16: The shifting loop over the mask calls exactly the handlers of the set bits, each once, in rising order,
  and stops at the first one that stops.\<close>

theorem dispatch_runs_set_bits:
  "dispatch tab 0 k msk st = for_each_res (run_handler tab) [j \<leftarrow> [0..<k]. bit msk j] st"
  by (rule dispatch_mask)

end
