(* ===== verification/Vm.thy ===== *)
theory Vm
  imports Mmu
begin

text \<open>
  Virtual memory regions, src/kernel/vm.c: an area keeps the list of the segments in use; \<open>vm_alloc\<close> takes
  the highest free block of the area that is aligned to its size. A segment is an object of \<open>kmalloc\<close>, which
  itself calls \<open>vm_alloc\<close>: the allocator is an argument here and the two are tied together in Slub. Locking a
  mutex that the same thread holds already is a deadlock.
\<close>

section \<open>Data\<close>

definition VMA_SLUB :: nat where "VMA_SLUB = 0"
definition VMA_MAX :: nat where "VMA_MAX = 1"
definition VM_UNIT_PAGE :: nat where "VM_UNIT_PAGE = 0"
definition VM_UNIT_MAX :: nat where "VM_UNIT_MAX = 13"
definition VM_AREA_SIZE :: u32 where "VM_AREA_SIZE = 128 * 1024 * 1024"

lemmas vm_consts = VMA_SLUB_def VMA_MAX_def VM_UNIT_PAGE_def VM_UNIT_MAX_def VM_AREA_SIZE_def

definition VSF_NPAGES :: field where
  [fields]: "VSF_NPAGES = (12, 20)"

record vm_seg =
  vs_start :: addr
  vs_flags :: u32

text \<open>The linker script places the one area.\<close>

definition vm_slub_start :: addr where "vm_slub_start = 0xf0000000"
definition vm_slub_end :: addr where "vm_slub_end = 0xf8000000"

definition vm_area_start :: "nat \<Rightarrow> addr" where
  "vm_area_start area = [vm_slub_start] ! area"

record vm_state = mmu_state +
  vm_areas :: "nat \<Rightarrow> addr list"
  vseg :: "addr \<Rightarrow> vm_seg"
  vm_areas_lock :: "nat \<Rightarrow> bool"

text \<open>\<open>PAGE_SIZE\<close> is a 64-bit constant; the shifted value is stored in 32 bits.\<close>

definition vm_align :: "nat \<Rightarrow> u32" where
  "vm_align unit = ucast (push_bit unit (push_bit PAGE_SIZE_SZ (1 :: 64 word)))"

section \<open>Search\<close>

definition seg_end :: "vm_seg \<Rightarrow> addr" where
  "seg_end s = vs_start s + bits_pull (vs_flags s) VSF_NPAGES"

definition seg_overlaps :: "vm_seg \<Rightarrow> addr \<Rightarrow> addr \<Rightarrow> bool" where
  "seg_overlaps s start end =
    (let send = seg_end s
     in vs_start s \<le> start \<and> start < send
      \<or> vs_start s < end \<and> end \<le> send
      \<or> start \<le> vs_start s \<and> vs_start s < end
      \<or> start < send \<and> send \<le> end)"

definition vm_find_seg :: "addr list \<Rightarrow> addr \<Rightarrow> addr \<Rightarrow> 'a vm_state_scheme \<Rightarrow> addr option" where
  "vm_find_seg area start end st = find (\<lambda>e. seg_overlaps (vseg st e) start end) (rev area)"

partial_function (option) vm_scan ::
    "'a vm_state_scheme \<Rightarrow> nat \<Rightarrow> addr \<Rightarrow> u32 \<Rightarrow> addr \<Rightarrow> addr option option" where
  "vm_scan st area as align t =
    (if as \<le> t
     then if vm_find_seg (vm_areas st area) t (t + align) st \<noteq> None
          then vm_scan st area as align (t - align)
          else Some (Some t)
     else Some None)"

declare vm_scan.simps [code]

definition vm_find_free :: "nat \<Rightarrow> nat \<Rightarrow> 'a vm_state_scheme \<Rightarrow> addr option res" where
  "vm_find_free area unit st =
    (let as = vm_area_start area; ae = as + VM_AREA_SIZE; align = vm_align unit
     in case vm_scan st area as align (ae - align) of None \<Rightarrow> Inl Endless | Some r \<Rightarrow> Inr r)"

section \<open>Allocation and release\<close>

definition area_lock :: "nat \<Rightarrow> 'a vm_state_scheme \<Rightarrow> 'a vm_state_scheme res" where
  "area_lock area st =
    (if vm_areas_lock st area then Inl Deadlock
     else Inr (st\<lparr>vm_areas_lock := (vm_areas_lock st)(area := True)\<rparr>))"

definition area_unlock :: "nat \<Rightarrow> 'a vm_state_scheme \<Rightarrow> 'a vm_state_scheme" where
  "area_unlock area st = st\<lparr>vm_areas_lock := (vm_areas_lock st)(area := False)\<rparr>"

text \<open>One round of the loop of \<open>vm_alloc\<close>; \<open>sizeof(struct vm_seg)\<close> is 16. A start address of 0 is NULL.\<close>

definition vm_alloc_one ::
    "(u32 \<Rightarrow> 'a vm_state_scheme \<Rightarrow> ('a vm_state_scheme \<times> addr) res) \<Rightarrow> nat \<Rightarrow> nat \<Rightarrow>
     'a vm_state_scheme \<Rightarrow> ('a vm_state_scheme \<times> addr) res" where
  "vm_alloc_one km area unit st =
    bind_res (vm_find_free area unit st) (\<lambda>t.
      case t of
        None \<Rightarrow> Inl (Assert ''vm.c:116'')
      | Some va \<Rightarrow>
          assert_that ''vm.c:116'' (va \<noteq> 0)
            (bind_res (km 16 st) (\<lambda>(st, seg).
              let st = st\<lparr>vseg := (vseg st)(seg := \<lparr>vs_start = va, vs_flags = bits_set VSF_NPAGES (push_bit unit 1)\<rparr>)\<rparr>
              in Inr (st\<lparr>vm_areas := (vm_areas st)(area := seg # vm_areas st area)\<rparr>, va))))"

fun vm_alloc_loop ::
    "('a vm_state_scheme \<Rightarrow> ('a vm_state_scheme \<times> addr) res) \<Rightarrow> nat \<Rightarrow>
     'a vm_state_scheme \<Rightarrow> ('a vm_state_scheme \<times> addr list) res" where
  "vm_alloc_loop one 0 st = Inr (st, [])"
| "vm_alloc_loop one (Suc n) st =
    bind_res (one st) (\<lambda>(st, va). bind_res (vm_alloc_loop one n st) (\<lambda>(st, vas). Inr (st, va # vas)))"

definition vm_alloc ::
    "(u32 \<Rightarrow> 'a vm_state_scheme \<Rightarrow> ('a vm_state_scheme \<times> addr) res) \<Rightarrow> nat \<Rightarrow> nat \<Rightarrow> nat \<Rightarrow>
     'a vm_state_scheme \<Rightarrow> ('a vm_state_scheme \<times> addr list) res" where
  "vm_alloc km area unit n st =
    assert_that ''vm.c:107'' (area < VMA_MAX)
      (bind_res (area_lock area st) (\<lambda>st.
        bind_res (vm_alloc_loop (vm_alloc_one km area unit) n st) (\<lambda>(st, vas).
          Inr (area_unlock area st, vas))))"

text \<open>\<open>vm_free\<close> compares every segment with every address, and clears the addresses it has found. A released
  segment keeps its successor, start and flags: \<open>kfree\<close> writes the first word only.\<close>

definition vm_free_one ::
    "(addr \<Rightarrow> 'a vm_state_scheme \<Rightarrow> 'a vm_state_scheme res) \<Rightarrow> nat \<Rightarrow> nat \<Rightarrow> addr \<Rightarrow> nat \<Rightarrow>
     'a vm_state_scheme \<times> addr list \<Rightarrow> ('a vm_state_scheme \<times> addr list) res" where
  "vm_free_one kf area unit e i = (\<lambda>(st, va).
    if va ! i = 0 then Inr (st, va)
    else if vs_start (vseg st e) \<noteq> va ! i then Inr (st, va)
    else assert_that ''vm.c:146'' (bits_get (vs_flags (vseg st e)) VSF_NPAGES = push_bit unit 1)
      (let st = st\<lparr>vm_areas := (vm_areas st)(area := remove1 e (vm_areas st area))\<rparr>
       in bind_res (kf e st) (\<lambda>st. Inr (st, va[i := 0]))))"

definition vm_free ::
    "(addr \<Rightarrow> 'a vm_state_scheme \<Rightarrow> 'a vm_state_scheme res) \<Rightarrow> nat \<Rightarrow> nat \<Rightarrow> addr list \<Rightarrow>
     'a vm_state_scheme \<Rightarrow> ('a vm_state_scheme \<times> addr list) res" where
  "vm_free kf area unit va st =
    assert_that ''vm.c:137'' (area < VMA_MAX)
      (bind_res (area_lock area st) (\<lambda>st.
        bind_res (for_each_res (\<lambda>e. for_each_res (vm_free_one kf area unit e) [0..<length va]) (vm_areas st area) (st, va))
          (\<lambda>(st, va). Inr (area_unlock area st, va))))"

text \<open>\<open>vm_init\<close>: the last nine pages of the area are the slabs that exist at boot.\<close>

definition vm_init ::
    "(u32 \<Rightarrow> 'a vm_state_scheme \<Rightarrow> ('a vm_state_scheme \<times> addr) res) \<Rightarrow> 'a vm_state_scheme \<Rightarrow> 'a vm_state_scheme res" where
  "vm_init km st =
    (let st = fold (\<lambda>i st. st\<lparr>vm_areas := (vm_areas st)(i := []), vm_areas_lock := (vm_areas_lock st)(i := False)\<rparr>) [0..<VMA_MAX] st
     in bind_res (km 16 st) (\<lambda>(st, slabs).
       let st = st\<lparr>vseg := (vseg st)(slabs := \<lparr>vs_start = 0, vs_flags = 0\<rparr>)\<rparr>;
           st = st\<lparr>vseg := (vseg st)(slabs := (vseg st slabs)\<lparr>vs_start := vm_slub_end - push_bit PAGE_SIZE_SZ 9\<rparr>)\<rparr>;
           st = st\<lparr>vseg := (vseg st)(slabs := (vseg st slabs)\<lparr>vs_flags := vs_flags (vseg st slabs) OR bits_set VSF_NPAGES 9\<rparr>)\<rparr>
       in Inr (st\<lparr>vm_areas := (vm_areas st)(VMA_SLUB := slabs # vm_areas st VMA_SLUB)\<rparr>)))"

section \<open>Segments and intervals\<close>

text \<open>The four tests of \<open>vm_find_seg\<close> are the intersection of two intervals, when neither wraps.\<close>

lemma seg_overlaps_intervals:
  assumes "start < end" "vs_start s < seg_end s"
  shows "seg_overlaps s start end \<longleftrightarrow> (\<exists>x. start \<le> x \<and> x < end \<and> vs_start s \<le> x \<and> x < seg_end s)"
proof
  assume "seg_overlaps s start end"
  then consider "vs_start s \<le> start" "start < seg_end s" | "start \<le> vs_start s" "vs_start s < end"
    unfolding seg_overlaps_def Let_def using assms by force
  then show "\<exists>x. start \<le> x \<and> x < end \<and> vs_start s \<le> x \<and> x < seg_end s" using assms by cases auto
next
  assume "\<exists>x. start \<le> x \<and> x < end \<and> vs_start s \<le> x \<and> x < seg_end s"
  then have "start < seg_end s" "vs_start s < end" by auto
  then show "seg_overlaps s start end" unfolding seg_overlaps_def Let_def by (metis linear)
qed

section \<open>The search\<close>

definition block_free :: "'a vm_state_scheme \<Rightarrow> nat \<Rightarrow> addr \<Rightarrow> u32 \<Rightarrow> bool" where
  "block_free st area t align \<longleftrightarrow> (\<forall>e\<in>set (vm_areas st area). \<not> seg_overlaps (vseg st e) t (t + align))"

lemma vm_find_seg_None: "vm_find_seg (vm_areas st area) t (t + align) st = None \<longleftrightarrow> block_free st area t align"
  by (auto simp: vm_find_seg_def find_None_iff block_free_def)

text \<open>The last of \<open>m\<close> blocks that is free, looking down from the top.\<close>

fun last_free :: "(nat \<Rightarrow> bool) \<Rightarrow> nat \<Rightarrow> nat option" where
  "last_free P 0 = None"
| "last_free P (Suc m) = (if P m then Some m else last_free P m)"

lemma last_free_spec:
  "case last_free P m of None \<Rightarrow> \<forall>j<m. \<not> P j | Some j \<Rightarrow> j < m \<and> P j \<and> (\<forall>i. j < i \<longrightarrow> i < m \<longrightarrow> \<not> P i)"
  by (induction m) (auto simp: less_Suc_eq split: option.splits)

lemma unat_block_mult: "j * unat a < 4294967296 \<Longrightarrow> unat (of_nat j * a :: u32) = j * unat a"
  by (simp add: unat_word_ariths unat_of_nat mod_mult_left_eq)

lemma unat_block:
  fixes as align :: u32
  assumes "unat as + m * unat align < 4294967296" "j \<le> m"
  shows "unat (as + of_nat j * align) = unat as + j * unat align"
proof -
  have "j * unat align \<le> m * unat align" using assms(2) by simp
  then have j: "unat as + j * unat align < 4294967296" using assms(1) by linarith
  then have "unat (of_nat j * align) = j * unat align" by (intro unat_block_mult) linarith
  then show ?thesis using unat_add_no_overflow [of as "of_nat j * align"] j by simp
qed

lemma vm_scan_blocks:
  fixes as align :: u32
  assumes "unat as + m * unat align < 4294967296" "0 < align" "align \<le> as"
  shows "vm_scan st area as align (as + of_nat m * align)
    = Some (map_option (\<lambda>j. as + of_nat j * align) (last_free (\<lambda>j. block_free st area (as + of_nat j * align) align) (Suc m)))"
  using assms(1)
proof (induction m)
  case 0
  have "\<not> as \<le> as - align"
    using assms(2,3) by (simp add: word_le_nat_alt unat_sub_le word_less_nat_alt) 
  then have "vm_scan st area as align (as - align) = Some None" by (simp add: vm_scan.simps)
  then show ?case by (subst vm_scan.simps) (simp add: vm_find_seg_None)
next
  case (Suc m)
  let ?t = "as + of_nat (Suc m) * align"
  have le: "as \<le> ?t" using unat_block [OF Suc.prems, of "Suc m"] by (simp add: word_le_nat_alt del: of_nat_Suc)
  have down: "?t - align = as + of_nat m * align" by (simp add: algebra_simps)
  have m: "unat as + m * unat align < 4294967296" using Suc.prems by simp
  show ?case
  proof (cases "block_free st area ?t align")
    case True
    then have "vm_find_seg (vm_areas st area) ?t (?t + align) st = None" by (simp only: vm_find_seg_None)
    then show ?thesis using le True by (subst vm_scan.simps) (simp del: of_nat_Suc)
  next
    case False
    then have n: "vm_find_seg (vm_areas st area) ?t (?t + align) st \<noteq> None" by (simp only: vm_find_seg_None simp_thms)
    have "vm_scan st area as align ?t = vm_scan st area as align (as + of_nat m * align)"
      using n le by (subst vm_scan.simps) (simp only: if_True down simp_thms)
    then show ?thesis using Suc.IH [OF m] False by (simp del: of_nat_Suc)
  qed
qed

definition vm_block :: "nat \<Rightarrow> nat \<Rightarrow> addr" where
  "vm_block unit j = vm_slub_start + of_nat j * vm_align unit"

lemma vm_align_exp: "unit < VM_UNIT_MAX \<Longrightarrow> vm_align unit = 2 ^ (unit + 12)"
proof -
  assume u: "unit < VM_UNIT_MAX"
  have e: "vm_align unit = ucast (push_bit (unit + 12) (1 :: 64 word))"
    by (simp only: vm_align_def PAGE_SIZE_SZ_def push_bit_push_bit)
  show ?thesis unfolding e
    by (rule bit_word_eqI) (use u in \<open>auto simp: bit_simps vm_consts\<close>)
qed

lemma unat_vm_align: "unit < VM_UNIT_MAX \<Longrightarrow> unat (vm_align unit) = 2 ^ (unit + 12)"
  by (simp add: vm_align_exp unat_exp_u32 vm_consts)

lemma vm_find_free_blocks:
  assumes "unit < VM_UNIT_MAX"
  shows "vm_find_free VMA_SLUB unit st
    = Inr (map_option (vm_block unit) (last_free (\<lambda>j. block_free st VMA_SLUB (vm_block unit j) (vm_align unit)) (2 ^ (15 - unit))))"
proof -
  let ?a = "vm_align unit"
  define m :: nat where "m = 2 ^ (15 - unit) - 1"
  have u: "unit \<le> 12" using assms by (simp add: vm_consts)
  have "(2::nat) ^ (15 - unit) * 2 ^ (unit + 12) = 2 ^ 27" using u by (simp flip: power_add)
  note sz = this
  have mz: "m * unat ?a + unat ?a = 2 ^ 27"
  proof -
    have "m * unat ?a + unat ?a = Suc m * unat ?a" by simp
    also have "Suc m = 2 ^ (15 - unit)" by (simp add: m_def)
    finally show ?thesis using sz unat_vm_align [OF assms] by simp
  qed
  have s: "unat vm_slub_start = 0xf0000000" by (simp add: vm_slub_start_def)
  have "unat vm_slub_start + m * unat ?a < 4294967296" using mz s by simp
  note bound = this
  have pos: "0 < ?a" using unat_vm_align [OF assms] by (simp add: word_less_nat_alt)
  have "(2::nat) ^ (unit + 12) \<le> 2 ^ 24" using u by (intro power_increasing) simp_all
  then have le: "?a \<le> vm_slub_start" using unat_vm_align [OF assms] s by (simp add: word_le_nat_alt)
  have top: "vm_area_start VMA_SLUB + VM_AREA_SIZE - ?a = vm_slub_start + of_nat m * ?a"
  proof -
    have "of_nat m * ?a + ?a = of_nat (m * unat ?a + unat ?a)" by simp
    also have "\<dots> = VM_AREA_SIZE" unfolding mz by (simp add: vm_consts)
    finally show ?thesis by (simp add: vm_area_start_def VMA_SLUB_def algebra_simps)
  qed
  have suc: "Suc m = 2 ^ (15 - unit)" by (simp add: m_def)
  have "vm_area_start VMA_SLUB = vm_slub_start" by (simp add: vm_area_start_def VMA_SLUB_def)
  then show ?thesis
    unfolding vm_find_free_def Let_def top
    by (simp only: vm_scan_blocks [OF bound pos le] option.case suc vm_block_def [abs_def])
qed

text \<open>Where the blocks lie.\<close>

lemma unat_vm_block:
  assumes "unit < VM_UNIT_MAX" "j \<le> 2 ^ (15 - unit)"
  shows "unat (vm_block unit j) = 0xf0000000 + j * 2 ^ (unit + 12)"
proof -
  have "(2::nat) ^ (15 - unit) * 2 ^ (unit + 12) = 2 ^ 27" using assms(1) by (simp flip: power_add add: vm_consts)
  then have "unat vm_slub_start + 2 ^ (15 - unit) * unat (vm_align unit) < 4294967296"
    by (simp add: unat_vm_align [OF assms(1)] vm_slub_start_def)
  from unat_block [OF this assms(2)] show ?thesis
    by (simp add: vm_block_def unat_vm_align [OF assms(1)] vm_slub_start_def)
qed

lemma vm_block_Suc: "vm_block unit j + vm_align unit = vm_block unit (Suc j)"
  by (simp add: vm_block_def algebra_simps)

definition in_seg :: "vm_seg \<Rightarrow> addr \<Rightarrow> bool" where
  "in_seg s x \<longleftrightarrow> vs_start s \<le> x \<and> x < seg_end s"

definition in_block :: "nat \<Rightarrow> addr \<Rightarrow> addr \<Rightarrow> bool" where
  "in_block unit va x \<longleftrightarrow> va \<le> x \<and> x < va + vm_align unit"

text \<open>The area: the segments are not empty, lie inside it, and do not meet.\<close>

definition area_wf :: "'a vm_state_scheme \<Rightarrow> bool" where
  "area_wf st \<longleftrightarrow> distinct (vm_areas st VMA_SLUB)
    \<and> (\<forall>e\<in>set (vm_areas st VMA_SLUB). vs_start (vseg st e) < seg_end (vseg st e)
        \<and> vm_slub_start \<le> vs_start (vseg st e) \<and> seg_end (vseg st e) \<le> vm_slub_end)
    \<and> (\<forall>e\<in>set (vm_areas st VMA_SLUB). \<forall>e'\<in>set (vm_areas st VMA_SLUB). \<forall>x.
        in_seg (vseg st e) x \<longrightarrow> in_seg (vseg st e') x \<longrightarrow> e = e')"

lemma vm_block_range:
  assumes u: "unit < VM_UNIT_MAX" and j: "j < 2 ^ (15 - unit)"
  shows "vm_block unit j < vm_block unit j + vm_align unit" "vm_slub_start \<le> vm_block unit j"
    "vm_block unit j + vm_align unit \<le> vm_slub_end" "vm_block unit j \<noteq> 0"
proof -
  have "Suc j * 2 ^ (unit + 12) \<le> 2 ^ (15 - unit) * 2 ^ (unit + 12)" using j by (intro mult_right_mono) simp_all
  also have "\<dots> = (2::nat) ^ 27" using u by (simp flip: power_add add: vm_consts)
  finally have top: "Suc j * 2 ^ (unit + 12) \<le> 2 ^ 27" .
  note b = unat_vm_block [OF u, of j] unat_vm_block [OF u, of "Suc j"]
  show "vm_block unit j < vm_block unit j + vm_align unit"
    using b j by (simp add: vm_block_Suc word_less_nat_alt)
  show "vm_slub_start \<le> vm_block unit j" using b j by (simp add: word_le_nat_alt vm_slub_start_def)
  show "vm_block unit j + vm_align unit \<le> vm_slub_end"
    using b j top by (simp add: vm_block_Suc word_le_nat_alt vm_slub_end_def)
  show "vm_block unit j \<noteq> 0" using b j by (metis add_is_0 less_imp_le unat_0 zero_neq_numeral)
qed

lemma block_free_iff:
  assumes wf: "area_wf st" and u: "unit < VM_UNIT_MAX" and j: "j < 2 ^ (15 - unit)"
  shows "block_free st VMA_SLUB (vm_block unit j) (vm_align unit) \<longleftrightarrow>
    (\<forall>e\<in>set (vm_areas st VMA_SLUB). \<forall>x. in_block unit (vm_block unit j) x \<longrightarrow> \<not> in_seg (vseg st e) x)"
proof -
  have "seg_overlaps (vseg st e) (vm_block unit j) (vm_block unit j + vm_align unit)
      \<longleftrightarrow> (\<exists>x. in_block unit (vm_block unit j) x \<and> in_seg (vseg st e) x)" if "e \<in> set (vm_areas st VMA_SLUB)" for e
    using seg_overlaps_intervals [OF vm_block_range(1) [OF u j], of "vseg st e"] that wf
    by (auto simp: in_block_def in_seg_def area_wf_def)
  then show ?thesis unfolding block_free_def by blast
qed

text \<open>An allocation of one block, when \<open>kmalloc\<close> serves it.\<close>

lemma vm_alloc_total:
  assumes wf: "area_wf st" and u: "unit < VM_UNIT_MAX" and lock: "\<not> vm_areas_lock st VMA_SLUB"
    and room: "\<exists>j<2 ^ (15 - unit). \<forall>e\<in>set (vm_areas st VMA_SLUB). \<forall>x. in_block unit (vm_block unit j) x \<longrightarrow> \<not> in_seg (vseg st e) x"
    and km: "km 16 (st\<lparr>vm_areas_lock := (vm_areas_lock st)(VMA_SLUB := True)\<rparr>) = Inr (st2, p)"
  shows "\<exists>j<2 ^ (15 - unit). (\<forall>e\<in>set (vm_areas st VMA_SLUB). \<forall>x. in_block unit (vm_block unit j) x \<longrightarrow> \<not> in_seg (vseg st e) x)
    \<and> (\<forall>i. j < i \<longrightarrow> i < 2 ^ (15 - unit) \<longrightarrow> (\<exists>e\<in>set (vm_areas st VMA_SLUB). \<exists>x. in_block unit (vm_block unit i) x \<and> in_seg (vseg st e) x))
    \<and> vm_alloc km VMA_SLUB unit 1 st = Inr (area_unlock VMA_SLUB
        (st2\<lparr>vseg := (vseg st2)(p := \<lparr>vs_start = vm_block unit j, vs_flags = bits_set VSF_NPAGES (push_bit unit 1)\<rparr>),
          vm_areas := (vm_areas st2)(VMA_SLUB := p # vm_areas st2 VMA_SLUB)\<rparr>), [vm_block unit j])"
proof -
  define st1 where "st1 = st\<lparr>vm_areas_lock := (vm_areas_lock st)(VMA_SLUB := True)\<rparr>"
  have k: "vm_areas st1 = vm_areas st" "vseg st1 = vseg st" by (simp_all add: st1_def)
  have wf1: "area_wf st1" using wf by (simp add: area_wf_def k)
  note f = block_free_iff [OF wf1 u, unfolded k]
  obtain j where j: "j < 2 ^ (15 - unit)" "block_free st1 VMA_SLUB (vm_block unit j) (vm_align unit)"
      "\<forall>i. j < i \<longrightarrow> i < 2 ^ (15 - unit) \<longrightarrow> \<not> block_free st1 VMA_SLUB (vm_block unit i) (vm_align unit)"
    and found: "vm_find_free VMA_SLUB unit st1 = Inr (Some (vm_block unit j))"
    using vm_find_free_blocks [OF u, of st1] room f
      last_free_spec [where P = "\<lambda>j. block_free st1 VMA_SLUB (vm_block unit j) (vm_align unit)" and m = "2 ^ (15 - unit)"]
    by (auto split: option.splits)
  have "vm_block unit j \<noteq> 0" using vm_block_range(4) [OF u j(1)] .
  then have "vm_alloc km VMA_SLUB unit 1 st = Inr (area_unlock VMA_SLUB
        (st2\<lparr>vseg := (vseg st2)(p := \<lparr>vs_start = vm_block unit j, vs_flags = bits_set VSF_NPAGES (push_bit unit 1)\<rparr>),
          vm_areas := (vm_areas st2)(VMA_SLUB := p # vm_areas st2 VMA_SLUB)\<rparr>), [vm_block unit j])"
    using lock found km unfolding st1_def by (simp add: vm_alloc_def vm_alloc_one_def area_lock_def Let_def VMA_SLUB_def VMA_MAX_def)
  moreover have "\<exists>e\<in>set (vm_areas st VMA_SLUB). \<exists>x. in_block unit (vm_block unit i) x \<and> in_seg (vseg st e) x"
    if "j < i" "i < 2 ^ (15 - unit)" for i using j(3) f [OF that(2)] that by blast
  ultimately show ?thesis using j(1,2) f [OF j(1)] by blast
qed

lemma vm_alloc_disjoint:
  assumes wf: "area_wf st" and u: "unit < VM_UNIT_MAX"
    and run: "vm_alloc km VMA_SLUB unit 1 st = Inr (st', vas)"
    and km: "\<And>st1 st2 p. area_lock VMA_SLUB st = Inr st1 \<Longrightarrow> km 16 st1 = Inr (st2, p) \<Longrightarrow>
      p \<notin> set (vm_areas st VMA_SLUB) \<and> vm_areas st2 = vm_areas st \<and> vseg st2 = vseg st"
  shows "\<exists>va p. vas = [va] \<and> vm_areas st' VMA_SLUB = p # vm_areas st VMA_SLUB \<and> area_wf st'
    \<and> (\<forall>x. in_seg (vseg st' p) x \<longleftrightarrow> in_block unit va x)
    \<and> (\<forall>x. in_block unit va x \<longrightarrow> (\<forall>e\<in>set (vm_areas st VMA_SLUB). \<not> in_seg (vseg st e) x))
    \<and> (\<exists>j. va = vm_block unit j)"
proof -
  obtain st1 where st1: "area_lock VMA_SLUB st = Inr st1" "vm_areas st1 = vm_areas st" "vseg st1 = vseg st"
    using run by (auto simp: vm_alloc_def vm_consts area_lock_def bind_res_Inr split: if_splits)
  have wf1: "area_wf st1" using wf st1 by (simp add: area_wf_def)
  obtain va st2 p where r: "vm_find_free VMA_SLUB unit st1 = Inr (Some va)" "km 16 st1 = Inr (st2, p)" "vas = [va]"
      "st' = area_unlock VMA_SLUB (st2\<lparr>vseg := (vseg st2)(p := \<lparr>vs_start = va, vs_flags = bits_set VSF_NPAGES (push_bit unit 1)\<rparr>),
        vm_areas := (vm_areas st2)(VMA_SLUB := p # vm_areas st2 VMA_SLUB)\<rparr>)"
    using run st1(1)
    by (auto simp: vm_alloc_def vm_consts vm_alloc_one_def bind_res_Inr assert_that_Inr Let_def split: option.splits)
  note k = km [OF st1(1) r(2)]
  obtain j where j: "j < 2 ^ (15 - unit)" "va = vm_block unit j"
      "\<not> (\<exists>e\<in>set (vm_areas st VMA_SLUB). \<exists>x. in_block unit (vm_block unit j) x \<and> in_seg (vseg st e) x)"
    using vm_find_free_blocks [OF u, of st1] r(1) block_free_iff [OF wf1 u]
      last_free_spec [where P = "\<lambda>j. block_free st1 VMA_SLUB (vm_block unit j) (vm_align unit)" and m = "2 ^ (15 - unit)"]
    by (auto simp: st1 split: option.splits)
  define s where "s = \<lparr>vs_start = va, vs_flags = bits_set VSF_NPAGES (push_bit unit 1)\<rparr>"
  have e: "vs_start s = va" "seg_end s = va + vm_align unit"
  proof -
    have "bits_pull (bits_set VSF_NPAGES (push_bit unit 1)) VSF_NPAGES = vm_align unit"
      unfolding vm_align_exp [OF u]
      by (rule bit_word_eqI) (use u in \<open>auto simp: bit_fields field_ok_def VSF_NPAGES_def bit_exp_iff bit_simps vm_consts\<close>)
    then show "vs_start s = va" "seg_end s = va + vm_align unit" by (simp_all add: seg_end_def push_bit_eq_mult s_def)
  qed
  have new: "in_seg s x \<longleftrightarrow> in_block unit va x" for x unfolding in_seg_def in_block_def e by simp
  have f: "vm_areas st' VMA_SLUB = p # vm_areas st VMA_SLUB" "vseg st' = (vseg st)(p := s)"
    using k by (simp_all add: r(4) area_unlock_def s_def)
  note b = vm_block_range [OF u j(1), folded j(2)]
  have "area_wf st'"
    using wf k b j(2,3) unfolding area_wf_def f by (auto simp: new e)
  then show ?thesis
    using r(3) f new j k by (intro exI [of _ va] exI [of _ p]) auto
qed

section \<open>Properties\<close>

text \<open>C22: \<open>vm_find_free\<close> ends and returns the highest block of the area, aligned to its size, no byte of which is in
  a segment; it returns nothing only when every block meets a segment.\<close>

theorem vm_find_free_highest:
  assumes wf: "area_wf st" and u: "unit < VM_UNIT_MAX"
  shows "\<exists>r. vm_find_free VMA_SLUB unit st = Inr r \<and>
    (let N = 2 ^ (15 - unit);
         meets = (\<lambda>j. \<exists>e\<in>set (vm_areas st VMA_SLUB). \<exists>x. in_block unit (vm_block unit j) x \<and> in_seg (vseg st e) x)
     in case r of
          None \<Rightarrow> \<forall>j<N. meets j
        | Some va \<Rightarrow> \<exists>j<N. va = vm_block unit j \<and> \<not> meets j \<and> (\<forall>i. j < i \<longrightarrow> i < N \<longrightarrow> meets i))"
proof -
  let ?P = "\<lambda>j. block_free st VMA_SLUB (vm_block unit j) (vm_align unit)"
  note f = block_free_iff [OF wf u]
  show ?thesis
  proof (cases "last_free ?P (2 ^ (15 - unit))")
    case None
    then show ?thesis
      using vm_find_free_blocks [OF u, of st] last_free_spec [where P = ?P and m = "2 ^ (15 - unit)"] f
      by (intro exI [of _ None]) (simp add: Let_def)
  next
    case (Some j)
    then show ?thesis
      using vm_find_free_blocks [OF u, of st] last_free_spec [where P = ?P and m = "2 ^ (15 - unit)"] f
      by (intro exI [of _ "Some (vm_block unit j)"]) (simp add: Let_def, blast)
  qed
qed

text \<open>The area as \<open>vm_init\<close> leaves it.\<close>

definition vm_boot :: vm_state where
  "vm_boot = \<lparr>pd = (\<lambda>_. 0), kpt = (\<lambda>_. 0), ptm = (\<lambda>_. 0), tlb = {}, vm_areas = (\<lambda>_. [0xf7ff8000]),
     vseg = (\<lambda>_. \<lparr>vs_start = 0xf7ff7000, vs_flags = bits_set VSF_NPAGES 9\<rparr>), vm_areas_lock = (\<lambda>_. False)\<rparr>"

lemma vm_boot_wf: "area_wf vm_boot"
proof -
  have "seg_end \<lparr>vs_start = 0xf7ff7000, vs_flags = bits_set VSF_NPAGES 9\<rparr> = vm_slub_end" by code_simp
  then show ?thesis by (simp add: area_wf_def vm_boot_def) (simp add: vm_slub_end_def vm_slub_start_def)
qed

theorem vm_find_free_highest_witness:
  "area_wf vm_boot \<and> (\<exists>r. vm_find_free VMA_SLUB 0 vm_boot = Inr r) \<and> vm_find_free VMA_SLUB 0 vm_boot = Inr (Some 0xf7ff6000)"
proof -
  have "vm_find_free VMA_SLUB 0 vm_boot = Inr (Some 0xf7ff6000)" by code_simp
  then show ?thesis
    using vm_find_free_highest [OF vm_boot_wf, of 0] vm_boot_wf by (auto simp: vm_consts)
qed

text \<open>C23: An allocation of one block: the new segment covers exactly the block, which no segment covered before, and
  the area stays free of overlaps, when \<open>kmalloc\<close> returns an object that is no segment yet and leaves
  the segments alone.\<close>

theorem vm_alloc_keeps_disjoint:
  assumes wf: "area_wf st" and u: "unit < VM_UNIT_MAX"
    and run: "vm_alloc km VMA_SLUB unit 1 st = Inr (st', vas)"
    and km: "\<And>st1 st2 p. area_lock VMA_SLUB st = Inr st1 \<Longrightarrow> km 16 st1 = Inr (st2, p) \<Longrightarrow>
      p \<notin> set (vm_areas st VMA_SLUB) \<and> vm_areas st2 = vm_areas st \<and> vseg st2 = vseg st"
  shows "\<exists>va p. vas = [va] \<and> vm_areas st' VMA_SLUB = p # vm_areas st VMA_SLUB \<and> area_wf st'
    \<and> (\<forall>x. in_seg (vseg st' p) x \<longleftrightarrow> in_block unit va x)
    \<and> (\<forall>x. in_block unit va x \<longrightarrow> (\<forall>e\<in>set (vm_areas st VMA_SLUB). \<not> in_seg (vseg st e) x))
    \<and> (\<exists>j. va = vm_block unit j)"
  using vm_alloc_disjoint [OF assms] .

theorem vm_alloc_keeps_disjoint_witness:
  "\<exists>st'. vm_alloc (\<lambda>sz st. Inr (st, 0xf7ff8010)) VMA_SLUB 0 1 vm_boot = Inr (st', [0xf7ff6000]) \<and> area_wf st'"
proof -
  let ?b = "vm_boot\<lparr>vm_areas_lock := (vm_areas_lock vm_boot)(VMA_SLUB := True)\<rparr>"
  have "vm_find_free VMA_SLUB 0 ?b = Inr (Some 0xf7ff6000)" by code_simp
  then obtain st' where r: "vm_alloc (\<lambda>sz st. Inr (st, 0xf7ff8010)) VMA_SLUB 0 1 vm_boot = Inr (st', [0xf7ff6000])"
    by (simp add: vm_alloc_def vm_alloc_one_def area_lock_def vm_consts) (simp add: vm_boot_def)
  show ?thesis
    using vm_alloc_keeps_disjoint [OF vm_boot_wf _ r] r by (auto simp: vm_consts area_lock_def vm_boot_def)
qed

end
