(* ===== verification/Slub.thy ===== *)
theory Slub
  imports Pm Vm
begin

text \<open>
  The slab allocator, src/kernel/slub.c: nine sizes of objects inside a page, each with its lists of slabs,
  the same for the page tables of the MMU, and allocations of whole pages. It needs itself: a slab is
  described by an object of sixteen bytes, and a page needs a segment of vm.c and a mapping of mmu.c, which may need
  a page table. The functions of Vm and Mmu take what they call as arguments; here everything is tied together in
  \<open>kmalloc\<close>, whose first argument bounds the depth of the calls.

  The descriptions of slabs and the lists are maps of their own beside the words of the objects
  (\<open>ptm\<close>): objects of the allocator do not overlap. A mutex that a thread takes twice is a deadlock.
\<close>

section \<open>Data\<close>

definition SLUB_NSIZES :: nat where "SLUB_NSIZES = 24"
definition SLUB_SUBPAGE_NSIZES :: nat where "SLUB_SUBPAGE_NSIZES = 9"
definition SLUB_FULLPAGE_NSIZES :: nat where "SLUB_FULLPAGE_NSIZES = SLUB_NSIZES - SLUB_SUBPAGE_NSIZES"
definition SLUB_SUBPAGE_START :: nat where "SLUB_SUBPAGE_START = 3"

lemmas slub_consts = SLUB_NSIZES_def SLUB_SUBPAGE_NSIZES_def SLUB_FULLPAGE_NSIZES_def SLUB_SUBPAGE_START_def

definition SLUB_LEADER :: field where
  [fields]: "SLUB_LEADER = (0, 1)"

definition PAGE_SIZE :: u32 where "PAGE_SIZE = 4096"

record subpage_slab =
  sl_nfree :: "16 word"
  sl_free :: "16 word"
  sl_p :: addr

record subpage =
  sp_busy :: "addr list"
  sp_part :: "addr list"
  sp_free :: "addr list"
  sp_lock :: bool
  sp_log_sz :: nat

record fullpage =
  fp_busy :: "addr list"
  fp_lock :: bool
  fp_log_sz :: nat

text \<open>\<open>mmu_pt_subpages\<close> and the elements of \<open>subpages\<close>.\<close>

datatype spid = MmuPt | Sub nat

record slub_state = vm_state +
  pmem :: pm_state
  slab :: "addr \<Rightarrow> subpage_slab"
  fslab :: "addr \<Rightarrow> addr"
  subs :: "spid \<Rightarrow> subpage"
  fulls :: "nat \<Rightarrow> fullpage"
  slub_16byte_free :: int

definition mmu_slub_area :: addr where "mmu_slub_area = 0x403ff000"

section \<open>Small updates\<close>

definition upd_sub :: "spid \<Rightarrow> (subpage \<Rightarrow> subpage) \<Rightarrow> slub_state \<Rightarrow> slub_state" where
  "upd_sub i f st = st\<lparr>subs := (subs st)(i := f (subs st i))\<rparr>"

definition upd_full :: "nat \<Rightarrow> (fullpage \<Rightarrow> fullpage) \<Rightarrow> slub_state \<Rightarrow> slub_state" where
  "upd_full i f st = st\<lparr>fulls := (fulls st)(i := f (fulls st i))\<rparr>"

definition upd_slab :: "addr \<Rightarrow> (subpage_slab \<Rightarrow> subpage_slab) \<Rightarrow> slub_state \<Rightarrow> slub_state" where
  "upd_slab a f st = st\<lparr>slab := (slab st)(a := f (slab st a))\<rparr>"

definition upd_page :: "nat \<Rightarrow> (page \<Rightarrow> page) \<Rightarrow> slub_state \<Rightarrow> slub_state" where
  "upd_page i f st = st\<lparr>pmem := (pmem st)\<lparr>ram_map := (ram_map (pmem st))(i := f (ram_map (pmem st) i))\<rparr>\<rparr>"

definition set_word :: "addr \<Rightarrow> u32 \<Rightarrow> slub_state \<Rightarrow> slub_state" where
  "set_word a v st = st\<lparr>ptm := (ptm st)(a := v)\<rparr>"

definition zero_page :: "addr \<Rightarrow> slub_state \<Rightarrow> slub_state" where
  "zero_page va st = st\<lparr>ptm := (\<lambda>a. if a - va < PAGE_SIZE then 0 else ptm st a)\<rparr>"

text \<open>\<open>list_del\<close> takes an entry off the list it is on, whichever that is.\<close>

definition slab_del :: "addr \<Rightarrow> slub_state \<Rightarrow> slub_state" where
  "slab_del e st = st\<lparr>subs := (\<lambda>i. (subs st i)\<lparr>sp_busy := remove1 e (sp_busy (subs st i)),
     sp_part := remove1 e (sp_part (subs st i)), sp_free := remove1 e (sp_free (subs st i))\<rparr>)\<rparr>"

definition fslab_del :: "addr \<Rightarrow> slub_state \<Rightarrow> slub_state" where
  "fslab_del e st = st\<lparr>fulls := (\<lambda>i. (fulls st i)\<lparr>fp_busy := remove1 e (fp_busy (fulls st i))\<rparr>)\<rparr>"

definition sub_lock :: "spid \<Rightarrow> slub_state \<Rightarrow> slub_state res" where
  "sub_lock i st = (if sp_lock (subs st i) then Inl Deadlock else Inr (upd_sub i (\<lambda>s. s\<lparr>sp_lock := True\<rparr>) st))"

definition sub_unlock :: "spid \<Rightarrow> slub_state \<Rightarrow> slub_state" where
  "sub_unlock i st = upd_sub i (\<lambda>s. s\<lparr>sp_lock := False\<rparr>) st"

section \<open>Pages of the page tables\<close>

definition slub_page :: "string \<Rightarrow> addr \<Rightarrow> slub_state \<Rightarrow> nat res" where
  "slub_page site pa st =
    bind_res (pm_ram_get_page pa (pmem st)) (\<lambda>pg.
      assert_that site (bits_get (pflags (ram_map (pmem st) pg)) PGF_USE = usage_val PGF_USE_SLUB) (Inr pg))"

text \<open>The pointer in the \<open>struct page\<close>, with the mark of a leader checked and removed.\<close>

definition slub_leader :: "string \<Rightarrow> nat \<Rightarrow> slub_state \<Rightarrow> addr res" where
  "slub_leader site pg st =
    (let va = u0 (ram_map (pmem st) pg)
     in assert_that site (bits_get va SLUB_LEADER \<noteq> 0) (Inr (va AND bits_off SLUB_LEADER)))"

definition mmu_slub_pa_to_va :: "slub_state \<Rightarrow> addr \<Rightarrow> addr res" where
  "mmu_slub_pa_to_va st pa =
    bind_res (slub_page ''slub.c:539'' pa st) (\<lambda>pg.
      bind_res (slub_leader ''slub.c:542'' pg st) (\<lambda>sl.
        assert_that ''slub.c:546'' (bits_get (pflags (ram_map (pmem st) pg)) PGF_SLUB_LSIZE = 10)
          (Inr (sl_p (slab st sl) + (pa AND bits_mask PAGE_SIZE_SZ)))))"

definition slub_va_to_pa :: "addr \<Rightarrow> slub_state \<Rightarrow> addr res" where
  "slub_va_to_pa = mmu_va_to_pa mmu_slub_pa_to_va"

section \<open>Slabs\<close>

definition slub_subpage_init0 :: "spid \<Rightarrow> nat \<Rightarrow> slub_state \<Rightarrow> slub_state" where
  "slub_subpage_init0 i log_sz st =
    upd_sub i (\<lambda>_. \<lparr>sp_busy = [], sp_part = [], sp_free = [], sp_lock = False, sp_log_sz = log_sz\<rparr>) st"

definition map_req :: "addr \<Rightarrow> addr \<Rightarrow> mmu_map_req" where
  "map_req va pa = \<lparr>mr_n = 1, mr_va_start = va, mr_pa_start = pa, mr_mt = MT_NRM_IO_WBA, mr_ap = AP_SRW,
     mr_mu = MAP_UNIT_PAGE, mr_flags = bits_on MMR_XN OR bits_on MMR_AF\<rparr>"

definition slub_map :: "(slub_state \<Rightarrow> (slub_state \<times> addr) res) \<Rightarrow> addr \<Rightarrow> addr \<Rightarrow> slub_state \<Rightarrow> slub_state res" where
  "slub_map sa va pa st =
    bind_res (mmu_map sa mmu_slub_pa_to_va (map_req va pa) st) (\<lambda>st. Inr (zero_page va st))"

definition slub_subpage_init1 :: "spid \<Rightarrow> addr \<Rightarrow> addr \<Rightarrow> addr \<Rightarrow> slub_state \<Rightarrow> slub_state res" where
  "slub_subpage_init1 i sl va pa st =
    bind_res (pm_ram_get_page pa (pmem st)) (\<lambda>pg.
      let flags = pflags (ram_map (pmem st) pg); log_sz = sp_log_sz (subs st i)
      in assert_that ''slub.c:153'' (bits_get flags PGF_USE = usage_val PGF_USE_SLUB)
        (assert_that ''slub.c:154'' (bits_get flags PGF_UNIT = of_nat PM_UNIT_PAGE)
          (let st = upd_page pg (\<lambda>p. p\<lparr>pflags := pflags p OR bits_set PGF_SLUB_LSIZE (of_nat log_sz),
                                      u0 := sl OR bits_on SLUB_LEADER\<rparr>) st;
               st = upd_slab sl (\<lambda>s. s\<lparr>sl_p := va\<rparr>) st;
               n = 4096 div 2 ^ log_sz;
               k = (if log_sz = 4 then SLUB_SUBPAGE_NSIZES else 0);
               st = upd_slab sl (\<lambda>s. s\<lparr>sl_nfree := of_nat (n - k), sl_free := of_nat k\<rparr>) st;
               st = (if log_sz = 4
                     then upd_sub i (\<lambda>s. s\<lparr>sp_part := sp_part s @ [sl]\<rparr>)
                            (st\<lparr>slub_16byte_free := slub_16byte_free st + int (n - k)\<rparr>)
                     else upd_sub i (\<lambda>s. s\<lparr>sp_free := sp_free s @ [sl]\<rparr>) st)
           in Inr (fold (\<lambda>j. set_word (va + of_nat j * 2 ^ log_sz) (of_nat (j + 1))) [k..<n] st))))"

text \<open>\<open>slub_alloc_subpage_slab\<close>: both pointers are checked, and cleared, by the caller of \<open>kmalloc\<close>.\<close>

definition slub_alloc_subpage_slab ::
    "(u32 \<Rightarrow> slub_state \<Rightarrow> (slub_state \<times> addr) res) \<Rightarrow> spid \<Rightarrow> slub_state \<Rightarrow> slub_state res" where
  "slub_alloc_subpage_slab km i st =
    bind_res (km 16 st) (\<lambda>(st, sl).
      assert_that ''slub.c:263'' (sl \<noteq> 0)
        (let st = upd_slab sl (\<lambda>_. \<lparr>sl_nfree = 0, sl_free = 0, sl_p = 0\<rparr>) st
         in bind_res (km PAGE_SIZE st) (\<lambda>(st, p).
           assert_that ''slub.c:267'' (p \<noteq> 0)
             (let st = zero_page p st
              in bind_res (slub_va_to_pa p st) (\<lambda>pa.
                assert_that ''slub.c:271'' (pa \<noteq> 0xffffffff) (slub_subpage_init1 i sl p pa st))))))"

section \<open>Allocation\<close>

text \<open>Taking an object of slab \<open>e\<close>, and moving the slab when it was unused or becomes full.\<close>

definition take_object :: "spid \<Rightarrow> addr \<Rightarrow> slub_state \<Rightarrow> (slub_state \<times> addr) res" where
  "take_object i e st =
    (let log_sz = sp_log_sz (subs st i); n = 4096 div 2 ^ log_sz;
         p = sl_p (slab st e) + push_bit log_sz (ucast (sl_free (slab st e)));
         st = upd_slab e (\<lambda>s. s\<lparr>sl_free := ucast (ptm st p)\<rparr>) st;
         st = set_word p 0 st;
         nfree = sl_nfree (slab st e);
         st = upd_slab e (\<lambda>s. s\<lparr>sl_nfree := sl_nfree s - 1\<rparr>) st
     in assert_that ''slub.c:367'' (unat (sl_nfree (slab st e)) < n)
       (Inr (if unat nfree = n then upd_sub i (\<lambda>s. s\<lparr>sp_part := e # sp_part s\<rparr>) (slab_del e st)
             else if nfree = 1 then upd_sub i (\<lambda>s. s\<lparr>sp_busy := e # sp_busy s\<rparr>) (slab_del e st)
             else st, p)))"

definition kmalloc_subpages ::
    "(u32 \<Rightarrow> slub_state \<Rightarrow> (slub_state \<times> addr) res) \<Rightarrow> spid \<Rightarrow> slub_state \<Rightarrow> (slub_state \<times> addr) res" where
  "kmalloc_subpages km i st =
    bind_res (sub_lock i st) (\<lambda>st.
      let log_sz = sp_log_sz (subs st i); use_part = (sp_part (subs st i) \<noteq> []);
          lst = (\<lambda>st. if use_part then sp_part (subs st i) else sp_free (subs st i))
      in bind_res
        (if lst st = [] then assert_that ''slub.c:343'' (log_sz \<noteq> 4) (slub_alloc_subpage_slab km i st) else Inr st) (\<lambda>st.
          assert_that ''slub.c:347'' (lst st \<noteq> [])
            (bind_res (take_object i (hd (lst st)) st) (\<lambda>(st, p).
              bind_res
                (if log_sz = 4
                 then let st = st\<lparr>slub_16byte_free := slub_16byte_free st - 1\<rparr>
                      in if slub_16byte_free st = 4 then slub_alloc_subpage_slab km i st else Inr st
                 else Inr st) (\<lambda>st.
                  let st = sub_unlock i st in assert_that ''slub.c:381'' (p \<noteq> 0) (Inr (st, p)))))))"

definition kmalloc_fullpages ::
    "(u32 \<Rightarrow> slub_state \<Rightarrow> (slub_state \<times> addr) res) \<Rightarrow> nat \<Rightarrow> slub_state \<Rightarrow> (slub_state \<times> addr) res" where
  "kmalloc_fullpages km i st =
    assert_that ''slub.c:287'' (fp_log_sz (fulls st i) = PAGE_SIZE_SZ)
      (bind_res (vm_alloc km VMA_SLUB VM_UNIT_PAGE 1 st) (\<lambda>(st, va).
        let p = va ! 0
        in bind_res (pm_ram_alloc PM_UNIT_PAGE PGF_USE_SLUB 1 (pmem st)) (\<lambda>(pm, pas).
          let st = st\<lparr>pmem := pm\<rparr>
          in case pas of
            None \<Rightarrow> Inl (Assert ''slub.c:293'')
          | Some pas \<Rightarrow>
              let pa = pas ! 0
              in bind_res (slub_map (kmalloc_subpages km MmuPt) p pa st) (\<lambda>st.
                bind_res (km 12 st) (\<lambda>(st, sl).
                  assert_that ''slub.c:298'' (sl \<noteq> 0)
                    (let st = st\<lparr>fslab := (fslab st)(sl := p)\<rparr>
                     in bind_res (slub_page ''slub.c:304'' pa st) (\<lambda>pg.
                       assert_that ''slub.c:307'' (bits_get (pflags (ram_map (pmem st) pg)) PGF_UNIT = of_nat PM_UNIT_PAGE)
                         (let st = upd_page pg (\<lambda>q. q\<lparr>pflags := pflags q OR bits_set PGF_SLUB_LSIZE (of_nat (fp_log_sz (fulls st i))),
                                                      u0 := sl OR bits_on SLUB_LEADER\<rparr>) st
                          in if fp_lock (fulls st i) then Inl Deadlock
                             else Inr (upd_full i (\<lambda>f. f\<lparr>fp_busy := fp_busy f @ [sl]\<rparr>) st, p)))))))))"

definition size_class :: "u32 \<Rightarrow> nat option" where
  "size_class sz = find (\<lambda>i. sz \<le> push_bit (SLUB_SUBPAGE_START + i) 1) [0..<SLUB_NSIZES]"

fun kmalloc :: "nat \<Rightarrow> u32 \<Rightarrow> slub_state \<Rightarrow> (slub_state \<times> addr) res" where
  "kmalloc 0 sz st = Inl Endless"
| "kmalloc (Suc d) sz st =
    (if sz = 0 then Inr (st, 0)
     else case size_class sz of
       None \<Rightarrow> Inl (Assert ''slub.c:396'')
     | Some i \<Rightarrow>
         if SLUB_SUBPAGE_NSIZES \<le> i then kmalloc_fullpages (kmalloc d) (i - SLUB_SUBPAGE_NSIZES) st
         else kmalloc_subpages (kmalloc d) (Sub i) st)"

definition mmu_slub_alloc :: "nat \<Rightarrow> slub_state \<Rightarrow> (slub_state \<times> addr) res" where
  "mmu_slub_alloc d = kmalloc_subpages (kmalloc d) MmuPt"

section \<open>Release\<close>

text \<open>The structure that is passed is replaced by the one of \<open>subpages\<close> with the same size.\<close>

definition kfree_subpages :: "addr \<Rightarrow> spid \<Rightarrow> nat \<Rightarrow> addr \<Rightarrow> slub_state \<Rightarrow> slub_state res" where
  "kfree_subpages p i0 pg sl st =
    assert_that ''slub.c:430'' (bits_get (pflags (ram_map (pmem st) pg)) PGF_UNIT = of_nat PM_UNIT_PAGE)
      (let log_sz = sp_log_sz (subs st i0)
       in assert_that ''slub.c:435'' (p AND (push_bit log_sz 1 - 1) = 0)
         (let i = Sub (log_sz - SLUB_SUBPAGE_START)
          in bind_res (sub_lock i st) (\<lambda>st.
            assert_that ''slub.c:440'' (sl_p (slab st sl) \<le> p \<and> p < sl_p (slab st sl) + PAGE_SIZE)
              (let j = drop_bit (sp_log_sz (subs st i)) (p - sl_p (slab st sl)); n = 4096 div 2 ^ log_sz
               in assert_that ''slub.c:444'' (unat j < n)
                 (let st = set_word p (ucast (sl_free (slab st sl))) st;
                      st = upd_slab sl (\<lambda>s. s\<lparr>sl_free := ucast j\<rparr>) st;
                      st = upd_slab sl (\<lambda>s. s\<lparr>sl_nfree := sl_nfree s + 1\<rparr>) st
                  in assert_that ''slub.c:453'' (unat (sl_nfree (slab st sl)) \<le> n)
                    (let st = (if unat (sl_nfree (slab st sl)) = n
                               then upd_sub i (\<lambda>s. s\<lparr>sp_free := sl # sp_free s\<rparr>) (slab_del sl st)
                               else if sl_nfree (slab st sl) = 1
                               then upd_sub i (\<lambda>s. s\<lparr>sp_part := sl # sp_part s\<rparr>) (slab_del sl st)
                               else st)
                     in Inr (sub_unlock i st)))))))"

definition kfree_fullpages ::
    "(addr \<Rightarrow> slub_state \<Rightarrow> slub_state res) \<Rightarrow> addr \<Rightarrow> addr \<Rightarrow> addr \<Rightarrow> slub_state \<Rightarrow> slub_state res" where
  "kfree_fullpages kf p pa sl st =
    bind_res (kf sl (fslab_del sl st)) (\<lambda>st.
      bind_res (pm_ram_free PM_UNIT_PAGE PGF_USE_SLUB [pa] (pmem st)) (\<lambda>pm.
        let st = st\<lparr>pmem := pm\<rparr>
        in bind_res (vm_free kf VMA_SLUB VM_UNIT_PAGE [p] st) (\<lambda>(st, va). Inr st)))"

fun kfree :: "nat \<Rightarrow> addr \<Rightarrow> slub_state \<Rightarrow> slub_state res" where
  "kfree 0 p st = Inl Endless"
| "kfree (Suc d) p st =
    bind_res (slub_va_to_pa p st) (\<lambda>pa.
      assert_that ''slub.c:479'' (pa \<noteq> 0xffffffff)
        (bind_res (slub_page ''slub.c:482'' pa st) (\<lambda>pg.
          bind_res (slub_leader ''slub.c:485'' pg st) (\<lambda>sl.
            let i = int (unat (bits_get (pflags (ram_map (pmem st) pg)) PGF_SLUB_LSIZE)) - int SLUB_SUBPAGE_START
            in if int SLUB_SUBPAGE_NSIZES \<le> i then kfree_fullpages (kfree d) p pa sl st
               else if i < 0 then Inl Wild else kfree_subpages p (Sub (nat i)) pg sl st))))"

definition mmu_slub_free :: "addr \<Rightarrow> slub_state \<Rightarrow> slub_state res" where
  "mmu_slub_free p st =
    bind_res (slub_va_to_pa p st) (\<lambda>pa.
      assert_that ''slub.c:513'' (pa \<noteq> 0xffffffff)
        (bind_res (slub_page ''slub.c:516'' pa st) (\<lambda>pg.
          bind_res (slub_leader ''slub.c:519'' pg st) (\<lambda>sl.
            assert_that ''slub.c:523'' (bits_get (pflags (ram_map (pmem st) pg)) PGF_SLUB_LSIZE = 10)
              (kfree_subpages p MmuPt pg sl st)))))"

section \<open>Initialisation\<close>

definition slub_pages :: "string \<Rightarrow> nat \<Rightarrow> slub_state \<Rightarrow> (slub_state \<times> addr list) res" where
  "slub_pages site n st =
    bind_res (pm_ram_alloc PM_UNIT_PAGE PGF_USE_SLUB n (pmem st)) (\<lambda>(pm, pas).
      case pas of None \<Rightarrow> Inl (Assert site) | Some pas \<Rightarrow> Inr (st\<lparr>pmem := pm\<rparr>, pas))"

definition slub_init :: "nat \<Rightarrow> addr \<Rightarrow> slub_state \<Rightarrow> slub_state res" where
  "slub_init d mmu_pt_slab st =
    (let st = fold (\<lambda>i. upd_full i (\<lambda>_. \<lparr>fp_busy = [], fp_lock = False, fp_log_sz = PAGE_SIZE_SZ + i\<rparr>)) [0..<SLUB_FULLPAGE_NSIZES] st
     in bind_res (slub_pages ''slub.c:216'' 1 st) (\<lambda>(st, pa).
       let st = slub_subpage_init0 MmuPt (SLUB_SUBPAGE_START + 7) st
       in bind_res (slub_map (mmu_slub_alloc d) mmu_slub_area (pa ! 0) st) (\<lambda>st.
         bind_res (slub_subpage_init1 MmuPt mmu_pt_slab mmu_slub_area (pa ! 0) st) (\<lambda>st.
           bind_res (slub_pages ''slub.c:234'' SLUB_SUBPAGE_NSIZES st) (\<lambda>(st, pa).
             let va = (\<lambda>i. vm_slub_end - of_nat SLUB_SUBPAGE_NSIZES * PAGE_SIZE + of_nat i * PAGE_SIZE)
             in bind_res
               (for_res 0 SLUB_SUBPAGE_NSIZES (\<lambda>i st.
                 slub_map (mmu_slub_alloc d) (va i) (pa ! i) (slub_subpage_init0 (Sub i) (SLUB_SUBPAGE_START + i) st)) st) (\<lambda>st.
                 for_res 0 SLUB_SUBPAGE_NSIZES (\<lambda>i. slub_subpage_init1 (Sub i) (va 1 + 16 * of_nat i) (va i) (pa ! i)) st))))))"

end
