(* ===== verification/SlubProps.thy ===== *)
theory SlubProps
  imports Slub
begin

text \<open>
  What the slab allocator does: the free list that runs through the unused objects of a slab, allocation and
  release as pop and push on it, the depth of the calls of \<open>kmalloc\<close>, and the places where the code stops.
\<close>

section \<open>Objects of a slab\<close>

definition nobj :: "nat \<Rightarrow> nat" where
  "nobj lg = 4096 div 2 ^ lg"

definition obj :: "addr \<Rightarrow> nat \<Rightarrow> nat \<Rightarrow> addr" where
  "obj base lg j = base + of_nat j * 2 ^ lg"

lemma obj_offset:
  assumes "lg \<le> 12" "j < nobj lg"
  shows "j * 2 ^ lg + 2 ^ lg \<le> 4096" "unat (of_nat j * 2 ^ lg :: u32) = j * 2 ^ lg"
proof -
  have "4096 div 2 ^ lg * 2 ^ lg = (4096 :: nat)"
  proof -
    have "(2::nat) ^ lg dvd 2 ^ 12" using assms(1) by (rule le_imp_power_dvd)
    then show ?thesis by simp
  qed
  then have "Suc j * 2 ^ lg \<le> 4096" using assms(2) mult_right_mono [of "Suc j" "nobj lg" "2 ^ lg"] by (simp add: nobj_def)
  then show le: "j * 2 ^ lg + 2 ^ lg \<le> 4096" by simp
  show "unat (of_nat j * 2 ^ lg :: u32) = j * 2 ^ lg"
  proof -
    have "unat (2 ^ lg :: u32) = 2 ^ lg" using assms(1) by (intro unat_exp_u32) simp
    then show ?thesis using le by (simp add: unat_word_ariths unat_of_nat mod_mult_left_eq)
  qed
qed

lemma obj_inj:
  assumes "lg \<le> 12" "j < nobj lg" "k < nobj lg" "obj base lg j = obj base lg k"
  shows "j = k"
proof -
  have "of_nat j * 2 ^ lg = (of_nat k * 2 ^ lg :: u32)" using assms(4) by (simp add: obj_def)
  then have "j * 2 ^ lg = k * 2 ^ lg" using obj_offset(2) [OF assms(1,2)] obj_offset(2) [OF assms(1,3)] by metis
  then show ?thesis by simp
qed

text \<open>The free list: each free object holds the index of the next in its first word.\<close>

fun is_chain :: "(addr \<Rightarrow> u32) \<Rightarrow> addr \<Rightarrow> nat \<Rightarrow> 16 word \<Rightarrow> nat list \<Rightarrow> bool" where
  "is_chain w base lg f [] = True"
| "is_chain w base lg f (j # js) = (unat f = j \<and> is_chain w base lg (ucast (w (obj base lg j))) js)"

lemma is_chain_cong:
  "(\<And>j. j \<in> set js \<Longrightarrow> w' (obj base lg j) = w (obj base lg j)) \<Longrightarrow> is_chain w' base lg f js = is_chain w base lg f js"
  by (induction js arbitrary: f) auto

text \<open>Slab \<open>e\<close> of size class \<open>i\<close> with the free objects \<open>js\<close>, in the order in which they will be used.\<close>

definition slab_wf :: "slub_state \<Rightarrow> spid \<Rightarrow> addr \<Rightarrow> nat list \<Rightarrow> bool" where
  "slab_wf st i e js \<longleftrightarrow>
    (let lg = sp_log_sz (subs st i); s = slab st e
     in SLUB_SUBPAGE_START \<le> lg \<and> lg \<le> 11 \<and> is_chain (ptm st) (sl_p s) lg (sl_free s) js \<and> distinct js
       \<and> (\<forall>j\<in>set js. j < nobj lg) \<and> length js = unat (sl_nfree s)
       \<and> unat (sl_p s) mod 4096 = 0 \<and> sl_p s \<noteq> 0 \<and> unat (sl_p s) + 4096 < 2 ^ 32)"

lemma distinct_bound: "distinct js \<Longrightarrow> \<forall>j\<in>set js. j < (m::nat) \<Longrightarrow> length js \<le> m"
proof -
  assume "distinct js" "\<forall>j\<in>set js. j < m"
  then have "card (set js) \<le> card {..<m}" by (intro card_mono) auto
  then show "length js \<le> m" using \<open>distinct js\<close> by (simp add: distinct_card)
qed

lemma obj_shift: "base + push_bit lg (ucast (f :: 16 word)) = obj base lg (unat f)"
  by (simp add: obj_def push_bit_eq_mult of_nat_unat)

lemma obj_nonzero:
  assumes "lg \<le> 12" "j < nobj lg" "unat base + 4096 < 2 ^ 32" "base \<noteq> 0"
  shows "obj base lg j \<noteq> 0" "unat (obj base lg j) = unat base + j * 2 ^ lg"
proof -
  note o = obj_offset [OF assms(1,2)]
  have "unat base + unat (of_nat j * 2 ^ lg :: u32) < 4294967296" using o assms(3) by simp
  then show u: "unat (obj base lg j) = unat base + j * 2 ^ lg"
    using unat_add_no_overflow [of base "of_nat j * 2 ^ lg"] o(2) by (simp add: obj_def)
  show "obj base lg j \<noteq> 0"
  proof
    assume "obj base lg j = 0"
    then have "unat base = 0" using u by simp
    then show False using assms(4) by (simp add: unat_eq_0)
  qed
qed

lemma slub_upd_simps [simp]:
  "slab (set_word a v st) = slab st" "subs (set_word a v st) = subs st" "ptm (set_word a v st) = (ptm st)(a := v)"
  "pmem (set_word a v st) = pmem st" "slub_16byte_free (set_word a v st) = slub_16byte_free st"
  "slab (upd_slab e f st) = (slab st)(e := f (slab st e))" "subs (upd_slab e f st) = subs st" "ptm (upd_slab e f st) = ptm st"
  "pmem (upd_slab e f st) = pmem st" "slub_16byte_free (upd_slab e f st) = slub_16byte_free st"
  "slab (upd_sub i g st) = slab st" "subs (upd_sub i g st) = (subs st)(i := g (subs st i))" "ptm (upd_sub i g st) = ptm st"
  "pmem (upd_sub i g st) = pmem st" "slub_16byte_free (upd_sub i g st) = slub_16byte_free st"
  "slab (slab_del e st) = slab st" "ptm (slab_del e st) = ptm st" "pmem (slab_del e st) = pmem st"
  "slub_16byte_free (slab_del e st) = slub_16byte_free st"
  "sp_log_sz (subs (slab_del e st) i) = sp_log_sz (subs st i)" "sp_lock (subs (slab_del e st) i) = sp_lock (subs st i)"
  by (simp_all add: set_word_def upd_slab_def upd_sub_def slab_del_def)

text \<open>Only the sizes and the descriptions count for the free list.\<close>

lemma slab_wf_cong:
  "sp_log_sz (subs st' i) = sp_log_sz (subs st i) \<Longrightarrow> slab st' e = slab st e \<Longrightarrow> ptm st' = ptm st \<Longrightarrow>
   slab_wf st' i e js = slab_wf st i e js"
  by (simp add: slab_wf_def)

text \<open>Popping an object off the free list.\<close>

definition popped :: "spid \<Rightarrow> addr \<Rightarrow> slub_state \<Rightarrow> slub_state" where
  "popped i e st =
    (let p = obj (sl_p (slab st e)) (sp_log_sz (subs st i)) (unat (sl_free (slab st e)))
     in upd_slab e (\<lambda>s. s\<lparr>sl_free := ucast (ptm st p), sl_nfree := sl_nfree s - 1\<rparr>) (set_word p 0 st))"

lemma popped_wf:
  assumes wf: "slab_wf st i e (j # js)"
  shows "slab_wf (popped i e st) i e js"
proof -
  let ?lg = "sp_log_sz (subs st i)" and ?s = "slab st e"
  note d = wf [unfolded slab_wf_def Let_def]
  have f: "unat (sl_free ?s) = j" and lg: "?lg \<le> 12" and j: "j < nobj ?lg" using d by auto
  let ?p = "obj (sl_p ?s) ?lg j"
  have n: "unat (sl_nfree ?s - 1) = length js"
  proof -
    have "Suc (length js) = unat (sl_nfree ?s)" using d by simp
    then have "1 \<le> sl_nfree ?s" by (simp add: word_le_nat_alt)
    then show ?thesis using \<open>Suc (length js) = unat (sl_nfree ?s)\<close> by (simp add: unat_sub)
  qed
  have "is_chain ((ptm st)(?p := 0)) (sl_p ?s) ?lg (ucast (ptm st ?p)) js
      = is_chain (ptm st) (sl_p ?s) ?lg (ucast (ptm st ?p)) js"
  proof (rule is_chain_cong)
    fix k assume k: "k \<in> set js"
    then have "k < nobj ?lg" "k \<noteq> j" using d by auto
    then have "obj (sl_p ?s) ?lg k \<noteq> ?p" using obj_inj [OF lg] j by blast
    then show "((ptm st)(?p := 0)) (obj (sl_p ?s) ?lg k) = ptm st (obj (sl_p ?s) ?lg k)" by simp
  qed
  moreover have "is_chain (ptm st) (sl_p ?s) ?lg (ucast (ptm st ?p)) js" using d by simp
  ultimately show ?thesis using d n f by (simp add: slab_wf_def popped_def Let_def)
qed

text \<open>The list a slab goes to when an object is taken.\<close>

definition relist :: "spid \<Rightarrow> addr \<Rightarrow> nat \<Rightarrow> nat \<Rightarrow> slub_state \<Rightarrow> slub_state" where
  "relist i e nfree n st =
    (if nfree = n then upd_sub i (\<lambda>s. s\<lparr>sp_part := e # sp_part s\<rparr>) (slab_del e st)
     else if nfree = 1 then upd_sub i (\<lambda>s. s\<lparr>sp_busy := e # sp_busy s\<rparr>) (slab_del e st) else st)"

lemma relist_simps [simp]:
  "slab (relist i e k n st) = slab st" "ptm (relist i e k n st) = ptm st" "pmem (relist i e k n st) = pmem st"
  "slub_16byte_free (relist i e k n st) = slub_16byte_free st"
  "sp_log_sz (subs (relist i e k n st) i') = sp_log_sz (subs st i')" "sp_lock (subs (relist i e k n st) i') = sp_lock (subs st i')"
  by (auto simp: relist_def)

lemma take_object_pops:
  assumes wf: "slab_wf st i e (j # js)"
  shows "take_object i e st = Inr (relist i e (Suc (length js)) (nobj (sp_log_sz (subs st i))) (popped i e st),
    obj (sl_p (slab st e)) (sp_log_sz (subs st i)) j)"
proof -
  let ?lg = "sp_log_sz (subs st i)" and ?s = "slab st e"
  note d = wf [unfolded slab_wf_def Let_def]
  have f: "unat (sl_free ?s) = j" using d by simp
  have len: "unat (sl_nfree ?s) = Suc (length js)" using d by simp
  have n1: "sl_nfree ?s = 1 \<longleftrightarrow> Suc (length js) = 1"
    using len by (metis unat_1 word_unat_eq_iff)
  have nf: "unat (sl_nfree (slab (popped i e st) e)) = length js"
    using popped_wf [OF wf] by (simp add: slab_wf_def Let_def)
  then have l: "unat (sl_nfree ?s - 1) = length js" by (simp add: popped_def Let_def)
  have b: "length js < nobj ?lg"
    using distinct_bound [of "j # js" "nobj ?lg"] d by simp
  have e: "upd_slab e (\<lambda>s. s\<lparr>sl_nfree := sl_nfree s - 1\<rparr>) (set_word (obj (sl_p ?s) ?lg j) 0
      (upd_slab e (\<lambda>s. s\<lparr>sl_free := ucast (ptm st (obj (sl_p ?s) ?lg j))\<rparr>) st)) = popped i e st"
    by (auto simp: popped_def Let_def f upd_slab_def set_word_def)
  show ?thesis
    unfolding take_object_def Let_def obj_shift f e nobj_def [symmetric]
    using l b len n1 nf by (simp add: relist_def)
qed

section \<open>Release\<close>

lemma obj_aligned:
  assumes "lg \<le> 12" "j < nobj lg" "unat base mod 4096 = 0" "unat base + 4096 < 2 ^ 32" "base \<noteq> 0"
  shows "obj base lg j AND (push_bit lg 1 - 1) = 0"
proof -
  have "unat (obj base lg j) = unat base + j * 2 ^ lg" by (rule obj_nonzero(2) [OF assms(1,2,4,5)])
  moreover have "2 ^ lg dvd unat base"
  proof -
    have "(2::nat) ^ lg dvd 2 ^ 12" using assms(1) by (rule le_imp_power_dvd)
    also have "2 ^ 12 dvd unat base" using assms(3) by (simp add: mod_eq_0_iff_dvd)
    finally show ?thesis .
  qed
  ultimately have d: "unat (obj base lg j) mod 2 ^ lg = 0" by simp
  then show ?thesis using mask_aligned [of lg "obj base lg j"] assms(1) by (simp add: push_bit_eq_mult)
qed

lemma obj_index:
  assumes "lg \<le> 12" "j < nobj lg"
  shows "drop_bit lg (obj base lg j - base) = of_nat j"
proof -
  have "unat (obj base lg j - base) = j * 2 ^ lg" using obj_offset(2) [OF assms] by (simp add: obj_def)
  then have "unat (drop_bit lg (obj base lg j - base)) = j"
    using unat_div_exp_u32 [of "obj base lg j - base" lg] by (simp add: drop_bit_eq_div)
  then show ?thesis by (metis of_nat_unat ucast_id)
qed

lemma nobj_bound: "3 \<le> lg \<Longrightarrow> nobj lg \<le> 512"
proof -
  assume "3 \<le> lg"
  then have "(2::nat) ^ 3 \<le> 2 ^ lg" by (intro power_increasing) simp_all
  then have "4096 div 2 ^ lg \<le> 4096 div (2 ^ 3 :: nat)" by (intro div_le_mono2) simp_all
  then show ?thesis by (simp add: nobj_def)
qed

text \<open>The list a slab goes to when an object comes back.\<close>

definition relist_free :: "spid \<Rightarrow> addr \<Rightarrow> nat \<Rightarrow> nat \<Rightarrow> slub_state \<Rightarrow> slub_state" where
  "relist_free i sl nfree n st =
    (if nfree = n then upd_sub i (\<lambda>s. s\<lparr>sp_free := sl # sp_free s\<rparr>) (slab_del sl st)
     else if nfree = 1 then upd_sub i (\<lambda>s. s\<lparr>sp_part := sl # sp_part s\<rparr>) (slab_del sl st) else st)"

lemma relist_free_simps [simp]:
  "slab (relist_free i e k n st) = slab st" "ptm (relist_free i e k n st) = ptm st" "pmem (relist_free i e k n st) = pmem st"
  "sp_log_sz (subs (relist_free i e k n st) i') = sp_log_sz (subs st i')"
  "sp_lock (subs (relist_free i e k n st) i') = sp_lock (subs st i')"
  by (auto simp: relist_free_def)

definition pushed :: "addr \<Rightarrow> nat \<Rightarrow> addr \<Rightarrow> slub_state \<Rightarrow> slub_state" where
  "pushed p j sl st =
    upd_slab sl (\<lambda>s. s\<lparr>sl_free := of_nat j, sl_nfree := sl_nfree s + 1\<rparr>) (set_word p (ucast (sl_free (slab st sl))) st)"

lemma pushed_wf:
  assumes wf: "slab_wf st i sl js" and j: "j \<notin> set js" "j < nobj lg" and lg: "lg = sp_log_sz (subs st i)"
    and p: "p = obj (sl_p (slab st sl)) lg j"
  shows "slab_wf (pushed p j sl st) i sl (j # js)"
proof -
  let ?s = "slab st sl"
  note d = wf [unfolded slab_wf_def Let_def, folded lg]
  have l12: "lg \<le> 12" and l3: "3 \<le> lg" using d by (auto simp: slub_consts)
  have b: "length (j # js) \<le> nobj lg" using distinct_bound [of "j # js" "nobj lg"] d j by auto
  have j16: "unat (of_nat j :: 16 word) = j" using j(2) nobj_bound [OF l3] by (simp add: unat_of_nat)
  have "Suc (unat (sl_nfree ?s)) \<le> 512" using b d nobj_bound [OF l3] by simp
  then have n: "unat (sl_nfree ?s + 1) = Suc (length js)" using d by (simp add: unat_word_ariths)
  have "is_chain ((ptm st)(p := ucast (sl_free ?s))) (sl_p ?s) lg (sl_free ?s) js = is_chain (ptm st) (sl_p ?s) lg (sl_free ?s) js"
  proof (rule is_chain_cong)
    fix k assume k: "k \<in> set js"
    then have "obj (sl_p ?s) lg k \<noteq> p" using obj_inj [OF l12] j d p by blast
    then show "((ptm st)(p := ucast (sl_free ?s))) (obj (sl_p ?s) lg k) = ptm st (obj (sl_p ?s) lg k)" by simp
  qed
  moreover have "ucast (ucast (sl_free ?s) :: u32) = sl_free ?s"
    by (rule bit_word_eqI) (simp add: bit_simps)
  ultimately show ?thesis using d n j j16 p by (simp add: slab_wf_def pushed_def lg [symmetric])
qed

lemma kfree_subpages_pushes:
  assumes wf: "slab_wf st (Sub (lg - SLUB_SUBPAGE_START)) sl js" and j: "j \<notin> set js" "j < nobj lg"
    and lg: "sp_log_sz (subs st (Sub (lg - SLUB_SUBPAGE_START))) = lg" "sp_log_sz (subs st src) = lg"
    and p: "p = obj (sl_p (slab st sl)) lg j"
    and lock: "\<not> sp_lock (subs st (Sub (lg - SLUB_SUBPAGE_START)))"
    and pg: "bits_get (pflags (ram_map (pmem st) pg)) PGF_UNIT = of_nat PM_UNIT_PAGE"
  shows "kfree_subpages p src pg sl st =
    (let i = Sub (lg - SLUB_SUBPAGE_START)
     in Inr (sub_unlock i (relist_free i sl (Suc (length js)) (nobj lg) (pushed p j sl (upd_sub i (\<lambda>s. s\<lparr>sp_lock := True\<rparr>) st)))))"
proof -
  let ?i = "Sub (lg - SLUB_SUBPAGE_START)"
  let ?st = "upd_sub ?i (\<lambda>s. s\<lparr>sp_lock := True\<rparr>) st"
  let ?s = "slab st sl"
  note d = wf [unfolded slab_wf_def Let_def lg(1)]
  have l12: "lg \<le> 12" and l3: "3 \<le> lg" using d by (auto simp: slub_consts)
  have lock': "sub_lock ?i st = Inr ?st" using lock by (simp add: sub_lock_def)
  have al: "p AND (push_bit lg 1 - 1) = 0" unfolding p by (rule obj_aligned [OF l12 j(2)]) (use d in auto)
  have u: "unat p = unat (sl_p ?s) + j * 2 ^ lg" unfolding p by (rule obj_nonzero [OF l12 j(2)]) (use d in auto)
  have top: "unat (sl_p ?s + PAGE_SIZE) = unat (sl_p ?s) + 4096"
    using unat_add_no_overflow [of "sl_p ?s" PAGE_SIZE] d by (simp add: PAGE_SIZE_def)
  have rng: "sl_p ?s \<le> p \<and> p < sl_p ?s + PAGE_SIZE"
  proof -
    have "j * 2 ^ lg < 4096" using obj_offset(1) [OF l12 j(2)] by (rule less_le_trans [rotated]) simp
    then show ?thesis using u top by (simp add: word_le_nat_alt word_less_nat_alt)
  qed
  have ix: "drop_bit lg (p - sl_p ?s) = of_nat j" unfolding p by (rule obj_index [OF l12 j(2)])
  have j32: "unat (of_nat j :: u32) = j" using j(2) nobj_bound [OF l3] by (simp add: unat_of_nat)
  have wf': "slab_wf (pushed p j sl ?st) ?i sl (j # js)"
    by (rule pushed_wf [OF _ j]) (use wf lg p slab_wf_cong [of ?st ?i st sl js] in simp_all)
  then have nf: "unat (sl_nfree (slab (pushed p j sl ?st) sl)) = Suc (length js)" by (simp add: slab_wf_def Let_def)
  then have n1: "sl_nfree (slab (pushed p j sl ?st) sl) = 1 \<longleftrightarrow> Suc (length js) = 1" by (metis unat_1 word_unat_eq_iff)
  have b: "length (j # js) \<le> nobj lg" using distinct_bound [of "j # js" "nobj lg"] d j by auto
  have push: "upd_slab sl (\<lambda>s. s\<lparr>sl_nfree := sl_nfree s + 1\<rparr>) (upd_slab sl (\<lambda>s. s\<lparr>sl_free := ucast (of_nat j :: u32)\<rparr>)
      (set_word p (ucast (sl_free (slab ?st sl))) ?st)) = pushed p j sl ?st"
  proof -
    have "ucast (of_nat j :: u32) = (of_nat j :: 16 word)"
      by (metis j32 of_nat_unat)
    then show ?thesis by (auto simp: pushed_def upd_slab_def set_word_def upd_sub_def fun_eq_iff)
  qed
  show ?thesis
    unfolding kfree_subpages_def Let_def lg(2) lock' bind_res_simps
    using pg al rng ix j32 j(2) b nf n1 lg push
    by (simp add: nobj_def [symmetric] relist_free_def)
qed

section \<open>Allocation from a slab with free objects\<close>

text \<open>The slab \<open>kmalloc_subpages\<close> looks at first.\<close>

definition first_slab :: "spid \<Rightarrow> slub_state \<Rightarrow> addr option" where
  "first_slab i st =
    (case sp_part (subs st i) @ (if sp_part (subs st i) = [] then sp_free (subs st i) else []) of [] \<Rightarrow> None | e # _ \<Rightarrow> Some e)"

text \<open>The state when the mutex is taken, and after an object is taken and counted.\<close>

definition locked :: "spid \<Rightarrow> slub_state \<Rightarrow> slub_state" where
  "locked i st = upd_sub i (\<lambda>s. s\<lparr>sp_lock := True\<rparr>) st"

definition taken :: "spid \<Rightarrow> addr \<Rightarrow> nat \<Rightarrow> slub_state \<Rightarrow> slub_state" where
  "taken i e n st =
    (let st1 = relist i e n (nobj (sp_log_sz (subs st i))) (popped i e (locked i st))
     in if sp_log_sz (subs st i) = 4 then st1\<lparr>slub_16byte_free := slub_16byte_free st1 - 1\<rparr> else st1)"

lemma locked_simps [simp]:
  "slab (locked i st) = slab st" "ptm (locked i st) = ptm st" "pmem (locked i st) = pmem st"
  "slub_16byte_free (locked i st) = slub_16byte_free st"
  "sp_log_sz (subs (locked i st) i') = sp_log_sz (subs st i')" "sp_part (subs (locked i st) i') = sp_part (subs st i')"
  "sp_free (subs (locked i st) i') = sp_free (subs st i')"
  "sp_lock (subs (locked i st) i') = (if i' = i then True else sp_lock (subs st i'))"
  by (auto simp: locked_def)

lemma popped_simps [simp]:
  "subs (popped i e st) = subs st" "pmem (popped i e st) = pmem st" "slub_16byte_free (popped i e st) = slub_16byte_free st"
  by (simp_all add: popped_def Let_def)

lemma locked_wf: "slab_wf (locked i st) k e js = slab_wf st k e js"
  by (rule slab_wf_cong) simp_all

lemma taken_wf:
  assumes "slab_wf st i e (j # js)"
  shows "slab_wf (taken i e (Suc (length js)) st) i e js"
proof -
  have "slab_wf (popped i e (locked i st)) i e js" by (rule popped_wf) (use assms in \<open>simp only: locked_wf\<close>)
  then show ?thesis by (subst slab_wf_cong [of _ i "popped i e (locked i st)"]) (auto simp: taken_def Let_def)
qed

lemma kmalloc_subpages_pops:
  assumes wf: "slab_wf st i e (j # js)" and first: "first_slab i st = Some e" and lock: "\<not> sp_lock (subs st i)"
  shows "kmalloc_subpages km i st =
    bind_res (if sp_log_sz (subs st i) = 4 \<and> slub_16byte_free st = 5
       then slub_alloc_subpage_slab km i (taken i e (Suc (length js)) st) else Inr (taken i e (Suc (length js)) st))
      (\<lambda>st'. Inr (sub_unlock i st', obj (sl_p (slab st e)) (sp_log_sz (subs st i)) j))"
proof -
  let ?lg = "sp_log_sz (subs st i)"
  note d = wf [unfolded slab_wf_def Let_def]
  have l12: "?lg \<le> 12" and j: "j < nobj ?lg" using d by auto
  have p: "obj (sl_p (slab st e)) ?lg j \<noteq> 0" by (rule obj_nonzero [OF l12 j]) (use d in auto)
  have lk: "sub_lock i st = Inr (locked i st)" using lock by (simp add: sub_lock_def locked_def)
  have lst: "(if sp_part (subs st i) \<noteq> [] then sp_part (subs st i) else sp_free (subs st i)) \<noteq> []"
    "hd (if sp_part (subs st i) \<noteq> [] then sp_part (subs st i) else sp_free (subs st i)) = e"
    using first by (auto simp: first_slab_def split: list.splits if_splits)
  have tk: "take_object i e (locked i st) = Inr (relist i e (Suc (length js)) (nobj ?lg) (popped i e (locked i st)),
      obj (sl_p (slab st e)) ?lg j)"
    using take_object_pops [of "locked i st" i e j js] wf by (simp add: locked_wf)
  have t: "(if ?lg = 4
      then let x = relist i e (Suc (length js)) (nobj ?lg) (popped i e (locked i st))\<lparr>slub_16byte_free :=
             slub_16byte_free (relist i e (Suc (length js)) (nobj ?lg) (popped i e (locked i st))) - 1\<rparr>
           in if slub_16byte_free x = 4 then slub_alloc_subpage_slab km i x else Inr x
      else Inr (relist i e (Suc (length js)) (nobj ?lg) (popped i e (locked i st))))
    = (if ?lg = 4 \<and> slub_16byte_free st = 5 then slub_alloc_subpage_slab km i (taken i e (Suc (length js)) st)
       else Inr (taken i e (Suc (length js)) st))"
    by (simp add: taken_def Let_def)
  show ?thesis
    unfolding kmalloc_subpages_def lk bind_res_simps Let_def locked_simps
    by (simp only: locked_simps lst if_False simp_thms bind_res_simps assert_that_simps tk prod.case t [unfolded Let_def] p)
qed

section \<open>Properties\<close>

text \<open>Whatever slab the next object comes from: only its word, its slab, the lists and the count of small objects change.\<close>

definition relisted :: "addr \<Rightarrow> bool \<Rightarrow> bool \<Rightarrow> subpage \<Rightarrow> subpage" where
  "relisted e to_part to_busy s =
    (if to_part \<or> to_busy
     then s\<lparr>sp_busy := (if to_part then [] else [e]) @ remove1 e (sp_busy s), sp_part := (if to_part then [e] else []) @ remove1 e (sp_part s),
            sp_free := remove1 e (sp_free s)\<rparr>
     else s)"

lemma object_taken:
  assumes wf: "slab_wf st i e (j # js)" and first: "first_slab i st = Some e" and lock: "\<not> sp_lock (subs st i)"
    and grow: "sp_log_sz (subs st i) = 4 \<longrightarrow> slub_16byte_free st \<noteq> 5"
  shows "\<exists>st'. kmalloc_subpages km i st = Inr (st', obj (sl_p (slab st e)) (sp_log_sz (subs st i)) j) \<and> slab_wf st' i e js
    \<and> st' = st\<lparr>ptm := (ptm st)(obj (sl_p (slab st e)) (sp_log_sz (subs st i)) j := 0), slab := (slab st)(e := slab st' e), subs := subs st',
        slub_16byte_free := slub_16byte_free st - (if sp_log_sz (subs st i) = 4 then 1 else 0)\<rparr>
    \<and> sl_p (slab st' e) = sl_p (slab st e)
    \<and> subs st' i = relisted e (Suc (length js) = nobj (sp_log_sz (subs st i))) (js = []) (subs st i)
    \<and> (\<forall>k. k \<noteq> i \<longrightarrow> e \<notin> set (sp_busy (subs st k)) \<union> set (sp_part (subs st k)) \<union> set (sp_free (subs st k)) \<longrightarrow> subs st' k = subs st k)"
proof -
  let ?lg = "sp_log_sz (subs st i)"
  let ?st = "taken i e (Suc (length js)) st"
  have f: "unat (sl_free (slab st e)) = j" using wf by (simp add: slab_wf_def Let_def)
  have e: "kmalloc_subpages km i st = Inr (sub_unlock i ?st, obj (sl_p (slab st e)) ?lg j)"
  proof -
    have "\<not> (?lg = 4 \<and> slub_16byte_free st = 5)" using grow by blast
    then show ?thesis by (simp only: kmalloc_subpages_pops [OF wf first lock] if_False bind_res_simps)
  qed
  have w: "slab_wf (sub_unlock i ?st) i e js"
    using taken_wf [OF wf] by (subst slab_wf_cong [of _ _ ?st]) (simp_all add: sub_unlock_def)
  define P where "P \<longleftrightarrow> Suc (length js) = nobj ?lg"
  define Q where "Q \<longleftrightarrow> js = []"
  have r: "relist i e (Suc (length js)) (nobj ?lg) s = (if P then upd_sub i (\<lambda>s. s\<lparr>sp_part := e # sp_part s\<rparr>) (slab_del e s)
     else if Q then upd_sub i (\<lambda>s. s\<lparr>sp_busy := e # sp_busy s\<rparr>) (slab_del e s) else s)" for s
    by (simp add: relist_def P_def Q_def)
  have t: "?st = (let s = (if P then upd_sub i (\<lambda>s. s\<lparr>sp_part := e # sp_part s\<rparr>) (slab_del e (popped i e (locked i st)))
     else if Q then upd_sub i (\<lambda>s. s\<lparr>sp_busy := e # sp_busy s\<rparr>) (slab_del e (popped i e (locked i st))) else popped i e (locked i st))
     in if ?lg = 4 then s\<lparr>slub_16byte_free := slub_16byte_free s - 1\<rparr> else s)" unfolding taken_def r ..
  have pop: "popped i e (locked i st) = st\<lparr>ptm := (ptm st)(obj (sl_p (slab st e)) ?lg j := 0),
      slab := (slab st)(e := (slab st e)\<lparr>sl_free := ucast (ptm st (obj (sl_p (slab st e)) ?lg j)), sl_nfree := sl_nfree (slab st e) - 1\<rparr>),
      subs := (subs st)(i := (subs st i)\<lparr>sp_lock := True\<rparr>)\<rparr>"
    by (rule slub_state.equality) (simp_all add: popped_def locked_def upd_sub_def upd_slab_def set_word_def Let_def f)
  show ?thesis
    unfolding e P_def [symmetric] Q_def [symmetric] by (intro exI [of _ "sub_unlock i ?st"] conjI refl w; unfold t pop Let_def)
      (cases P; cases Q; cases "?lg = 4";
        auto simp: sub_unlock_def upd_sub_def slab_del_def relisted_def remove1_idem lock intro!: slub_state.equality subpage.equality)+
qed

text \<open>An object of a slab is the head of its free list: allocating it takes it off the list, and releasing
  it puts the slab back as it was, with the same free objects in the same order.\<close>

theorem slab_alloc_free_roundtrip:
  assumes wf: "slab_wf st (Sub k) e (j # js)" and lg: "sp_log_sz (subs st (Sub k)) = k + SLUB_SUBPAGE_START"
    and first: "first_slab (Sub k) st = Some e" and lock: "\<not> sp_lock (subs st (Sub k))"
    and grow: "k \<noteq> 1 \<or> slub_16byte_free st \<noteq> 5"
    and pg: "bits_get (pflags (ram_map (pmem st) pg)) PGF_UNIT = of_nat PM_UNIT_PAGE"
  shows "\<exists>st1 p st2. kmalloc_subpages km (Sub k) st = Inr (st1, p) \<and> p = obj (sl_p (slab st e)) (k + SLUB_SUBPAGE_START) j
    \<and> slab_wf st1 (Sub k) e js
    \<and> kfree_subpages p (Sub k) pg e st1 = Inr st2 \<and> slab_wf st2 (Sub k) e (j # js) \<and> slab st2 e = slab st e"
proof -
  let ?i = "Sub k" and ?lg = "k + SLUB_SUBPAGE_START"
  note d = wf [unfolded slab_wf_def Let_def lg]
  let ?t = "taken ?i e (Suc (length js)) st"
  let ?p = "obj (sl_p (slab st e)) ?lg j"
  have al: "kmalloc_subpages km ?i st = Inr (sub_unlock ?i ?t, ?p)"
    using kmalloc_subpages_pops [OF wf first lock, of km] grow by (auto simp: lg slub_consts)
  have wf1: "slab_wf (sub_unlock ?i ?t) ?i e js"
    using taken_wf [OF wf] by (subst slab_wf_cong [of _ ?i ?t]) (simp_all add: sub_unlock_def)
  have idx: "?lg - SLUB_SUBPAGE_START = k" by simp
  have s1: "sl_p (slab (sub_unlock ?i ?t) e) = sl_p (slab st e)" "sp_log_sz (subs (sub_unlock ?i ?t) ?i) = ?lg"
    "\<not> sp_lock (subs (sub_unlock ?i ?t) ?i)" "pmem (sub_unlock ?i ?t) = pmem st"
    "slab (sub_unlock ?i ?t) e = (slab st e)\<lparr>sl_free := sl_free (slab (sub_unlock ?i ?t) e), sl_nfree := sl_nfree (slab st e) - 1\<rparr>"
    by (simp_all add: sub_unlock_def taken_def Let_def popped_def lg)
  have j: "j \<notin> set js" "j < nobj ?lg" using d by auto
  note fr = kfree_subpages_pushes [where lg = ?lg and src = ?i and st = "sub_unlock ?i ?t" and sl = e and p = ?p and pg = pg and js = js and j = j,
      unfolded idx, OF wf1 j s1(2,2) _ s1(3)]
  let ?u = "upd_sub ?i (\<lambda>s. s\<lparr>sp_lock := True\<rparr>) (sub_unlock ?i ?t)"
  let ?v = "pushed ?p j e ?u"
  have kf: "kfree_subpages ?p ?i pg e (sub_unlock ?i ?t)
      = Inr (sub_unlock ?i (relist_free ?i e (Suc (length js)) (nobj ?lg) ?v))"
    using fr s1 pg by (simp add: Let_def)
  have wu: "slab_wf ?u ?i e js" using wf1 by (subst slab_wf_cong [of _ ?i "sub_unlock ?i ?t"]) simp_all
  have wv: "slab_wf ?v ?i e (j # js)" by (rule pushed_wf [OF wu j(1)]) (use j s1 in simp_all)
  have w2: "slab_wf (sub_unlock ?i (relist_free ?i e (Suc (length js)) (nobj ?lg) ?v)) ?i e (j # js)"
    using wv by (subst slab_wf_cong [of _ ?i ?v]) (simp_all add: sub_unlock_def)
  have "unat (sl_free (slab st e)) = j" using d by simp
  then have fj: "of_nat j = sl_free (slab st e)" by (metis of_nat_unat ucast_id)
  have same: "slab (sub_unlock ?i (relist_free ?i e (Suc (length js)) (nobj ?lg) ?v)) e = slab st e"
  proof -
    have "(slab (sub_unlock ?i ?t) e)\<lparr>sl_free := of_nat j, sl_nfree := sl_nfree (slab (sub_unlock ?i ?t) e) + 1\<rparr> = slab st e"
      by (subst (1 2) s1(5)) (simp add: fj)
    then show ?thesis by (simp add: sub_unlock_def pushed_def)
  qed
  show ?thesis by (intro exI conjI, rule al, rule refl, rule wf1, rule kf, rule w2, rule same)
qed

section \<open>A fresh slab\<close>

lemma is_chain_upt:
  assumes "\<And>j. k \<le> j \<Longrightarrow> j < n \<Longrightarrow> w (obj base lg j) = of_nat (j + 1)" "n \<le> 512" "k \<le> n"
  shows "is_chain w base lg (of_nat k) [k..<n]"
  using assms(1,3)
proof (induction "n - k" arbitrary: k)
  case (Suc m)
  then have k: "k < n" by simp
  have "ucast (w (obj base lg k)) = (of_nat (Suc k) :: 16 word)"
    using Suc.prems(1) [of k] k take_bit_nat_eq_self [of "Suc k" 32] assms(2) by (simp add: unsigned_of_nat flip: of_nat_Suc)
  moreover have "is_chain w base lg (of_nat (Suc k)) [Suc k..<n]"
    by (rule Suc.hyps(1)) (use Suc k in auto)
  moreover have "unat (of_nat k :: 16 word) = k" using k assms(2) by (simp add: unat_of_nat)
  ultimately show ?case using k by (simp only: upt_conv_Cons is_chain.simps)
qed simp

text \<open>A slab depends on the words of its free objects, which are in its page.\<close>

lemma slab_wf_words:
  assumes "sp_log_sz (subs st' i) = sp_log_sz (subs st i)" and "slab st' e = slab st e"
    and "\<And>j. j \<in> set js \<Longrightarrow> ptm st' (obj (sl_p (slab st e)) (sp_log_sz (subs st i)) j)
      = ptm st (obj (sl_p (slab st e)) (sp_log_sz (subs st i)) j)" and "slab_wf st i e js"
  shows "slab_wf st' i e js"
proof -
  have "is_chain (ptm st') (sl_p (slab st e)) (sp_log_sz (subs st i)) f js
      = is_chain (ptm st) (sl_p (slab st e)) (sp_log_sz (subs st i)) f js" for f using assms(3) by (rule is_chain_cong)
  with assms(4) show ?thesis unfolding slab_wf_def Let_def assms(1,2) by blast
qed

lemma slab_wf_page:
  assumes "sp_log_sz (subs st' i) = sp_log_sz (subs st i)" and "slab st' e = slab st e"
    and "\<And>a. unat (a - sl_p (slab st e)) < 4096 \<Longrightarrow> ptm st' a = ptm st a" and wf: "slab_wf st i e js"
  shows "slab_wf st' i e js"
proof (rule slab_wf_words [OF assms(1,2) _ wf], rule assms(3))
  fix j assume "j \<in> set js"
  then have l: "sp_log_sz (subs st i) \<le> 12" "j < nobj (sp_log_sz (subs st i))" using wf unfolding slab_wf_def Let_def by auto
  have "0 < (2::nat) ^ sp_log_sz (subs st i)" by simp
  with obj_offset(1) [OF l] have "j * 2 ^ sp_log_sz (subs st i) < 4096" by linarith
  with obj_offset(2) [OF l] show "unat (obj (sl_p (slab st e)) (sp_log_sz (subs st i)) j - sl_p (slab st e)) < 4096"
    by (simp add: obj_def)
qed

lemma init1_result:
  assumes pg: "pa < ramsz (pmem st)"
    and flags: "bits_get (pflags (ram_map (pmem st) (frame_of pa))) PGF_USE = usage_val PGF_USE_SLUB"
      "bits_get (pflags (ram_map (pmem st) (frame_of pa))) PGF_UNIT = of_nat PM_UNIT_PAGE"
    and lg: "sp_log_sz (subs st i) = lg" "SLUB_SUBPAGE_START \<le> lg" "lg \<le> 11"
    and va: "unat va mod 4096 = 0" "va \<noteq> 0" "unat va + 4096 < 2 ^ 32"
    and k: "k = (if lg = 4 then SLUB_SUBPAGE_NSIZES else 0)"
  shows "\<exists>w. slub_subpage_init1 i sl va pa st = Inr (st\<lparr>ptm := w,
      pmem := (pmem st)\<lparr>ram_map := (ram_map (pmem st))(frame_of pa :=
        \<lparr>pflags = pflags (ram_map (pmem st) (frame_of pa)) OR bits_set PGF_SLUB_LSIZE (of_nat lg), u0 = sl OR bits_on SLUB_LEADER\<rparr>)\<rparr>,
      slab := (slab st)(sl := \<lparr>sl_nfree = of_nat (nobj lg - k), sl_free = of_nat k, sl_p = va\<rparr>),
      subs := (subs st)(i := (if lg = 4 then (subs st i)\<lparr>sp_part := sp_part (subs st i) @ [sl]\<rparr>
                            else (subs st i)\<lparr>sp_free := sp_free (subs st i) @ [sl]\<rparr>)),
      slub_16byte_free := slub_16byte_free st + (if lg = 4 then int (nobj lg - k) else 0)\<rparr>)
    \<and> (\<forall>j. k \<le> j \<and> j < nobj lg \<longrightarrow> w (obj va lg j) = of_nat (j + 1)) \<and> (\<forall>a. 4096 \<le> unat (a - va) \<longrightarrow> w a = ptm st a)"
proof -
  have l12: "lg \<le> 12" using lg by simp
  let ?w = "\<lambda>js m. fold (\<lambda>j m. m(obj va lg j := of_nat (j + 1))) js m"
  have words: "fold (\<lambda>j. set_word (obj va lg j) (of_nat (j + 1))) js s = s\<lparr>ptm := ?w js (ptm s)\<rparr>" for js and s :: slub_state
    by (induction js arbitrary: s) (simp_all add: set_word_def)
  have inj: "inj_on (obj va lg) (set [k..<nobj lg])" by (rule inj_onI) (auto dest: obj_inj [OF l12])
  let ?s = "upd_slab sl (\<lambda>s. s\<lparr>sl_nfree := of_nat (nobj lg - k), sl_free := of_nat k\<rparr>) (upd_slab sl (\<lambda>s. s\<lparr>sl_p := va\<rparr>)
      (upd_page (frame_of pa) (\<lambda>p. p\<lparr>pflags := pflags p OR bits_set PGF_SLUB_LSIZE (of_nat lg), u0 := sl OR bits_on SLUB_LEADER\<rparr>) st))"
  let ?s0 = "if lg = 4 then upd_sub i (\<lambda>s. s\<lparr>sp_part := sp_part s @ [sl]\<rparr>)
        (?s\<lparr>slub_16byte_free := slub_16byte_free ?s + int (nobj lg - k)\<rparr>)
      else upd_sub i (\<lambda>s. s\<lparr>sp_free := sp_free s @ [sl]\<rparr>) ?s"
  have "pm_ram_get_page pa (pmem st) = Inr (frame_of pa)" using pg by (simp add: pm_ram_get_page_def)
  then have e: "slub_subpage_init1 i sl va pa st
      = Inr (fold (\<lambda>j. set_word (obj va lg j) (of_nat (j + 1))) [k..<nobj lg] ?s0)"
    unfolding slub_subpage_init1_def Let_def obj_def nobj_def k lg(1)
    by (simp only: flags assert_that_simps bind_res_simps simp_thms)
  have at: "?w [k..<nobj lg] (ptm st) (obj va lg j) = of_nat (j + 1)" if "k \<le> j" "j < nobj lg" for j
    using fold_write_at [OF _ inj, of j "\<lambda>j. of_nat (j + 1)" "ptm st"] that by simp
  have out: "?w [k..<nobj lg] (ptm st) a = ptm st a" if a: "4096 \<le> unat (a - va)" for a
  proof (rule fold_write_other)
    show "a \<notin> obj va lg ` set [k..<nobj lg]"
    proof
      assume "a \<in> obj va lg ` set [k..<nobj lg]"
      then obtain j where j: "j < nobj lg" "a = obj va lg j" by auto
      then have "unat (a - va) = j * 2 ^ lg" using obj_offset(2) [OF l12 j(1)] by (simp add: obj_def)
      moreover have "0 < (2::nat) ^ lg" by simp
      ultimately show False using a obj_offset(1) [OF l12 j(1)] by linarith
    qed
  qed
  have r: "(p :: page)\<lparr>pflags := x, u0 := y\<rparr> = \<lparr>pflags = x, u0 = y\<rparr>"
    "(q :: subpage_slab)\<lparr>sl_p := c, sl_nfree := f, sl_free := g\<rparr> = \<lparr>sl_nfree = f, sl_free = g, sl_p = c\<rparr>" for p x y q c f g
    by simp_all
  have "?s0\<lparr>ptm := ?w [k..<nobj lg] (ptm ?s0)\<rparr> = st\<lparr>ptm := ?w [k..<nobj lg] (ptm st),
      pmem := (pmem st)\<lparr>ram_map := (ram_map (pmem st))(frame_of pa :=
        \<lparr>pflags = pflags (ram_map (pmem st) (frame_of pa)) OR bits_set PGF_SLUB_LSIZE (of_nat lg), u0 = sl OR bits_on SLUB_LEADER\<rparr>)\<rparr>,
      slab := (slab st)(sl := \<lparr>sl_nfree = of_nat (nobj lg - k), sl_free = of_nat k, sl_p = va\<rparr>),
      subs := (subs st)(i := (if lg = 4 then (subs st i)\<lparr>sp_part := sp_part (subs st i) @ [sl]\<rparr>
                            else (subs st i)\<lparr>sp_free := sp_free (subs st i) @ [sl]\<rparr>)),
      slub_16byte_free := slub_16byte_free st + (if lg = 4 then int (nobj lg - k) else 0)\<rparr>"
    by (cases "lg = 4"; rule slub_state.equality) (simp_all add: upd_slab_def upd_page_def upd_sub_def r)
  then show ?thesis
    unfolding e words using at out by (intro exI [of _ "?w [k..<nobj lg] (ptm st)"]) blast
qed

lemma init1_wf:
  assumes "SLUB_SUBPAGE_START \<le> lg" "lg \<le> 11" and "unat va mod 4096 = 0" "va \<noteq> 0" "unat va + 4096 < 2 ^ 32"
    and k: "k = (if lg = 4 then SLUB_SUBPAGE_NSIZES else 0)"
    and s: "sp_log_sz (subs st i) = lg" "slab st sl = \<lparr>sl_nfree = of_nat (nobj lg - k), sl_free = of_nat k, sl_p = va\<rparr>"
    and w: "\<forall>j. k \<le> j \<and> j < nobj lg \<longrightarrow> ptm st (obj va lg j) = of_nat (j + 1)"
  shows "slab_wf st i sl [k..<nobj lg]"
proof -
  have l3: "3 \<le> lg" using assms(1) by (simp add: slub_consts)
  have n: "nobj lg \<le> 512" by (rule nobj_bound [OF l3])
  have kn: "k \<le> nobj lg" by (simp add: k nobj_def slub_consts)
  have "is_chain (ptm st) va lg (of_nat k) [k..<nobj lg]" by (rule is_chain_upt [OF _ n kn]) (use w in blast)
  moreover have "unat (of_nat (nobj lg - k) :: 16 word) = nobj lg - k" using n by (simp add: unat_of_nat)
  ultimately show ?thesis using assms by (simp add: slab_wf_def)
qed

text \<open>C18: Initialising a slab threads all its objects on the free list, in order; the slab of sixteen-byte objects keeps
  its first nine, which describe the nine slabs of the start.\<close>

theorem slub_subpage_init1_wf:
  assumes pg: "pa < ramsz (pmem st)"
    and flags: "bits_get (pflags (ram_map (pmem st) (frame_of pa))) PGF_USE = usage_val PGF_USE_SLUB"
      "bits_get (pflags (ram_map (pmem st) (frame_of pa))) PGF_UNIT = of_nat PM_UNIT_PAGE"
    and lg: "sp_log_sz (subs st i) = lg" "SLUB_SUBPAGE_START \<le> lg" "lg \<le> 11"
    and va: "unat va mod 4096 = 0" "va \<noteq> 0" "unat va + 4096 < 2 ^ 32"
  shows "\<exists>st'. slub_subpage_init1 i sl va pa st = Inr st'
    \<and> slab_wf st' i sl [(if lg = 4 then SLUB_SUBPAGE_NSIZES else 0)..<4096 div 2 ^ lg]
    \<and> sl_p (slab st' sl) = va"
proof -
  have n: "4096 div 2 ^ lg = nobj lg" by (simp add: nobj_def)
  let ?k = "if lg = 4 then SLUB_SUBPAGE_NSIZES else 0"
  obtain w where w: "\<forall>j. ?k \<le> j \<and> j < nobj lg \<longrightarrow> w (obj va lg j) = of_nat (j + 1)" and e: "slub_subpage_init1 i sl va pa st = Inr (st\<lparr>ptm := w,
      pmem := (pmem st)\<lparr>ram_map := (ram_map (pmem st))(frame_of pa :=
        \<lparr>pflags = pflags (ram_map (pmem st) (frame_of pa)) OR bits_set PGF_SLUB_LSIZE (of_nat lg), u0 = sl OR bits_on SLUB_LEADER\<rparr>)\<rparr>,
      slab := (slab st)(sl := \<lparr>sl_nfree = of_nat (nobj lg - ?k), sl_free = of_nat ?k, sl_p = va\<rparr>),
      subs := (subs st)(i := (if lg = 4 then (subs st i)\<lparr>sp_part := sp_part (subs st i) @ [sl]\<rparr>
                            else (subs st i)\<lparr>sp_free := sp_free (subs st i) @ [sl]\<rparr>)),
      slub_16byte_free := slub_16byte_free st + (if lg = 4 then int (nobj lg - ?k) else 0)\<rparr>)" (is "_ = Inr ?st")
    using init1_result [OF assms refl] by blast
  have "slab_wf ?st i sl [?k..<nobj lg]"
    by (rule init1_wf [OF lg(2,3) va refl]) (use lg(1) w in simp_all)
  then show ?thesis unfolding e n by simp
qed

section \<open>Size classes\<close>

lemma size_class_eq:
  "size_class sz = find (\<lambda>i. unat sz \<le> 2 ^ (i + 3)) [0..<24]"
proof -
  have "(sz \<le> push_bit (3 + i) 1) = (unat sz \<le> 2 ^ (i + 3))" if "i < 24" for i
  proof -
    have "unat (2 ^ (i + 3) :: u32) = 2 ^ (i + 3)" using that by (intro unat_exp_u32) simp
    then show ?thesis by (simp add: word_le_nat_alt push_bit_eq_mult add.commute)
  qed
  then show ?thesis unfolding size_class_def slub_consts by (intro find_cong) simp_all
qed

lemma kmalloc_16: "kmalloc (Suc d) 16 st = kmalloc_subpages (kmalloc d) (Sub 1) st"
proof -
  have "size_class 16 = Some 1" by (simp add: size_class_eq upt_rec)
  then show ?thesis by (simp add: slub_consts)
qed

text \<open>\<open>kmalloc\<close> uses the smallest power of two from 8 that holds the request; it stops for requests above
  64 megabytes, and also for every request above one page.\<close>

theorem kmalloc_size_classes:
  "(case size_class sz of
      None \<Rightarrow> 2 ^ 26 < unat sz \<and> (sz \<noteq> 0 \<longrightarrow> kmalloc (Suc d) sz st = Inl (Assert ''slub.c:396''))
    | Some i \<Rightarrow> i < 24 \<and> unat sz \<le> 2 ^ (i + 3) \<and> (0 < i \<longrightarrow> 2 ^ (i + 2) < unat sz))
   \<and> (4096 < unat sz \<and> unat sz \<le> 2 ^ 26 \<and> (\<forall>i<15. fp_log_sz (fulls st i) = 12 + i) \<longrightarrow> kmalloc (Suc d) sz st = Inl (Assert ''slub.c:287''))"
proof (intro conjI impI)
  show main: "case size_class sz of
      None \<Rightarrow> 2 ^ 26 < unat sz \<and> (sz \<noteq> 0 \<longrightarrow> kmalloc (Suc d) sz st = Inl (Assert ''slub.c:396''))
    | Some i \<Rightarrow> i < 24 \<and> unat sz \<le> 2 ^ (i + 3) \<and> (0 < i \<longrightarrow> 2 ^ (i + 2) < unat sz)"
  proof (cases "size_class sz")
    case None
    then have "\<forall>i<24. \<not> unat sz \<le> 2 ^ (i + 3)" unfolding size_class_eq find_None_iff by auto
    from this [rule_format, of 23] have "2 ^ 26 < unat sz" by simp
    then show ?thesis using None by simp
  next
    case (Some i)
    then have i: "i < 24" "unat sz \<le> 2 ^ (i + 3)" "\<forall>j<i. \<not> unat sz \<le> 2 ^ (j + 3)"
      unfolding size_class_eq find_Some_iff by auto
    have "2 ^ (i + 2) < unat sz" if "0 < i" 
    proof -
      have "\<not> unat sz \<le> 2 ^ (i - 1 + 3)" by (rule i(3) [rule_format]) (use that in simp)
      moreover have "i - 1 + 3 = i + 2" using that by simp
      ultimately show ?thesis by (simp only: not_le)
    qed
    then show ?thesis using Some i by simp
  qed
  assume b: "4096 < unat sz \<and> unat sz \<le> 2 ^ 26 \<and> (\<forall>i<15. fp_log_sz (fulls st i) = 12 + i)"
  then obtain i where i: "size_class sz = Some i" using main by (cases "size_class sz") auto
  then have le: "unat sz \<le> 2 ^ (i + 3)" "i < 24" using main by auto
  have "9 < i"
  proof (rule ccontr)
    assume "\<not> 9 < i"
    then have "(2::nat) ^ (i + 3) \<le> 2 ^ 12" by (intro power_increasing) simp_all
    then show False using le b by simp
  qed
  then have "fp_log_sz (fulls st (i - 9)) = 12 + (i - 9)" "i - 9 \<noteq> 0" "sz \<noteq> 0" using b le(2) by auto
  then show "kmalloc (Suc d) sz st = Inl (Assert ''slub.c:287'')"
    using i \<open>9 < i\<close> by (simp add: slub_consts kmalloc_fullpages_def PAGE_SIZE_SZ_def)
qed

section \<open>Where the allocator stops\<close>

text \<open>C19: The reserve of sixteen-byte objects does not work: the allocation that leaves four of them asks for a new slab
  while it holds the mutex of its size, and the request for the description of that slab waits for the same mutex
  for ever.\<close>

theorem kmalloc_16_deadlocks:
  assumes wf: "slab_wf st (Sub 1) e (j # js)" and lg: "sp_log_sz (subs st (Sub 1)) = 4"
    and first: "first_slab (Sub 1) st = Some e" and lock: "\<not> sp_lock (subs st (Sub 1))"
    and five: "slub_16byte_free st = 5" and sz: "8 < unat sz" "unat sz \<le> 16"
  shows "kmalloc (Suc (Suc d)) sz st = Inl Deadlock"
proof -
  have cls: "size_class sz = Some 1" if "8 < unat sz" "unat sz \<le> 16" for sz
    using that by (simp add: size_class_eq upt_rec)
  have nz: "sz \<noteq> 0" using sz by auto
  have "sp_lock (subs (taken (Sub 1) e (Suc (length js)) st) (Sub 1))" by (simp add: taken_def Let_def)
  then have "kmalloc (Suc d) 16 (taken (Sub 1) e (Suc (length js)) st) = Inl Deadlock"
    using cls [of 16] by (simp add: slub_consts kmalloc_subpages_def sub_lock_def)
  then have "slub_alloc_subpage_slab (kmalloc (Suc d)) (Sub 1) (taken (Sub 1) e (Suc (length js)) st) = Inl Deadlock"
    by (simp add: slub_alloc_subpage_slab_def)
  then have "kmalloc_subpages (kmalloc (Suc d)) (Sub 1) st = Inl Deadlock"
    using kmalloc_subpages_pops [OF wf first lock] five lg by simp
  then show ?thesis using nz cls [OF sz] by (simp add: slub_consts)
qed

text \<open>A state with one slab of sixteen-byte objects, for the examples: its object 9 is free, then 10 to 13.\<close>

definition demo :: slub_state where
  "demo = \<lparr>pd = (\<lambda>_. 0), kpt = (\<lambda>_. 0), ptm = (\<lambda>a. drop_bit 4 (a - 0xf7ff8000) + 1), tlb = {},
     vm_areas = (\<lambda>_. []), vseg = (\<lambda>_. \<lparr>vs_start = 0, vs_flags = 0\<rparr>), vm_areas_lock = (\<lambda>_. False),
     pmem = \<lparr>bdy_ram = bdy_init [0] 4, ram_map = (\<lambda>_. \<lparr>pflags = 0, u0 = 0\<rparr>), ramsz = 0x4000\<rparr>,
     slab = (\<lambda>_. \<lparr>sl_nfree = 5, sl_free = 9, sl_p = 0xf7ff8000\<rparr>), fslab = (\<lambda>_. 0),
     subs = (\<lambda>_. \<lparr>sp_busy = [], sp_part = [0xf7ff8010], sp_free = [], sp_lock = False, sp_log_sz = 4\<rparr>),
     fulls = (\<lambda>i. \<lparr>fp_busy = [], fp_lock = False, fp_log_sz = 12 + i\<rparr>), slub_16byte_free = 5\<rparr>"

lemma demo_wf: "slab_wf demo (Sub 1) 0xf7ff8010 [9, 10, 11, 12, 13]"
proof -
  have "is_chain (ptm demo) 0xf7ff8000 4 9 [9, 10, 11, 12, 13]" by code_simp
  then show ?thesis by (simp add: slab_wf_def demo_def nobj_def slub_consts)
qed

theorem kmalloc_16_deadlocks_witness: "kmalloc (Suc (Suc 0)) 16 demo = Inl Deadlock"
proof -
  have "sp_log_sz (subs demo (Sub 1)) = 4" "first_slab (Sub 1) demo = Some 0xf7ff8010" "\<not> sp_lock (subs demo (Sub 1))"
    "slub_16byte_free demo = 5" by (simp_all add: demo_def first_slab_def)
  then show ?thesis by (rule kmalloc_16_deadlocks [OF demo_wf]) simp_all
qed

theorem kmalloc_size_classes_witness: "kmalloc 1 8192 demo = Inl (Assert ''slub.c:287'')"
  using kmalloc_size_classes [of 8192 0 demo] by (simp add: demo_def)

theorem slab_alloc_free_roundtrip_witness:
  "\<exists>st1 p st2. kmalloc_subpages (kmalloc 22) (Sub 1) (demo\<lparr>slub_16byte_free := 100\<rparr>) = Inr (st1, p)
    \<and> kfree_subpages p (Sub 1) 0 0xf7ff8010 st1 = Inr st2 \<and> slab_wf st2 (Sub 1) 0xf7ff8010 [9, 10, 11, 12, 13]"
proof -
  let ?d = "demo\<lparr>slub_16byte_free := 100\<rparr>"
  have wf: "slab_wf ?d (Sub 1) 0xf7ff8010 [9, 10, 11, 12, 13]"
    using demo_wf by (subst slab_wf_cong [of _ _ demo]) simp_all
  have "sp_log_sz (subs ?d (Sub 1)) = 1 + SLUB_SUBPAGE_START" "first_slab (Sub 1) ?d = Some 0xf7ff8010"
    "\<not> sp_lock (subs ?d (Sub 1))" "1 \<noteq> (1::nat) \<or> slub_16byte_free ?d \<noteq> 5"
    "bits_get (pflags (ram_map (pmem ?d) 0)) PGF_UNIT = of_nat PM_UNIT_PAGE"
    by (simp_all add: demo_def first_slab_def slub_consts pm_consts)
  from slab_alloc_free_roundtrip [OF wf this, of "kmalloc 22"] show ?thesis by blast
qed

theorem slub_subpage_init1_wf_witness:
  "\<exists>st'. slub_subpage_init1 (Sub 0) 0x1000 0x2000 0 (demo\<lparr>pmem := (pmem demo)\<lparr>ram_map := (\<lambda>_. \<lparr>pflags = 16, u0 = 0\<rparr>)\<rparr>\<rparr>) = Inr st'
    \<and> slab_wf st' (Sub 0) 0x1000 [9..<256]"
proof -
  let ?d = "demo\<lparr>pmem := (pmem demo)\<lparr>ram_map := (\<lambda>_. \<lparr>pflags = 16, u0 = 0\<rparr>)\<rparr>\<rparr>"
  have "bits_get 16 PGF_USE = usage_val PGF_USE_SLUB" "bits_get 16 PGF_UNIT = of_nat PM_UNIT_PAGE" by code_simp+
  then show ?thesis
    using slub_subpage_init1_wf [of 0 ?d "Sub 0" 4 "0x2000" "0x1000"]
    by (auto simp: demo_def slub_consts)
qed


section \<open>Pages that stay mapped\<close>

text \<open>The tables and the log of the TLB.\<close>

definition tables :: "slub_state \<Rightarrow> (nat \<Rightarrow> u32) \<times> (nat \<Rightarrow> u32) \<times> addr set" where
  "tables st = (pd st, kpt st, tlb st)"

lemma tables_upd [simp]:
  "tables (upd_sub i f st) = tables st" "tables (upd_slab e g st) = tables st" "tables (set_word a v st) = tables st"
  "tables (slab_del e st) = tables st" "tables (fslab_del e st) = tables st" "tables (sub_unlock i st) = tables st"
  "tables (st\<lparr>pmem := pm\<rparr>) = tables st" "tables (st\<lparr>vm_areas := q\<rparr>) = tables st"
  "tables (st\<lparr>vm_areas_lock := l\<rparr>) = tables st"
  by (simp_all add: tables_def upd_sub_def upd_slab_def set_word_def slab_del_def fslab_del_def sub_unlock_def)











end
