(* ===== verification/SlubDepth.thy ===== *)
theory SlubDepth
  imports SlubProps
begin

text \<open>
  How deep the calls of \<open>kmalloc\<close> go. Every call of it inside another one is made under one more mutex of
  the ten size classes, or is for a small object, so the depth is bounded by twice the number of free mutexes; past
  that a thread waits for a mutex it holds. Every return leaves all the mutexes as they were.
\<close>

section \<open>Results that are not endless\<close>

definition ends :: "('a \<Rightarrow> bool) \<Rightarrow> 'a res \<Rightarrow> bool" where
  "ends P r \<longleftrightarrow> (case r of Inl e \<Rightarrow> e \<noteq> Endless | Inr x \<Rightarrow> P x)"

named_theorems ends_intros \<open>rules for results that are not endless\<close>

lemma ends_simps [simp]: "ends P (Inr x) = P x" "ends P (Inl e) = (e \<noteq> Endless)"
  by (simp_all add: ends_def)

lemma ends_bind [ends_intros]: "ends P r \<Longrightarrow> (\<And>x. P x \<Longrightarrow> ends Q (f x)) \<Longrightarrow> ends Q (bind_res r f)"
  by (cases r) simp_all

lemma ends_assert [ends_intros]: "(b \<Longrightarrow> ends P r) \<Longrightarrow> ends P (assert_that site b r)"
  by (simp add: assert_that_def)

lemma ends_mono: "ends P r \<Longrightarrow> (\<And>x. P x \<Longrightarrow> Q x) \<Longrightarrow> ends Q r"
  by (cases r) simp_all

section \<open>Mutexes\<close>

definition locks :: "slub_state \<Rightarrow> spid \<Rightarrow> bool" where
  "locks st i = sp_lock (subs st i)"

definition classes :: "spid set" where
  "classes = insert MmuPt (Sub ` {..<9})"

definition free_locks :: "(spid \<Rightarrow> bool) \<Rightarrow> nat" where
  "free_locks l = card {i \<in> classes. \<not> l i}"

lemma free_locks_bound: "free_locks l \<le> 10"
proof -
  have "card {i \<in> classes. \<not> l i} \<le> card classes" by (rule card_mono) (auto simp: classes_def)
  also have "card classes \<le> 10"
    by (simp add: classes_def card_insert_if card_image inj_on_def)
  finally show ?thesis by (simp add: free_locks_def)
qed

lemma free_locks_take:
  assumes "i \<in> classes" "\<not> l i" shows "Suc (free_locks (l(i := True))) = free_locks l"
proof -
  have "{k \<in> classes. \<not> l k} = insert i {k \<in> classes. \<not> (l(i := True)) k}" using assms by auto
  moreover have "finite classes" by (simp add: classes_def)
  ultimately show ?thesis by (simp add: free_locks_def)
qed

text \<open>A result whose state has the mutexes \<open>l\<close>.\<close>

abbreviation keeps :: "(spid \<Rightarrow> bool) \<Rightarrow> (slub_state \<times> 'b) res \<Rightarrow> bool" where
  "keeps l r \<equiv> ends (\<lambda>(st, x). locks st = l) r"

abbreviation keeps1 :: "(spid \<Rightarrow> bool) \<Rightarrow> slub_state res \<Rightarrow> bool" where
  "keeps1 l r \<equiv> ends (\<lambda>st. locks st = l) r"

lemma locks_upd [simp]:
  "locks (upd_slab e g st) = locks st" "locks (set_word a v st) = locks st" "locks (slab_del e st) = locks st"
  "locks (zero_page va st) = locks st" "locks (upd_full k h st) = locks st" "locks (upd_page pg q st) = locks st"
  "locks (st\<lparr>pmem := pm\<rparr>) = locks st" "locks (st\<lparr>slub_16byte_free := c\<rparr>) = locks st" "locks (st\<lparr>fslab := m\<rparr>) = locks st"
  "locks (st\<lparr>vm_areas := va1\<rparr>) = locks st" "locks (st\<lparr>vseg := vs\<rparr>) = locks st" "locks (st\<lparr>vm_areas_lock := vl\<rparr>) = locks st"
  "locks (st\<lparr>tlb := t\<rparr>) = locks st" "locks (pd_set j w st) = locks st" "locks (pt_set pt j w st) = locks st"
  "locks (upd_sub i (\<lambda>s. s\<lparr>sp_part := p1 s\<rparr>) st) = locks st" "locks (upd_sub i (\<lambda>s. s\<lparr>sp_free := p1 s\<rparr>) st) = locks st"
  "locks (upd_sub i (\<lambda>s. s\<lparr>sp_busy := p1 s\<rparr>) st) = locks st"
  "locks (upd_sub i (\<lambda>s. s\<lparr>sp_lock := b\<rparr>) st) = (locks st)(i := b)"
  "locks (area_unlock n st) = locks st"
  by (cases pt; simp add: locks_def fun_eq_iff upd_slab_def set_word_def slab_del_def zero_page_def upd_full_def upd_page_def
    upd_sub_def pd_set_def area_unlock_def)+

lemma locks_fold [simp]: "locks (fold (\<lambda>k. pt_set pt k w) xs st) = locks st"
  by (induction xs arbitrary: st) simp_all

section \<open>The MMU\<close>

lemma pa_to_va_ends: "ends (\<lambda>_. True) (mmu_slub_pa_to_va st pa)"
  by (auto simp: mmu_slub_pa_to_va_def slub_page_def pm_ram_get_page_def slub_leader_def Let_def intro!: ends_intros)

lemma pt_of_ends: "ends (\<lambda>_. True) (pt_of mmu_slub_pa_to_va j st)"
  by (auto simp: pt_of_def intro!: ends_bind [OF pa_to_va_ends])

lemma va_to_pa_ends: "ends (\<lambda>_. True) (mmu_va_to_pa mmu_slub_pa_to_va va st)"
  by (auto simp: mmu_va_to_pa_def Let_def intro!: ends_assert ends_bind [OF pt_of_ends])

lemma tlb_page_ends: "keeps1 (locks st) (mmu_tlb_invalidate va (map_inc MAP_UNIT_PAGE) st)"
proof -
  have "unat (map_inc MAP_UNIT_PAGE) mod 4096 = 0" by code_simp
  from mmu_tlb_invalidate_pages [OF this, of va st] show ?thesis by auto
qed

lemma map_page_ends:
  assumes sa: "keeps (locks st) (sa st)" and mu: "mr_mu r = MAP_UNIT_PAGE"
  shows "ends (\<lambda>(pa, st'). locks st' = locks st) (map_page_one sa mmu_slub_pa_to_va r va pa st)"
  unfolding map_page_one_def Let_def mu
proof (intro ends_assert ends_bind)
  show "keeps (locks st)
      (if bits_get (pd st (unat (bits_get va VA_PDE_IX))) PDE_TYPE0 = 0
       then bind_res (sa st) (\<lambda>(st, pt). bind_res (mmu_va_to_pa mmu_slub_pa_to_va pt st) (\<lambda>tpa.
              Inr (pd_set (unat (bits_get va VA_PDE_IX)) (bits_set PDE_TYPE0 1 OR bits_push PDE_PT_BASE tpa)
                (fold (\<lambda>k. pt_set (Slab pt) k 0) [0..<256] st), Slab pt)))
       else bind_res (pt_of mmu_slub_pa_to_va (unat (bits_get va VA_PDE_IX)) st) (\<lambda>pt. Inr (st, pt)))"
    by (auto intro!: ends_bind [OF sa] ends_bind [OF pt_of_ends] ends_bind [OF va_to_pa_ends] split: prod.splits)
next
  fix x :: "slub_state \<times> ptab"
  assume "case x of (st', _) \<Rightarrow> locks st' = locks st"
  then show "ends (\<lambda>(pa, st'). locks st' = locks st)
     (case x of (st, pt) \<Rightarrow>
        assert_that ''mmu.c:254''
          (\<forall>k<pm_alloc_nunits MAP_UNIT_PAGE. bits_get (pt_get (pt_index pt (unat (bits_get va VA_PTE_IX))) k st) PTE_TYPE = 0)
          (bind_res (mmu_tlb_invalidate va (map_inc MAP_UNIT_PAGE)
             (fold (\<lambda>k. pt_set (pt_index pt (unat (bits_get va VA_PTE_IX))) k (page_te r pa)) [0..<pm_alloc_nunits MAP_UNIT_PAGE] st))
            (\<lambda>st. Inr (pa, st))))"
    by (auto intro!: ends_assert ends_bind [OF tlb_page_ends] split: prod.splits)
qed

lemma slub_map_ends:
  assumes sa: "keeps (locks st) (sa st)"
  shows "keeps1 (locks st) (slub_map sa va pa st)"
proof -
  have one: "mmu_map_pages sa mmu_slub_pa_to_va (map_req va pa) st
      = bind_res (map_page_one sa mmu_slub_pa_to_va (map_req va pa) va pa st) (\<lambda>(pa, st). Inr st)"
    by (simp add: mmu_map_pages_def unit_loop_def)
      (simp add: map_req_def bind_res_def split: sum.splits)
  have "keeps1 (locks st) (mmu_map_pages sa mmu_slub_pa_to_va (map_req va pa) st)"
    unfolding one by (rule ends_bind [OF map_page_ends [where sa = sa and st = st, OF sa]]) (auto simp: map_req_def)
  then have "keeps1 (locks st) (mmu_map sa mmu_slub_pa_to_va (map_req va pa) st)"
    unfolding mmu_map_def Let_def by (intro ends_assert) (simp add: map_req_def)
  then show ?thesis unfolding slub_map_def by (rule ends_bind) simp
qed

section \<open>Virtual memory and slabs\<close>

lemma vm_alloc_ends:
  assumes km: "\<And>st'. locks st' = locks st \<Longrightarrow> keeps (locks st) (km 16 st')"
  shows "keeps (locks st) (vm_alloc km VMA_SLUB VM_UNIT_PAGE 1 st)"
proof -
  have one: "keeps (locks st) (vm_alloc_one km VMA_SLUB VM_UNIT_PAGE st')" if l: "locks st' = locks st" for st'
  proof -
    have "\<exists>r. vm_find_free VMA_SLUB VM_UNIT_PAGE st' = Inr r"
      using vm_find_free_blocks [of VM_UNIT_PAGE st'] by (simp add: vm_consts)
    then show ?thesis
      unfolding vm_alloc_one_def
      by (auto intro!: ends_assert ends_bind [OF km] simp: l split: option.splits prod.splits)
  qed
  have lock: "keeps1 (locks st) (area_lock VMA_SLUB st)" by (simp add: area_lock_def)
  show ?thesis
    unfolding vm_alloc_def
    by (rule ends_assert, rule ends_bind [OF lock])
      (auto intro!: ends_bind [where P = "\<lambda>(st', x). locks st' = locks st"] one split: prod.splits)
qed

lemma pm_get_ends: "ends (\<lambda>_. True) (pm_ram_get_page pa pm)"
  by (simp add: pm_ram_get_page_def assert_that_def)

lemma locks_fold_word [simp]: "locks (fold (\<lambda>j. set_word (f j) (g j)) js st) = locks st"
  by (induction js arbitrary: st) simp_all

lemma init1_ends: "keeps1 (locks st) (slub_subpage_init1 i sl va pa st)"
  unfolding slub_subpage_init1_def Let_def
  by (rule ends_bind [OF pm_get_ends]) (auto intro!: ends_assert)

lemma slab_slab_ends:
  assumes km: "\<And>sz st'. locks st' = locks st \<Longrightarrow> sz \<in> {16, PAGE_SIZE} \<Longrightarrow> keeps (locks st) (km sz st')"
  shows "keeps1 (locks st) (slub_alloc_subpage_slab km i st)"
proof -
  have rest: "keeps1 (locks st) (bind_res (slub_va_to_pa p st') (\<lambda>pa.
      assert_that ''slub.c:271'' (pa \<noteq> 0xffffffff) (slub_subpage_init1 i sl p pa st')))"
    if "locks st' = locks st" for st' p sl
    unfolding slub_va_to_pa_def
    by (rule ends_bind [OF va_to_pa_ends]) (use init1_ends [of st' i sl p] that in \<open>auto intro!: ends_assert\<close>)
  have km1: "keeps (locks st) (km 16 st)" "\<And>st'. locks st' = locks st \<Longrightarrow> keeps (locks st) (km PAGE_SIZE st')"
    using km by auto
  show ?thesis
    unfolding slub_alloc_subpage_slab_def Let_def
    by (rule ends_bind [OF km1(1)]) (auto intro!: ends_assert ends_bind [OF km1(2)] rest split: prod.splits)
qed

lemma take_object_ends: "keeps (locks st) (take_object i e st)"
  by (auto simp: take_object_def Let_def intro!: ends_assert)

lemma subpages_end:
  assumes km: "\<And>sz st'. \<not> locks st i \<Longrightarrow> locks st' = (locks st)(i := True) \<Longrightarrow> sz \<in> {16, PAGE_SIZE} \<Longrightarrow>
    keeps ((locks st)(i := True)) (km sz st')"
  shows "keeps (locks st) (kmalloc_subpages km i st)"
proof (cases "locks st i")
  case True
  then show ?thesis by (simp add: kmalloc_subpages_def sub_lock_def locks_def)
next
  case False
  let ?l = "(locks st)(i := True)"
  define s0 where "s0 = upd_sub i (\<lambda>s. s\<lparr>sp_lock := True\<rparr>) st"
  have l0: "locks s0 = ?l" by (simp add: s0_def)
  have lk: "sub_lock i st = Inr s0" using False by (simp add: sub_lock_def locks_def s0_def)
  have grow: "keeps1 ?l (slub_alloc_subpage_slab km i st')" if "locks st' = ?l" for st'
    using slab_slab_ends [of st' km i] km [OF False] that by simp
  have unl: "locks (sub_unlock i st') = locks st" if "locks st' = ?l" for st'
    using that False by (simp add: sub_unlock_def fun_eq_iff)
  have tk: "ends (\<lambda>(st', p). locks st' = ?l) (take_object i e st')" if "locks st' = ?l" for e st'
    using take_object_ends [of st' i e] that by simp
  show ?thesis
    unfolding kmalloc_subpages_def lk bind_res_simps Let_def
    by (intro ends_bind [where P = "\<lambda>st'. locks st' = ?l"] ends_assert)
      (auto intro!: ends_assert grow l0 unl ends_bind [OF tk] ends_bind [where P = "\<lambda>st'. locks st' = ?l"] split: prod.splits)
qed

lemma pm_alloc_ends: "ends (\<lambda>_. True) (pm_ram_alloc unit use n pm)"
  by (auto simp: pm_ram_alloc_def pm_ram_alloc0_def intro!: ends_bind [where P = "\<lambda>_. True"] ends_assert split: prod.splits option.splits)

lemma slub_page_ends: "ends (\<lambda>_. True) (slub_page site pa st)"
  unfolding slub_page_def by (rule ends_bind [OF pm_get_ends]) (auto intro!: ends_assert)

lemma fullpages_end:
  assumes km: "\<And>sz st'. locks st' = locks st \<Longrightarrow> sz \<in> {12, 16} \<Longrightarrow> keeps (locks st) (km sz st')"
    and pt: "\<And>st'. locks st' = locks st \<Longrightarrow> keeps (locks st) (kmalloc_subpages km MmuPt st')"
  shows "keeps (locks st) (kmalloc_fullpages km i st)"
proof -
  have vm: "keeps (locks st) (vm_alloc km VMA_SLUB VM_UNIT_PAGE 1 st)" by (rule vm_alloc_ends) (use km in auto)
  have mp: "keeps1 (locks st) (slub_map (kmalloc_subpages km MmuPt) p pa st')" if "locks st' = locks st" for p pa st'
    using slub_map_ends [of st' "kmalloc_subpages km MmuPt" p pa] pt that by simp
  have km12: "keeps (locks st) (km 12 st')" if "locks st' = locks st" for st' using km that by auto
  show ?thesis
    unfolding kmalloc_fullpages_def Let_def
    by (intro ends_assert, rule ends_bind [OF vm])
      (auto intro!: ends_bind [OF pm_alloc_ends] ends_bind [OF mp] ends_bind [OF km12] ends_assert ends_bind [OF slub_page_ends]
        split: prod.splits option.splits)
qed

section \<open>The depth\<close>

definition small :: "u32 \<Rightarrow> bool" where
  "small sz \<longleftrightarrow> (\<forall>i. size_class sz = Some i \<longrightarrow> i < 9)"

lemma small_sizes: "small 12" "small 16"
  by (simp_all add: small_def size_class_eq upt_rec)

lemma kmalloc_ends:
  "2 * free_locks (locks st) + (if small sz then 1 else 2) \<le> d \<Longrightarrow> keeps (locks st) (kmalloc d sz st)"
proof (induction d arbitrary: sz st)
  case 0
  then show ?case by (simp split: if_splits)
next
  case (Suc d)
  have sub: "keeps (locks st) (kmalloc_subpages (kmalloc d) i st)"
    if i: "i \<in> classes" and st: "2 * free_locks (locks st) \<le> d" for i st
  proof (rule subpages_end)
    fix sz st' assume l: "\<not> locks st i" "locks st' = (locks st)(i := True)" and sz: "sz \<in> {16, PAGE_SIZE}"
    have "Suc (free_locks (locks st')) = free_locks (locks st)" unfolding l(2) by (rule free_locks_take [where l = "locks st", OF i l(1)])
    then have "2 * free_locks (locks st') + (if small sz then 1 else 2) \<le> d" using st by auto
    from Suc.IH [OF this] show "keeps ((locks st)(i := True)) (kmalloc d sz st')" by (simp only: l(2))
  qed
  show ?case
  proof (cases "sz = 0 \<or> size_class sz = None")
    case True
    then show ?thesis by auto
  next
    case False
    then obtain i where i: "size_class sz = Some i" "sz \<noteq> 0" by auto
    show ?thesis
    proof (cases "i < 9")
      case True
      have c: "Sub i \<in> classes" using True by (simp add: classes_def)
      have "2 * free_locks (locks st) \<le> d" using Suc.prems by (simp split: if_splits)
      from sub [OF c this] show ?thesis using i True by (simp add: slub_consts)
    next
      case big: False
      then have "\<not> small sz" using i by (auto simp: small_def)
      then have d: "2 * free_locks (locks st) + 1 \<le> d" using Suc.prems by simp
      have "keeps (locks st) (kmalloc_fullpages (kmalloc d) (i - SLUB_SUBPAGE_NSIZES) st)"
      proof (rule fullpages_end)
        fix sz st' assume l: "locks st' = locks st" and "sz \<in> {12, 16 :: u32}"
        then have "small sz" using small_sizes by auto
        then show "keeps (locks st) (kmalloc d sz st')" using Suc.IH [of st' sz] d l by simp
      next
        fix st' assume l: "locks st' = locks st"
        have "keeps (locks st') (kmalloc_subpages (kmalloc d) MmuPt st')"
          by (rule sub) (use d l in \<open>simp_all add: classes_def\<close>)
        then show "keeps (locks st) (kmalloc_subpages (kmalloc d) MmuPt st')" by (simp only: l)
      qed
      then show ?thesis using i big by (simp add: slub_consts)
    qed
  qed
qed

text \<open>C17: A depth of 22 calls is enough for every call of \<open>kmalloc\<close> in every state: it returns, stops in an
  assertion, or blocks on a mutex its own thread holds, but it never recurses further; and when it returns, every
  mutex is free or held as before.\<close>

theorem kmalloc_depth_bounded:
  "case kmalloc (22 + d) sz st of
     Inl e \<Rightarrow> e \<noteq> Endless
   | Inr (st', p) \<Rightarrow> (\<forall>i. sp_lock (subs st' i) = sp_lock (subs st i))"
proof -
  have "2 * free_locks (locks st) + (if small sz then 1 else 2) \<le> 22 + d"
    using free_locks_bound [of "locks st"] by (simp split: if_splits)
  from kmalloc_ends [OF this] show ?thesis
    by (auto simp: ends_def locks_def fun_eq_iff split: sum.splits)
qed

end
