(* ===== verification/Io.thy ===== *)
theory Io
  imports Mmu Sched
begin

text \<open>
  Device registers: \<open>readl\<close> and \<open>writel\<close> of src/include/io.h, the window that \<open>io_init\<close> of src/kernel/io.c
  maps, and the polling loop the drivers share.

  A device is an argument of the model: a function that gives the value of a read from everything that
  was read and written before, the newest event first. Nothing is assumed of it; what a theorem needs of
  a device is a hypothesis of the theorem. The state of a driver is a record that extends \<open>io_state\<close>.
\<close>

section \<open>Events\<close>

text \<open>Besides the registers in memory there are those of coprocessor 15, named by their numbers in
  \<open>mrc\<close> and \<open>mcr\<close>. \<open>wfi\<close> and \<open>msleep\<close> are events too, since the device goes on in the meantime.\<close>

datatype port = Mmio addr | Cp15 nat nat nat

datatype io_event = Rd port u32 | Wr port u32 | Wfi | Msleep nat

type_synonym device = "io_event list \<Rightarrow> port \<Rightarrow> u32"

record io_state =
  io_log :: "io_event list"

text \<open>What every driver has beside its own variables: the log and the scheduler, whose masks and queues the
  handlers use.\<close>

record drv_state = io_state +
  sch :: sched

text \<open>A scheduler in which the idle thread runs alone, for the examples.\<close>

definition sched0 :: sched where
  "sched0 = \<lparr>irq_soft_mask = 0, irq_sched_mask = 0,
     thr = (\<lambda>_. \<lparr>t_ticks = 5, t_state = THRD_STATE_RUNNING, t_irq_ctx = False, t_soft = 0, t_sched = 0\<rparr>),
     ready = [], current = 0, idle = 0, wqs = (\<lambda>_. []), mlock = (\<lambda>_. False), timer_heads = (\<lambda>_. []),
     timer_req_mask = 0, timer_recv_mask = 0, timer_ticks = 31\<rparr>"

type_synonym ('s, 'a) io = "'s \<Rightarrow> ('s \<times> 'a) res"

definition emit :: "io_event \<Rightarrow> 'a io_state_scheme \<Rightarrow> 'a io_state_scheme" where
  "emit e st = st\<lparr>io_log := e # io_log st\<rparr>"

definition read_port :: "device \<Rightarrow> port \<Rightarrow> 'a io_state_scheme \<Rightarrow> 'a io_state_scheme \<times> u32" where
  "read_port dev p st = (let v = dev (io_log st) p in (emit (Rd p v) st, v))"

definition readl :: "device \<Rightarrow> addr \<Rightarrow> 'a io_state_scheme \<Rightarrow> 'a io_state_scheme \<times> u32" where
  "readl dev a = read_port dev (Mmio a)"

definition writel :: "u32 \<Rightarrow> addr \<Rightarrow> 'a io_state_scheme \<Rightarrow> 'a io_state_scheme" where
  "writel v a = emit (Wr (Mmio a) v)"

text \<open>\<open>v = readl(a); v |= m; writel(v, a)\<close>.\<close>

definition set_bits :: "device \<Rightarrow> u32 \<Rightarrow> addr \<Rightarrow> 'a io_state_scheme \<Rightarrow> 'a io_state_scheme" where
  "set_bits dev m a st = (case readl dev a st of (st, v) \<Rightarrow> writel (v OR m) a st)"

lemma io_log_simps [simp]:
  "io_log (emit e st) = e # io_log st"
  "io_log (writel v a st) = Wr (Mmio a) v # io_log st"
  by (simp_all add: emit_def writel_def)

text \<open>The values written to a register, the oldest first.\<close>

definition writes :: "addr \<Rightarrow> io_event list \<Rightarrow> u32 list" where
  "writes a l = rev (concat (map (\<lambda>e. case e of Wr (Mmio b) v \<Rightarrow> if b = a then [v] else [] | _ \<Rightarrow> []) l))"

lemma writes_simps [simp]:
  "writes a [] = []"
  "writes a (Wr (Mmio b) v # l) = writes a l @ (if b = a then [v] else [])"
  "writes a (Rd p v # l) = writes a l"
  "writes a (Wfi # l) = writes a l"
  "writes a (Msleep n # l) = writes a l"
  by (simp_all add: writes_def)

section \<open>Polling\<close>

text \<open>Read a register until its value passes a test; \<open>between\<close> is what the loop does between two reads.\<close>

partial_function (option) poll ::
    "device \<Rightarrow> port \<Rightarrow> (u32 \<Rightarrow> bool) \<Rightarrow> io_event list \<Rightarrow> io_event list \<Rightarrow> (io_event list \<times> u32) option" where
  "poll dev p stop between l =
    (let v = dev l p; l = Rd p v # l in if stop v then Some (l, v) else poll dev p stop between (between @ l))"

declare poll.simps [code]

definition poll_port ::
    "device \<Rightarrow> port \<Rightarrow> (u32 \<Rightarrow> bool) \<Rightarrow> io_event list \<Rightarrow> 'a io_state_scheme \<Rightarrow> ('a io_state_scheme \<times> u32) res" where
  "poll_port dev p stop between st =
    (case poll dev p stop between (io_log st) of None \<Rightarrow> Inl Endless | Some (l, v) \<Rightarrow> Inr (st\<lparr>io_log := l\<rparr>, v))"

text \<open>The history after \<open>n\<close> rounds of the loop.\<close>

fun poll_log :: "device \<Rightarrow> port \<Rightarrow> io_event list \<Rightarrow> nat \<Rightarrow> io_event list \<Rightarrow> io_event list" where
  "poll_log dev p between 0 l = l"
| "poll_log dev p between (Suc n) l = poll_log dev p between n (between @ Rd p (dev l p) # l)"

text \<open>The register passes the test some time, whatever has happened before.\<close>

definition answers :: "device \<Rightarrow> port \<Rightarrow> (u32 \<Rightarrow> bool) \<Rightarrow> io_event list \<Rightarrow> bool" where
  "answers dev p stop between \<longleftrightarrow> (\<forall>l. \<exists>n. stop (dev (poll_log dev p between n l) p))"

lemma poll_ends:
  assumes "stop (dev (poll_log dev p between n l) p)"
  shows "\<exists>l' v k. poll dev p stop between l = Some (l', v) \<and> stop v \<and> k \<le> n
    \<and> l' = Rd p v # poll_log dev p between k l \<and> v = dev (poll_log dev p between k l) p"
  using assms
proof (induction n arbitrary: l)
  case 0
  then show ?case by (auto simp: poll.simps Let_def)
next
  case (Suc n)
  show ?case
  proof (cases "stop (dev l p)")
    case True
    then show ?thesis by (intro exI [of _ "Rd p (dev l p) # l"] exI [of _ "dev l p"] exI [of _ 0]) (simp add: poll.simps Let_def)
  next
    case False
    obtain l' v k where k: "poll dev p stop between (between @ Rd p (dev l p) # l) = Some (l', v)" "stop v" "k \<le> n"
        "l' = Rd p v # poll_log dev p between k (between @ Rd p (dev l p) # l)"
        "v = dev (poll_log dev p between k (between @ Rd p (dev l p) # l)) p"
      using Suc.IH [OF Suc.prems [unfolded poll_log.simps]] by blast
    have "poll dev p stop between l = Some (l', v)" using k(1) False by (subst poll.simps) (simp add: Let_def)
    with k(2-5) show ?thesis by (intro exI [of _ l'] exI [of _ v] exI [of _ "Suc k"]) simp
  qed
qed

lemma poll_result:
  assumes "poll dev p stop between l = Some r"
  shows "stop (snd r) \<and> (\<exists>k. fst r = Rd p (snd r) # poll_log dev p between k l)"
  using assms
proof (induction rule: poll.raw_induct [rotated 1, consumes 1, case_names loop])
  case (loop poll' dev p stop between l r)
  show ?case
  proof (cases "stop (dev l p)")
    case True
    then have "r = (Rd p (dev l p) # l, dev l p)" using loop(2) by (simp add: Let_def)
    then show ?thesis using True by (auto intro: exI [of _ 0])
  next
    case False
    then have "poll' dev p stop between (between @ Rd p (dev l p) # l) = Some r" using loop(2) by (simp add: Let_def)
    from loop(1) [OF this] obtain k where k: "stop (snd r)"
        "fst r = Rd p (snd r) # poll_log dev p between k (between @ Rd p (dev l p) # l)" by blast
    show ?thesis
      by (intro conjI exI [of _ "Suc k"]) (use k in simp_all)
  qed
qed

lemma poll_log_writes:
  assumes "\<And>l. writes a (between @ l) = writes a l"
  shows "writes a (poll_log dev p between n l) = writes a l"
  by (induction n arbitrary: l) (simp_all add: assms)

lemma poll_port_ends:
  assumes "answers dev p stop between"
  shows "\<exists>st' v. poll_port dev p stop between st = Inr (st', v) \<and> stop v"
proof -
  obtain n where "stop (dev (poll_log dev p between n (io_log st)) p)" using assms by (auto simp: answers_def)
  from poll_ends [where stop = stop and dev = dev and p = p and between = between and n = n and l = "io_log st", OF this] show ?thesis by (auto simp: poll_port_def)
qed

lemma poll_port_result:
  assumes "poll_port dev p stop between st = Inr (st', v)"
  shows "stop v \<and> (\<exists>k. st' = st\<lparr>io_log := Rd p v # poll_log dev p between k (io_log st)\<rparr>)"
  using assms by (auto simp: poll_port_def split: option.splits dest!: poll_result)

section \<open>The window\<close>

text \<open>The board is chosen when the kernel is built; the linker script places \<open>vm_dev_start\<close>.\<close>

datatype board = RPI | QRPI2

definition io_base :: addr where "io_base = 0xf8000000"
definition ctrl_base :: addr where "ctrl_base = io_base + 4 * 1024 * 1024"
definition IO_BASE_PA :: "board \<Rightarrow> addr" where
  "IO_BASE_PA b = (case b of QRPI2 \<Rightarrow> 0x3f000000 | RPI \<Rightarrow> 0x20000000)"
definition CTRL_BASE_PA :: addr where "CTRL_BASE_PA = 0x40000000"

definition io_map_req :: "board \<Rightarrow> mmu_map_req" where
  "io_map_req b = \<lparr>mr_n = 4, mr_va_start = io_base, mr_pa_start = IO_BASE_PA b, mr_mt = MT_DEV_SHR, mr_ap = AP_SRW,
     mr_mu = MAP_UNIT_SECTION, mr_flags = bits_on MMR_XN OR bits_on MMR_SHR OR bits_on MMR_AF\<rparr>"

definition io_ctrl_init ::
    "('a mmu_state_scheme \<Rightarrow> ('a mmu_state_scheme \<times> addr) res) \<Rightarrow> ('a mmu_state_scheme \<Rightarrow> addr \<Rightarrow> addr res) \<Rightarrow>
     board \<Rightarrow> mmu_map_req \<Rightarrow> 'a mmu_state_scheme \<Rightarrow> 'a mmu_state_scheme res" where
  "io_ctrl_init sa p2v b r st =
    (case b of
       QRPI2 \<Rightarrow> mmu_map sa p2v (r\<lparr>mr_n := 1, mr_va_start := ctrl_base, mr_pa_start := CTRL_BASE_PA\<rparr>) st
     | RPI \<Rightarrow> Inr st)"

definition io_init ::
    "('a mmu_state_scheme \<Rightarrow> ('a mmu_state_scheme \<times> addr) res) \<Rightarrow> ('a mmu_state_scheme \<Rightarrow> addr \<Rightarrow> addr res) \<Rightarrow>
     board \<Rightarrow> 'a mmu_state_scheme \<Rightarrow> 'a mmu_state_scheme res" where
  "io_init sa p2v b st =
    (let r = io_map_req b in bind_res (mmu_map sa p2v r st) (io_ctrl_init sa p2v b r))"

end
