(* ===== verification/Timer.thy ===== *)
theory Timer
  imports Io
begin

text \<open>
  The periodic timer, src/dev/timer.c, over the two drivers it is built with: the system timer of the
  BCM2835 (src/dev/timer_rpi1.c) and the generic timer of the Cortex-A7 (src/dev/timer_qrpi2.c). The
  interface between them is the locale \<open>timer_hw\<close>; both drivers are interpretations of it. The
  set-up of the interrupt controller, src/dev/intc.c, is here too.
\<close>

section \<open>Interrupt controller\<close>

definition INTC_EN1 :: addr where "INTC_EN1 = 0xb200 + 0x10"
definition INTC_EN2 :: addr where "INTC_EN2 = 0xb200 + 0x14"
definition INTC_EN_BASIC :: addr where "INTC_EN_BASIC = 0xb200 + 0x18"
definition INTC_FIQ :: addr where "INTC_FIQ = 0xb200 + 0xc"

definition INTC_IRQ_STIMER :: field where [fields]: "INTC_IRQ_STIMER = (3, 1)"
definition INTC_IRQ_MBOX :: field where [fields]: "INTC_IRQ_MBOX = (1, 1)"
definition INTC_IRQ_SDHC :: field where [fields]: "INTC_IRQ_SDHC = (30, 1)"
definition INTC_IRQ_VC_UART :: field where [fields]: "INTC_IRQ_VC_UART = (25, 1)"

definition intc_init :: "device \<Rightarrow> board \<Rightarrow> 'a io_state_scheme \<Rightarrow> 'a io_state_scheme" where
  "intc_init dev b st =
    (let st = writel 0 (io_base + INTC_FIQ) st;
         st = set_bits dev (bits_on INTC_IRQ_MBOX) (io_base + INTC_EN_BASIC) st;
         st = set_bits dev (bits_on INTC_IRQ_SDHC OR bits_on INTC_IRQ_VC_UART) (io_base + INTC_EN2) st
     in if b = RPI then set_bits dev (bits_on INTC_IRQ_STIMER) (io_base + INTC_EN1) st else st)"

section \<open>State\<close>

text \<open>\<open>ticks\<close> counts up to the next soft interrupt; more than \<open>2 ^ 31\<close> ticks in between, at one tick per
  second, are left out.\<close>

record timer_state = drv_state +
  tm_freq :: u32
  tm_ticks :: nat
  cntpnsirq_connected :: bool
  tm_enabled :: bool

definition IRQ_HARD_TIMER :: nat where "IRQ_HARD_TIMER = 0"

section \<open>The generic timer\<close>

datatype timer_reg = TMR_FREQ | TMR_TVAL | TMR_CTRL

definition TMR_CTRL_STATUS :: field where [fields]: "TMR_CTRL_STATUS = (2, 1)"

definition timer_reg_write :: "u32 \<Rightarrow> timer_reg \<Rightarrow> 'a io_state_scheme \<Rightarrow> 'a io_state_scheme" where
  "timer_reg_write v r st =
    (case r of TMR_CTRL \<Rightarrow> emit (Wr (Cp15 14 2 1) v) st | TMR_TVAL \<Rightarrow> emit (Wr (Cp15 14 2 0) v) st | _ \<Rightarrow> st)"

definition timer_reg_read :: "device \<Rightarrow> timer_reg \<Rightarrow> 'a io_state_scheme \<Rightarrow> 'a io_state_scheme \<times> u32" where
  "timer_reg_read dev r st =
    (case r of TMR_FREQ \<Rightarrow> read_port dev (Cp15 14 0 0) st | TMR_CTRL \<Rightarrow> read_port dev (Cp15 14 2 1) st | _ \<Rightarrow> (st, - 1))"

definition qrpi2_timer_freq :: "device \<Rightarrow> 'a timer_state_scheme \<Rightarrow> 'a timer_state_scheme \<times> u32" where
  "qrpi2_timer_freq dev = timer_reg_read dev TMR_FREQ"

definition qrpi2_timer_disable :: "device \<Rightarrow> 'a timer_state_scheme \<Rightarrow> 'a timer_state_scheme" where
  "qrpi2_timer_disable dev st =
    (if tm_enabled st
     then (case timer_reg_read dev TMR_CTRL st of (st, v) \<Rightarrow>
       (timer_reg_write (v AND NOT 1) TMR_CTRL st)\<lparr>tm_enabled := False\<rparr>)
     else st)"

definition qrpi2_timer_enable :: "device \<Rightarrow> 'a timer_state_scheme \<Rightarrow> 'a timer_state_scheme" where
  "qrpi2_timer_enable dev st =
    (let st = (if \<not> cntpnsirq_connected st
               then (set_bits dev (push_bit 1 1) (ctrl_base + 0x40) st)\<lparr>cntpnsirq_connected := True\<rparr> else st)
     in if \<not> tm_enabled st
        then (case timer_reg_read dev TMR_CTRL st of (st, v) \<Rightarrow>
          (timer_reg_write (v OR 1) TMR_CTRL st)\<lparr>tm_enabled := True\<rparr>)
        else st)"

definition qrpi2_timer_is_asserted :: "device \<Rightarrow> 'a timer_state_scheme \<Rightarrow> 'a timer_state_scheme \<times> bool" where
  "qrpi2_timer_is_asserted dev st =
    (case timer_reg_read dev TMR_CTRL st of (st, v) \<Rightarrow> (st, bits_get v TMR_CTRL_STATUS \<noteq> 0))"

definition qrpi2_timer_rearm :: "device \<Rightarrow> u32 \<Rightarrow> 'a timer_state_scheme \<Rightarrow> 'a timer_state_scheme" where
  "qrpi2_timer_rearm dev f = timer_reg_write f TMR_TVAL"

section \<open>The system timer\<close>

definition TMR_CS :: addr where "TMR_CS = 0x3000"
definition TMR_CLO :: addr where "TMR_CLO = 0x3000 + 0x4"
definition TMR_C3 :: addr where "TMR_C3 = 0x3000 + 0x18"
definition TMR_CS_M3 :: field where [fields]: "TMR_CS_M3 = (3, 1)"

definition rpi1_timer_freq :: "device \<Rightarrow> 'a timer_state_scheme \<Rightarrow> 'a timer_state_scheme \<times> u32" where
  "rpi1_timer_freq dev st = (st, 1000000)"

definition rpi1_timer_disable :: "device \<Rightarrow> 'a timer_state_scheme \<Rightarrow> 'a timer_state_scheme" where
  "rpi1_timer_disable dev = writel 0 (io_base + TMR_C3)"

definition rpi1_timer_enable :: "device \<Rightarrow> 'a timer_state_scheme \<Rightarrow> 'a timer_state_scheme" where
  "rpi1_timer_enable dev st = st"

definition rpi1_timer_is_asserted :: "device \<Rightarrow> 'a timer_state_scheme \<Rightarrow> 'a timer_state_scheme \<times> bool" where
  "rpi1_timer_is_asserted dev st =
    (case readl dev (io_base + TMR_CS) st of (st, v) \<Rightarrow>
      if bits_get v TMR_CS_M3 \<noteq> 0 then (writel (bits_on TMR_CS_M3) (io_base + TMR_CS) st, True) else (st, False))"

definition rpi1_timer_rearm :: "device \<Rightarrow> u32 \<Rightarrow> 'a timer_state_scheme \<Rightarrow> 'a timer_state_scheme" where
  "rpi1_timer_rearm dev f st =
    (case readl dev (io_base + TMR_CLO) st of (st, v) \<Rightarrow> writel (v + f) (io_base + TMR_C3) st)"

section \<open>The driver that is linked\<close>

definition timer_freq :: "board \<Rightarrow> device \<Rightarrow> 'a timer_state_scheme \<Rightarrow> 'a timer_state_scheme \<times> u32" where
  "timer_freq b = (case b of RPI \<Rightarrow> rpi1_timer_freq | QRPI2 \<Rightarrow> qrpi2_timer_freq)"
definition timer_disable :: "board \<Rightarrow> device \<Rightarrow> 'a timer_state_scheme \<Rightarrow> 'a timer_state_scheme" where
  "timer_disable b = (case b of RPI \<Rightarrow> rpi1_timer_disable | QRPI2 \<Rightarrow> qrpi2_timer_disable)"
definition timer_enable :: "board \<Rightarrow> device \<Rightarrow> 'a timer_state_scheme \<Rightarrow> 'a timer_state_scheme" where
  "timer_enable b = (case b of RPI \<Rightarrow> rpi1_timer_enable | QRPI2 \<Rightarrow> qrpi2_timer_enable)"
definition timer_is_asserted :: "board \<Rightarrow> device \<Rightarrow> 'a timer_state_scheme \<Rightarrow> 'a timer_state_scheme \<times> bool" where
  "timer_is_asserted b = (case b of RPI \<Rightarrow> rpi1_timer_is_asserted | QRPI2 \<Rightarrow> qrpi2_timer_is_asserted)"
definition timer_rearm :: "board \<Rightarrow> device \<Rightarrow> u32 \<Rightarrow> 'a timer_state_scheme \<Rightarrow> 'a timer_state_scheme" where
  "timer_rearm b = (case b of RPI \<Rightarrow> rpi1_timer_rearm | QRPI2 \<Rightarrow> qrpi2_timer_rearm)"

section \<open>The handlers\<close>

datatype irqh_ret = IRQH_RET_NONE | IRQH_RET_HANDLED_SOFT

text \<open>\<open>timer_irq_soft\<close> reads and clears the counter with interrupts disabled, then tells the scheduler.\<close>

definition timer_irq ::
    "('s timer_state_scheme \<Rightarrow> 's timer_state_scheme \<times> bool) \<Rightarrow>
     (u32 \<Rightarrow> 's timer_state_scheme \<Rightarrow> 's timer_state_scheme) \<Rightarrow>
     's timer_state_scheme \<Rightarrow> 's timer_state_scheme \<times> irqh_ret" where
  "timer_irq is_asserted rearm st =
    (case is_asserted st of (st, asserted) \<Rightarrow>
      if \<not> asserted then (st, IRQH_RET_NONE)
      else let st = st\<lparr>tm_ticks := tm_ticks st + 1, sch := irq_soft_raise IRQ_SOFT_TIMER (sch st)\<rparr>
           in (rearm (tm_freq st) st, IRQH_RET_HANDLED_SOFT))"

definition timer_exchange :: "'a timer_state_scheme \<Rightarrow> 'a timer_state_scheme \<times> nat" where
  "timer_exchange st = (st\<lparr>tm_ticks := 0\<rparr>, tm_ticks st)"

definition timer_deliver :: "nat \<Rightarrow> 'a timer_state_scheme \<Rightarrow> 'a timer_state_scheme" where
  "timer_deliver lt st = st\<lparr>sch := sched_timer_tick_soft lt (sch st)\<rparr>"

definition timer_irq_soft :: "'a timer_state_scheme \<Rightarrow> 'a timer_state_scheme" where
  "timer_irq_soft st = (case timer_exchange st of (st, lt) \<Rightarrow> timer_deliver lt st)"

definition timer_init :: "board \<Rightarrow> device \<Rightarrow> 'a timer_state_scheme handlers \<Rightarrow> 'a timer_state_scheme handlers \<Rightarrow>
    'a timer_state_scheme \<Rightarrow>
    ('a timer_state_scheme handlers \<times> 'a timer_state_scheme handlers \<times> 'a timer_state_scheme) res" where
  "timer_init b dev hard soft st =
    (let st = timer_disable b dev (st\<lparr>tm_ticks := 0\<rparr>)
     in bind_res (irq_hard_insert IRQ_HARD_TIMER
            (\<lambda>st. Inr (fst (timer_irq (timer_is_asserted b dev) (timer_rearm b dev) st))) hard) (\<lambda>hard.
          bind_res (irq_soft_insert IRQ_SOFT_TIMER (\<lambda>st. Inr (timer_irq_soft st)) soft) (\<lambda>soft.
            case timer_freq b dev st of (st, f) \<Rightarrow> Inr (hard, soft, st\<lparr>tm_freq := f div of_nat HZ\<rparr>))))"

definition timer_start :: "board \<Rightarrow> device \<Rightarrow> 'a timer_state_scheme \<Rightarrow> 'a timer_state_scheme" where
  "timer_start b dev st = timer_enable b dev (timer_rearm b dev (tm_freq st) st)"

section \<open>The interface and its two providers\<close>

text \<open>What the handlers rely on: asking and rearming touch the device only, and whether the timer is asserted
  depends on the device only.\<close>

locale timer_hw =
  fixes is_asserted :: "'s timer_state_scheme \<Rightarrow> 's timer_state_scheme \<times> bool"
    and rearm :: "u32 \<Rightarrow> 's timer_state_scheme \<Rightarrow> 's timer_state_scheme"
    and pending :: "io_event list \<Rightarrow> bool"
  assumes asks: "\<exists>l. is_asserted st = (st\<lparr>io_log := l\<rparr>, pending (io_log st))"
    and rearms: "\<exists>l. rearm f st = st\<lparr>io_log := l\<rparr>"
begin

lemma irq_asserted:
  assumes "pending (io_log st)"
  shows "\<exists>l. timer_irq is_asserted rearm st = (st\<lparr>tm_ticks := tm_ticks st + 1,
    sch := irq_soft_raise IRQ_SOFT_TIMER (sch st), io_log := l\<rparr>, IRQH_RET_HANDLED_SOFT)"
proof -
  obtain l where "is_asserted st = (st\<lparr>io_log := l\<rparr>, pending (io_log st))" using asks by blast
  then show ?thesis
    using assms rearms [of "tm_freq st" "st\<lparr>io_log := l, tm_ticks := tm_ticks st + 1, sch := irq_soft_raise IRQ_SOFT_TIMER (sch st)\<rparr>"]
    by (auto simp: timer_irq_def)
qed

lemma irq_other:
  assumes "\<not> pending (io_log st)"
  shows "\<exists>l. timer_irq is_asserted rearm st = (st\<lparr>io_log := l\<rparr>, IRQH_RET_NONE)"
  using assms asks [of st] by (auto simp: timer_irq_def)

end

definition qrpi2_pending :: "device \<Rightarrow> io_event list \<Rightarrow> bool" where
  "qrpi2_pending dev l = (bits_get (dev l (Cp15 14 2 1)) TMR_CTRL_STATUS \<noteq> 0)"

definition rpi1_pending :: "device \<Rightarrow> io_event list \<Rightarrow> bool" where
  "rpi1_pending dev l = (bits_get (dev l (Mmio (io_base + TMR_CS))) TMR_CS_M3 \<noteq> 0)"

lemmas io_defs = readl_def read_port_def writel_def emit_def Let_def

interpretation qrpi2: timer_hw "qrpi2_timer_is_asserted dev" "qrpi2_timer_rearm dev" "qrpi2_pending dev" for dev
  by unfold_locales
    (auto simp: qrpi2_timer_is_asserted_def qrpi2_timer_rearm_def qrpi2_pending_def timer_reg_read_def timer_reg_write_def io_defs)

interpretation rpi1: timer_hw "rpi1_timer_is_asserted dev" "rpi1_timer_rearm dev" "rpi1_pending dev" for dev
  by unfold_locales
    (auto simp: rpi1_timer_is_asserted_def rpi1_timer_rearm_def rpi1_pending_def io_defs)

section \<open>Interleavings of the handlers\<close>

text \<open>A hard interrupt can come between any two of the steps of the soft interrupt: taking the bit in
  \<open>irq_soft\<close>, the exchange, and the call of the scheduler. The number counts the hard interrupts that
  found the timer asserted.\<close>

datatype soft_pc = Idle | Taken | Have nat

definition board_pending :: "board \<Rightarrow> device \<Rightarrow> io_event list \<Rightarrow> bool" where
  "board_pending b = (case b of RPI \<Rightarrow> rpi1_pending | QRPI2 \<Rightarrow> qrpi2_pending)"

inductive ticking :: "board \<Rightarrow> device \<Rightarrow> timer_state \<Rightarrow> nat \<Rightarrow> timer_state \<Rightarrow> soft_pc \<Rightarrow> bool"
  for b dev st0 where
  start: "ticking b dev st0 0 st0 Idle"
| hard: "ticking b dev st0 n st pc \<Longrightarrow> fst (timer_irq (timer_is_asserted b dev) (timer_rearm b dev) st) = st' \<Longrightarrow>
    ticking b dev st0 (if board_pending b dev (io_log st) then n + 1 else n) st' pc"
| take: "ticking b dev st0 n st Idle \<Longrightarrow> bit (irq_soft_mask (sch st)) IRQ_SOFT_TIMER \<Longrightarrow>
    ticking b dev st0 n (st\<lparr>sch := irq_soft_clear IRQ_SOFT_TIMER (sch st)\<rparr>) Taken"
| exchange: "ticking b dev st0 n st Taken \<Longrightarrow> timer_exchange st = (st', lt) \<Longrightarrow> ticking b dev st0 n st' (Have lt)"
| deliver: "ticking b dev st0 n st (Have lt) \<Longrightarrow> ticking b dev st0 n (timer_deliver lt st) Idle"

inductive_cases ticking_haveE: "ticking b dev st0 n st (Have lt)"

definition unserved :: "soft_pc \<Rightarrow> nat" where
  "unserved pc = (case pc of Have lt \<Rightarrow> lt | _ \<Rightarrow> 0)"

lemma unserved_simps [simp]: "unserved Idle = 0" "unserved Taken = 0" "unserved (Have n) = n"
  by (simp_all add: unserved_def)

lemma irq_mask_ticks [simp]:
  "timer_ticks (irq_soft_raise i s) = timer_ticks s" "timer_ticks (irq_soft_clear i s) = timer_ticks s"
  "timer_ticks (sched_timer_tick_soft n s) = (timer_ticks s + n) mod 32"
  "irq_soft_mask (sched_timer_tick_soft n s) = irq_soft_mask s"
  by (simp_all add: irq_soft_raise_def irq_soft_clear_def sched_timer_tick_soft_def SCHED_MAX_TOUT_TICKS_def
      irq_sched_raise_def upd_thr_def Let_def)

lemma raised_bit: "bit (irq_soft_mask (irq_soft_raise IRQ_SOFT_TIMER s)) IRQ_SOFT_TIMER"
  by (simp add: irq_soft_raise_def IRQ_SOFT_TIMER_def bit_or_iff)

lemma board_irq:
  "\<exists>l. fst (timer_irq (timer_is_asserted b dev) (timer_rearm b dev) st) =
    (if board_pending b dev (io_log st)
     then st\<lparr>tm_ticks := tm_ticks st + 1, sch := irq_soft_raise IRQ_SOFT_TIMER (sch st), io_log := l\<rparr>
     else st\<lparr>io_log := l\<rparr>)"
proof (cases b)
  case RPI
  then show ?thesis
    using rpi1.irq_asserted [of dev st] rpi1.irq_other [of dev st]
    by (cases "rpi1_pending dev (io_log st)") (auto simp: timer_is_asserted_def timer_rearm_def board_pending_def)
next
  case QRPI2
  then show ?thesis
    using qrpi2.irq_asserted [of dev st] qrpi2.irq_other [of dev st]
    by (cases "qrpi2_pending dev (io_log st)") (auto simp: timer_is_asserted_def timer_rearm_def board_pending_def)
qed

text \<open>C24: No tick is lost. Whatever the order of hard interrupts and the steps of the soft interrupt, on either
  board, the ticks the scheduler has been told, those the soft interrupt holds and those still counted add
  up (modulo the 32 slots) to the interrupts that found the timer asserted, and as long as ticks are counted
  the soft interrupt is raised or about to take them.\<close>

theorem no_tick_lost:
  assumes "ticking b dev st0 n st pc" and "tm_ticks st0 = 0"
  shows "(timer_ticks (sch st) + unserved pc + tm_ticks st) mod 32 = (timer_ticks (sch st0) + n) mod 32
    \<and> (tm_ticks st \<noteq> 0 \<longrightarrow> bit (irq_soft_mask (sch st)) IRQ_SOFT_TIMER \<or> pc = Taken)"
  using assms(1)
proof induction
  case start
  then show ?case using assms(2) by simp
next
  case (hard n st pc st')
  obtain l where l: "st' = (if board_pending b dev (io_log st)
     then st\<lparr>tm_ticks := tm_ticks st + 1, sch := irq_soft_raise IRQ_SOFT_TIMER (sch st), io_log := l\<rparr>
     else st\<lparr>io_log := l\<rparr>)" using board_irq [of b dev st] hard.hyps(2) by auto
  show ?case
  proof (cases "board_pending b dev (io_log st)")
    case True
    have "(timer_ticks (sch st) + unserved pc + tm_ticks st + 1) mod 32 = (timer_ticks (sch st0) + n + 1) mod 32"
      using hard.IH by (metis mod_add_left_eq)
    then show ?thesis using True l raised_bit [of "sch st"] by (simp add: ac_simps)
  next
    case False
    then show ?thesis using l hard.IH by simp
  qed
next
  case (exchange n st st' lt)
  then show ?case by (auto simp: timer_exchange_def)
next
  case (deliver n st lt)
  then show ?case by (simp add: timer_deliver_def mod_add_left_eq)
qed simp

text \<open>A state before the first interrupt, for the examples.\<close>

definition timer0 :: timer_state where
  "timer0 = \<lparr>io_log = [], sch = sched0, tm_freq = 1000, tm_ticks = 0, cntpnsirq_connected = False, tm_enabled = False\<rparr>"

theorem no_tick_lost_witness:
  "\<exists>st pc. ticking RPI (\<lambda>_ _. 8) timer0 2 st pc \<and> (timer_ticks (sch st) + unserved pc + tm_ticks st) mod 32 = 1"
proof -
  let ?irq = "\<lambda>st. fst (timer_irq (timer_is_asserted RPI (\<lambda>_ _. 8)) (timer_rearm RPI (\<lambda>_ _. 8)) st)"
  have p: "board_pending RPI (\<lambda>_ _. 8) l" for l
    by (simp add: board_pending_def rpi1_pending_def fields bits_get_def bits_extract_def bits_mask_def)
  have t: "ticking RPI (\<lambda>_ _. 8) timer0 2 (?irq (?irq timer0)) Idle"
    using ticking.hard [OF ticking.hard [OF ticking.start refl] refl, of RPI "\<lambda>_ _. 8" timer0] p
    by (simp add: numeral_2_eq_2)
  have "(timer_ticks (sch timer0) + 2) mod 32 = 1" "tm_ticks timer0 = 0" by (simp_all add: timer0_def sched0_def)
  with no_tick_lost [OF t] t show ?thesis by (intro exI [of _ "?irq (?irq timer0)"] exI [of _ Idle]) simp
qed

end
