(* ===== verification/Work.thy ===== *)
theory Work
  imports DList Timer
begin

text \<open>
  Work queues, src/kernel/work.c: \<open>wq_work_add\<close> links a work into a list and wakes the worker, which copies the
  head of the list, empties it, and goes through the copy. The lists are the linked cells of DList, because the copy
  is where the pointers matter.
\<close>

section \<open>State\<close>

text \<open>The members of \<open>struct work_queue\<close> at their offsets; \<open>struct work\<close> starts with its list entry. The works
  that exist are a table from addresses to what \<open>fn(p)\<close> does.\<close>

record work_state = timer_state +
  lh :: lheap
  wq_cond :: "addr \<Rightarrow> u32"
  wq_thread :: "addr \<Rightarrow> tid"

definition waitq :: "addr \<Rightarrow> wqid" where "waitq wq = WaitQ (unat wq)"
definition workq :: "addr \<Rightarrow> addr" where "workq wq = wq + 8"

type_synonym 's works = "addr \<Rightarrow> 's handler option"

section \<open>Operations\<close>

text \<open>\<open>t\<close> is the thread that \<open>sched_thread_create\<close> makes.\<close>

definition wq_init :: "tid \<Rightarrow> addr \<Rightarrow> 'a work_state_scheme \<Rightarrow> 'a work_state_scheme" where
  "wq_init t wq st =
    (let s = sch st
     in st\<lparr>sch := sched_thread_create t (s\<lparr>wqs := (wqs s)(waitq wq := [])\<rparr>), wq_thread := (wq_thread st)(wq := t)\<rparr>)"

definition wq_work_add :: "sched handlers \<Rightarrow> addr \<Rightarrow> addr \<Rightarrow> 'a work_state_scheme \<Rightarrow> 'a work_state_scheme res" where
  "wq_work_add tab wq w st =
    (let t = current (sch st); s = fst (irq_sched_disable t (sch st));
         st = st\<lparr>wq_cond := (wq_cond st)(wq := 1)\<rparr>;
         st = st\<lparr>lh := list_add_tail w (workq wq) (lh st)\<rparr>
     in bind_res (irq_sched_enable tab t s) (\<lambda>s.
          bind_res (wake_up tab (waitq wq) s) (\<lambda>s. Inr (st\<lparr>sch := s\<rparr>))))"

text \<open>The worker after \<open>wait_event\<close>: the head is copied to the worker's stack at \<open>lwq\<close>.\<close>

definition wq_take :: "addr \<Rightarrow> addr \<Rightarrow> 'a work_state_scheme \<Rightarrow> 'a work_state_scheme" where
  "wq_take lwq wq st =
    (let st = st\<lparr>wq_cond := (wq_cond st)(wq := 0)\<rparr>;
         h = (lh st)(lwq := lh st (workq wq))
     in st\<lparr>lh := init_list_head (workq wq) h\<rparr>)"

partial_function (option) wq_walk ::
    "'a work_state_scheme works \<Rightarrow> addr \<Rightarrow> addr \<Rightarrow> 'a work_state_scheme \<Rightarrow> 'a work_state_scheme res option" where
  "wq_walk works lwq e st =
    (if e = lwq then Some (Inr st)
     else case works e of
            None \<Rightarrow> Some (Inl Wild)
          | Some fn \<Rightarrow> (case fn st of Inl x \<Rightarrow> Some (Inl x) | Inr st \<Rightarrow> wq_walk works lwq (lnext (lh st e)) st))"

declare wq_walk.simps [code]

definition wq_worker_round ::
    "'a work_state_scheme works \<Rightarrow> addr \<Rightarrow> addr \<Rightarrow> 'a work_state_scheme \<Rightarrow> 'a work_state_scheme res option" where
  "wq_worker_round works lwq wq st =
    (let st = wq_take lwq wq st in wq_walk works lwq (lnext (lh st lwq)) st)"

section \<open>The worker does not find the end of its copy\<close>

text \<open>Pointers that never lead to the head on the stack keep the loop from ending.\<close>

lemma wq_walk_closed:
  assumes "wq_walk works lwq e st = Some r" and "e \<in> S" and "lwq \<notin> S" and "\<forall>a\<in>S. lnext (lh st a) \<in> S"
    and "\<forall>a fn s s'. works a = Some fn \<longrightarrow> fn s = Inr s' \<longrightarrow> lh s' = lh s"
  shows "\<exists>x. r = Inl x"
  using assms
proof (induction arbitrary: S rule: wq_walk.raw_induct [rotated 1, consumes 1, case_names loop])
  case (loop walk works lwq e st r)
  have e: "e \<noteq> lwq" using loop.prems by blast
  show ?case
  proof (cases "works e")
    case None
    then show ?thesis using loop(2) e by auto
  next
    case (Some fn)
    show ?thesis
    proof (cases "fn st")
      case (Inl x)
      then have "r = Inl x" using loop(2) e Some by simp
      then show ?thesis by blast
    next
      case (Inr s)
      then have w: "walk works lwq (lnext (lh s e)) s = Some r" using loop(2) e Some by simp
      have lh: "lh s = lh st" using loop.prems(4) Some Inr by blast
      show ?thesis
        by (rule loop(1) [OF w, of S]) (use loop.prems lh in auto)
    qed
  qed
qed

lemma linked_next_in: "linked h (xs @ [z]) \<Longrightarrow> a \<in> set xs \<Longrightarrow> lnext (h a) \<in> set (tl (xs @ [z]))"
proof (induction xs)
  case (Cons x xs)
  then show ?case by (cases xs) (auto split: if_splits)
qed simp

lemma taken_closed:
  assumes "dlist (lh st) (workq wq) xs" and "lwq \<notin> set (workq wq # xs)"
  shows "\<forall>a\<in>set (workq wq # xs). lnext (lh (wq_take lwq wq st) a) \<in> set (workq wq # xs)"
proof
  fix a
  assume a: "a \<in> set (workq wq # xs)"
  show "lnext (lh (wq_take lwq wq st) a) \<in> set (workq wq # xs)"
  proof (cases "a = workq wq")
    case True
    then show ?thesis by (simp add: wq_take_def init_list_head_def)
  next
    case False
    then have x: "a \<in> set xs" "a \<noteq> lwq" using a assms(2) by auto
    have l: "linked (lh st) ((workq wq # xs) @ [workq wq])" using assms(1) by (simp add: dlist_def)
    have "lnext (lh st a) \<in> set (tl ((workq wq # xs) @ [workq wq]))" using linked_next_in [OF l] x by simp
    then show ?thesis using False x by (simp add: wq_take_def init_list_head_def)
  qed
qed

text \<open>The worker never comes back to \<open>wait_event\<close>. It copies the head of the list of works by value, but the last work
  still points to the head in the queue, not to the copy; so the loop, which ends at the copy, passes the end and
  treats the head itself as a work. No run of it ends normally, whatever the works do, as long as they leave
  the links alone; and where the queue is no work, the jump is wild.\<close>

theorem worker_never_returns:
  assumes "dlist (lh st) (workq wq) xs" and "lwq \<notin> set (workq wq # xs)"
    and "\<forall>a fn s s'. works a = Some fn \<longrightarrow> fn s = Inr s' \<longrightarrow> lh s' = lh s"
  shows "wq_worker_round works lwq wq st \<noteq> Some (Inr st')"
proof
  let ?t = "wq_take lwq wq st"
  have ne: "lwq \<noteq> workq wq" using assms(2) by auto
  have "lnext (lh st (workq wq)) \<in> set (workq wq # xs)"
    using dlist_next [OF assms(1)] by (auto split: list.splits)
  then have e: "lnext (lh ?t lwq) \<in> set (workq wq # xs)" using ne by (simp add: wq_take_def init_list_head_def)
  assume "wq_worker_round works lwq wq st = Some (Inr st')"
  then have "wq_walk works lwq (lnext (lh ?t lwq)) ?t = Some (Inr st')" by (simp add: wq_worker_round_def Let_def)
  from wq_walk_closed [OF this e assms(2) taken_closed [OF assms(1,2)] assms(3)] show False by simp
qed

text \<open>\<open>wq_init\<close> does not initialise the list of works: in the zeroed memory of \<open>ioc_wq\<close>, the first work is linked behind
  the cell at address 0.\<close>

lemma first_work_written_to_null:
  assumes "lh st (workq wq) = \<lparr>lprev = 0, lnext = 0\<rparr>" and "workq wq \<noteq> 0" and "w \<noteq> 0" and "w \<noteq> workq wq"
    and "wq_work_add tab wq w (wq_init t wq st) = Inr st'"
  shows "lnext (lh st' 0) = w \<and> lnext (lh st' (workq wq)) = 0"
  using assms by (auto simp: wq_work_add_def wq_init_def Let_def bind_res_Inr list_add_tail_def list_add_between_def)

text \<open>A queue with one work, for the example.\<close>

definition work0 :: work_state where
  "work0 = \<lparr>io_log = [], sch = sched0, tm_freq = 0, tm_ticks = 0, cntpnsirq_connected = False, tm_enabled = False,
     lh = list_add_tail 0x100 (workq 0x40) (init_list_head (workq 0x40) (\<lambda>_. \<lparr>lprev = 0, lnext = 0\<rparr>)),
     wq_cond = (\<lambda>_. 1), wq_thread = (\<lambda>_. 0)\<rparr>"

theorem worker_never_returns_witness:
  "\<forall>st'. wq_worker_round (\<lambda>a. if a = 0x100 then Some Inr else None) 0x200 0x40 work0 \<noteq> Some (Inr st')"
proof (rule allI, rule worker_never_returns)
  show "dlist (lh work0) (workq 0x40) [0x100]"
    using dlist_add_tail [OF dlist_init, of "0x100" "workq 0x40"] by (simp add: work0_def workq_def)
qed (auto simp: workq_def split: if_splits)

end
