(* ===== verification/Ioreq.thy ===== *)
theory Ioreq
  imports Work
begin

text \<open>
  Queues of I/O requests, src/kernel/ioreq.c: a driver has one queue, requests are started one at a time in the
  order of their submission, and the interrupt that completes one starts the next. What a driver does to start
  a request is an argument; the locale \<open>io_driver\<close> says what the queue needs of it.

  \<open>lock_sched_lock\<close> makes the part it protects one step; interrupt handlers that run when it is released come
  after the step.
\<close>

section \<open>Requests and queues\<close>

datatype ior_type = IOR_TYPE_READ | IOR_TYPE_WRITE | IOR_TYPE_IOCTL

record io_req =
  ir_type :: ior_type
  ir_async :: bool
  ir_done :: bool
  ir_status :: int
  ir_cmd :: nat
  ir_arg :: addr

record io_req_queue =
  q_in :: "addr list"
  q_busy :: int

record ioq_state = work_state +
  reqs :: "addr \<Rightarrow> io_req"
  ioqs :: "addr \<Rightarrow> io_req_queue"

type_synonym 's ioq_fn = "addr \<Rightarrow> 's \<Rightarrow> 's res"

text \<open>The one queue for completions of asynchronous requests, and the union \<open>ioc\<close> of a request: a work or a list of
  waiting threads.\<close>

definition ioc_wq :: addr where "ioc_wq = 0x40010000"
definition ioc_work :: "addr \<Rightarrow> addr" where "ioc_work r = r + 24"
definition ioc_wait :: "addr \<Rightarrow> wqid" where "ioc_wait r = WaitQ (unat (r + 24))"

definition upd_req :: "addr \<Rightarrow> (io_req \<Rightarrow> io_req) \<Rightarrow> 'a ioq_state_scheme \<Rightarrow> 'a ioq_state_scheme" where
  "upd_req r f st = st\<lparr>reqs := (reqs st)(r := f (reqs st r))\<rparr>"

definition upd_ioq :: "addr \<Rightarrow> (io_req_queue \<Rightarrow> io_req_queue) \<Rightarrow> 'a ioq_state_scheme \<Rightarrow> 'a ioq_state_scheme" where
  "upd_ioq q f st = st\<lparr>ioqs := (ioqs st)(q := f (ioqs st q))\<rparr>"

section \<open>Operations\<close>

definition ioq_init :: "addr \<Rightarrow> 'a ioq_state_scheme \<Rightarrow> 'a ioq_state_scheme" where
  "ioq_init q = upd_ioq q (\<lambda>_. \<lparr>q_in = [], q_busy = 0\<rparr>)"

definition ioq_ior_next :: "addr \<Rightarrow> 'a ioq_state_scheme \<Rightarrow> 'a ioq_state_scheme \<times> addr option" where
  "ioq_ior_next q st =
    (if q_busy (ioqs st q) = 0 \<and> q_in (ioqs st q) \<noteq> []
     then let st = upd_ioq q (\<lambda>x. x\<lparr>q_busy := q_busy x + 1\<rparr>) st in (st, Some (hd (q_in (ioqs st q))))
     else (st, None))"

definition ioq_ior_run :: "'a ioq_state_scheme ioq_fn \<Rightarrow> addr option \<Rightarrow> 'a ioq_state_scheme \<Rightarrow> 'a ioq_state_scheme res" where
  "ioq_ior_run ioctl ior st =
    (case ior of
       None \<Rightarrow> Inr st
     | Some r \<Rightarrow> (case ir_type (reqs st r) of IOR_TYPE_IOCTL \<Rightarrow> ioctl r st | _ \<Rightarrow> Inl (Assert ''ioreq.c:81'')))"

definition ioq_ior_dequeue_sched :: "addr \<Rightarrow> 'a ioq_state_scheme \<Rightarrow> ('a ioq_state_scheme \<times> addr) res" where
  "ioq_ior_dequeue_sched q st =
    (let st = upd_ioq q (\<lambda>x. x\<lparr>q_busy := q_busy x - 1\<rparr>) st
     in case q_in (ioqs st q) of
          [] \<Rightarrow> Inl (Assert ''list.c:63'')
        | r # rs \<Rightarrow> Inr (upd_ioq q (\<lambda>x. x\<lparr>q_in := rs\<rparr>) st, r))"

definition ioq_ior_done_sched ::
    "sched handlers \<Rightarrow> 'a ioq_state_scheme ioq_fn \<Rightarrow> addr \<Rightarrow> addr \<Rightarrow> 'a ioq_state_scheme \<Rightarrow> 'a ioq_state_scheme res" where
  "ioq_ior_done_sched tab ioctl q r st =
    (let st = upd_req r (\<lambda>x. x\<lparr>ir_done := True\<rparr>) st
     in bind_res
       (if ir_async (reqs st r) then wq_work_add tab ioc_wq (ioc_work r) st
        else bind_res (wake_up_preempt_disabled (ioc_wait r) (sch st)) (\<lambda>s. Inr (st\<lparr>sch := s\<rparr>)))
       (\<lambda>st. case ioq_ior_next q st of (st, ior) \<Rightarrow> ioq_ior_run ioctl ior st))"

definition ioq_ior_submit :: "'a ioq_state_scheme ioq_fn \<Rightarrow> addr \<Rightarrow> addr \<Rightarrow> 'a ioq_state_scheme \<Rightarrow> 'a ioq_state_scheme res" where
  "ioq_ior_submit ioctl q r st =
    (let st = upd_req r (\<lambda>x. x\<lparr>ir_done := False\<rparr>) st;
         st = (if \<not> ir_async (reqs st r) then st\<lparr>sch := (sch st)\<lparr>wqs := (wqs (sch st))(ioc_wait r := [])\<rparr>\<rparr> else st);
         st = upd_ioq q (\<lambda>x. x\<lparr>q_in := q_in x @ [r]\<rparr>) st
     in case ioq_ior_next q st of (st, ior) \<Rightarrow> ioq_ior_run ioctl ior st)"

text \<open>Waiting: as long as the request is not done the thread sleeps; \<open>sleep\<close> is everything that happens until it runs
  again.\<close>

partial_function (option) ioq_wait_loop ::
    "('a ioq_state_scheme \<Rightarrow> 'a ioq_state_scheme res) \<Rightarrow> addr \<Rightarrow> 'a ioq_state_scheme \<Rightarrow> 'a ioq_state_scheme res option" where
  "ioq_wait_loop sleep r st =
    (if ir_done (reqs st r) then Some (Inr st)
     else case sleep st of Inl e \<Rightarrow> Some (Inl e) | Inr st \<Rightarrow> ioq_wait_loop sleep r st)"

declare ioq_wait_loop.simps [code]

definition ioq_ior_wait :: "('a ioq_state_scheme \<Rightarrow> 'a ioq_state_scheme res) \<Rightarrow> addr \<Rightarrow> 'a ioq_state_scheme \<Rightarrow> 'a ioq_state_scheme res" where
  "ioq_ior_wait sleep r st =
    assert_that ''ioreq.c:128'' (\<not> ir_async (reqs st r)) (run_loop (ioq_wait_loop sleep r st))"

definition ioreq_init :: "tid \<Rightarrow> 'a ioq_state_scheme \<Rightarrow> 'a ioq_state_scheme" where
  "ioreq_init t = wq_init t ioc_wq"

section \<open>One request at a time, first in, first out\<close>

text \<open>What the threads and the completion interrupt do to a queue.\<close>

datatype ioq_op = Submit addr | Complete

fun ioq_step :: "sched handlers \<Rightarrow> 'a ioq_state_scheme ioq_fn \<Rightarrow> addr \<Rightarrow> ioq_op \<Rightarrow> 'a ioq_state_scheme \<Rightarrow> 'a ioq_state_scheme res" where
  "ioq_step tab ioctl q (Submit r) st = ioq_ior_submit ioctl q r st"
| "ioq_step tab ioctl q Complete st =
    bind_res (ioq_ior_dequeue_sched q st) (\<lambda>(st, r). ioq_ior_done_sched tab ioctl q r st)"

fun submitted :: "ioq_op list \<Rightarrow> addr list" where
  "submitted [] = []"
| "submitted (Submit r # ops) = r # submitted ops"
| "submitted (Complete # ops) = submitted ops"

text \<open>A queue between two steps: busy exactly when a request is in it. The first one is with the device.\<close>

definition ioq_wf :: "addr \<Rightarrow> 'a ioq_state_scheme \<Rightarrow> bool" where
  "ioq_wf q st \<longleftrightarrow> q_busy (ioqs st q) = of_bool (q_in (ioqs st q) \<noteq> [])"

text \<open>The variables of the queue and of the requests, apart from \<open>ir_done\<close>.\<close>

lemma ioq_simps [simp]:
  "ioqs (upd_req r f st) = ioqs st" "reqs (upd_ioq q g st) = reqs st"
  "ioqs (upd_ioq q g st) = (ioqs st)(q := g (ioqs st q))" "reqs (upd_req r f st) = (reqs st)(r := f (reqs st r))"
  "io_log (upd_req r f st) = io_log st" "io_log (upd_ioq q g st) = io_log st"
  "sch (upd_req r f st) = sch st" "sch (upd_ioq q g st) = sch st"
  by (simp_all add: upd_req_def upd_ioq_def)

lemma wq_work_add_keeps:
  "wq_work_add tab wq w st = Inr st' \<Longrightarrow> ioqs st' = ioqs st \<and> reqs st' = reqs st \<and> io_log st' = io_log st \<and> more st' = more st"
  by (auto simp: wq_work_add_def Let_def bind_res_Inr)

text \<open>The interface of a driver: starting a request leaves the queues alone and adds one command to the
  trace of the device; \<open>okay\<close> says that \<open>cmds r\<close> is the command of request \<open>r\<close>, and
  nothing but the kind and the argument of the requests and the driver's own variables matters for that.\<close>

locale io_driver =
  fixes ioctl :: "'a ioq_state_scheme ioq_fn"
    and trace :: "io_event list \<Rightarrow> 'b list"
    and cmds :: "addr \<Rightarrow> 'b"
    and okay :: "'a ioq_state_scheme \<Rightarrow> bool"
  assumes okay_cong: "okay st \<Longrightarrow> (\<And>x. ir_cmd (reqs st' x) = ir_cmd (reqs st x)) \<Longrightarrow>
      (\<And>x. ir_arg (reqs st' x) = ir_arg (reqs st x)) \<Longrightarrow> ioq_state.more st' = ioq_state.more st \<Longrightarrow> okay st'"
    and starts: "okay st \<Longrightarrow> ioctl r st = Inr st' \<Longrightarrow>
      ioqs st' = ioqs st \<and> reqs st' = reqs st \<and> okay st' \<and> trace (io_log st') = trace (io_log st) @ [cmds r]"
begin

lemma next_run:
  assumes "okay st" and "(case ioq_ior_next q st of (st, ior) \<Rightarrow> ioq_ior_run ioctl ior st) = Inr st'"
    and "q_busy (ioqs st q) = 0 \<or> (q_busy (ioqs st q) = 1 \<and> q_in (ioqs st q) \<noteq> [])"
  shows "q_in (ioqs st' q) = q_in (ioqs st q) \<and> ioq_wf q st' \<and> okay st' \<and> reqs st' = reqs st
    \<and> trace (io_log st') = trace (io_log st) @
        (if q_busy (ioqs st q) = 0 then map cmds (take 1 (q_in (ioqs st q))) else [])"
proof (cases "q_busy (ioqs st q) = 0 \<and> q_in (ioqs st q) \<noteq> []")
  case True
  then obtain r rs where r: "q_in (ioqs st q) = r # rs" by (cases "q_in (ioqs st q)") auto
  let ?s = "upd_ioq q (\<lambda>x. x\<lparr>q_busy := q_busy x + 1\<rparr>) st"
  have "ioctl r ?s = Inr st'" using assms(2) True r by (auto simp: ioq_ior_next_def ioq_ior_run_def Let_def split: ior_type.splits)
  moreover have "okay ?s"
    by (rule okay_cong [OF assms(1)]) (simp_all add: upd_ioq_def)
  ultimately show ?thesis using starts [of ?s r st'] True r by (auto simp: ioq_wf_def upd_ioq_def)
next
  case False
  then have "st' = st" using assms(2) by (auto simp: ioq_ior_next_def ioq_ior_run_def)
  then show ?thesis using False assms(1,3) by (auto simp: ioq_wf_def)
qed

lemma submit_step:
  assumes "okay st" "ioq_wf q st" "ioq_ior_submit ioctl q r st = Inr st'"
  shows "q_in (ioqs st' q) = q_in (ioqs st q) @ [r]" "ioq_wf q st'" "okay st'"
    "ir_done (reqs st' x) \<longleftrightarrow> x \<noteq> r \<and> ir_done (reqs st x)"
    "trace (io_log st') = trace (io_log st) @ (if q_in (ioqs st q) = [] then [cmds r] else [])"
proof -
  let ?u = "upd_req r (\<lambda>x. x\<lparr>ir_done := False\<rparr>) st"
  let ?s = "if \<not> ir_async (reqs ?u r) then ?u\<lparr>sch := (sch ?u)\<lparr>wqs := (wqs (sch ?u))(ioc_wait r := [])\<rparr>\<rparr> else ?u"
  define t where "t = upd_ioq q (\<lambda>x. x\<lparr>q_in := q_in x @ [r]\<rparr>) ?s"
  have ok: "okay t"
    by (rule okay_cong [OF assms(1)]) (simp_all add: upd_ioq_def upd_req_def t_def)
  have run: "(case ioq_ior_next q t of (st, ior) \<Rightarrow> ioq_ior_run ioctl ior st) = Inr st'"
    using assms(3) unfolding ioq_ior_submit_def Let_def t_def .
  have t: "q_busy (ioqs t q) = of_bool (q_in (ioqs st q) \<noteq> [])" "q_in (ioqs t q) = q_in (ioqs st q) @ [r]"
      "reqs t = (reqs st)(r := (reqs st r)\<lparr>ir_done := False\<rparr>)" "io_log t = io_log st"
    using assms(2) by (simp_all add: ioq_wf_def t_def)
  have n: "q_in (ioqs st' q) = q_in (ioqs t q) \<and> ioq_wf q st' \<and> okay st' \<and> reqs st' = reqs t
    \<and> trace (io_log st') = trace (io_log t) @ (if q_busy (ioqs t q) = 0 then map cmds (take 1 (q_in (ioqs t q))) else [])"
    by (rule next_run [OF ok run], unfold t) simp
  then show "q_in (ioqs st' q) = q_in (ioqs st q) @ [r]" "ioq_wf q st'" "okay st'" using t(2) by auto
  show "ir_done (reqs st' x) \<longleftrightarrow> x \<noteq> r \<and> ir_done (reqs st x)" using n t(3) by simp
  show "trace (io_log st') = trace (io_log st) @ (if q_in (ioqs st q) = [] then [cmds r] else [])"
    using n t by simp
qed

lemma complete_step:
  assumes "okay st" "ioq_wf q st" "ioq_step tab ioctl q Complete st = Inr st'"
  shows "\<exists>r rs. q_in (ioqs st q) = r # rs \<and> q_in (ioqs st' q) = rs \<and> ioq_wf q st' \<and> okay st'
    \<and> (\<forall>x. ir_done (reqs st' x) \<longleftrightarrow> x = r \<or> ir_done (reqs st x))
    \<and> trace (io_log st') = trace (io_log st) @ map cmds (take 1 rs)"
proof -
  obtain r rs where q: "q_in (ioqs st q) = r # rs"
    using assms(3) by (cases "q_in (ioqs st q)") (simp_all add: ioq_ior_dequeue_sched_def Let_def)
  let ?d = "upd_ioq q (\<lambda>x. x\<lparr>q_in := rs\<rparr>) (upd_ioq q (\<lambda>x. x\<lparr>q_busy := q_busy x - 1\<rparr>) st)"
  let ?u = "upd_req r (\<lambda>x. x\<lparr>ir_done := True\<rparr>) ?d"
  have deq: "ioq_ior_dequeue_sched q st = Inr (?d, r)" using q by (simp add: ioq_ior_dequeue_sched_def Let_def)
  obtain s where s: "(if ir_async (reqs ?u r) then wq_work_add tab ioc_wq (ioc_work r) ?u
        else bind_res (wake_up_preempt_disabled (ioc_wait r) (sch ?u)) (\<lambda>s. Inr (?u\<lparr>sch := s\<rparr>))) = Inr s"
    and run: "(case ioq_ior_next q s of (st, ior) \<Rightarrow> ioq_ior_run ioctl ior st) = Inr st'"
    using assms(3) deq unfolding ioq_step.simps ioq_ior_done_sched_def Let_def by (auto simp: bind_res_Inr simp del: ioq_simps)
  have k: "ioqs s = ioqs ?u" "reqs s = reqs ?u" "io_log s = io_log ?u" "ioq_state.more s = ioq_state.more ?u"
    using s wq_work_add_keeps [of tab ioc_wq "ioc_work r" ?u s] by (auto simp: bind_res_Inr split: if_splits)
  have ok: "okay s"
    by (rule okay_cong [OF assms(1)]) (simp_all add: k upd_ioq_def upd_req_def)
  have b: "q_busy (ioqs s q) = 0" "q_in (ioqs s q) = rs" using assms(2) q k(1) by (simp_all add: ioq_wf_def)
  have "q_in (ioqs st' q) = q_in (ioqs s q) \<and> ioq_wf q st' \<and> okay st' \<and> reqs st' = reqs s
    \<and> trace (io_log st') = trace (io_log s) @ (if q_busy (ioqs s q) = 0 then map cmds (take 1 (q_in (ioqs s q))) else [])"
    by (rule next_run [OF ok run]) (simp add: b)
  then show ?thesis using q b k by (intro exI [of _ r] exI [of _ rs]) auto
qed

text \<open>Any run of submissions and completions from an empty queue: the requests complete in the order of their
  submission, the device has got the commands of those that are complete and of the first that is not, and
  a request is done exactly when it is complete.\<close>

lemma requests_in_order:
  assumes "okay st" "ioq_wf q st" "for_each_res (ioq_step tab ioctl q) ops st = Inr st'"
    and "old = cs @ q_in (ioqs st q)" and "trace (io_log st) = tr @ map cmds (cs @ take 1 (q_in (ioqs st q)))"
    and "distinct (old @ submitted ops)" and "\<forall>r\<in>set old. ir_done (reqs st r) \<longleftrightarrow> r \<in> set cs"
  shows "\<exists>cs'. old @ submitted ops = cs' @ q_in (ioqs st' q) \<and> length cs' = length cs + length (filter (\<lambda>p. p = Complete) ops)
    \<and> trace (io_log st') = tr @ map cmds (cs' @ take 1 (q_in (ioqs st' q)))
    \<and> (\<forall>r\<in>set (old @ submitted ops). ir_done (reqs st' r) \<longleftrightarrow> r \<in> set cs') \<and> ioq_wf q st'"
  using assms
proof (induction ops arbitrary: st old cs)
  case Nil
  then show ?case by (intro exI [of _ cs]) simp
next
  case (Cons p ops)
  from Cons.prems(3) obtain s where s: "ioq_step tab ioctl q p st = Inr s" "for_each_res (ioq_step tab ioctl q) ops s = Inr st'"
    by (auto simp: bind_res_Inr)
  show ?case
  proof (cases p)
    case (Submit r)
    have sub: "ioq_ior_submit ioctl q r st = Inr s" using s(1) Submit by simp
    note st = submit_step [OF Cons.prems(1,2) sub]
    have "\<exists>cs'. (old @ [r]) @ submitted ops = cs' @ q_in (ioqs st' q) \<and> length cs' = length cs + length (filter (\<lambda>p. p = Complete) ops)
      \<and> trace (io_log st') = tr @ map cmds (cs' @ take 1 (q_in (ioqs st' q)))
      \<and> (\<forall>r\<in>set ((old @ [r]) @ submitted ops). ir_done (reqs st' r) \<longleftrightarrow> r \<in> set cs') \<and> ioq_wf q st'"
      by (rule Cons.IH [OF st(3,2) s(2)])
        (use Cons.prems st Submit in \<open>auto simp: st(1,4) neq_Nil_conv\<close>)
    then show ?thesis using Submit by simp
  next
    case Complete
    from complete_step [OF Cons.prems(1,2) s(1) [unfolded Complete]] obtain r rs
      where c: "q_in (ioqs st q) = r # rs" "q_in (ioqs s q) = rs" "ioq_wf q s" "okay s"
        "\<forall>x. ir_done (reqs s x) \<longleftrightarrow> x = r \<or> ir_done (reqs st x)"
        "trace (io_log s) = trace (io_log st) @ map cmds (take 1 rs)" by blast
    have "\<exists>cs'. old @ submitted ops = cs' @ q_in (ioqs st' q) \<and> length cs' = length (cs @ [r]) + length (filter (\<lambda>p. p = Complete) ops)
      \<and> trace (io_log st') = tr @ map cmds (cs' @ take 1 (q_in (ioqs st' q)))
      \<and> (\<forall>r\<in>set (old @ submitted ops). ir_done (reqs st' r) \<longleftrightarrow> r \<in> set cs') \<and> ioq_wf q st'"
      by (rule Cons.IH [OF c(4,3) s(2)]) (use Cons.prems c Complete in \<open>auto\<close>)
    then show ?thesis using Complete by simp
  qed
qed

end

section \<open>Asynchronous completion\<close>

text \<open>An asynchronous request cannot be completed. \<open>ioq_ior_done_sched\<close> runs in an interrupt at the level of the
  scheduler, where the counter of the interrupted thread is at least 1; it calls \<open>wq_work_add\<close>, whose \<open>wake_up\<close>
  asserts that it is the first to disable preemption.\<close>

theorem async_completion_asserts:
  assumes "ir_async (reqs st r)" and "1 \<le> t_sched (thr (sch st) (current (sch st)))"
  shows "ioq_ior_done_sched tab ioctl q r st = Inl (Assert ''schedc.c:253'')"
  using assms
  by (simp add: ioq_ior_done_sched_def wq_work_add_def wake_up_def irq_sched_disable_def irq_sched_enable_def Let_def)

text \<open>An idle queue, for the examples.\<close>

definition ioq0 :: ioq_state where
  "ioq0 = \<lparr>io_log = [], sch = sched0, tm_freq = 0, tm_ticks = 0, cntpnsirq_connected = False, tm_enabled = False, lh = (\<lambda>_. \<lparr>lprev = 0, lnext = 0\<rparr>), wq_cond = (\<lambda>_. 0), wq_thread = (\<lambda>_. 0),
     reqs = (\<lambda>_. \<lparr>ir_type = IOR_TYPE_IOCTL, ir_async = False, ir_done = False, ir_status = 0, ir_cmd = 1, ir_arg = 0\<rparr>),
     ioqs = (\<lambda>_. \<lparr>q_in = [], q_busy = 0\<rparr>)\<rparr>"

theorem async_completion_asserts_witness:
  "ioq_ior_done_sched (\<lambda>_. None) (\<lambda>r st. Inr st) 0x30 0x100
    (upd_req 0x100 (\<lambda>x. x\<lparr>ir_async := True\<rparr>) (ioq0\<lparr>sch := fst (irq_sched_disable 0 sched0)\<rparr>)) = Inl (Assert ''schedc.c:253'')"
  by (rule async_completion_asserts) (simp_all add: irq_sched_disable_def sched0_def Let_def)

end
