(* ===== verification/Mbox.thy ===== *)
theory Mbox
  imports Ioreq Slub
begin

text \<open>
  The mailbox of the VideoCore, src/dev/mbox.c: a request is the physical address of a buffer with the number
  of a channel in its low four bits; the reply is written into the buffer. The buffers are words of the memory that
  the allocator manages (\<open>ptm\<close> of \<open>mem\<close>). What happens while a thread waits, the interrupts and the
  writes of the VideoCore among it, is the argument \<open>sleep\<close>.
\<close>

section \<open>Registers, commands and buffers\<close>

definition MBOX_ARM_RO :: addr where "MBOX_ARM_RO = 0xb880"
definition MBOX_ARM_WO :: addr where "MBOX_ARM_WO = 0xb880 + 0x20"

text \<open>\<open>struct mbox\<close>: \<open>rw\<close> at 0, \<open>status\<close> at 24, \<open>config\<close> at 28.\<close>

definition mbox_rw :: "addr \<Rightarrow> addr" where "mbox_rw m = io_base + m"
definition mbox_status :: "addr \<Rightarrow> addr" where "mbox_status m = io_base + m + 24"
definition mbox_config :: "addr \<Rightarrow> addr" where "mbox_config m = io_base + m + 28"

definition MBOX_RO_IRQ_EN :: field where [fields]: "MBOX_RO_IRQ_EN = (0, 1)"
definition MBOX_RO_IRQ_PEND :: field where [fields]: "MBOX_RO_IRQ_PEND = (4, 1)"

definition MBOX_CH_FB :: u32 where "MBOX_CH_FB = 1"
definition MBOX_CH_PROP :: u32 where "MBOX_CH_PROP = 8"
definition MBOX_IOCTL_FB_ALLOC :: nat where "MBOX_IOCTL_FB_ALLOC = 1"
definition MBOX_IOCTL_UART_CLOCK :: nat where "MBOX_IOCTL_UART_CLOCK = 2"

definition IRQ_HARD_MBOX :: nat where "IRQ_HARD_MBOX = 3"
definition IRQ_SCHED_MBOX :: nat where "IRQ_SCHED_MBOX = 3"

definition MBOX_CLK_EMMC :: u32 where "MBOX_CLK_EMMC = 1"
definition MBOX_CLK_UART :: u32 where "MBOX_CLK_UART = 2"
definition MBOX_CLK_MAX :: u32 where "MBOX_CLK_MAX = 3"

lemmas mbox_consts = MBOX_CH_FB_def MBOX_CH_PROP_def MBOX_IOCTL_FB_ALLOC_def MBOX_IOCTL_UART_CLOCK_def
  MBOX_CLK_EMMC_def MBOX_CLK_UART_def MBOX_CLK_MAX_def IRQ_HARD_MBOX_def IRQ_SCHED_MBOX_def

definition mbox_ioq :: addr where "mbox_ioq = 0x40011000"

record mbox_state = ioq_state +
  mem :: slub_state

text \<open>\<open>struct mbox_prop_buf\<close> with a clock tag, 32 bytes: \<open>sz\<close>, \<open>code\<close>, \<open>id\<close>, \<open>sz\<close> and \<open>type\<close> of the tag, the clock,
  its rate, \<open>end\<close>.\<close>

definition word_at :: "addr \<Rightarrow> 'a mbox_state_scheme \<Rightarrow> u32" where
  "word_at a st = ptm (mem st) a"

definition put_words :: "addr \<Rightarrow> u32 list \<Rightarrow> 'a mbox_state_scheme \<Rightarrow> 'a mbox_state_scheme" where
  "put_words a ws st =
    st\<lparr>mem := fold (\<lambda>(i, w). set_word (a + 4 * of_nat i) w) (enumerate 0 ws) (mem st)\<rparr>"

section \<open>Starting a request\<close>

definition mbox_channel :: "nat \<Rightarrow> u32 res" where
  "mbox_channel cmd =
    (if cmd = MBOX_IOCTL_FB_ALLOC then Inr MBOX_CH_FB
     else if cmd = MBOX_IOCTL_UART_CLOCK then Inr MBOX_CH_PROP
     else Inl (Assert ''mbox.c:83''))"

text \<open>The word that is written: it depends on the request and on the tables of the MMU.\<close>

definition mbox_word :: "nat \<Rightarrow> addr \<Rightarrow> slub_state \<Rightarrow> u32 res" where
  "mbox_word cmd arg m =
    bind_res (mbox_channel cmd) (\<lambda>ch.
      bind_res (slub_va_to_pa arg m) (\<lambda>pa.
        assert_that ''mbox.c:88'' (aligned pa 16) (Inr (pa OR ch))))"

definition mbox_ioctl :: "device \<Rightarrow> 'a mbox_state_scheme ioq_fn" where
  "mbox_ioctl dev r st =
    bind_res (mbox_word (ir_cmd (reqs st r)) (ir_arg (reqs st r)) (mem st)) (\<lambda>w.
      bind_res (poll_port dev (Mmio (mbox_status MBOX_ARM_WO)) (\<lambda>v. v AND 0x80000000 = 0) [] st) (\<lambda>(st, v).
        Inr (writel w (mbox_rw MBOX_ARM_WO) st)))"

section \<open>Interrupts\<close>

definition mbox_irq :: "device \<Rightarrow> 'a mbox_state_scheme \<Rightarrow> 'a mbox_state_scheme" where
  "mbox_irq dev st =
    (case readl dev (mbox_config MBOX_ARM_RO) st of (st, v) \<Rightarrow>
      if bits_get v MBOX_RO_IRQ_PEND \<noteq> 0
      then (case readl dev (mbox_rw MBOX_ARM_RO) st of (st, v) \<Rightarrow>
        st\<lparr>sch := irq_sched_raise IRQ_SCHED_MBOX (sch st)\<rparr>)
      else st)"

definition mbox_irq_sched :: "sched handlers \<Rightarrow> device \<Rightarrow> 'a mbox_state_scheme \<Rightarrow> 'a mbox_state_scheme res" where
  "mbox_irq_sched tab dev st =
    bind_res (ioq_ior_dequeue_sched mbox_ioq st) (\<lambda>(st, r). ioq_ior_done_sched tab (mbox_ioctl dev) mbox_ioq r st)"

definition mbox_init ::
    "sched handlers \<Rightarrow> device \<Rightarrow> 'a mbox_state_scheme handlers \<Rightarrow> 'a mbox_state_scheme handlers \<Rightarrow> 'a mbox_state_scheme \<Rightarrow>
     ('a mbox_state_scheme handlers \<times> 'a mbox_state_scheme handlers \<times> 'a mbox_state_scheme) res" where
  "mbox_init tab dev hard stab st =
    (let st = ioq_init mbox_ioq st
     in bind_res (irq_hard_insert IRQ_HARD_MBOX (\<lambda>st. Inr (mbox_irq dev st)) hard) (\<lambda>hard.
          bind_res (irq_sched_insert IRQ_SCHED_MBOX (mbox_irq_sched tab dev) stab) (\<lambda>stab.
            Inr (hard, stab, writel (bits_on MBOX_RO_IRQ_EN) (mbox_config MBOX_ARM_RO) st))))"

section \<open>Requests of the kernel\<close>

text \<open>\<open>ior\<close> is the address of the request on the stack of the thread, \<open>d\<close> the depth for the allocator.\<close>

definition mbox_request ::
    "('a mbox_state_scheme \<Rightarrow> 'a mbox_state_scheme res) \<Rightarrow> device \<Rightarrow> addr \<Rightarrow> nat \<Rightarrow> addr \<Rightarrow>
     'a mbox_state_scheme \<Rightarrow> 'a mbox_state_scheme res" where
  "mbox_request sleep dev ior cmd arg st =
    (let st = upd_req ior (\<lambda>_. \<lparr>ir_type = IOR_TYPE_IOCTL, ir_async = False, ir_done = False, ir_status = 0,
                              ir_cmd = cmd, ir_arg = arg\<rparr>) st
     in bind_res (ioq_ior_submit (mbox_ioctl dev) mbox_ioq ior st) (ioq_ior_wait sleep ior))"

definition mbox_clk_rate_get ::
    "('a mbox_state_scheme \<Rightarrow> 'a mbox_state_scheme res) \<Rightarrow> device \<Rightarrow> nat \<Rightarrow> addr \<Rightarrow> u32 \<Rightarrow> ('a mbox_state_scheme, u32) io" where
  "mbox_clk_rate_get sleep dev d ior c st =
    assert_that ''mbox.c:109'' (0 < c \<and> c < MBOX_CLK_MAX)
      (bind_res (kmalloc d 32 (mem st)) (\<lambda>(m, b).
        let st = st\<lparr>mem := m\<rparr>;
            st = put_words b [32, 0, 0x30002, 8, 0, c, 0, 0] st
        in bind_res (mbox_request sleep dev ior MBOX_IOCTL_UART_CLOCK b st) (\<lambda>st.
          let rate = word_at (b + 24) st
          in bind_res (kfree d b (mem st)) (\<lambda>m. Inr (st\<lparr>mem := m\<rparr>, rate)))))"

definition mbox_fb_alloc ::
    "('a mbox_state_scheme \<Rightarrow> 'a mbox_state_scheme res) \<Rightarrow> device \<Rightarrow> addr \<Rightarrow> addr \<Rightarrow> 'a mbox_state_scheme \<Rightarrow> 'a mbox_state_scheme res" where
  "mbox_fb_alloc sleep dev ior b = mbox_request sleep dev ior MBOX_IOCTL_FB_ALLOC b"

section \<open>The word of a request\<close>

text \<open>The channel and the address do not disturb one another.\<close>

lemma mbox_word_parts:
  assumes "mbox_word cmd arg m = Inr w"
  shows "\<exists>pa ch. slub_va_to_pa arg m = Inr pa \<and> mbox_channel cmd = Inr ch \<and> aligned pa 16
    \<and> w AND 15 = ch \<and> w AND NOT 15 = pa"
proof -
  obtain pa ch where p: "slub_va_to_pa arg m = Inr pa" "mbox_channel cmd = Inr ch" "aligned pa 16" "w = pa OR ch"
    using assms by (auto simp: mbox_word_def bind_res_Inr assert_that_Inr)
  have ch: "ch AND 15 = ch" "ch AND NOT 15 = 0"
    using p(2) by (auto simp: mbox_channel_def mbox_consts split: if_splits)
  have pa: "pa AND 15 = 0" using p(3) by (simp add: aligned_def)
  have pan: "pa AND NOT 15 = pa"
    by (rule bit_word_eqI) (use pa in \<open>auto simp: bit_simps dest: arg_cong [of _ _ "\<lambda>x. bit x n" for n]\<close>)
  have "w AND 15 = ch" "w AND NOT 15 = pa"
    by (simp_all only: p(4) bit.conj_disj_distrib2 ch pa pan bit.disj_zero_right or.left_neutral)
  with p show ?thesis by blast
qed

section \<open>The queue of the mailbox\<close>

lemma mbox_ioctl_writes:
  assumes "mbox_ioctl dev r st = Inr st'"
  shows "\<exists>w l. mbox_word (ir_cmd (reqs st r)) (ir_arg (reqs st r)) (mem st) = Inr w \<and> st' = st\<lparr>io_log := l\<rparr>
    \<and> writes (mbox_rw MBOX_ARM_WO) l = writes (mbox_rw MBOX_ARM_WO) (io_log st) @ [w]"
proof -
  obtain w s v where w: "mbox_word (ir_cmd (reqs st r)) (ir_arg (reqs st r)) (mem st) = Inr w"
    and p: "poll_port dev (Mmio (mbox_status MBOX_ARM_WO)) (\<lambda>v. v AND 0x80000000 = 0) [] st = Inr (s, v)"
    and st': "st' = writel w (mbox_rw MBOX_ARM_WO) s"
    using assms by (auto simp: mbox_ioctl_def bind_res_Inr)
  from poll_port_result [OF p] obtain k where
    s: "s = st\<lparr>io_log := Rd (Mmio (mbox_status MBOX_ARM_WO)) v # poll_log dev (Mmio (mbox_status MBOX_ARM_WO)) [] k (io_log st)\<rparr>"
    by blast
  have "st' = st\<lparr>io_log := io_log st'\<rparr>" by (simp add: st' s writel_def emit_def)
  moreover have "writes (mbox_rw MBOX_ARM_WO) (io_log st') = writes (mbox_rw MBOX_ARM_WO) (io_log st) @ [w]"
    by (simp add: st' s poll_log_writes)
  ultimately show ?thesis using w by blast
qed

interpretation mbox: io_driver "mbox_ioctl dev" "writes (mbox_rw MBOX_ARM_WO)" cmds
    "\<lambda>st :: 'a mbox_state_scheme. \<forall>r. mbox_word (ir_cmd (reqs st r)) (ir_arg (reqs st r)) (mem st) = Inr (cmds r)" for dev cmds
proof (unfold_locales, goal_cases)
  case (1 st st')
  then have "mem st' = mem st" by (cases st, cases st') simp
  with 1 show ?case by simp
next
  case (2 st r st')
  from mbox_ioctl_writes [OF 2(2)] 2(1) show ?case by auto
qed

text \<open>C25: The mailbox serves its requests one at a time, in order. From an idle queue, after any submissions and completion
  interrupts that did not stop: the words in the mailbox register are those of the completed requests in
  the order of submission, followed by that of the oldest open one; a request is done exactly when
  it is complete; and each word carries the channel in its low four bits and the physical address of the buffer in
  the others.\<close>

theorem mbox_requests_in_order:
  fixes st :: "'a mbox_state_scheme"
  assumes "ioqs st mbox_ioq = \<lparr>q_in = [], q_busy = 0\<rparr>" and "distinct (submitted ops)"
    and "\<forall>r. mbox_word (ir_cmd (reqs st r)) (ir_arg (reqs st r)) (mem st) = Inr (cmds r)"
    and "for_each_res (ioq_step tab (mbox_ioctl dev) mbox_ioq) ops st = Inr st'"
  shows "\<exists>cs. submitted ops = cs @ q_in (ioqs st' mbox_ioq) \<and> length cs = length (filter (\<lambda>p. p = Complete) ops)
    \<and> writes (mbox_rw MBOX_ARM_WO) (io_log st')
        = writes (mbox_rw MBOX_ARM_WO) (io_log st) @ map cmds (cs @ take 1 (q_in (ioqs st' mbox_ioq)))
    \<and> (\<forall>r\<in>set (submitted ops). ir_done (reqs st' r) \<longleftrightarrow> r \<in> set cs)
    \<and> (\<forall>r. slub_va_to_pa (ir_arg (reqs st r)) (mem st) = Inr (cmds r AND NOT 15) \<and> mbox_channel (ir_cmd (reqs st r)) = Inr (cmds r AND 15))"
proof -
  have "\<forall>r. slub_va_to_pa (ir_arg (reqs st r)) (mem st) = Inr (cmds r AND NOT 15) \<and> mbox_channel (ir_cmd (reqs st r)) = Inr (cmds r AND 15)"
    using assms(3) mbox_word_parts by metis
  moreover have "ioq_wf mbox_ioq st" by (simp add: ioq_wf_def assms(1))
  ultimately show ?thesis
    using mbox.requests_in_order [OF assms(3) _ assms(4), of "[]" "[]" "writes (mbox_rw MBOX_ARM_WO) (io_log st)"] assms(1,2)
    by auto
qed

text \<open>A state in which every megabyte is mapped to the first one, for the examples.\<close>

definition mem0 :: slub_state where
  "mem0 = \<lparr>pd = (\<lambda>_. 2), kpt = (\<lambda>_. 0), ptm = (\<lambda>_. 0), tlb = {},
     vm_areas = (\<lambda>_. []), vseg = (\<lambda>_. \<lparr>vs_start = 0, vs_flags = 0\<rparr>), vm_areas_lock = (\<lambda>_. False),
     pmem = \<lparr>bdy_ram = bdy_init [0] 4, ram_map = (\<lambda>_. \<lparr>pflags = 0, u0 = 0\<rparr>), ramsz = 0x4000\<rparr>,
     slab = (\<lambda>_. \<lparr>sl_nfree = 0, sl_free = 0, sl_p = 0\<rparr>), fslab = (\<lambda>_. 0),
     subs = (\<lambda>_. \<lparr>sp_busy = [], sp_part = [], sp_free = [], sp_lock = False, sp_log_sz = 4\<rparr>),
     fulls = (\<lambda>i. \<lparr>fp_busy = [], fp_lock = False, fp_log_sz = 12 + i\<rparr>), slub_16byte_free = 0\<rparr>"

definition mbox0 :: mbox_state where
  "mbox0 = ioq_state.extend ioq0 (mbox_state.fields mem0)"

theorem mbox_requests_in_order_witness:
  "\<exists>st'. for_each_res (ioq_step (\<lambda>_. None) (mbox_ioctl (\<lambda>_ _. 0)) mbox_ioq) [Submit 0x10, Submit 0x20, Complete] mbox0 = Inr st'
    \<and> writes (mbox_rw MBOX_ARM_WO) (io_log st') = [1, 1]"
proof -
  let ?ops = "[Submit 0x10, Submit 0x20, Complete]"
  have "\<not> isl (for_each_res (ioq_step (\<lambda>_. None) (mbox_ioctl (\<lambda>_ _. 0)) mbox_ioq) ?ops mbox0)" by code_simp
  then obtain st' where st': "for_each_res (ioq_step (\<lambda>_. None) (mbox_ioctl (\<lambda>_ _. 0)) mbox_ioq) ?ops mbox0 = Inr st'"
    by (cases "for_each_res (ioq_step (\<lambda>_. None) (mbox_ioctl (\<lambda>_ _. 0)) mbox_ioq) ?ops mbox0") simp_all
  have "mbox_word 1 0 mem0 = Inr 1" by code_simp
  then have "\<forall>r. mbox_word (ir_cmd (reqs mbox0 r)) (ir_arg (reqs mbox0 r)) (mem mbox0) = Inr ((\<lambda>_. 1) r)"
    by (simp add: mbox0_def ioq0_def ioq_state.defs mbox_state.defs)
  moreover have "ioqs mbox0 mbox_ioq = \<lparr>q_in = [], q_busy = 0\<rparr>" "writes (mbox_rw MBOX_ARM_WO) (io_log mbox0) = []"
    by (simp_all add: mbox0_def ioq0_def ioq_state.defs mbox_state.defs)
  ultimately obtain cs where "submitted ?ops = cs @ q_in (ioqs st' mbox_ioq)" "length cs = 1"
      "writes (mbox_rw MBOX_ARM_WO) (io_log st') = map (\<lambda>_. 1) (cs @ take 1 (q_in (ioqs st' mbox_ioq)))"
    using mbox_requests_in_order [of mbox0 ?ops "\<lambda>_. 1", OF _ _ _ st'] by auto
  then have "writes (mbox_rw MBOX_ARM_WO) (io_log st') = [1, 1]"
    by (cases cs) (auto simp: eq_commute [where b = "q_in (ioqs st' mbox_ioq)"])
  with st' show ?thesis by blast
qed

end
