(* ===== verification/Uart.thy ===== *)
theory Uart
  imports Mbox
begin

text \<open>
  The serial port, src/dev/uart.c: the set-up of the baud rate, and the output of characters and of numbers in
  hexadecimal. \<open>char\<close> is unsigned, so a character is a byte.
\<close>

section \<open>Registers\<close>

definition UART_BASE :: addr where "UART_BASE = 0x201000"
definition UART_DR :: addr where "UART_DR = UART_BASE"
definition UART_FR :: addr where "UART_FR = UART_BASE + 0x18"
definition UART_IBRD :: addr where "UART_IBRD = UART_BASE + 0x24"
definition UART_FBRD :: addr where "UART_FBRD = UART_BASE + 0x28"
definition UART_LCRH :: addr where "UART_LCRH = UART_BASE + 0x2c"
definition UART_CR :: addr where "UART_CR = UART_BASE + 0x30"
definition UART_IMSC :: addr where "UART_IMSC = UART_BASE + 0x38"
definition UART_RIS :: addr where "UART_RIS = UART_BASE + 0x3c"
definition UART_ICR :: addr where "UART_ICR = UART_BASE + 0x44"

definition UART_CR_EN :: field where [fields]: "UART_CR_EN = (0, 1)"
definition UART_CR_TXEN :: field where [fields]: "UART_CR_TXEN = (8, 1)"
definition UART_LCRH_WLEN :: field where [fields]: "UART_LCRH_WLEN = (5, 2)"
definition UART_IMSC_TXIM :: field where [fields]: "UART_IMSC_TXIM = (5, 1)"
definition UART_LCRH_WLEN_8 :: u32 where "UART_LCRH_WLEN_8 = 3"

definition IRQ_HARD_UART :: nat where "IRQ_HARD_UART = 1"

record uart_state = mbox_state +
  sc_uart_clk :: u32

section \<open>Interrupt and set-up\<close>

definition uart_hard_irq :: "device \<Rightarrow> 'a uart_state_scheme \<Rightarrow> 'a uart_state_scheme" where
  "uart_hard_irq dev st =
    (case readl dev (io_base + UART_RIS) st of (st, v) \<Rightarrow> if v \<noteq> 0 then writel v (io_base + UART_ICR) st else st)"

text \<open>The divisors: the whole part and sixty-fourths of \<open>clk / (16 * 115200)\<close>.\<close>

definition uart_divisors :: "u32 \<Rightarrow> u32 \<times> u32" where
  "uart_divisors clk =
    (let dvdr = push_bit 4 115200; ibrd = clk div dvdr; fbrd = clk - ibrd * dvdr
     in (ibrd, push_bit 6 fbrd div dvdr))"

definition uart_init ::
    "('a uart_state_scheme \<Rightarrow> 'a uart_state_scheme res) \<Rightarrow> device \<Rightarrow> board \<Rightarrow> nat \<Rightarrow> addr \<Rightarrow> 'a uart_state_scheme handlers \<Rightarrow>
     'a uart_state_scheme \<Rightarrow> ('a uart_state_scheme handlers \<times> 'a uart_state_scheme) res" where
  "uart_init sleep dev b d ior hard st =
    (let st = st\<lparr>sc_uart_clk := 0\<rparr>
     in bind_res (irq_hard_insert IRQ_HARD_UART (\<lambda>st. Inr (uart_hard_irq dev st)) hard) (\<lambda>hard.
       bind_res (mbox_clk_rate_get sleep dev d ior MBOX_CLK_UART st) (\<lambda>(st, clk).
         let st = st\<lparr>sc_uart_clk := clk\<rparr>
         in case uart_divisors clk of (ibrd, fbrd) \<Rightarrow>
           let st = writel 0 (io_base + UART_CR) st;
               st = writel 0 (io_base + UART_LCRH) st;
               st = writel ibrd (io_base + UART_IBRD) st;
               st = writel fbrd (io_base + UART_FBRD) st;
               st = writel (bits_set UART_LCRH_WLEN UART_LCRH_WLEN_8) (io_base + UART_LCRH) st;
               st = (if b = RPI then writel (bits_on UART_IMSC_TXIM) (io_base + UART_IMSC) st else st);
               st = writel (bits_on UART_CR_EN OR bits_on UART_CR_TXEN) (io_base + UART_CR) st
           in Inr (hard, st))))"

section \<open>Output\<close>

definition uart_send :: "device \<Rightarrow> u8 \<Rightarrow> 'a io_state_scheme \<Rightarrow> 'a io_state_scheme res" where
  "uart_send dev c st =
    bind_res (poll_port dev (Mmio (io_base + UART_FR)) (\<lambda>v. v AND 0x20 = 0) [Wfi] st) (\<lambda>(st, v).
      Inr (writel (ucast c) (io_base + UART_DR) st))"

definition hd_chars :: "u8 list" where
  "hd_chars = map of_nat ([48..<58] @ [97..<103])"

lemma unat_drop_digit: "unat (drop_bit 4 v) = unat v div 16" for v :: u32
  by (simp add: drop_bit_eq_div unat_div)

text \<open>The buffer \<open>str\<close> after the loop, the least digit first.\<close>

function hex_buf :: "u32 \<Rightarrow> u8 list" where
  "hex_buf v = (if v = 0 then [] else hd_chars ! unat (v AND 0xf) # hex_buf (drop_bit 4 v))"
  by auto
termination
proof (relation "measure unat")
  fix v :: u32
  assume "v \<noteq> 0"
  then show "(drop_bit 4 v, v) \<in> measure unat" by (simp add: unat_drop_digit unat_gt_0)
qed simp

declare hex_buf.simps [simp del]

lemma hex_buf_0 [simp]: "hex_buf 0 = []"
  by (simp add: hex_buf.simps [of 0])

text \<open>The loop sends \<open>str[i - 1]\<close> down to \<open>str[0]\<close>.\<close>

definition uart_send_num :: "device \<Rightarrow> u32 \<Rightarrow> 'a io_state_scheme \<Rightarrow> 'a io_state_scheme res" where
  "uart_send_num dev v st =
    (let str = hex_buf v
     in bind_res (if str = [] then uart_send dev 48 st else for_each_res (uart_send dev) (rev str) st) (\<lambda>st.
       bind_res (uart_send dev 13 st) (uart_send dev 10)))"

text \<open>The characters of a string up to its terminating zero.\<close>

definition uart_send_str :: "device \<Rightarrow> u8 list \<Rightarrow> 'a io_state_scheme \<Rightarrow> 'a io_state_scheme res" where
  "uart_send_str dev s = for_each_res (uart_send dev) (takeWhile (\<lambda>c. c \<noteq> 0) s)"

section \<open>What is sent\<close>

text \<open>The transmitter has room again some time.\<close>

abbreviation uart_ready :: "device \<Rightarrow> bool" where
  "uart_ready dev \<equiv> answers dev (Mmio (io_base + UART_FR)) (\<lambda>v. v AND 0x20 = 0) [Wfi]"

abbreviation sent :: "'a io_state_scheme \<Rightarrow> u32 list" where
  "sent st \<equiv> writes (io_base + UART_DR) (io_log st)"

lemma uart_send_sends:
  assumes "uart_ready dev"
  shows "\<exists>st'. uart_send dev c st = Inr st' \<and> sent st' = sent st @ [ucast c]"
proof -
  obtain s v where p: "poll_port dev (Mmio (io_base + UART_FR)) (\<lambda>v. v AND 0x20 = 0) [Wfi] st = Inr (s, v)"
    using poll_port_ends [OF assms] by blast
  from poll_port_result [OF p] have "sent s = sent st" by (auto simp: poll_log_writes)
  with p show ?thesis by (simp add: uart_send_def)
qed

lemma send_each:
  assumes "uart_ready dev"
  shows "\<exists>st'. for_each_res (uart_send dev) cs st = Inr st' \<and> sent st' = sent st @ map ucast cs"
proof (induction cs arbitrary: st)
  case (Cons c cs)
  obtain s where s: "uart_send dev c st = Inr s" "sent s = sent st @ [ucast c]" using uart_send_sends [OF assms] by blast
  with Cons.IH [of s] show ?case by auto
qed simp

text \<open>Reading a number: the value of a digit, and of digits with the most significant first.\<close>

definition hex_digit :: "u32 \<Rightarrow> nat option" where
  "hex_digit c = (let n = unat c in if 48 \<le> n \<and> n < 58 then Some (n - 48) else if 97 \<le> n \<and> n < 103 then Some (n - 87) else None)"

definition hex_value :: "u32 list \<Rightarrow> nat option" where
  "hex_value cs = fold (\<lambda>c r. case r of None \<Rightarrow> None | Some v \<Rightarrow> map_option (\<lambda>d. 16 * v + d) (hex_digit c)) cs (Some 0)"

lemma hex_value_snoc: "hex_value (cs @ [c]) = (case hex_value cs of None \<Rightarrow> None | Some v \<Rightarrow> map_option (\<lambda>d. 16 * v + d) (hex_digit c))"
  by (simp add: hex_value_def)

lemma digit_of_char: "k < 16 \<Longrightarrow> hex_digit (ucast (hd_chars ! k)) = Some k"
proof -
  have "\<forall>k\<in>set [0..<16]. hex_digit (ucast (hd_chars ! k)) = Some k" by code_simp
  then show "k < 16 \<Longrightarrow> ?thesis" by simp
qed

lemma low_digit: "unat (v AND 0xf) = unat v mod 16" for v :: u32
proof -
  have "v AND 0xf = v mod 16" using take_bit_eq_mask [of 4 v] by (simp add: mask_eq_exp_minus_1 take_bit_eq_mod)
  then show ?thesis by (simp add: unat_mod)
qed

lemma ucast_byte_inj:
  assumes "(ucast (a :: u8) :: u32) = ucast b"
  shows "a = b"
proof (rule bit_word_eqI)
  fix n
  assume n: "n < LENGTH(8)"
  have "bit (ucast a :: u32) n = bit (ucast b :: u32) n" using assms by simp
  then show "bit a n = bit b n" using n by (simp add: bit_unsigned_iff)
qed

lemma hex_buf_value: "hex_value (map ucast (rev (hex_buf v))) = Some (unat v)"
proof (induction v rule: hex_buf.induct)
  case (1 v)
  show ?case
  proof (cases "v = 0")
    case True
    then show ?thesis by (simp add: hex_value_def)
  next
    case False
    show ?thesis
      using False 1 [OF False]
      by (simp add: hex_buf.simps [of v] hex_value_snoc low_digit digit_of_char unat_drop_digit)
  qed
qed

lemma hex_buf_length: "unat v < 16 ^ n \<Longrightarrow> length (hex_buf v) \<le> n"
proof (induction n arbitrary: v)
  case 0
  then have "v = 0" by (simp add: unat_eq_zero)
  then show ?case by simp
next
  case (Suc n)
  have "unat (drop_bit 4 v) < 16 ^ n" using Suc.prems by (simp add: unat_drop_digit less_mult_imp_div_less mult.commute)
  from Suc.IH [OF this] show ?case by (subst hex_buf.simps) simp
qed

lemma hex_buf_top: "v \<noteq> 0 \<Longrightarrow> hex_buf v \<noteq> [] \<and> last (hex_buf v) \<noteq> 48"
proof (induction v rule: hex_buf.induct)
  case (1 v)
  show ?case
  proof (cases "drop_bit 4 v = 0")
    case True
    then have "unat v div 16 = 0" using unat_drop_digit [of v] by simp
    then have u: "unat v < 16" "unat v \<noteq> 0" using 1(2) by (auto simp: unat_eq_zero)
    have "\<forall>k\<in>set [1..<16]. hd_chars ! k \<noteq> 48" by code_simp
    then have "hd_chars ! unat v \<noteq> 48" using u by simp
    then show ?thesis using 1(2) True u by (simp add: hex_buf.simps [of v] low_digit)
  next
    case False
    with 1 show ?thesis by (subst hex_buf.simps) (simp add: hex_buf.simps [of v])
  qed
qed

lemma uart_send_num_sends:
  assumes "uart_ready dev"
  shows "\<exists>st' ds. uart_send_num dev v st = Inr st' \<and> sent st' = sent st @ ds @ [13, 10]
    \<and> hex_value ds = Some (unat v) \<and> ds \<noteq> [] \<and> length ds \<le> 8 \<and> (hd ds = 48 \<longrightarrow> v = 0)"
proof -
  have ln: "length (hex_buf v) \<le> 8" using hex_buf_length [of v 8] by simp
  define cs where "cs = (if hex_buf v = [] then [48] else rev (hex_buf v))"
  obtain s1 where s1: "for_each_res (uart_send dev) cs st = Inr s1" "sent s1 = sent st @ map ucast cs"
    using send_each [OF assms] by blast
  obtain s2 where s2: "uart_send dev 13 s1 = Inr s2" "sent s2 = sent s1 @ [13]"
    using uart_send_sends [OF assms, of 13 s1] by auto
  obtain s3 where s3: "uart_send dev 10 s2 = Inr s3" "sent s3 = sent s2 @ [10]"
    using uart_send_sends [OF assms, of 10 s2] by auto
  have run: "uart_send_num dev v st = Inr s3"
    using s1(1) s2(1) s3(1) by (auto simp: uart_send_num_def cs_def Let_def bind_res_def split: if_splits sum.splits)
  have zero: "hex_buf v = [] \<longleftrightarrow> v = 0" using hex_buf_top [of v] by auto
  have val: "hex_value (map ucast cs) = Some (unat v)"
  proof (cases "v = 0")
    case True
    then show ?thesis using zero by (simp add: cs_def) (simp add: hex_value_def hex_digit_def)
  next
    case False
    then show ?thesis using zero hex_buf_value [of v] by (simp add: cs_def)
  qed
  have hd: "hd (map ucast cs) = (48 :: u32) \<Longrightarrow> v = 0"
  proof (rule ccontr)
    assume h: "hd (map ucast cs) = (48 :: u32)" and v: "v \<noteq> 0"
    then have c: "cs = rev (hex_buf v)" "cs \<noteq> []" using zero by (simp_all add: cs_def)
    then have "hd (map ucast cs) = (ucast (last (hex_buf v)) :: u32)" by (simp add: hd_map hd_rev)
    then have "(ucast (last (hex_buf v)) :: u32) = ucast (48 :: u8)" using h by simp
    then have "last (hex_buf v) = 48" by (rule ucast_byte_inj)
    then show False using hex_buf_top [OF v] by simp
  qed
  have len: "cs \<noteq> []" "length cs \<le> 8" using ln by (simp_all add: cs_def)
  have "sent s3 = sent st @ map ucast cs @ [13, 10]" using s1(2) s2(2) s3(2) by simp
  with run val hd len show ?thesis by (intro exI [of _ s3] exI [of _ "map ucast cs"]) simp
qed

text \<open>C29: Output of a number. With a transmitter that has room again some time, \<open>uart_send_num\<close> returns; it sends
  digits, a carriage return and a line feed; the digits read back as the number, they are at most eight,
  so the buffer of nine characters never overflows, and only the number 0 starts with a zero.\<close>

theorem uart_send_num_roundtrip:
  assumes "uart_ready dev"
  shows "\<exists>st' ds. uart_send_num dev v st = Inr st' \<and> sent st' = sent st @ ds @ [13, 10]
    \<and> hex_value ds = Some (unat v) \<and> ds \<noteq> [] \<and> length ds \<le> 8 \<and> (hd ds = 48 \<longrightarrow> v = 0)"
  using uart_send_num_sends [OF assms] .

theorem uart_send_num_roundtrip_witness:
  "\<exists>st' ds. uart_send_num (\<lambda>_ _. 0) 0xbeef mbox0 = Inr st' \<and> sent st' = ds @ [13, 10] \<and> hex_value ds = Some 0xbeef"
proof -
  have "uart_ready (\<lambda>_ _. 0)" by (simp add: answers_def)
  from uart_send_num_roundtrip [OF this, of "0xbeef" mbox0] show ?thesis
    by (auto simp: mbox0_def ioq0_def ioq_state.defs mbox_state.defs)
qed

text \<open>The divisors of the baud rate. For every clock the fractional part fits its register, no product or shift
  wraps, and the two parts are the exact quotient by sixteen times 115200, rounded down to a sixty-fourth.\<close>

theorem uart_divisors_exact:
  "case uart_divisors clk of (ibrd, fbrd) \<Rightarrow>
    unat fbrd < 64 \<and> 64 * unat ibrd + unat fbrd = 64 * unat clk div (16 * 115200)"
proof -
  have d: "push_bit 4 (115200 :: u32) = 1843200" by simp
  define r where "r = clk - clk div 1843200 * 1843200"
  have r: "unat r = unat clk mod 1843200" unfolding r_def by (simp add: minus_div_mult_eq_mod unat_mod)
  then have "unat r < 1843200" by simp
  then have p: "unat (push_bit 6 r) = 64 * unat r" by (simp add: push_bit_eq_mult unat_word_ariths)
  have q: "unat (push_bit 6 r div 1843200) = 64 * (unat clk mod 1843200) div 1843200"
    by (simp only: unat_div p r) simp
  have less: "64 * (unat clk mod 1843200) div 1843200 < 64" by (rule less_mult_imp_div_less) simp
  have "64 * unat clk = 64 * (unat clk mod 1843200) + 1843200 * (64 * (unat clk div 1843200))"
    using mod_mult_div_eq [of "unat clk" 1843200] by linarith
  then have "64 * unat clk div 1843200 = 64 * (unat clk div 1843200) + 64 * (unat clk mod 1843200) div 1843200"
    by simp
  moreover have "unat (clk div 1843200) = unat clk div 1843200" by (simp add: unat_div)
  ultimately have "64 * unat (clk div 1843200) + unat (push_bit 6 r div 1843200) = 64 * unat clk div 1843200"
    using q by simp
  moreover have "uart_divisors clk = (clk div 1843200, push_bit 6 r div 1843200)"
    by (simp only: uart_divisors_def Let_def d r_def)
  ultimately show ?thesis using q less by simp
qed

section \<open>Failed assertions\<close>

text \<open>\<open>assert_fail\<close> of src/lib/assert.c with the expression \<open>a\<close>, the file \<open>f\<close> and the line \<open>l\<close>. It never returns: the result is the state in which it waits with
  interrupts disabled, which every model calls \<open>Inl (Assert site)\<close>. The copies of its arguments are for a debugger.\<close>

definition assert_fail :: "device \<Rightarrow> u8 list \<Rightarrow> u8 list \<Rightarrow> u32 \<Rightarrow> 'a io_state_scheme \<Rightarrow> 'a io_state_scheme res" where
  "assert_fail dev a f l st =
    bind_res (uart_send dev 33 st) (\<lambda>st.
      bind_res (uart_send_str dev a st) (\<lambda>st.
        bind_res (uart_send dev 32 st) (\<lambda>st.
          bind_res (uart_send_str dev f st) (\<lambda>st.
            bind_res (uart_send dev 58 st) (\<lambda>st. uart_send_num dev l st)))))"

text \<open>The message that appears, with the line in hexadecimal, when the transmitter is on.\<close>

lemma assert_fail_message:
  assumes "uart_ready dev"
  shows "\<exists>st' ds. assert_fail dev a f l st = Inr st' \<and> hex_value ds = Some (unat l)
    \<and> sent st' = sent st @ [33] @ map ucast (takeWhile (\<lambda>c. c \<noteq> 0) a) @ [32] @ map ucast (takeWhile (\<lambda>c. c \<noteq> 0) f) @ [58] @ ds @ [13, 10]"
proof -
  obtain s1 where s1: "uart_send dev 33 st = Inr s1" "sent s1 = sent st @ [ucast (33 :: u8)]" using uart_send_sends [OF assms] by blast
  obtain s2 where s2: "uart_send_str dev a s1 = Inr s2" "sent s2 = sent s1 @ map ucast (takeWhile (\<lambda>c. c \<noteq> 0) a)"
    using send_each [OF assms] unfolding uart_send_str_def by blast
  obtain s3 where s3: "uart_send dev 32 s2 = Inr s3" "sent s3 = sent s2 @ [ucast (32 :: u8)]" using uart_send_sends [OF assms] by blast
  obtain s4 where s4: "uart_send_str dev f s3 = Inr s4" "sent s4 = sent s3 @ map ucast (takeWhile (\<lambda>c. c \<noteq> 0) f)"
    using send_each [OF assms] unfolding uart_send_str_def by blast
  obtain s5 where s5: "uart_send dev 58 s4 = Inr s5" "sent s5 = sent s4 @ [ucast (58 :: u8)]" using uart_send_sends [OF assms] by blast
  obtain s6 ds where s6: "uart_send_num dev l s5 = Inr s6" "sent s6 = sent s5 @ ds @ [13, 10]" "hex_value ds = Some (unat l)"
    using uart_send_num_sends [OF assms] by blast
  show ?thesis
    by (intro exI [of _ s6] exI [of _ ds]) (use s1 s2 s3 s4 s5 s6 in \<open>simp add: assert_fail_def\<close>)
qed

end
