(* ===== verification/Sdhc.thy ===== *)
theory Sdhc
  imports Uart
begin

text \<open>
  The SD host controller, src/dev/sdhc.c: commands go through the queue of Ioreq, an interrupt completes them, and
  \<open>sdhc_init\<close> brings a card up with a fixed sequence of commands. The stack frame of the thread that runs
  it is at the address \<open>fr\<close>: the request, the description of the command, and the words of its response. As
  in Mbox, \<open>sleep\<close> is what happens while the thread waits.
\<close>

section \<open>Registers and fields\<close>

definition SDHC_BASE :: addr where "SDHC_BASE = 0x300000"
definition SDHC_BLKSZCNT :: addr where "SDHC_BLKSZCNT = SDHC_BASE + 0x04"
definition SDHC_ARG1 :: addr where "SDHC_ARG1 = SDHC_BASE + 0x08"
definition SDHC_CMDTM :: addr where "SDHC_CMDTM = SDHC_BASE + 0x0c"
definition SDHC_RESP0 :: addr where "SDHC_RESP0 = SDHC_BASE + 0x10"
definition SDHC_RESP1 :: addr where "SDHC_RESP1 = SDHC_BASE + 0x14"
definition SDHC_RESP2 :: addr where "SDHC_RESP2 = SDHC_BASE + 0x18"
definition SDHC_RESP3 :: addr where "SDHC_RESP3 = SDHC_BASE + 0x1c"
definition SDHC_DATA :: addr where "SDHC_DATA = SDHC_BASE + 0x20"
definition SDHC_STATUS :: addr where "SDHC_STATUS = SDHC_BASE + 0x24"
definition SDHC_CNTRL0 :: addr where "SDHC_CNTRL0 = SDHC_BASE + 0x28"
definition SDHC_CNTRL1 :: addr where "SDHC_CNTRL1 = SDHC_BASE + 0x2c"
definition SDHC_INT :: addr where "SDHC_INT = SDHC_BASE + 0x30"
definition SDHC_INT_MASK :: addr where "SDHC_INT_MASK = SDHC_BASE + 0x34"
definition SDHC_INT_EN :: addr where "SDHC_INT_EN = SDHC_BASE + 0x38"
definition SDHC_SLOT_ISR_VER :: addr where "SDHC_SLOT_ISR_VER = SDHC_BASE + 0xfc"

definition SDHC_BLKSZ :: field where [fields]: "SDHC_BLKSZ = (0, 10)"
definition SDHC_BLKCNT :: field where [fields]: "SDHC_BLKCNT = (16, 16)"
definition SDHC_TM_DAT_DIR :: field where [fields]: "SDHC_TM_DAT_DIR = (4, 1)"
definition SDHC_CMD_RESP_TYPE :: field where [fields]: "SDHC_CMD_RESP_TYPE = (16, 2)"
definition SDHC_CMD_CRCCHK_EN :: field where [fields]: "SDHC_CMD_CRCCHK_EN = (19, 1)"
definition SDHC_CMD_IXCHK_EN :: field where [fields]: "SDHC_CMD_IXCHK_EN = (20, 1)"
definition SDHC_CMD_ISDATA :: field where [fields]: "SDHC_CMD_ISDATA = (21, 1)"
definition SDHC_CMD_INDEX :: field where [fields]: "SDHC_CMD_INDEX = (24, 6)"
definition SDHC_C0_4BIT :: field where [fields]: "SDHC_C0_4BIT = (1, 1)"
definition SDHC_C0_SDBUS_PWR :: field where [fields]: "SDHC_C0_SDBUS_PWR = (8, 1)"
definition SDHC_C0_SDBUS_VOLT :: field where [fields]: "SDHC_C0_SDBUS_VOLT = (9, 3)"
definition SDHC_C1_CLK_EN :: field where [fields]: "SDHC_C1_CLK_EN = (0, 1)"
definition SDHC_C1_CLK_STABLE :: field where [fields]: "SDHC_C1_CLK_STABLE = (1, 1)"
definition SDHC_C1_SDCLK_EN :: field where [fields]: "SDHC_C1_SDCLK_EN = (2, 1)"
definition SDHC_C1_CLKF_HI :: field where [fields]: "SDHC_C1_CLKF_HI = (6, 2)"
definition SDHC_C1_CLKF_LO :: field where [fields]: "SDHC_C1_CLKF_LO = (8, 8)"
definition SDHC_C1_RESET_ALL :: field where [fields]: "SDHC_C1_RESET_ALL = (24, 1)"
definition SDHC_INT_ERR :: field where [fields]: "SDHC_INT_ERR = (15, 1)"
definition SDHC_INT_CMD :: field where [fields]: "SDHC_INT_CMD = (0, 1)"
definition SDHC_VER_HC :: field where [fields]: "SDHC_VER_HC = (16, 8)"
definition SDHC_CMD3_RCA :: field where [fields]: "SDHC_CMD3_RCA = (16, 16)"
definition SDHC_CMD8_PATTERN :: field where [fields]: "SDHC_CMD8_PATTERN = (0, 8)"
definition SDHC_CMD8_VHS :: field where [fields]: "SDHC_CMD8_VHS = (8, 4)"
definition SDHC_OCR_VDD_32_33 :: field where [fields]: "SDHC_OCR_VDD_32_33 = (20, 1)"
definition SDHC_OCR_CS :: field where [fields]: "SDHC_OCR_CS = (30, 1)"
definition SDHC_OCR_BUSY :: field where [fields]: "SDHC_OCR_BUSY = (31, 1)"
definition SDHC_CMD7_RCA :: field where [fields]: "SDHC_CMD7_RCA = SDHC_CMD3_RCA"
definition SDHC_CMD9_RCA :: field where [fields]: "SDHC_CMD9_RCA = SDHC_CMD3_RCA"
definition SDHC_CMD55_RCA :: field where [fields]: "SDHC_CMD55_RCA = SDHC_CMD3_RCA"

definition SDHC_CMD_RESP_136 :: u32 where "SDHC_CMD_RESP_136 = 1"
definition SDHC_CMD_RESP_48 :: u32 where "SDHC_CMD_RESP_48 = 2"
definition SDHC_IOCTL_COMMAND :: nat where "SDHC_IOCTL_COMMAND = 1"
definition SDHC_MIN_FREQ :: u32 where "SDHC_MIN_FREQ = 400000"
definition SDHC_SDR12_FREQ :: u32 where "SDHC_SDR12_FREQ = 25000000"
definition SDHC_BLK_SIZE :: u32 where "SDHC_BLK_SIZE = 512"
definition SDHC_ACMD6_BUSW_4 :: u32 where "SDHC_ACMD6_BUSW_4 = 2"
definition SDHC_CMD8_VHS_27_36 :: u32 where "SDHC_CMD8_VHS_27_36 = 1"
definition IRQ_HARD_SDHC :: nat where "IRQ_HARD_SDHC = 2"
definition IRQ_SCHED_SDHC :: nat where "IRQ_SCHED_SDHC = 2"

lemmas sdhc_consts = SDHC_CMD_RESP_136_def SDHC_CMD_RESP_48_def SDHC_IOCTL_COMMAND_def SDHC_MIN_FREQ_def
  SDHC_SDR12_FREQ_def SDHC_BLK_SIZE_def SDHC_ACMD6_BUSW_4_def SDHC_CMD8_VHS_27_36_def IRQ_HARD_SDHC_def IRQ_SCHED_SDHC_def

section \<open>Commands\<close>

datatype sdhc_cmd = SDHC_CMD0 | SDHC_CMD1 | SDHC_CMD2 | SDHC_CMD3 | SDHC_ACMD6 | SDHC_CMD7 | SDHC_CMD8 | SDHC_CMD9
  | SDHC_CMD17 | SDHC_ACMD41 | SDHC_ACMD42 | SDHC_ACMD51 | SDHC_CMD55

primrec cmd_val :: "sdhc_cmd \<Rightarrow> u32" where
  "cmd_val SDHC_CMD0 = 0" | "cmd_val SDHC_CMD1 = 1" | "cmd_val SDHC_CMD2 = 2" | "cmd_val SDHC_CMD3 = 3"
| "cmd_val SDHC_ACMD6 = 6" | "cmd_val SDHC_CMD7 = 7" | "cmd_val SDHC_CMD8 = 8" | "cmd_val SDHC_CMD9 = 9"
| "cmd_val SDHC_CMD17 = 17" | "cmd_val SDHC_ACMD41 = 41" | "cmd_val SDHC_ACMD42 = 42" | "cmd_val SDHC_ACMD51 = 51"
| "cmd_val SDHC_CMD55 = 55"

text \<open>The commands are an enumeration, so a property of all of them is a computation.\<close>

instantiation sdhc_cmd :: enum
begin

definition enum_sdhc_cmd :: "sdhc_cmd list" where
  "enum_sdhc_cmd = [SDHC_CMD0, SDHC_CMD1, SDHC_CMD2, SDHC_CMD3, SDHC_ACMD6, SDHC_CMD7, SDHC_CMD8, SDHC_CMD9,
     SDHC_CMD17, SDHC_ACMD41, SDHC_ACMD42, SDHC_ACMD51, SDHC_CMD55]"

definition enum_all_sdhc_cmd :: "(sdhc_cmd \<Rightarrow> bool) \<Rightarrow> bool" where
  "enum_all_sdhc_cmd P \<longleftrightarrow> list_all P enum_class.enum"

definition enum_ex_sdhc_cmd :: "(sdhc_cmd \<Rightarrow> bool) \<Rightarrow> bool" where
  "enum_ex_sdhc_cmd P \<longleftrightarrow> list_ex P enum_class.enum"

instance
proof
  show u: "(UNIV :: sdhc_cmd set) = set enum_class.enum"
  proof (rule set_eqI)
    fix c :: sdhc_cmd
    show "c \<in> UNIV \<longleftrightarrow> c \<in> set enum_class.enum" by (cases c) (simp_all add: enum_sdhc_cmd_def)
  qed
  show "distinct (enum_class.enum :: sdhc_cmd list)" by (simp add: enum_sdhc_cmd_def)
  show "enum_class.enum_all P \<longleftrightarrow> Ball (UNIV :: sdhc_cmd set) P" for P
    unfolding enum_all_sdhc_cmd_def list_all_iff u ..
  show "enum_class.enum_ex P \<longleftrightarrow> Bex (UNIV :: sdhc_cmd set) P" for P
    unfolding enum_ex_sdhc_cmd_def list_ex_iff u ..
qed

end

record sdhc_cmd_info =
  ci_cmd :: sdhc_cmd
  ci_arg :: u32
  ci_resp :: addr

text \<open>\<open>softc\<close>, and the descriptions of commands by their address.\<close>

record sdhc_state = uart_state +
  sc_int :: u32
  sc_addr :: "16 word"
  sc_emmc_clk :: u32
  cis :: "addr \<Rightarrow> sdhc_cmd_info"

definition sc_ioq :: addr where "sc_ioq = 0x40012000"

abbreviation sd_read :: "device \<Rightarrow> addr \<Rightarrow> 'a io_state_scheme \<Rightarrow> 'a io_state_scheme \<times> u32" where
  "sd_read dev r \<equiv> readl dev (io_base + r)"

abbreviation sd_write :: "u32 \<Rightarrow> addr \<Rightarrow> 'a io_state_scheme \<Rightarrow> 'a io_state_scheme" where
  "sd_write v r \<equiv> writel v (io_base + r)"

text \<open>The word of the command register and the block size: which responses are checked, which commands carry data.\<close>

definition resp_136 :: "sdhc_cmd \<Rightarrow> bool" where
  "resp_136 c \<longleftrightarrow> c \<in> {SDHC_CMD2, SDHC_CMD9}"

definition resp_48 :: "sdhc_cmd \<Rightarrow> bool" where
  "resp_48 c \<longleftrightarrow> c \<in> {SDHC_CMD3, SDHC_CMD7, SDHC_CMD8, SDHC_CMD17, SDHC_CMD55, SDHC_ACMD6, SDHC_ACMD41, SDHC_ACMD42, SDHC_ACMD51}"

definition cmd_word :: "sdhc_cmd \<Rightarrow> u32" where
  "cmd_word c =
    (let v = 0;
         v = (if c \<noteq> SDHC_ACMD41 \<and> c \<noteq> SDHC_CMD2 \<and> c \<noteq> SDHC_CMD9
              then v OR bits_on SDHC_CMD_IXCHK_EN OR bits_on SDHC_CMD_CRCCHK_EN else v);
         v = (if c = SDHC_ACMD51 then v OR bits_on SDHC_CMD_ISDATA OR bits_on SDHC_TM_DAT_DIR else v);
         v = (if c = SDHC_CMD17 then v OR bits_on SDHC_CMD_ISDATA OR bits_on SDHC_TM_DAT_DIR else v);
         v = v OR bits_set SDHC_CMD_INDEX (cmd_val c)
     in if resp_136 c then v OR bits_set SDHC_CMD_RESP_TYPE SDHC_CMD_RESP_136
        else if resp_48 c then v OR bits_set SDHC_CMD_RESP_TYPE SDHC_CMD_RESP_48 else v)"

definition cmd_blocks :: "sdhc_cmd \<Rightarrow> u32 option" where
  "cmd_blocks c =
    (if c = SDHC_ACMD51 then Some (bits_set SDHC_BLKSZ 8 OR bits_set SDHC_BLKCNT 1)
     else if c = SDHC_CMD17 then Some (bits_set SDHC_BLKSZ SDHC_BLK_SIZE OR bits_set SDHC_BLKCNT 1)
     else None)"

definition sdhc_ioctl :: "'a sdhc_state_scheme ioq_fn" where
  "sdhc_ioctl r st =
    (let ci = cis st (ir_arg (reqs st r))
     in assert_that ''sdhc.c:210'' (ir_cmd (reqs st r) = SDHC_IOCTL_COMMAND)
       (let st = sd_write (ci_arg ci) SDHC_ARG1 st;
            st = (case cmd_blocks (ci_cmd ci) of None \<Rightarrow> st | Some sz \<Rightarrow> sd_write sz SDHC_BLKSZCNT st)
        in Inr (sd_write (cmd_word (ci_cmd ci)) SDHC_CMDTM st)))"

section \<open>Interrupts\<close>

definition sdhc_hard_irq :: "device \<Rightarrow> 'a sdhc_state_scheme \<Rightarrow> 'a sdhc_state_scheme" where
  "sdhc_hard_irq dev st =
    (case sd_read dev SDHC_INT st of (st, v) \<Rightarrow>
      if v = 0 then st
      else let st = st\<lparr>sc_int := sc_int st OR v\<rparr>; st = sd_write v SDHC_INT st
           in st\<lparr>sch := irq_sched_raise IRQ_SCHED_SDHC (sch st)\<rparr>)"

definition put_word :: "addr \<Rightarrow> u32 \<Rightarrow> 'a mbox_state_scheme \<Rightarrow> 'a mbox_state_scheme" where
  "put_word a v st = st\<lparr>mem := set_word a v (mem st)\<rparr>"

text \<open>\<open>p[i] = readl(r)\<close>.\<close>

definition read_resp :: "device \<Rightarrow> addr \<Rightarrow> addr \<Rightarrow> 'a mbox_state_scheme \<Rightarrow> 'a mbox_state_scheme" where
  "read_resp dev r a st = (case sd_read dev r st of (st, v) \<Rightarrow> put_word a v st)"

definition sdhc_done_ioctl :: "device \<Rightarrow> addr \<Rightarrow> 'a sdhc_state_scheme \<Rightarrow> 'a sdhc_state_scheme res" where
  "sdhc_done_ioctl dev r st =
    (let ci = cis st (ir_arg (reqs st r)); p = ci_resp ci; c = ci_cmd ci
     in assert_that ''sdhc.c:113'' (ir_cmd (reqs st r) = SDHC_IOCTL_COMMAND)
       (let st = (if resp_136 c
                  then read_resp dev SDHC_RESP3 (p + 12) (read_resp dev SDHC_RESP2 (p + 8) (read_resp dev SDHC_RESP1 (p + 4) st))
                  else st)
        in Inr (if resp_136 c \<or> resp_48 c then read_resp dev SDHC_RESP0 p st else st)))"

definition sdhc_sched_irq :: "sched handlers \<Rightarrow> device \<Rightarrow> 'a sdhc_state_scheme \<Rightarrow> 'a sdhc_state_scheme res" where
  "sdhc_sched_irq tab dev st =
    (let v = sc_int st; st = st\<lparr>sc_int := 0\<rparr>
     in if bits_get v SDHC_INT_CMD \<noteq> 0
        then bind_res (ioq_ior_dequeue_sched sc_ioq st) (\<lambda>(st, r).
          let st = upd_req r (\<lambda>x. x\<lparr>ir_status := 0\<rparr>) st
          in bind_res
            (if bits_get v SDHC_INT_ERR \<noteq> 0 then Inr (upd_req r (\<lambda>x. x\<lparr>ir_status := - 1\<rparr>) st)
             else case ir_type (reqs st r) of IOR_TYPE_IOCTL \<Rightarrow> sdhc_done_ioctl dev r st | _ \<Rightarrow> Inl (Assert ''sdhc.c:142''))
            (ioq_ior_done_sched tab sdhc_ioctl sc_ioq r))
        else Inr st)"

section \<open>Commands of the card\<close>

definition sdhc_send_command ::
    "('a sdhc_state_scheme \<Rightarrow> 'a sdhc_state_scheme res) \<Rightarrow> addr \<Rightarrow> sdhc_cmd \<Rightarrow> u32 \<Rightarrow> addr \<Rightarrow> ('a sdhc_state_scheme, int) io" where
  "sdhc_send_command sleep fr cmd arg resp st =
    (let ci = fr + 64;
         st = st\<lparr>cis := (cis st)(ci := \<lparr>ci_cmd = cmd, ci_arg = arg, ci_resp = resp\<rparr>)\<rparr>;
         st = upd_req fr (\<lambda>_. \<lparr>ir_type = IOR_TYPE_IOCTL, ir_async = False, ir_done = False, ir_status = 0,
                             ir_cmd = SDHC_IOCTL_COMMAND, ir_arg = ci\<rparr>) st
     in bind_res (ioq_ior_submit sdhc_ioctl sc_ioq fr st) (\<lambda>st.
          bind_res (ioq_ior_wait sleep fr st) (\<lambda>st. Inr (st, ir_status (reqs st fr)))))"

text \<open>A command that must not fail, and the first word of its response, which is at \<open>fr + 128\<close>.\<close>

definition sdhc_command ::
    "string \<Rightarrow> ('a sdhc_state_scheme \<Rightarrow> 'a sdhc_state_scheme res) \<Rightarrow> addr \<Rightarrow> sdhc_cmd \<Rightarrow> u32 \<Rightarrow> ('a sdhc_state_scheme, u32) io" where
  "sdhc_command site sleep fr cmd arg st =
    bind_res (sdhc_send_command sleep fr cmd arg (fr + 128) st) (\<lambda>(st, ret).
      assert_that site (ret = 0) (Inr (st, word_at (fr + 128) st)))"

definition sdhc_go_idle_state :: "('a sdhc_state_scheme \<Rightarrow> 'a sdhc_state_scheme res) \<Rightarrow> addr \<Rightarrow> 'a sdhc_state_scheme \<Rightarrow> 'a sdhc_state_scheme res" where
  "sdhc_go_idle_state sleep fr st =
    bind_res (sdhc_send_command sleep fr SDHC_CMD0 0 0 st) (\<lambda>(st, ret). assert_that ''sdhc.c:239'' (ret = 0) (Inr st))"

definition sdhc_send_if_condition :: "('a sdhc_state_scheme \<Rightarrow> 'a sdhc_state_scheme res) \<Rightarrow> addr \<Rightarrow> 'a sdhc_state_scheme \<Rightarrow> 'a sdhc_state_scheme res" where
  "sdhc_send_if_condition sleep fr st =
    (let st = put_word (fr + 128) 0 st;
         v = bits_set SDHC_CMD8_PATTERN 0xaa OR bits_set SDHC_CMD8_VHS SDHC_CMD8_VHS_27_36
     in bind_res (sdhc_command ''sdhc.c:252'' sleep fr SDHC_CMD8 v st) (\<lambda>(st, resp).
          assert_that ''sdhc.c:253'' (bits_get resp SDHC_CMD8_PATTERN = 0xaa)
            (assert_that ''sdhc.c:254'' (bits_get resp SDHC_CMD8_VHS AND SDHC_CMD8_VHS_27_36 \<noteq> 0) (Inr st))))"

fun op_condition_loop :: "nat \<Rightarrow> ('a sdhc_state_scheme \<Rightarrow> 'a sdhc_state_scheme res) \<Rightarrow> addr \<Rightarrow> 'a sdhc_state_scheme \<Rightarrow> 'a sdhc_state_scheme res" where
  "op_condition_loop 0 sleep fr st = Inr st"
| "op_condition_loop (Suc k) sleep fr st =
    bind_res (sdhc_command ''sdhc.c:266'' sleep fr SDHC_CMD55 0 (put_word (fr + 128) 0 st)) (\<lambda>(st, card_sts).
      assert_that ''sdhc.c:269'' (bit card_sts 5)
       (assert_that ''sdhc.c:270'' (bit card_sts 8)
         (bind_res (sdhc_command ''sdhc.c:276'' sleep fr SDHC_ACMD41
             (bits_on SDHC_OCR_VDD_32_33 OR bits_on SDHC_OCR_CS) (put_word (fr + 128) 0 st)) (\<lambda>(st, resp).
           assert_that ''sdhc.c:279'' (bits_get resp SDHC_OCR_VDD_32_33 \<noteq> 0)
             (if bits_get resp SDHC_OCR_BUSY \<noteq> 0
              then assert_that ''sdhc.c:282'' (bits_get resp SDHC_OCR_CS \<noteq> 0) (Inr st)
              else op_condition_loop k sleep fr (emit (Msleep 2000) st))))))"

definition sdhc_send_op_condition :: "('a sdhc_state_scheme \<Rightarrow> 'a sdhc_state_scheme res) \<Rightarrow> addr \<Rightarrow> 'a sdhc_state_scheme \<Rightarrow> 'a sdhc_state_scheme res" where
  "sdhc_send_op_condition = op_condition_loop 4"

definition sdhc_send_cid :: "('a sdhc_state_scheme \<Rightarrow> 'a sdhc_state_scheme res) \<Rightarrow> addr \<Rightarrow> 'a sdhc_state_scheme \<Rightarrow> 'a sdhc_state_scheme res" where
  "sdhc_send_cid sleep fr st = bind_res (sdhc_command ''sdhc.c:295'' sleep fr SDHC_CMD2 0 st) (\<lambda>(st, cid). Inr st)"

definition sdhc_send_rca :: "('a sdhc_state_scheme \<Rightarrow> 'a sdhc_state_scheme res) \<Rightarrow> addr \<Rightarrow> 'a sdhc_state_scheme \<Rightarrow> 'a sdhc_state_scheme res" where
  "sdhc_send_rca sleep fr st =
    bind_res (sdhc_command ''sdhc.c:305'' sleep fr SDHC_CMD3 0 st) (\<lambda>(st, resp).
      Inr (st\<lparr>sc_addr := ucast (bits_get resp SDHC_CMD3_RCA)\<rparr>))"

definition sdhc_send_csd :: "('a sdhc_state_scheme \<Rightarrow> 'a sdhc_state_scheme res) \<Rightarrow> addr \<Rightarrow> 'a sdhc_state_scheme \<Rightarrow> 'a sdhc_state_scheme res" where
  "sdhc_send_csd sleep fr st =
    bind_res (sdhc_command ''sdhc.c:317'' sleep fr SDHC_CMD9 (bits_set SDHC_CMD9_RCA (ucast (sc_addr st))) st) (\<lambda>(st, csd). Inr st)"

text \<open>An application command: \<open>CMD55\<close> with the address of the card, then the command.\<close>

definition sdhc_app_command ::
    "string \<Rightarrow> string \<Rightarrow> ('a sdhc_state_scheme \<Rightarrow> 'a sdhc_state_scheme res) \<Rightarrow> addr \<Rightarrow> sdhc_cmd \<Rightarrow> u32 \<Rightarrow>
     'a sdhc_state_scheme \<Rightarrow> 'a sdhc_state_scheme res" where
  "sdhc_app_command site1 site2 sleep fr cmd arg st =
    bind_res (sdhc_command site1 sleep fr SDHC_CMD55 (bits_set SDHC_CMD55_RCA (ucast (sc_addr st))) (put_word (fr + 128) 0 st)) (\<lambda>(st, card_sts).
      bind_res (sdhc_command site2 sleep fr cmd arg (put_word (fr + 128) 0 st)) (\<lambda>(st, card_sts). Inr st))"

definition sdhc_send_scr :: "('a sdhc_state_scheme \<Rightarrow> 'a sdhc_state_scheme res) \<Rightarrow> device \<Rightarrow> addr \<Rightarrow> 'a sdhc_state_scheme \<Rightarrow> 'a sdhc_state_scheme res" where
  "sdhc_send_scr sleep dev fr st =
    bind_res (sdhc_app_command ''sdhc.c:329'' ''sdhc.c:334'' sleep fr SDHC_ACMD51 0 st) (\<lambda>st.
      Inr (fst (sd_read dev SDHC_DATA (fst (sd_read dev SDHC_DATA st)))))"

definition sdhc_clear_card_detect :: "('a sdhc_state_scheme \<Rightarrow> 'a sdhc_state_scheme res) \<Rightarrow> addr \<Rightarrow> 'a sdhc_state_scheme \<Rightarrow> 'a sdhc_state_scheme res" where
  "sdhc_clear_card_detect sleep fr = sdhc_app_command ''sdhc.c:349'' ''sdhc.c:353'' sleep fr SDHC_ACMD42 0"

definition sdhc_set_bus_width :: "('a sdhc_state_scheme \<Rightarrow> 'a sdhc_state_scheme res) \<Rightarrow> device \<Rightarrow> addr \<Rightarrow> 'a sdhc_state_scheme \<Rightarrow> 'a sdhc_state_scheme res" where
  "sdhc_set_bus_width sleep dev fr st =
    bind_res (sdhc_app_command ''sdhc.c:365'' ''sdhc.c:370'' sleep fr SDHC_ACMD6 SDHC_ACMD6_BUSW_4 st) (\<lambda>st.
      Inr (set_bits dev (bits_on SDHC_C0_4BIT) (io_base + SDHC_CNTRL0) st))"

definition sdhc_select_card :: "('a sdhc_state_scheme \<Rightarrow> 'a sdhc_state_scheme res) \<Rightarrow> addr \<Rightarrow> 'a sdhc_state_scheme \<Rightarrow> 'a sdhc_state_scheme res" where
  "sdhc_select_card sleep fr st =
    bind_res (sdhc_command ''sdhc.c:385'' sleep fr SDHC_CMD7 (bits_set SDHC_CMD7_RCA (ucast (sc_addr st))) st) (\<lambda>(st, resp). Inr st)"

definition sdhc_read_block :: "('a sdhc_state_scheme \<Rightarrow> 'a sdhc_state_scheme res) \<Rightarrow> device \<Rightarrow> addr \<Rightarrow> u32 \<Rightarrow> addr \<Rightarrow> 'a sdhc_state_scheme \<Rightarrow> 'a sdhc_state_scheme res" where
  "sdhc_read_block sleep dev fr a buf st =
    bind_res (sdhc_command ''sdhc.c:397'' sleep fr SDHC_CMD17 a st) (\<lambda>(st, resp).
      Inr (fold (\<lambda>i. read_resp dev SDHC_DATA (buf + 4 * of_nat i)) [0..<unat (drop_bit 2 SDHC_BLK_SIZE)] st))"

section \<open>The clock of the card\<close>

text \<open>The divisor of a controller of version 2.0; the loop ends with 9 when no divisor fits. The divisor is an \<open>int\<close>: for
  version 3.0 it is compared and shifted as a signed word.\<close>

definition sdclock_v2 :: "u32 \<Rightarrow> u32 \<Rightarrow> u32 res" where
  "sdclock_v2 clk freq =
    (let dv = (case find (\<lambda>n. drop_bit n clk \<le> freq) [1..<9] of None \<Rightarrow> 9 | Some n \<Rightarrow> n)
     in assert_that ''sdhc.c:423'' (drop_bit dv clk \<le> freq)
       (Inr (bits_set SDHC_C1_CLKF_LO (drop_bit 1 (push_bit dv 1)))))"

definition sdclock_v3 :: "u32 \<Rightarrow> u32 \<Rightarrow> u32 res" where
  "sdclock_v3 clk freq =
    (let dv = clk div freq; dv = (if dv AND 1 \<noteq> 0 then dv + 1 else dv)
     in assert_that ''sdhc.c:431'' (sint dv < 2048)
       (let dv = signed_drop_bit 1 dv
        in Inr (bits_set SDHC_C1_CLKF_LO dv OR bits_set SDHC_C1_CLKF_HI (drop_bit 8 dv))))"

definition sdhc_set_sdclock :: "device \<Rightarrow> u32 \<Rightarrow> 'a sdhc_state_scheme \<Rightarrow> 'a sdhc_state_scheme res" where
  "sdhc_set_sdclock dev freq st =
    (let clk = sc_emmc_clk st; st = sd_write 0 SDHC_CNTRL1 st
     in case sd_read dev SDHC_SLOT_ISR_VER st of (st, ver) \<Rightarrow>
       bind_res (if bits_get ver SDHC_VER_HC = 1 then sdclock_v2 clk freq else sdclock_v3 clk freq) (\<lambda>v.
         let st = sd_write (v OR bits_on SDHC_C1_CLK_EN) SDHC_CNTRL1 st
         in bind_res (poll_port dev (Mmio (io_base + SDHC_CNTRL1)) (\<lambda>v. bits_get v SDHC_C1_CLK_STABLE \<noteq> 0) [Msleep 2000] st) (\<lambda>(st, v).
              Inr (sd_write (v OR bits_on SDHC_C1_SDCLK_EN) SDHC_CNTRL1 st))))"

section \<open>Initialisation\<close>

definition sdhc_card_init :: "('a sdhc_state_scheme \<Rightarrow> 'a sdhc_state_scheme res) \<Rightarrow> device \<Rightarrow> addr \<Rightarrow> 'a sdhc_state_scheme \<Rightarrow> 'a sdhc_state_scheme res" where
  "sdhc_card_init sleep dev fr =
    for_each_res (\<lambda>f. f)
     [sdhc_go_idle_state sleep fr, sdhc_send_if_condition sleep fr, sdhc_send_op_condition sleep fr,
      sdhc_send_cid sleep fr, sdhc_send_rca sleep fr, sdhc_send_csd sleep fr, sdhc_select_card sleep fr,
      sdhc_send_scr sleep dev fr, sdhc_clear_card_detect sleep fr, sdhc_set_bus_width sleep dev fr,
      sdhc_set_sdclock dev SDHC_SDR12_FREQ]"

definition sdhc_init ::
    "('a sdhc_state_scheme \<Rightarrow> 'a sdhc_state_scheme res) \<Rightarrow> sched handlers \<Rightarrow> device \<Rightarrow> nat \<Rightarrow> addr \<Rightarrow>
     'a sdhc_state_scheme handlers \<Rightarrow> 'a sdhc_state_scheme handlers \<Rightarrow> 'a sdhc_state_scheme \<Rightarrow>
     ('a sdhc_state_scheme handlers \<times> 'a sdhc_state_scheme handlers \<times> 'a sdhc_state_scheme) res" where
  "sdhc_init sleep tab dev d fr hard stab st =
    (case sd_read dev SDHC_SLOT_ISR_VER st of (st, ver) \<Rightarrow>
      let ver = bits_get ver SDHC_VER_HC
      in assert_that ''sdhc.c:469'' (ver = 1 \<or> ver = 2)
        (let st = ioq_init sc_ioq (st\<lparr>sc_int := 0, sc_addr := 0, sc_emmc_clk := 0\<rparr>)
         in bind_res (irq_hard_insert IRQ_HARD_SDHC (\<lambda>st. Inr (sdhc_hard_irq dev st)) hard) (\<lambda>hard.
           bind_res (irq_sched_insert IRQ_SCHED_SDHC (sdhc_sched_irq tab dev) stab) (\<lambda>stab.
             let st = sd_write 0 SDHC_CNTRL0 st; st = sd_write 0 SDHC_CNTRL1 st; st = sd_write 0 SDHC_INT_EN st;
                 st = sd_write 0 SDHC_INT_MASK st; st = sd_write (- 1) SDHC_INT st;
                 st = sd_write (bits_on SDHC_C1_RESET_ALL) SDHC_CNTRL1 st
             in bind_res (mbox_clk_rate_get sleep dev d fr MBOX_CLK_EMMC st) (\<lambda>(st, clk).
               bind_res (sdhc_set_sdclock dev SDHC_MIN_FREQ (st\<lparr>sc_emmc_clk := clk\<rparr>)) (\<lambda>st.
                 let st = sd_write (bits_set SDHC_C0_SDBUS_VOLT 7 OR bits_on SDHC_C0_SDBUS_PWR) SDHC_CNTRL0 st;
                     st = sd_write (- 1) SDHC_INT_MASK st; st = sd_write (- 1) SDHC_INT_EN st
                 in case sd_read dev SDHC_STATUS st of (st, v) \<Rightarrow>
                   bind_res (if \<not> bit v 16 then Inr st else sdhc_card_init sleep dev fr st) (\<lambda>st.
                     Inr (hard, stab, st))))))))"

end
