(* ===== verification/SdhcProps.thy ===== *)
theory SdhcProps
  imports Sdhc
begin

text \<open>
  What the driver of the SD host controller does: a command from its submission to its response, with the
  interrupt of the controller as the only thing that happens while the thread waits; what an error does; the
  commands of the initialisation; and the rate of the clock.
\<close>

section \<open>The queue\<close>

lemma sdhc_ioctl_writes:
  assumes "sdhc_ioctl r st = Inr st'"
  shows "\<exists>l. st' = st\<lparr>io_log := l\<rparr>
    \<and> writes (io_base + SDHC_CMDTM) l = writes (io_base + SDHC_CMDTM) (io_log st) @ [cmd_word (ci_cmd (cis st (ir_arg (reqs st r))))]
    \<and> writes (io_base + SDHC_ARG1) l = writes (io_base + SDHC_ARG1) (io_log st) @ [ci_arg (cis st (ir_arg (reqs st r)))]"
proof -
  have ne: "SDHC_ARG1 \<noteq> SDHC_CMDTM" "SDHC_BLKSZCNT \<noteq> SDHC_CMDTM" "SDHC_BLKSZCNT \<noteq> SDHC_ARG1"
    by (simp_all add: SDHC_ARG1_def SDHC_CMDTM_def SDHC_BLKSZCNT_def)
  have "st' = st\<lparr>io_log := io_log st'\<rparr>"
    using assms by (auto simp: sdhc_ioctl_def Let_def assert_that_Inr writel_def emit_def split: option.splits)
  moreover have "writes (io_base + SDHC_CMDTM) (io_log st') = writes (io_base + SDHC_CMDTM) (io_log st) @ [cmd_word (ci_cmd (cis st (ir_arg (reqs st r))))]"
    using assms ne by (auto simp: sdhc_ioctl_def Let_def assert_that_Inr split: option.splits)
  moreover have "writes (io_base + SDHC_ARG1) (io_log st') = writes (io_base + SDHC_ARG1) (io_log st) @ [ci_arg (cis st (ir_arg (reqs st r)))]"
    using assms ne by (auto simp: sdhc_ioctl_def Let_def assert_that_Inr split: option.splits)
  ultimately show ?thesis by blast
qed

interpretation sdhc: io_driver sdhc_ioctl "writes (io_base + SDHC_CMDTM)" cmds
    "\<lambda>st :: 'a sdhc_state_scheme. \<forall>r. cmd_word (ci_cmd (cis st (ir_arg (reqs st r)))) = cmds r" for cmds
proof (unfold_locales, goal_cases)
  case (1 st st')
  then have "cis st' = cis st" by (cases st, cases st') simp
  with 1 show ?case by simp
next
  case (2 st r st')
  from sdhc_ioctl_writes [OF 2(2)] 2(1) show ?case by auto
qed

section \<open>A command\<close>

text \<open>The interrupt of the controller: the hard handler, and the handler it raises.\<close>

definition sdhc_interrupt :: "sched handlers \<Rightarrow> device \<Rightarrow> 'a sdhc_state_scheme \<Rightarrow> 'a sdhc_state_scheme res" where
  "sdhc_interrupt tab dev st =
    (let st = sdhc_hard_irq dev st
     in if bit (irq_sched_mask (sch st)) IRQ_SCHED_SDHC
        then sdhc_sched_irq tab dev (st\<lparr>sch := irq_sched_clear IRQ_SCHED_SDHC (sch st)\<rparr>)
        else Inr st)"

definition sd_idle :: "'a sdhc_state_scheme \<Rightarrow> bool" where
  "sd_idle st \<longleftrightarrow> ioqs st sc_ioq = \<lparr>q_in = [], q_busy = 0\<rparr> \<and> sc_int st = 0"

lemma raised_sdhc: "bit (irq_sched_mask (irq_sched_raise IRQ_SCHED_SDHC s)) IRQ_SCHED_SDHC"
  by (simp add: irq_sched_raise_def IRQ_SCHED_SDHC_def bit_or_iff)

lemma wake_nobody: "wqs s w = [] \<Longrightarrow> wake_up_preempt_disabled w s = Inr s"
  by (simp add: wake_up_preempt_disabled_def)

text \<open>The state in which the command is with the controller.\<close>

definition issued :: "addr \<Rightarrow> sdhc_cmd \<Rightarrow> u32 \<Rightarrow> addr \<Rightarrow> 'a sdhc_state_scheme \<Rightarrow> bool" where
  "issued fr c arg resp st \<longleftrightarrow> ioqs st sc_ioq = \<lparr>q_in = [fr], q_busy = 1\<rparr> \<and> wqs (sch st) (ioc_wait fr) = []
    \<and> reqs st fr = \<lparr>ir_type = IOR_TYPE_IOCTL, ir_async = False, ir_done = False, ir_status = 0,
                    ir_cmd = SDHC_IOCTL_COMMAND, ir_arg = fr + 64\<rparr>
    \<and> cis st (fr + 64) = \<lparr>ci_cmd = c, ci_arg = arg, ci_resp = resp\<rparr>"

lemma submit_issues:
  assumes "sd_idle st"
  shows "\<exists>s. sdhc_send_command sleep fr c arg resp st = bind_res (ioq_ior_wait sleep fr s) (\<lambda>st. Inr (st, ir_status (reqs st fr)))
    \<and> issued fr c arg resp s \<and> sc_int s = 0
    \<and> writes (io_base + SDHC_CMDTM) (io_log s) = writes (io_base + SDHC_CMDTM) (io_log st) @ [cmd_word c]
    \<and> writes (io_base + SDHC_ARG1) (io_log s) = writes (io_base + SDHC_ARG1) (io_log st) @ [arg]"
proof -
  let ?r = "\<lparr>ir_type = IOR_TYPE_IOCTL, ir_async = False, ir_done = False, ir_status = 0,
                    ir_cmd = SDHC_IOCTL_COMMAND, ir_arg = fr + 64\<rparr>"
  define t where "t = upd_req fr (\<lambda>_. ?r) (st\<lparr>cis := (cis st)(fr + 64 := \<lparr>ci_cmd = c, ci_arg = arg, ci_resp = resp\<rparr>)\<rparr>)"
  define u where "u = upd_ioq sc_ioq (\<lambda>x. \<lparr>q_in = [fr], q_busy = 1\<rparr>) (t\<lparr>sch := (sch t)\<lparr>wqs := (wqs (sch t))(ioc_wait fr := [])\<rparr>\<rparr>)"
  have q: "ioqs st sc_ioq = \<lparr>q_in = [], q_busy = 0\<rparr>" "sc_int st = 0" using assms by (simp_all add: sd_idle_def)
  have sub: "ioq_ior_submit sdhc_ioctl sc_ioq fr t = sdhc_ioctl fr u"
    using q(1) by (simp add: ioq_ior_submit_def t_def u_def ioq_ior_next_def ioq_ior_run_def upd_req_def upd_ioq_def Let_def)
  have ci: "cis u (fr + 64) = \<lparr>ci_cmd = c, ci_arg = arg, ci_resp = resp\<rparr>" "reqs u fr = ?r" "sc_int u = 0" "io_log u = io_log st"
    using q(2) by (simp_all add: u_def t_def upd_req_def upd_ioq_def)
  then obtain s where s: "sdhc_ioctl fr u = Inr s" by (simp add: sdhc_ioctl_def Let_def)
  from sdhc_ioctl_writes [OF s] obtain l where l: "s = u\<lparr>io_log := l\<rparr>"
      "writes (io_base + SDHC_CMDTM) l = writes (io_base + SDHC_CMDTM) (io_log st) @ [cmd_word c]"
      "writes (io_base + SDHC_ARG1) l = writes (io_base + SDHC_ARG1) (io_log st) @ [arg]" by (auto simp: ci)
  have "issued fr c arg resp s" using ci by (simp add: issued_def l(1)) (simp add: u_def upd_ioq_def)
  moreover have "sdhc_send_command sleep fr c arg resp st = bind_res (ioq_ior_wait sleep fr s) (\<lambda>st. Inr (st, ir_status (reqs st fr)))"
    using sub s by (simp add: sdhc_send_command_def t_def Let_def)
  ultimately show ?thesis using l ci by (intro exI [of _ s]) simp
qed

lemma hard_irq_sets:
  assumes "dev (io_log st) (Mmio (io_base + SDHC_INT)) \<noteq> 0"
  shows "\<exists>l. sdhc_hard_irq dev st = st\<lparr>sc_int := sc_int st OR dev (io_log st) (Mmio (io_base + SDHC_INT)),
      io_log := l, sch := irq_sched_raise IRQ_SCHED_SDHC (sch st)\<rparr>
    \<and> writes (io_base + SDHC_CMDTM) l = writes (io_base + SDHC_CMDTM) (io_log st)
    \<and> writes (io_base + SDHC_ARG1) l = writes (io_base + SDHC_ARG1) (io_log st)"
proof -
  let ?v = "dev (io_log st) (Mmio (io_base + SDHC_INT))"
  have "SDHC_INT \<noteq> SDHC_CMDTM" "SDHC_INT \<noteq> SDHC_ARG1"
    by (simp_all add: SDHC_ARG1_def SDHC_CMDTM_def SDHC_INT_def)
  with assms show ?thesis
    by (intro exI [of _ "Wr (Mmio (io_base + SDHC_INT)) ?v # Rd (Mmio (io_base + SDHC_INT)) ?v # io_log st"])
      (simp add: sdhc_hard_irq_def readl_def read_port_def writel_def emit_def Let_def)
qed

lemma read_resp_eq:
  "read_resp dev r a st = st\<lparr>io_log := Rd (Mmio (io_base + r)) (dev (io_log st) (Mmio (io_base + r))) # io_log st,
     mem := set_word a (dev (io_log st) (Mmio (io_base + r))) (mem st)\<rparr>"
  by (simp add: read_resp_def readl_def read_port_def put_word_def emit_def Let_def)

lemma done_ioctl_responds:
  assumes "ir_cmd (reqs st r) = SDHC_IOCTL_COMMAND" and "cis st (ir_arg (reqs st r)) = \<lparr>ci_cmd = c, ci_arg = arg, ci_resp = resp\<rparr>"
  shows "\<exists>l m. sdhc_done_ioctl dev r st = Inr (st\<lparr>io_log := l, mem := m\<rparr>)
    \<and> writes a l = writes a (io_log st)
    \<and> (resp_136 c \<or> resp_48 c \<longrightarrow> (\<exists>l'. ptm m resp = dev l' (Mmio (io_base + SDHC_RESP0))))"
proof -
  have reads: "\<exists>l' m'. read_resp dev x y (st\<lparr>io_log := l, mem := m\<rparr>) = st\<lparr>io_log := l', mem := m'\<rparr> \<and> writes a l' = writes a l" for x y l m
    by (simp only: read_resp_eq) (intro exI conjI, (simp; fail), simp)
  define s where "s = (if resp_136 c
    then read_resp dev SDHC_RESP3 (resp + 12) (read_resp dev SDHC_RESP2 (resp + 8) (read_resp dev SDHC_RESP1 (resp + 4) st)) else st)"
  have s: "\<exists>l m. s = st\<lparr>io_log := l, mem := m\<rparr> \<and> writes a l = writes a (io_log st)"
  proof (cases "resp_136 c")
    case True
    have st: "st = st\<lparr>io_log := io_log st, mem := mem st\<rparr>" by simp
    obtain l1 m1 where s1: "read_resp dev SDHC_RESP1 (resp + 4) st = st\<lparr>io_log := l1, mem := m1\<rparr>" "writes a l1 = writes a (io_log st)"
      using reads [where x = SDHC_RESP1 and y = "resp + 4" and l = "io_log st" and m = "mem st"] st by auto
    obtain l2 m2 where s2: "read_resp dev SDHC_RESP2 (resp + 8) (st\<lparr>io_log := l1, mem := m1\<rparr>) = st\<lparr>io_log := l2, mem := m2\<rparr>" "writes a l2 = writes a l1"
      using reads by blast
    obtain l3 m3 where s3: "read_resp dev SDHC_RESP3 (resp + 12) (st\<lparr>io_log := l2, mem := m2\<rparr>) = st\<lparr>io_log := l3, mem := m3\<rparr>" "writes a l3 = writes a l2"
      using reads by blast
    show ?thesis using True s1 s2 s3 unfolding s_def by auto
  next
    case False
    then have "s = st\<lparr>io_log := io_log st, mem := mem st\<rparr>" by (simp add: s_def)
    then show ?thesis by blast
  qed
  then obtain l m where l: "s = st\<lparr>io_log := l, mem := m\<rparr>" "writes a l = writes a (io_log st)" by blast
  have d: "sdhc_done_ioctl dev r st = Inr (if resp_136 c \<or> resp_48 c then read_resp dev SDHC_RESP0 resp s else s)"
    using assms by (simp add: sdhc_done_ioctl_def Let_def s_def)
  show ?thesis
  proof (cases "resp_136 c \<or> resp_48 c")
    case True
    let ?v = "dev l (Mmio (io_base + SDHC_RESP0))"
    have "sdhc_done_ioctl dev r st = Inr (st\<lparr>io_log := Rd (Mmio (io_base + SDHC_RESP0)) ?v # l, mem := set_word resp ?v m\<rparr>)"
      unfolding d using True by (simp add: l(1) read_resp_eq)
    moreover have "ptm (set_word resp ?v m) resp = ?v" by (simp add: set_word_def)
    ultimately show ?thesis using l(2) by (intro exI conjI) (assumption, simp, blast)
  next
    case False
    then show ?thesis using d l by auto
  qed
qed

lemma interrupt_completes:
  fixes st :: "'a sdhc_state_scheme"
  assumes i: "issued fr c arg resp st" and z: "sc_int st = 0"
    and v: "v = dev (io_log st) (Mmio (io_base + SDHC_INT))" and cmd: "bits_get v SDHC_INT_CMD \<noteq> 0"
    and a: "a = io_base + SDHC_CMDTM \<or> a = io_base + SDHC_ARG1"
  shows "\<exists>s. sdhc_interrupt tab dev st = Inr s \<and> ir_done (reqs s fr)
    \<and> ir_status (reqs s fr) = (if bits_get v SDHC_INT_ERR \<noteq> 0 then - 1 else 0) \<and> sd_idle s
    \<and> writes a (io_log s) = writes a (io_log st)
    \<and> (bits_get v SDHC_INT_ERR = 0 \<and> (resp_136 c \<or> resp_48 c) \<longrightarrow> (\<exists>l. word_at resp s = dev l (Mmio (io_base + SDHC_RESP0))))"
proof -
  note i' = i [unfolded issued_def]
  have nz: "v \<noteq> 0" using cmd by auto
  from hard_irq_sets [of dev st] nz v obtain l where
    h: "sdhc_hard_irq dev st = st\<lparr>sc_int := sc_int st OR v, io_log := l, sch := irq_sched_raise IRQ_SCHED_SDHC (sch st)\<rparr>"
    and w: "writes a l = writes a (io_log st)" using a by auto
  define s3 where "s3 = st\<lparr>io_log := l, sch := irq_sched_clear IRQ_SCHED_SDHC (irq_sched_raise IRQ_SCHED_SDHC (sch st)), sc_int := 0\<rparr>"
  define s4 where "s4 = upd_req fr (\<lambda>x. x\<lparr>ir_status := 0\<rparr>)
     (upd_ioq sc_ioq (\<lambda>x. x\<lparr>q_in := []\<rparr>) (upd_ioq sc_ioq (\<lambda>x. x\<lparr>q_busy := q_busy x - 1\<rparr>) s3))"
  have s4: "ir_cmd (reqs s4 fr) = SDHC_IOCTL_COMMAND" "ir_arg (reqs s4 fr) = fr + 64" "ir_type (reqs s4 fr) = IOR_TYPE_IOCTL"
    "ir_async (reqs s4 fr) = False" "ir_status (reqs s4 fr) = 0"
    "cis s4 (fr + 64) = \<lparr>ci_cmd = c, ci_arg = arg, ci_resp = resp\<rparr>" "ioqs s4 sc_ioq = \<lparr>q_in = [], q_busy = 0\<rparr>"
    "sc_int s4 = 0" "wqs (sch s4) (ioc_wait fr) = []" "io_log s4 = l"
    using i' by (simp_all add: s4_def s3_def upd_req_def upd_ioq_def irq_sched_clear_def irq_sched_raise_def)
  have sc: "sdhc_interrupt tab dev st = bind_res
      (if bits_get v SDHC_INT_ERR \<noteq> 0 then Inr (upd_req fr (\<lambda>x. x\<lparr>ir_status := - 1\<rparr>) s4) else sdhc_done_ioctl dev fr s4)
      (ioq_ior_done_sched tab sdhc_ioctl sc_ioq fr)"
  proof -
    have "sdhc_interrupt tab dev st = sdhc_sched_irq tab dev
        (st\<lparr>sc_int := v, io_log := l, sch := irq_sched_clear IRQ_SCHED_SDHC (irq_sched_raise IRQ_SCHED_SDHC (sch st))\<rparr>)"
      unfolding sdhc_interrupt_def Let_def h using raised_sdhc [of "sch st"] z by simp
    also have "\<dots> = bind_res (ioq_ior_dequeue_sched sc_ioq s3) (\<lambda>(st, r).
          let st = upd_req r (\<lambda>x. x\<lparr>ir_status := 0\<rparr>) st
          in bind_res
            (if bits_get v SDHC_INT_ERR \<noteq> 0 then Inr (upd_req r (\<lambda>x. x\<lparr>ir_status := - 1\<rparr>) st)
             else case ir_type (reqs st r) of IOR_TYPE_IOCTL \<Rightarrow> sdhc_done_ioctl dev r st | _ \<Rightarrow> Inl (Assert ''sdhc.c:142''))
            (ioq_ior_done_sched tab sdhc_ioctl sc_ioq r))"
      using cmd by (simp add: sdhc_sched_irq_def s3_def Let_def)
    also have "ioq_ior_dequeue_sched sc_ioq s3 =
        Inr (upd_ioq sc_ioq (\<lambda>x. x\<lparr>q_in := []\<rparr>) (upd_ioq sc_ioq (\<lambda>x. x\<lparr>q_busy := q_busy x - 1\<rparr>) s3), fr)"
      using i' by (simp add: ioq_ior_dequeue_sched_def s3_def Let_def)
    finally show ?thesis using s4(3) by (simp add: Let_def s4_def [symmetric])
  qed
  have fin: "\<exists>s. ioq_ior_done_sched tab sdhc_ioctl sc_ioq fr t = Inr s \<and> ir_done (reqs s fr) \<and> ir_status (reqs s fr) = ir_status (reqs t fr)
      \<and> sd_idle s \<and> io_log s = io_log t \<and> mem s = mem t"
    if "ir_async (reqs t fr) = False" "ioqs t sc_ioq = \<lparr>q_in = [], q_busy = 0\<rparr>" "sc_int t = 0" "wqs (sch t) (ioc_wait fr) = []" for t :: "'a sdhc_state_scheme"
    using that by (simp add: ioq_ior_done_sched_def Let_def wake_nobody ioq_ior_next_def ioq_ior_run_def sd_idle_def)
      (simp add: upd_req_def)
  show ?thesis
  proof (cases "bits_get v SDHC_INT_ERR \<noteq> 0")
    case True
    define t where "t = upd_req fr (\<lambda>x. x\<lparr>ir_status := - 1\<rparr>) s4"
    have "\<exists>s. ioq_ior_done_sched tab sdhc_ioctl sc_ioq fr t = Inr s \<and> ir_done (reqs s fr) \<and> ir_status (reqs s fr) = ir_status (reqs t fr)
      \<and> sd_idle s \<and> io_log s = io_log t \<and> mem s = mem t"
      by (rule fin) (use s4 in \<open>simp_all add: t_def upd_req_def\<close>)
    then show ?thesis using sc True w s4 by (auto simp: t_def)
  next
    case False
    from done_ioctl_responds [OF s4(1), of c arg resp dev a] s4(2,6) obtain l2 m where
      d: "sdhc_done_ioctl dev fr s4 = Inr (s4\<lparr>io_log := l2, mem := m\<rparr>)" "writes a l2 = writes a (io_log s4)"
      "resp_136 c \<or> resp_48 c \<longrightarrow> (\<exists>l'. ptm m resp = dev l' (Mmio (io_base + SDHC_RESP0)))" by auto
    define t where "t = s4\<lparr>io_log := l2, mem := m\<rparr>"
    have "\<exists>s. ioq_ior_done_sched tab sdhc_ioctl sc_ioq fr t = Inr s \<and> ir_done (reqs s fr) \<and> ir_status (reqs s fr) = ir_status (reqs t fr)
      \<and> sd_idle s \<and> io_log s = io_log t \<and> mem s = mem t"
      by (rule fin) (use s4 in \<open>simp_all add: t_def\<close>)
    then show ?thesis using sc False w s4(5,10) d by (auto simp: t_def word_at_def)
  qed
qed

lemma wait_completes:
  assumes "ir_done (reqs st r) = False" "ir_async (reqs st r) = False" and "sleep st = Inr s" and "ir_done (reqs s r)"
  shows "ioq_ior_wait sleep r st = Inr s"
  using assms by (simp add: ioq_ior_wait_def run_loop_def ioq_wait_loop.simps)

lemma command_completes:
  assumes "sd_idle st" and "\<forall>l. bits_get (dev l (Mmio (io_base + SDHC_INT))) SDHC_INT_CMD \<noteq> 0"
  shows "\<exists>st' ret v l. sdhc_send_command (sdhc_interrupt tab dev) fr c arg resp st = Inr (st', ret) \<and> sd_idle st'
    \<and> v = dev l (Mmio (io_base + SDHC_INT)) \<and> ret = (if bits_get v SDHC_INT_ERR \<noteq> 0 then - 1 else 0)
    \<and> writes (io_base + SDHC_CMDTM) (io_log st') = writes (io_base + SDHC_CMDTM) (io_log st) @ [cmd_word c]
    \<and> writes (io_base + SDHC_ARG1) (io_log st') = writes (io_base + SDHC_ARG1) (io_log st) @ [arg]
    \<and> (ret = 0 \<and> (resp_136 c \<or> resp_48 c) \<longrightarrow> (\<exists>l. word_at resp st' = dev l (Mmio (io_base + SDHC_RESP0))))"
proof -
  obtain s where s: "sdhc_send_command (sdhc_interrupt tab dev) fr c arg resp st
        = bind_res (ioq_ior_wait (sdhc_interrupt tab dev) fr s) (\<lambda>st. Inr (st, ir_status (reqs st fr)))"
      "issued fr c arg resp s" "sc_int s = 0"
      "writes (io_base + SDHC_CMDTM) (io_log s) = writes (io_base + SDHC_CMDTM) (io_log st) @ [cmd_word c]"
      "writes (io_base + SDHC_ARG1) (io_log s) = writes (io_base + SDHC_ARG1) (io_log st) @ [arg]"
    using submit_issues [OF assms(1)] by blast
  define v where "v = dev (io_log s) (Mmio (io_base + SDHC_INT))"
  have cmd: "bits_get v SDHC_INT_CMD \<noteq> 0" using assms(2) by (simp add: v_def)
  note ic = interrupt_completes [where dev = dev and v = v and tab = tab, OF s(2,3) v_def cmd]
  obtain t where t: "sdhc_interrupt tab dev s = Inr t" "ir_done (reqs t fr)"
      "ir_status (reqs t fr) = (if bits_get v SDHC_INT_ERR \<noteq> 0 then - 1 else 0)" "sd_idle t"
      "writes (io_base + SDHC_CMDTM) (io_log t) = writes (io_base + SDHC_CMDTM) (io_log s)"
      "bits_get v SDHC_INT_ERR = 0 \<and> (resp_136 c \<or> resp_48 c) \<longrightarrow> (\<exists>l. word_at resp t = dev l (Mmio (io_base + SDHC_RESP0)))"
    using ic [where a = "io_base + SDHC_CMDTM"] by blast
  have t': "writes (io_base + SDHC_ARG1) (io_log t) = writes (io_base + SDHC_ARG1) (io_log s)"
    using ic [where a = "io_base + SDHC_ARG1"] t(1) by auto
  have "ioq_ior_wait (sdhc_interrupt tab dev) fr s = Inr t"
    by (rule wait_completes) (use s(2) t in \<open>simp_all add: issued_def\<close>)
  then have "sdhc_send_command (sdhc_interrupt tab dev) fr c arg resp st = Inr (t, ir_status (reqs t fr))" by (simp add: s(1))
  then show ?thesis
    using t t' s(4,5) v_def
    by (intro exI [of _ t] exI [of _ "ir_status (reqs t fr)"] exI [of _ v] exI [of _ "io_log s"]) auto
qed


section \<open>An error without the end of the command\<close>

lemma int_cmd_or: "bits_get (a OR b) SDHC_INT_CMD = 0 \<longleftrightarrow> bits_get a SDHC_INT_CMD = 0 \<and> bits_get b SDHC_INT_CMD = 0"
  unfolding bits_get_or by (rule or_eq_0_iff)

lemma interrupt_without_cmd:
  fixes st :: "'a sdhc_state_scheme"
  assumes i: "issued fr c arg resp st" and z: "bits_get (sc_int st) SDHC_INT_CMD = 0"
    and v: "bits_get (dev (io_log st) (Mmio (io_base + SDHC_INT))) SDHC_INT_CMD = 0"
  shows "\<exists>s. sdhc_interrupt tab dev st = Inr s \<and> issued fr c arg resp s \<and> bits_get (sc_int s) SDHC_INT_CMD = 0"
proof -
  have h: "issued fr c arg resp (sdhc_hard_irq dev st) \<and> bits_get (sc_int (sdhc_hard_irq dev st)) SDHC_INT_CMD = 0"
  proof (cases "dev (io_log st) (Mmio (io_base + SDHC_INT)) = 0")
    case True
    then show ?thesis using i z
      by (simp add: sdhc_hard_irq_def readl_def read_port_def emit_def Let_def issued_def)
  next
    case False
    from hard_irq_sets [where dev = dev and st = st, OF False] show ?thesis
      using i z v by (auto simp: issued_def int_cmd_or irq_sched_raise_def)
  qed
  have s: "\<exists>s. sdhc_sched_irq tab dev (t\<lparr>sch := irq_sched_clear IRQ_SCHED_SDHC (sch t)\<rparr>) = Inr s
      \<and> issued fr c arg resp s \<and> bits_get (sc_int s) SDHC_INT_CMD = 0"
    if "issued fr c arg resp t" "bits_get (sc_int t) SDHC_INT_CMD = 0" for t :: "'a sdhc_state_scheme"
    using that by (simp add: sdhc_sched_irq_def Let_def issued_def irq_sched_clear_def)
  show ?thesis
    using h s [of "sdhc_hard_irq dev st"] by (simp add: sdhc_interrupt_def Let_def)
qed

lemma wait_endless:
  assumes "ioq_wait_loop sleep fr st = Some x"
  shows "sleep = sdhc_interrupt tab dev \<longrightarrow> issued fr c arg resp st \<longrightarrow> bits_get (sc_int st) SDHC_INT_CMD = 0 \<longrightarrow>
    (\<forall>l. bits_get (dev l (Mmio (io_base + SDHC_INT))) SDHC_INT_CMD = 0) \<longrightarrow> False"
  using assms
proof (induction rule: ioq_wait_loop.raw_induct [rotated 1, consumes 1, case_names loop])
  case (loop wait sleep fr st x)
  show ?case
  proof (intro impI)
    assume a: "sleep = sdhc_interrupt tab dev" "issued fr c arg resp st" "bits_get (sc_int st) SDHC_INT_CMD = 0"
      "\<forall>l. bits_get (dev l (Mmio (io_base + SDHC_INT))) SDHC_INT_CMD = 0"
    obtain s where s: "sdhc_interrupt tab dev st = Inr s" "issued fr c arg resp s" "bits_get (sc_int s) SDHC_INT_CMD = 0"
      using interrupt_without_cmd [OF a(2,3)] a(4) by blast
    have "wait sleep fr s = Some x" using loop(2) a(1,2) s(1) by (simp add: issued_def)
    from loop(1) [OF this] a(1,4) s(2,3) show False by blast
  qed
qed

text \<open>C27: An error that comes without the end of the command, such as a timeout, is lost: the handler looks at the error bit
  only when the command bit is set. The status is cleared, the request stays with the queue, and the thread
  that sent the command waits for ever.\<close>

theorem sdhc_error_alone_hangs:
  assumes "sd_idle st" and "\<forall>l. bits_get (dev l (Mmio (io_base + SDHC_INT))) SDHC_INT_CMD = 0"
  shows "sdhc_send_command (sdhc_interrupt tab dev) fr c arg resp st = Inl Endless"
proof -
  obtain s where s: "sdhc_send_command (sdhc_interrupt tab dev) fr c arg resp st
        = bind_res (ioq_ior_wait (sdhc_interrupt tab dev) fr s) (\<lambda>st. Inr (st, ir_status (reqs st fr)))"
      "issued fr c arg resp s" "sc_int s = 0"
    using submit_issues [OF assms(1)] by blast
  have "ioq_wait_loop (sdhc_interrupt tab dev) fr s = None"
  proof (cases "ioq_wait_loop (sdhc_interrupt tab dev) fr s")
    case (Some x)
    from wait_endless [OF this, of tab dev c arg resp] s(2,3) assms(2) show ?thesis by simp
  qed simp
  then show ?thesis using s(1,2) by (simp add: ioq_ior_wait_def run_loop_def issued_def)
qed

section \<open>A card that never becomes ready\<close>

lemma sd_idle_simps [simp]:
  "sd_idle (put_word a v st) = sd_idle st" "sd_idle (emit e st) = sd_idle st" "io_log (put_word a v st) = io_log st"
  by (simp_all add: sd_idle_def put_word_def emit_def)

lemma command_ok:
  assumes "sd_idle st" and "\<forall>l. bits_get (dev l (Mmio (io_base + SDHC_INT))) SDHC_INT_CMD \<noteq> 0"
    and "\<forall>l. bits_get (dev l (Mmio (io_base + SDHC_INT))) SDHC_INT_ERR = 0" and "resp_136 c \<or> resp_48 c"
  shows "\<exists>s l. sdhc_command site (sdhc_interrupt tab dev) fr c arg st = Inr (s, dev l (Mmio (io_base + SDHC_RESP0))) \<and> sd_idle s
    \<and> writes (io_base + SDHC_CMDTM) (io_log s) = writes (io_base + SDHC_CMDTM) (io_log st) @ [cmd_word c]"
proof -
  obtain s ret v l where s: "sdhc_send_command (sdhc_interrupt tab dev) fr c arg (fr + 128) st = Inr (s, ret)" "sd_idle s"
      "v = dev l (Mmio (io_base + SDHC_INT))" "ret = (if bits_get v SDHC_INT_ERR \<noteq> 0 then - 1 else 0)"
      "writes (io_base + SDHC_CMDTM) (io_log s) = writes (io_base + SDHC_CMDTM) (io_log st) @ [cmd_word c]"
      "ret = 0 \<and> (resp_136 c \<or> resp_48 c) \<longrightarrow> (\<exists>l. word_at (fr + 128) s = dev l (Mmio (io_base + SDHC_RESP0)))"
    using command_completes [where dev = dev, OF assms(1,2), of tab fr c arg "fr + 128"] by blast
  have "ret = 0" using s(3,4) assms(3) by simp
  with s assms(4) show ?thesis by (auto simp: sdhc_command_def)
qed

text \<open>The wait for the card has no failure. When the card answers every \<open>ACMD41\<close> but stays busy, the loop gives up after
  four rounds and \<open>sdhc_send_op_condition\<close> returns like for a card that is ready: the next
  commands are sent to it.\<close>

theorem busy_card_is_accepted:
  assumes "sd_idle st" and "\<forall>l. bits_get (dev l (Mmio (io_base + SDHC_INT))) SDHC_INT_CMD \<noteq> 0"
    and "\<forall>l. bits_get (dev l (Mmio (io_base + SDHC_INT))) SDHC_INT_ERR = 0"
    and "\<forall>l. let v = dev l (Mmio (io_base + SDHC_RESP0))
      in bit v 5 \<and> bit v 8 \<and> bits_get v SDHC_OCR_VDD_32_33 \<noteq> 0 \<and> bits_get v SDHC_OCR_BUSY = 0"
  shows "\<exists>st'. sdhc_send_op_condition (sdhc_interrupt tab dev) fr st = Inr st' \<and> sd_idle st'
    \<and> writes (io_base + SDHC_CMDTM) (io_log st')
        = writes (io_base + SDHC_CMDTM) (io_log st) @ concat (replicate 4 [cmd_word SDHC_CMD55, cmd_word SDHC_ACMD41])"
proof -
  have "\<exists>st'. op_condition_loop k (sdhc_interrupt tab dev) fr st = Inr st' \<and> sd_idle st'
    \<and> writes (io_base + SDHC_CMDTM) (io_log st')
        = writes (io_base + SDHC_CMDTM) (io_log st) @ concat (replicate k [cmd_word SDHC_CMD55, cmd_word SDHC_ACMD41])" for k
    using assms(1)
  proof (induction k arbitrary: st)
    case (Suc k)
    have r: "resp_48 SDHC_CMD55" "resp_48 SDHC_ACMD41" by (simp_all add: resp_48_def)
    obtain s l where s: "sdhc_command ''sdhc.c:266'' (sdhc_interrupt tab dev) fr SDHC_CMD55 0 (put_word (fr + 128) 0 st)
          = Inr (s, dev l (Mmio (io_base + SDHC_RESP0)))" "sd_idle s"
        "writes (io_base + SDHC_CMDTM) (io_log s) = writes (io_base + SDHC_CMDTM) (io_log st) @ [cmd_word SDHC_CMD55]"
      using command_ok [where dev = dev and c = SDHC_CMD55 and st = "put_word (fr + 128) 0 st" and site = "''sdhc.c:266''" and tab = tab and fr = fr and arg = 0, OF _ assms(2,3)] Suc.prems r(1) by auto
    obtain u m where u: "sdhc_command ''sdhc.c:276'' (sdhc_interrupt tab dev) fr SDHC_ACMD41
            (bits_on SDHC_OCR_VDD_32_33 OR bits_on SDHC_OCR_CS) (put_word (fr + 128) 0 s)
          = Inr (u, dev m (Mmio (io_base + SDHC_RESP0)))" "sd_idle u"
        "writes (io_base + SDHC_CMDTM) (io_log u) = writes (io_base + SDHC_CMDTM) (io_log s) @ [cmd_word SDHC_ACMD41]"
      using command_ok [where dev = dev and c = SDHC_ACMD41 and st = "put_word (fr + 128) 0 s" and site = "''sdhc.c:276''" and tab = tab and fr = fr
        and arg = "bits_on SDHC_OCR_VDD_32_33 OR bits_on SDHC_OCR_CS", OF _ assms(2,3)] s(2) r(2) by auto
    have v: "bit (dev l (Mmio (io_base + SDHC_RESP0))) 5" "bit (dev l (Mmio (io_base + SDHC_RESP0))) 8"
      "bits_get (dev m (Mmio (io_base + SDHC_RESP0))) SDHC_OCR_VDD_32_33 \<noteq> 0" "bits_get (dev m (Mmio (io_base + SDHC_RESP0))) SDHC_OCR_BUSY = 0"
      using assms(4) by (auto simp: Let_def)
    obtain st' where "op_condition_loop k (sdhc_interrupt tab dev) fr (emit (Msleep 2000) u) = Inr st'" "sd_idle st'"
      "writes (io_base + SDHC_CMDTM) (io_log st') = writes (io_base + SDHC_CMDTM) (io_log u)
          @ concat (replicate k [cmd_word SDHC_CMD55, cmd_word SDHC_ACMD41])"
      using Suc.IH [of "emit (Msleep 2000) u"] u(2) by auto
    then show ?case using s u v by simp
  qed simp
  then show ?thesis by (simp only: sdhc_send_op_condition_def)
qed

section \<open>The words of the commands\<close>

text \<open>What each command word says: its index; a response of 136 bits, of 48, or none; the checks of the index and the
  CRC are off for the responses that have none; two commands read data.\<close>

lemma cmd_words:
  "bits_get (cmd_word c) SDHC_CMD_INDEX = cmd_val c
   \<and> bits_get (cmd_word c) SDHC_CMD_RESP_TYPE = (if resp_136 c then 1 else if resp_48 c then 2 else 0)
   \<and> (bits_get (cmd_word c) SDHC_CMD_CRCCHK_EN = 0 \<longleftrightarrow> c \<in> {SDHC_ACMD41, SDHC_CMD2, SDHC_CMD9})
   \<and> (bits_get (cmd_word c) SDHC_CMD_ISDATA = 1 \<longleftrightarrow> c \<in> {SDHC_ACMD51, SDHC_CMD17})"
proof -
  have "\<forall>c. bits_get (cmd_word c) SDHC_CMD_INDEX = cmd_val c
   \<and> bits_get (cmd_word c) SDHC_CMD_RESP_TYPE = (if resp_136 c then 1 else if resp_48 c then 2 else 0)
   \<and> (bits_get (cmd_word c) SDHC_CMD_CRCCHK_EN = 0 \<longleftrightarrow> c \<in> {SDHC_ACMD41, SDHC_CMD2, SDHC_CMD9})
   \<and> (bits_get (cmd_word c) SDHC_CMD_ISDATA = 1 \<longleftrightarrow> c \<in> {SDHC_ACMD51, SDHC_CMD17})" by code_simp
  then show ?thesis by blast
qed

section \<open>The rate of the clock\<close>

text \<open>The divisor a controller reads from the word: twice the ten bits, and none for zero; version 2.0 has eight bits.\<close>

definition sd_divisor :: "u32 \<Rightarrow> nat" where
  "sd_divisor v = (let n = unat (bits_get v SDHC_C1_CLKF_LO) + 256 * unat (bits_get v SDHC_C1_CLKF_HI) in if n = 0 then 1 else 2 * n)"

lemma odd_word: "(w AND 1 \<noteq> 0) = odd (unat w)" for w :: u32
proof -
  have "bit (unat w) 0 \<longleftrightarrow> bit w 0" by (simp add: bit_unsigned_iff)
  then show ?thesis by (simp add: low_bit bit_0)
qed

lemma sd_divisor_word:
  assumes "unat n < 1024"
  shows "sd_divisor (bits_set SDHC_C1_CLKF_LO n OR bits_set SDHC_C1_CLKF_HI (drop_bit 8 n)) = (if n = 0 then 1 else 2 * unat n)"
proof -
  have f: "field_ok SDHC_C1_CLKF_LO" "field_ok SDHC_C1_CLKF_HI" "fields_disjoint SDHC_C1_CLKF_LO SDHC_C1_CLKF_HI"
    "fields_disjoint SDHC_C1_CLKF_HI SDHC_C1_CLKF_LO"
    by (simp_all add: field_ok_def fields_disjoint_def fields)
  let ?v = "bits_set SDHC_C1_CLKF_LO n OR bits_set SDHC_C1_CLKF_HI (drop_bit 8 n)"
  have lo: "unat (bits_get ?v SDHC_C1_CLKF_LO) = unat n mod 256"
  proof -
    have "bits_get ?v SDHC_C1_CLKF_LO = take_bit 8 n"
      unfolding bits_get_or bits_get_set_same [OF f(1)] bits_get_set_other [OF f(1,2,3)]
      by (simp add: fields take_bit_eq_mask)
    then have "unat (bits_get ?v SDHC_C1_CLKF_LO) = take_bit 8 (unat n)" by (simp only: unsigned_take_bit_eq)
    then show ?thesis by (simp add: take_bit_eq_mod)
  qed
  have hi: "unat (bits_get ?v SDHC_C1_CLKF_HI) = unat n div 256"
  proof -
    have "bits_get ?v SDHC_C1_CLKF_HI = take_bit 2 (drop_bit 8 n)"
      unfolding bits_get_or bits_get_set_same [OF f(2)] bits_get_set_other [OF f(2,1,4)]
      by (simp add: fields take_bit_eq_mask)
    then have "unat (bits_get ?v SDHC_C1_CLKF_HI) = take_bit 2 (drop_bit 8 (unat n))"
      by (simp only: unsigned_take_bit_eq unsigned_drop_bit_eq) simp
    then show ?thesis using assms by (simp add: take_bit_eq_mod drop_bit_eq_div less_mult_imp_div_less)
  qed
  have "unat n mod 256 + 256 * (unat n div 256) = unat n" by simp
  then show ?thesis unfolding sd_divisor_def Let_def lo hi by (simp add: unat_eq_zero)
qed

lemma v3_word:
  assumes "4 \<le> unat freq" and "sdclock_v3 clk freq = Inr v"
  shows "sd_divisor v = (let q = unat clk div unat freq in if q = 0 then 1 else if odd q then q + 1 else q)"
proof -
  define q where "q = unat clk div unat freq"
  let ?d = "clk div freq"
  let ?e = "if ?d AND 1 \<noteq> 0 then ?d + 1 else ?d"
  have d: "unat ?d = q" by (simp add: q_def unat_div)
  have "q * unat freq \<le> unat clk" by (simp add: q_def)
  then have "q * 4 \<le> unat clk" using assms(1) by (meson mult_le_mono2 order_trans)
  then have "q * 4 < 4294967296" using unat_u32_less [of clk] by (rule le_less_trans)
  then have q: "q < 2 ^ 30" by simp
  then have e: "unat ?e = (if odd q then q + 1 else q)"
    using d unat_add_no_overflow [of ?d 1] by (simp add: odd_word)
  then have e31: "unat ?e < 2 ^ 31" using q by (simp split: if_splits)
  let ?n = "drop_bit 1 ?e"
  have v: "sint ?e < 2048" "v = bits_set SDHC_C1_CLKF_LO ?n OR bits_set SDHC_C1_CLKF_HI (drop_bit 8 ?n)"
    using assms(2) unfolding sdclock_v3_def Let_def assert_that_Inr positive_word(1) [OF e31] by auto
  then have "int (unat ?e) < 2048" unfolding positive_word(2) [OF e31] by blast
  then have "unat ?e < 2048" by linarith
  moreover have n: "unat ?n = (if odd q then q + 1 else q) div 2"
    using e by (simp add: drop_bit_eq_div unat_div)
  ultimately have "unat ?n < 1024" using e by (simp add: less_mult_imp_div_less)
  from sd_divisor_word [OF this] v(2) have s: "sd_divisor v = (if ?n = 0 then 1 else 2 * unat ?n)" by simp
  have "?n = 0 \<longleftrightarrow> unat ?n = 0" by (simp add: unat_eq_zero)
  then show ?thesis
    unfolding s q_def [symmetric] Let_def n by (cases "q = 0"; cases "odd q") (auto elim!: oddE evenE)
qed

lemma unat_drop: "unat (drop_bit n clk) = unat clk div 2 ^ n" for clk :: u32
  by (simp only: unsigned_drop_bit_eq) (simp add: drop_bit_eq_div)

lemma v2_word:
  assumes "sdclock_v2 clk freq = Inr v"
  shows "if freq < drop_bit 8 clk then sd_divisor v = 1 else unat clk div sd_divisor v \<le> unat freq"
proof (cases "find (\<lambda>n. drop_bit n clk \<le> freq) [1..<9]")
  case None
  then have "\<not> drop_bit 8 clk \<le> freq" by (simp add: find_None_iff)
  moreover have "v = bits_set SDHC_C1_CLKF_LO (drop_bit 1 (push_bit 9 1))"
    using assms unfolding sdclock_v2_def None option.case Let_def assert_that_Inr by blast
  moreover have "sd_divisor (bits_set SDHC_C1_CLKF_LO (drop_bit 1 (push_bit 9 1))) = 1" by code_simp
  ultimately show ?thesis by (simp only: not_le if_True)
next
  case (Some n)
  then have i: "drop_bit n clk \<le> freq" and n: "n \<in> set [1..<9]"
    unfolding find_Some_iff by (blast, metis nth_mem)
  have "\<forall>n\<in>set [1..<9]. bits_get (bits_set SDHC_C1_CLKF_LO (drop_bit 1 (push_bit n 1))) SDHC_C1_CLKF_LO = push_bit (n - 1) 1
      \<and> bits_get (bits_set SDHC_C1_CLKF_LO (drop_bit 1 (push_bit n 1))) SDHC_C1_CLKF_HI = 0" by code_simp
  then have b: "bits_get (bits_set SDHC_C1_CLKF_LO (drop_bit 1 (push_bit n 1))) SDHC_C1_CLKF_LO = 2 ^ (n - 1)"
      "bits_get (bits_set SDHC_C1_CLKF_LO (drop_bit 1 (push_bit n 1))) SDHC_C1_CLKF_HI = 0" using n by (simp_all only: push_bit_of_1)
  have "1 \<le> n" "n - 1 < 32" using n by auto
  then have "sd_divisor (bits_set SDHC_C1_CLKF_LO (drop_bit 1 (push_bit n 1))) = 2 ^ n"
    unfolding sd_divisor_def b Let_def using unat_exp_u32 [of "n - 1"] by (simp add: power_Suc [symmetric] del: power_Suc)
  moreover have "v = bits_set SDHC_C1_CLKF_LO (drop_bit 1 (push_bit n 1))"
    using assms unfolding sdclock_v2_def Some option.case Let_def assert_that_Inr by blast
  ultimately have d: "sd_divisor v = 2 ^ n" by blast
  have le: "unat clk div 2 ^ n \<le> unat freq" using i by (simp only: word_le_nat_alt unat_drop)
  have "unat clk div 2 ^ 8 \<le> unat clk div 2 ^ n"
    using n by (intro div_le_mono2 power_increasing) auto
  then have "\<not> freq < drop_bit 8 clk" using le by (simp only: word_less_nat_alt unat_drop not_less)
  then show ?thesis using d le by simp
qed

text \<open>C28: The rate of the card's clock, which should not exceed \<open>freq\<close>. On a controller of version 3.0 it does, exactly when the
  clock divided by \<open>freq\<close> is even and leaves a remainder: the quotient is rounded down, and only odd ones are
  raised. On a controller of version 2.0 the largest divisor is 256; for a clock that needs more the loop ends with a
  divisor that does not fit its field, the field is 0, and the card gets the undivided clock.\<close>

theorem sdclock_rate:
  assumes "4 \<le> unat freq"
  shows "(\<forall>v. sdclock_v3 clk freq = Inr v \<longrightarrow>
      (unat clk \<le> sd_divisor v * unat freq
        \<longleftrightarrow> unat clk div unat freq = 0 \<or> odd (unat clk div unat freq) \<or> unat freq dvd unat clk))
    \<and> (\<forall>v. sdclock_v2 clk freq = Inr v \<longrightarrow>
      (if freq < drop_bit 8 clk then sd_divisor v = 1 else unat clk div sd_divisor v \<le> unat freq))"
proof (intro conjI allI impI)
  fix v
  assume "sdclock_v3 clk freq = Inr v"
  note d = v3_word [OF assms this, unfolded Let_def]
  let ?q = "unat clk div unat freq"
  have f: "0 < unat freq" using assms by linarith
  have up: "unat clk < ?q * unat freq + unat freq" using f by (metis add.commute add_less_cancel_left div_mult_mod_eq mod_less_divisor)
  have dn: "?q * unat freq \<le> unat clk" by simp
  have dvd: "unat freq dvd unat clk \<longleftrightarrow> unat clk = ?q * unat freq" by (metis dvd_div_mult_self dvd_triv_right)
  show "unat clk \<le> sd_divisor v * unat freq \<longleftrightarrow> ?q = 0 \<or> odd ?q \<or> unat freq dvd unat clk"
  proof (cases "?q = 0 \<or> odd ?q")
    case True
    then show ?thesis using d up by (auto simp: algebra_simps)
  next
    case False
    then have "sd_divisor v = ?q" using d by simp
    moreover have "unat clk \<le> ?q * unat freq \<longleftrightarrow> unat clk = ?q * unat freq" by (metis dn le_antisym order_refl)
    ultimately show ?thesis using False dvd by metis
  qed
next
  fix v
  assume "sdclock_v2 clk freq = Inr v"
  then show "if freq < drop_bit 8 clk then sd_divisor v = 1 else unat clk div sd_divisor v \<le> unat freq" by (rule v2_word)
qed

theorem sdclock_rate_witness:
  "(\<exists>v. sdclock_v3 200000100 400000 = Inr v \<and> \<not> 200000100 \<le> sd_divisor v * 400000)
   \<and> (\<exists>v. sdclock_v2 150000000 400000 = Inr v \<and> sd_divisor v = 1)"
proof -
  have "\<not> isl (sdclock_v3 200000100 400000)" "\<not> isl (sdclock_v2 150000000 400000)" by code_simp+
  then obtain v w where v: "sdclock_v3 200000100 400000 = Inr v" and w: "sdclock_v2 150000000 400000 = Inr w"
    by (metis isl_def sum.exhaust)
  have "(400000 :: u32) < drop_bit 8 150000000" by code_simp
  moreover have "unat (200000100 :: u32) = 200000100" by simp
  ultimately show ?thesis
    using sdclock_rate [of 400000 200000100] sdclock_rate [of 400000 150000000] v w by auto
qed

text \<open>A driver at rest, for the examples.\<close>

definition sdhc0 :: sdhc_state where
  "sdhc0 = uart_state.extend (mbox_state.extend mbox0 (uart_state.fields 0)) (sdhc_state.fields 0 0 0 (\<lambda>_. \<lparr>ci_cmd = SDHC_CMD0, ci_arg = 0, ci_resp = 0\<rparr>))"

lemma sdhc0_idle: "sd_idle sdhc0"
  by (simp add: sd_idle_def sdhc0_def mbox0_def ioq0_def ioq_state.defs mbox_state.defs uart_state.defs sdhc_state.defs)

lemma sdhc0_log: "io_log sdhc0 = []"
  by (simp add: sdhc0_def mbox0_def ioq0_def ioq_state.defs mbox_state.defs uart_state.defs sdhc_state.defs)

text \<open>A controller that reports the end of every command, and a card that is alive and busy.\<close>

definition busy_card :: device where
  "busy_card l p = (if p = Mmio (io_base + SDHC_INT) then 1 else 0x100120)"

lemma busy_card_int: "busy_card l (Mmio (io_base + SDHC_INT)) = 1"
  by (simp add: busy_card_def)

lemma int_one: "bits_get 1 SDHC_INT_CMD \<noteq> 0" "bits_get 1 SDHC_INT_ERR = 0"
  by code_simp+


theorem sdhc_error_alone_hangs_witness:
  "sdhc_send_command (sdhc_interrupt (\<lambda>_. None) (\<lambda>_ _. 0x18000)) 0x1000 SDHC_CMD8 7 0x2000 sdhc0 = Inl Endless"
proof -
  have "bits_get 0x18000 SDHC_INT_CMD = 0" by code_simp
  then show ?thesis by (intro sdhc_error_alone_hangs [OF sdhc0_idle]) simp
qed

theorem busy_card_is_accepted_witness:
  "\<exists>st'. sdhc_send_op_condition (sdhc_interrupt (\<lambda>_. None) busy_card) 0x1000 sdhc0 = Inr st'
    \<and> writes (io_base + SDHC_CMDTM) (io_log st') = concat (replicate 4 [cmd_word SDHC_CMD55, cmd_word SDHC_ACMD41])"
proof -
  have r: "busy_card l (Mmio (io_base + SDHC_RESP0)) = 0x100120" for l
    by (simp add: busy_card_def SDHC_INT_def SDHC_RESP0_def)
  have v: "bit (0x100120 :: u32) 5" "bit (0x100120 :: u32) 8" "bits_get 0x100120 SDHC_OCR_VDD_32_33 \<noteq> 0" "bits_get 0x100120 SDHC_OCR_BUSY = 0"
    by code_simp+
  have "\<exists>st'. sdhc_send_op_condition (sdhc_interrupt (\<lambda>_. None) busy_card) 0x1000 sdhc0 = Inr st' \<and> sd_idle st'
    \<and> writes (io_base + SDHC_CMDTM) (io_log st')
        = writes (io_base + SDHC_CMDTM) (io_log sdhc0) @ concat (replicate 4 [cmd_word SDHC_CMD55, cmd_word SDHC_ACMD41])"
    by (rule busy_card_is_accepted [where dev = busy_card, OF sdhc0_idle]) (simp_all only: busy_card_int int_one r v Let_def simp_thms not_False_eq_True)
  then show ?thesis by (auto simp: sdhc0_log)
qed

end
