(* ===== verification/Boot.thy ===== *)
theory Boot
  imports Mmu
begin

text \<open>
  The code that runs before the MMU is on, src/boot/boot.c: \<open>boot_map\<close> writes the first page directory and
  the four static page tables into physical memory, \<open>boot_copy_atag_mem\<close> reads the size of the RAM from the list
  the boot loader leaves. Physical memory is the map of its words; the addresses that the linker script
  src/pi.ld computes are a record, what the script says of them is the predicate \<open>layout_ok\<close>.
\<close>

section \<open>The kernel image\<close>

type_synonym phys = "addr \<Rightarrow> u32"

record layout =
  text_start :: addr
  text_end :: addr
  rodata_start :: addr
  rodata_end :: addr
  data_start :: addr
  data_end :: addr
  bss_start :: addr
  bss_end :: addr
  k_pd_start :: addr
  k_pd_end :: addr
  k_pt_start :: addr
  k_pt_end :: addr

definition KMODE_VA :: addr where "KMODE_VA = 0x40000000"
definition KRNL_SZ :: u32 where "KRNL_SZ = 0x400000"

definition k_pd_pa :: "layout \<Rightarrow> addr" where "k_pd_pa L = k_pd_start L - KMODE_VA"
definition k_pt_pa :: "layout \<Rightarrow> addr" where "k_pt_pa L = k_pt_start L - KMODE_VA"

text \<open>\<open>struct section\<close>; the bits of \<open>desc\<close> are read, write and execute: 4, 2 and 1.\<close>

record boot_section =
  sec_start :: addr
  sec_end :: addr
  sec_desc :: u8

definition si :: "layout \<Rightarrow> boot_section list" where
  "si L =
    [\<lparr>sec_start = text_start L, sec_end = text_end L, sec_desc = 5\<rparr>,
     \<lparr>sec_start = rodata_start L, sec_end = rodata_end L, sec_desc = 4\<rparr>,
     \<lparr>sec_start = data_start L, sec_end = data_end L, sec_desc = 6\<rparr>,
     \<lparr>sec_start = bss_start L, sec_end = bss_end L, sec_desc = 6\<rparr>,
     \<lparr>sec_start = k_pd_start L, sec_end = k_pd_end L, sec_desc = 6\<rparr>,
     \<lparr>sec_start = k_pt_start L, sec_end = k_pt_end L, sec_desc = 6\<rparr>]"

section \<open>The first page tables\<close>

text \<open>\<open>p[i]\<close> of a pointer to words.\<close>

definition word_ptr :: "addr \<Rightarrow> nat \<Rightarrow> addr" where
  "word_ptr p i = p + 4 * of_nat i"

definition zero_words :: "addr \<Rightarrow> nat \<Rightarrow> phys \<Rightarrow> phys" where
  "zero_words p n m = fold (\<lambda>i m. m(word_ptr p i := 0)) [0..<n] m"

definition identity_de :: "nat \<Rightarrow> u32" where
  "identity_de i =
    bits_set PDE_TYPE0 2 OR bits_set PDE_S_BASE (of_nat i) OR bits_set PDE_AF 1 OR bits_on PDE_C OR bits_on PDE_B
      OR bits_set PDE_TEX 1"

definition table_de :: "addr \<Rightarrow> u32" where
  "table_de pa = bits_set PDE_TYPE0 1 OR bits_push PDE_PT_BASE pa"

definition boot_te :: "u8 \<Rightarrow> addr \<Rightarrow> u32" where
  "boot_te c va =
    (let te = bits_set PTE_TYPE 2 OR bits_set PTE_AF 1;
         te = (if c AND 1 = 0 then te OR bits_on PTE_SP_XN else te);
         te = (if c AND 2 = 0 then te OR bits_on PTE_APX else te)
     in te OR bits_on PTE_C OR bits_on PTE_B OR bits_set PTE_SP_TEX 1 OR bits_push PTE_SP_BASE (va - KMODE_VA))"

definition boot_map_page :: "layout \<Rightarrow> u8 \<Rightarrow> addr \<Rightarrow> phys \<Rightarrow> phys" where
  "boot_map_page L c va m =
    (let j = unat (bits_get va VA_PDE_IX);
         pt = bits_pull (m (word_ptr (k_pd_pa L) j)) PDE_PT_BASE;
         te = boot_te c va;
         j = unat (bits_get va VA_PTE_IX)
     in m(word_ptr pt j := te))"

text \<open>\<open>for (; va < end; va += PAGE_SIZE)\<close>: the loop variable wraps at 32 bits.\<close>

partial_function (option) page_loop :: "(addr \<Rightarrow> 's \<Rightarrow> 's) \<Rightarrow> addr \<Rightarrow> addr \<Rightarrow> 's \<Rightarrow> 's option" where
  "page_loop body end va s = (if va < end then page_loop body end (va + 4096) (body va s) else Some s)"

declare page_loop.simps [code]

definition boot_map_section :: "layout \<Rightarrow> boot_section \<Rightarrow> phys \<Rightarrow> phys res" where
  "boot_map_section L s m =
    (case page_loop (boot_map_page L (sec_desc s)) (sec_end s) (sec_start s) m of None \<Rightarrow> Inl Endless | Some m \<Rightarrow> Inr m)"

text \<open>Zeroed tables, the identity map of 4 MB, and the entries for the static tables.\<close>

definition boot_tables :: "layout \<Rightarrow> phys \<Rightarrow> phys" where
  "boot_tables L m =
    (let m = zero_words (k_pt_pa L) 1024 m;
         m = zero_words (k_pd_pa L) 4096 m;
         m = fold (\<lambda>i m. m(word_ptr (k_pd_pa L) i := identity_de i)) [0..<4] m;
         j = unat (bits_get KMODE_VA VA_PDE_IX)
     in fold (\<lambda>i m. m(word_ptr (k_pd_pa L) (i + j) := table_de (k_pt_pa L + of_nat i * 0x400))) [0..<4] m)"

definition boot_map :: "layout \<Rightarrow> phys \<Rightarrow> phys res" where
  "boot_map L m = for_each_res (boot_map_section L) (si L) (boot_tables L m)"

section \<open>The list of the boot loader\<close>

text \<open>\<open>_ramsz\<close> and \<open>_ram\<close>, when the list says.\<close>

partial_function (option) atag_loop :: "phys \<Rightarrow> addr \<Rightarrow> (u32 \<times> u32) option option" where
  "atag_loop m p =
    (if m (word_ptr p 0) = 0 \<and> m (word_ptr p 1) = 0 then Some None
     else if m (word_ptr p 1) = 0x54410002 then Some (Some (m (word_ptr p 2), m (word_ptr p 3)))
     else atag_loop m (word_ptr p (unat (m (word_ptr p 0)))))"

declare atag_loop.simps [code]

definition boot_copy_atag_mem :: "phys \<Rightarrow> addr \<Rightarrow> u32 \<times> u32 \<Rightarrow> (u32 \<times> u32) res" where
  "boot_copy_atag_mem m p r =
    (case atag_loop m p of None \<Rightarrow> Inl Endless | Some None \<Rightarrow> Inr r | Some (Some q) \<Rightarrow> Inr q)"

section \<open>Writes through pointers to words\<close>

lemma unat_word_ptr: "unat p + 4 * i < 2 ^ 32 \<Longrightarrow> unat (word_ptr p i) = unat p + 4 * i"
proof -
  assume a: "unat p + 4 * i < 2 ^ 32"
  have "word_ptr p i = of_nat (unat p + 4 * i)" by (simp add: word_ptr_def)
  then show ?thesis using a by (simp only: unat_of_nat len_of_numeral_defs) simp
qed

lemma word_ptr_inj:
  assumes "unat p + 4 * i < 2 ^ 32" and "unat p + 4 * j < 2 ^ 32"
  shows "word_ptr p i = word_ptr p j \<longleftrightarrow> i = j"
proof
  assume "word_ptr p i = word_ptr p j"
  then have "unat p + 4 * i = unat p + 4 * j"
    using unat_word_ptr [OF assms(1)] unat_word_ptr [OF assms(2)] by metis
  then show "i = j" by linarith
qed simp

lemma word_ptr_apart:
  assumes "unat p + 4 * i < unat q + 4 * k" and "unat q + 4 * k < 2 ^ 32"
  shows "word_ptr p i \<noteq> word_ptr q k" and "word_ptr q k \<noteq> word_ptr p i"
proof -
  have "unat (word_ptr p i) = unat p + 4 * i" by (rule unat_word_ptr) (use assms in linarith)
  moreover have "unat (word_ptr q k) = unat q + 4 * k" by (rule unat_word_ptr) (rule assms)
  ultimately have "unat (word_ptr p i) < unat (word_ptr q k)" using assms(1) by presburger
  then have "word_ptr p i \<noteq> word_ptr q k" by (metis less_irrefl)
  then show "word_ptr p i \<noteq> word_ptr q k" and "word_ptr q k \<noteq> word_ptr p i" by simp_all
qed

section \<open>What the linker script says\<close>

text \<open>The sections follow one another from \<open>KMODE_VA\<close> on, their starts are at page boundaries, the tables come last and
  are 16 KB and 4 KB, and all is below the last page of the 4 MB.\<close>

definition layout_ok :: "layout \<Rightarrow> bool" where
  "layout_ok L \<longleftrightarrow>
    sorted (map unat [KMODE_VA, text_start L, text_end L, rodata_start L, rodata_end L, data_start L, data_end L,
      bss_start L, bss_end L, k_pd_start L])
    \<and> unat (k_pd_end L) = unat (k_pd_start L) + 0x4000 \<and> k_pt_start L = k_pd_end L
    \<and> unat (k_pt_end L) = unat (k_pt_start L) + 0x1000 \<and> unat (k_pt_end L) + 0x1000 < unat (KMODE_VA + KRNL_SZ)
    \<and> unat (k_pd_start L) mod 0x4000 = 0
    \<and> (\<forall>s\<in>set (si L). unat (sec_start s) mod 4096 = 0)"

lemma kmode_consts: "unat KMODE_VA = 0x40000000" "unat (KMODE_VA + KRNL_SZ) = 0x40400000"
  by (simp_all add: KMODE_VA_def KRNL_SZ_def)

lemma layout_chain:
  assumes "layout_ok L"
  shows "0x40000000 \<le> unat (text_start L)" "unat (text_start L) \<le> unat (text_end L)"
    "unat (text_end L) \<le> unat (rodata_start L)" "unat (rodata_start L) \<le> unat (rodata_end L)"
    "unat (rodata_end L) \<le> unat (data_start L)" "unat (data_start L) \<le> unat (data_end L)"
    "unat (data_end L) \<le> unat (bss_start L)" "unat (bss_start L) \<le> unat (bss_end L)"
    "unat (bss_end L) \<le> unat (k_pd_start L)" "unat (k_pd_end L) = unat (k_pd_start L) + 0x4000"
    "unat (k_pt_start L) = unat (k_pd_start L) + 0x4000" "unat (k_pt_end L) = unat (k_pt_start L) + 0x1000"
    "unat (k_pt_end L) + 0x1000 < 0x40400000" "unat (k_pd_start L) mod 0x4000 = 0"
  using assms unfolding layout_ok_def list.map sorted2 kmode_consts by (auto simp only:)

lemma layout_tables:
  assumes "layout_ok L"
  shows "unat (k_pt_pa L) = unat (k_pd_pa L) + 0x4000" and "unat (k_pd_pa L) + 0x5000 < 0x3ff000"
    and "unat (k_pd_pa L) mod 0x4000 = 0"
proof -
  have o: "0x40000000 \<le> unat (k_pd_start L)" "unat (k_pt_start L) = unat (k_pd_start L) + 0x4000"
      "unat (k_pd_start L) + 0x5000 + 0x1000 < 0x40400000" "unat (k_pd_start L) mod 0x4000 = 0"
    using layout_chain [OF assms] by linarith+
  have d: "unat (k_pd_pa L) = unat (k_pd_start L) - 0x40000000" "unat (k_pt_pa L) = unat (k_pt_start L) - 0x40000000"
    using o(1,2) by (simp_all add: k_pd_pa_def k_pt_pa_def unat_sub_le word_le_nat_alt kmode_consts)
  show "unat (k_pt_pa L) = unat (k_pd_pa L) + 0x4000" and "unat (k_pd_pa L) + 0x5000 < 0x3ff000" using o d by linarith+
  obtain q where q: "unat (k_pd_start L) = 0x4000 * q" using o(4) by (metis mod_0_imp_dvd dvd_def)
  then have "unat (k_pd_pa L) = 0x4000 * (q - 0x10000)" using d(1) by linarith
  then show "unat (k_pd_pa L) mod 0x4000 = 0" by simp
qed

lemma layout_sections:
  assumes "layout_ok L" and "s \<in> set (si L)"
  shows "0x40000000 \<le> unat (sec_start s)" and "unat (sec_end s) \<le> 0x403ff000" and "unat (sec_start s) mod 4096 = 0"
    and "t \<in> set (si L) \<Longrightarrow> s = t \<or> unat (sec_end s) \<le> unat (sec_start t) \<or> unat (sec_end t) \<le> unat (sec_start s)"
proof -
  note o = layout_chain [OF assms(1)]
  have s: "s = si L ! 0 \<or> s = si L ! 1 \<or> s = si L ! 2 \<or> s = si L ! 3 \<or> s = si L ! 4 \<or> s = si L ! 5"
    if "s \<in> set (si L)" for s using that by (auto simp: si_def)
  show "0x40000000 \<le> unat (sec_start s)" and "unat (sec_end s) \<le> 0x403ff000"
    using s [OF assms(2)] o by (auto simp: si_def)
  show "unat (sec_start s) mod 4096 = 0" using assms by (simp add: layout_ok_def)
  show "s = t \<or> unat (sec_end s) \<le> unat (sec_start t) \<or> unat (sec_end t) \<le> unat (sec_start s)" if "t \<in> set (si L)"
    using s [OF assms(2)] s [OF that] o by (elim disjE) (simp_all add: si_def)
qed

section \<open>The pages of the sections\<close>

definition pages :: "addr \<Rightarrow> addr \<Rightarrow> addr list" where
  "pages va end = map (\<lambda>k. va + 4096 * of_nat k) [0..<(unat end - unat va + 4095) div 4096]"

lemma page_loop_fold:
  assumes "unat end + 4096 \<le> 2 ^ 32"
  shows "page_loop body end va s = Some (fold body (pages va end) s)"
proof (induction "(unat end - unat va + 4095) div 4096" arbitrary: va s)
  case 0
  then have "\<not> va < end" by (simp add: word_less_nat_alt div_eq_0_iff)
  then show ?case using 0 by (simp add: page_loop.simps pages_def)
next
  case (Suc n)
  then have lt: "unat va < unat end" by (cases "unat va < unat end") simp_all
  then have u: "unat (va + 4096) = unat va + 4096" using assms by (simp add: unat_add_no_overflow)
  have n: "(unat end - unat va + 4095) div 4096 = Suc n" "n = (unat end - unat (va + 4096) + 4095) div 4096"
    using Suc(2) lt u by simp_all
  have "pages va end = va # pages (va + 4096) end"
    unfolding pages_def n(1) n(2) [symmetric] by (simp add: upt_conv_Cons map_Suc_upt [symmetric] algebra_simps del: upt_Suc)
  then show ?case
    using Suc(1) [OF n(2)] lt by (subst page_loop.simps) (simp add: word_less_nat_alt)
qed

lemma set_pages:
  assumes "unat end + 4096 \<le> 2 ^ 32" and "unat va mod 4096 = 0"
  shows "a \<in> set (pages va end) \<longleftrightarrow> va \<le> a \<and> a < end \<and> unat a mod 4096 = 0"
proof -
  have u: "unat (va + 4096 * of_nat k) = unat va + 4096 * k" if "k < (unat end - unat va + 4095) div 4096" for k
  proof -
    have "unat va + 4096 * k < 2 ^ 32" using that assms(1) by linarith
    moreover have "va + 4096 * of_nat k = of_nat (unat va + 4096 * k)" by simp
    ultimately show ?thesis by (simp only: unat_of_nat len_of_numeral_defs) simp
  qed
  show ?thesis
  proof
    assume "a \<in> set (pages va end)"
    then obtain k where k: "a = va + 4096 * of_nat k" "k \<in> set [0..<(unat end - unat va + 4095) div 4096]"
      unfolding pages_def set_map by (rule imageE)
    have "k < (unat end - unat va + 4095) div 4096" using k(2) by (simp only: set_upt atLeastLessThan_iff)
    note k = this k(1)
    then have "unat a = unat va + 4096 * k" "unat va + 4096 * k < unat end" using u [OF k(1)] by (simp, linarith)
    then show "va \<le> a \<and> a < end \<and> unat a mod 4096 = 0" using assms(2) by (simp add: word_le_nat_alt word_less_nat_alt mod_add_right_eq)
  next
    assume a: "va \<le> a \<and> a < end \<and> unat a mod 4096 = 0"
    then have b: "unat va \<le> unat a" "unat a < unat end" by (auto simp only: word_le_nat_alt word_less_nat_alt)
    define k where "k = (unat a - unat va) div 4096"
    have "(unat a - unat va) mod 4096 = 0" using a assms(2) by (metis mod_diff_right_eq diff_zero mod_eq_dvd_iff_nat mod_0_imp_dvd dvd_imp_mod_0 word_le_nat_alt)
    then have "unat a - unat va = 4096 * k" unfolding k_def by (metis mult_div_mod_eq add_0_right)
    then have k: "unat a = unat va + 4096 * k" using b(1) by linarith
    then have "k < (unat end - unat va + 4095) div 4096" using b(2) by linarith
    moreover have "a = va + 4096 * of_nat k" using u [OF calculation] k by (metis unsigned_word_eqI word_unat_eq_iff)
    ultimately show "a \<in> set (pages va end)"
      unfolding pages_def set_map by (intro image_eqI [of _ _ k]) (simp_all only: set_upt atLeastLessThan_iff zero_le simp_thms)
  qed
qed

section \<open>One page\<close>

definition page_no :: "addr \<Rightarrow> nat" where
  "page_no va = unat va div 4096 - 0x40000"

text \<open>The four entries for the static tables.\<close>

definition tables_linked :: "layout \<Rightarrow> phys \<Rightarrow> bool" where
  "tables_linked L m \<longleftrightarrow>
    (\<forall>i<4. m (word_ptr (k_pd_pa L) (i + 0x400)) = table_de (k_pt_pa L + of_nat i * 0x400))"

lemma table_de_base:
  assumes "unat pa mod 0x400 = 0"
  shows "bits_pull (table_de pa) PDE_PT_BASE = pa" and "bits_get (table_de pa) PDE_TYPE0 = 1"
proof -
  have "pa AND mask 10 = 0" using assms mask_aligned [of 10 pa] by (simp add: mask_eq_exp_minus_1)
  then have low: "bit pa n \<Longrightarrow> 10 \<le> n" for n
    by (rule_tac ccontr) (auto simp: bit_simps dest: arg_cong [of _ _ "\<lambda>x. bit x n"])
  have "bits_pull (bits_push PDE_PT_BASE pa) PDE_PT_BASE = pa"
    by (rule bit_word_eqI) (auto simp: bit_bits_push bit_bits_pull field_ok_def PDE_PT_BASE_def dest: low)
  moreover have "bits_pull (bits_set PDE_TYPE0 1) PDE_PT_BASE = 0" by (simp add: field_read fields)
  ultimately show "bits_pull (table_de pa) PDE_PT_BASE = pa" by (simp add: table_de_def bits_pull_or)
  show "bits_get (table_de pa) PDE_TYPE0 = 1" by (simp add: table_de_def field_read fields mask_eq_exp_minus_1)
qed

lemma word_ptr_pt:
  assumes "layout_ok L" and "k < 1024"
  shows "unat (word_ptr (k_pt_pa L) k) = unat (k_pd_pa L) + 0x4000 + 4 * k"
  using layout_tables [OF assms(1)] assms(2) by (subst unat_word_ptr) simp_all

lemma word_ptr_pd:
  assumes "layout_ok L" and "j < 4096"
  shows "unat (word_ptr (k_pd_pa L) j) = unat (k_pd_pa L) + 4 * j"
  using layout_tables [OF assms(1)] assms(2) by (subst unat_word_ptr) simp_all

lemma pt_not_pd:
  assumes "layout_ok L" and "k < 1024" and "j < 4096"
  shows "word_ptr (k_pt_pa L) k \<noteq> word_ptr (k_pd_pa L) j"
proof
  assume "word_ptr (k_pt_pa L) k = word_ptr (k_pd_pa L) j"
  then have "unat (k_pd_pa L) + 0x4000 + 4 * k = unat (k_pd_pa L) + 4 * j"
    using word_ptr_pt [OF assms(1,2)] word_ptr_pd [OF assms(1,3)] by metis
  then show False using assms(3) by linarith
qed

lemma page_no_index:
  assumes "0x40000000 \<le> unat va" and "unat va < 0x40400000"
  shows "unat va div 2 ^ 20 = page_no va div 256 + 0x400" and "unat va div 2 ^ 12 mod 2 ^ 8 = page_no va mod 256"
    and "page_no va < 1024"
proof -
  have p: "unat va div 4096 = page_no va + 0x40000" "page_no va < 1024"
    using assms unfolding page_no_def by linarith+
  have "unat va div 2 ^ 20 = unat va div 4096 div 256" by (simp flip: div_mult2_eq)
  also have "\<dots> = page_no va div 256 + 0x400" unfolding p(1) by linarith
  finally show "unat va div 2 ^ 20 = page_no va div 256 + 0x400" .
  have "unat va div 2 ^ 12 mod 2 ^ 8 = (page_no va + 0x40000) mod 256" unfolding p(1) [symmetric] by simp
  also have "\<dots> = page_no va mod 256" using mod_mult_self1 [where a = "page_no va" and c = "0x400" and b = 256] by simp
  finally show "unat va div 2 ^ 12 mod 2 ^ 8 = page_no va mod 256" .
  show "page_no va < 1024" by (rule p(2))
qed

lemma boot_map_page_writes:
  assumes L: "layout_ok L" and t: "tables_linked L m" and va: "0x40000000 \<le> unat va" "unat va < 0x40400000"
  shows "boot_map_page L c va m = m(word_ptr (k_pt_pa L) (page_no va) := boot_te c va)"
    and "tables_linked L (boot_map_page L c va m)"
proof -
  let ?i = "page_no va div 256"
  note ix = page_no_index [OF va]
  have i: "?i < 4" using ix(3) by linarith
  have base: "bits_pull (m (word_ptr (k_pd_pa L) (?i + 0x400))) PDE_PT_BASE = k_pt_pa L + of_nat ?i * 0x400"
  proof -
    have "unat (k_pt_pa L + of_nat ?i * 0x400) = unat (k_pd_pa L) + 0x4000 + ?i * 0x400"
    proof -
      have "k_pt_pa L + of_nat ?i * 0x400 = of_nat (unat (k_pt_pa L) + ?i * 0x400)" by simp
      moreover have "unat (k_pt_pa L) + ?i * 0x400 < 2 ^ 32"
        unfolding layout_tables(1) [OF L] using layout_tables(2) [OF L] i by simp
      ultimately show ?thesis using layout_tables(1) [OF L] by (simp only: unat_of_nat len_of_numeral_defs) simp
    qed
    moreover have "(unat (k_pd_pa L) + 0x4000 + ?i * 0x400) mod 0x400 = 0"
    proof -
      obtain q where q: "unat (k_pd_pa L) = 0x4000 * q" using layout_tables(3) [OF L] by (metis mod_0_imp_dvd dvd_def)
      have "unat (k_pd_pa L) + 0x4000 + ?i * 0x400 = 0x400 * (16 * q + 16 + ?i)" unfolding q by simp
      then show ?thesis by (metis mod_mult_self1_is_0)
    qed
    ultimately show ?thesis using t i table_de_base(1) by (simp add: tables_linked_def)
  qed
  have e: "word_ptr (k_pt_pa L + of_nat ?i * 0x400) (page_no va mod 256) = word_ptr (k_pt_pa L) (page_no va)"
  proof -
    have "of_nat ?i * 0x400 + 4 * of_nat (page_no va mod 256) = (4 * of_nat (?i * 256 + page_no va mod 256) :: addr)"
      by (simp only: of_nat_add of_nat_mult of_nat_numeral algebra_simps) simp
    then show ?thesis by (simp add: word_ptr_def add.assoc)
  qed
  show w: "boot_map_page L c va m = m(word_ptr (k_pt_pa L) (page_no va) := boot_te c va)"
    unfolding boot_map_page_def Let_def unat_va_pde unat_va_pte ix base e ..
  show "tables_linked L (boot_map_page L c va m)"
    using t pt_not_pd [OF L ix(3), of "i + 0x400" for i, THEN not_sym] unfolding w tables_linked_def by simp
qed

section \<open>The tables before the sections\<close>

abbreviation table_words :: "layout \<Rightarrow> addr set" where
  "table_words L \<equiv> word_ptr (k_pd_pa L) ` {..<4096} \<union> word_ptr (k_pt_pa L) ` {..<1024}"

lemma inj_pd: "layout_ok L \<Longrightarrow> inj_on (word_ptr (k_pd_pa L)) {..<4096}"
  by (rule inj_onI, rule ccontr) (auto dest!: arg_cong [of "word_ptr _ _" _ unat] simp: word_ptr_pd)

lemma inj_pt: "layout_ok L \<Longrightarrow> inj_on (word_ptr (k_pt_pa L)) {..<1024}"
  by (rule inj_onI, rule ccontr) (auto dest!: arg_cong [of "word_ptr _ _" _ unat] simp: word_ptr_pt)

lemma zero_words_at: "inj_on (word_ptr p) {..<n} \<Longrightarrow> i < n \<Longrightarrow> zero_words p n m (word_ptr p i) = 0"
  unfolding zero_words_def by (rule fold_write_at) (simp_all add: atLeast0LessThan)

lemma zero_words_other: "a \<notin> word_ptr p ` {..<n} \<Longrightarrow> zero_words p n m a = m a"
  unfolding zero_words_def by (rule fold_write_other) (simp add: atLeast0LessThan)

lemma boot_tables_pd:
  assumes L: "layout_ok L" and j: "j < 4096"
  shows "boot_tables L m (word_ptr (k_pd_pa L) j) =
    (if j < 4 then identity_de j
     else if 0x400 \<le> j \<and> j < 0x404 then table_de (k_pt_pa L + of_nat (j - 0x400) * 0x400) else 0)"
proof -
  note inj = inj_onD [OF inj_pd [OF L]]
  have k: "unat (bits_get KMODE_VA VA_PDE_IX) = 0x400" by (simp add: unat_va_pde kmode_consts)
  let ?m1 = "zero_words (k_pd_pa L) 4096 (zero_words (k_pt_pa L) 1024 m)"
  let ?m2 = "fold (\<lambda>i m. m(word_ptr (k_pd_pa L) i := identity_de i)) [0..<4] ?m1"
  let ?g = "\<lambda>i. word_ptr (k_pd_pa L) (i + 0x400)"
  have m2: "?m2 (word_ptr (k_pd_pa L) j) = (if j < 4 then identity_de j else 0)"
  proof (cases "j < 4")
    case True
    have "inj_on (word_ptr (k_pd_pa L)) (set [0..<4])" by (rule inj_on_subset [OF inj_pd [OF L]]) auto
    from fold_write_at [OF _ this, of j identity_de] show ?thesis using True by simp
  next
    case False
    have "word_ptr (k_pd_pa L) j \<notin> word_ptr (k_pd_pa L) ` set [0..<4]" using False j by (auto dest!: inj)
    from fold_write_other [OF this, of identity_de] show ?thesis using False j zero_words_at [OF inj_pd [OF L]] by simp
  qed
  have bt: "boot_tables L m = fold (\<lambda>i m. m(?g i := table_de (k_pt_pa L + of_nat i * 0x400))) [0..<4] ?m2"
    by (simp only: boot_tables_def Let_def k)
  show ?thesis
  proof (cases "0x400 \<le> j \<and> j < 0x404")
    case True
    then obtain i where i: "j = i + 0x400" "i < 4" by (metis add.commute less_diff_conv2 le_add_diff_inverse nat_add_left_cancel_less numeral_plus_numeral
        semiring_norm(2,3,6) le_Suc_ex)
    have "inj_on ?g (set [0..<4])" by (rule inj_onI) (auto dest!: inj)
    from fold_write_at [OF _ this, of i] show ?thesis using i by (simp add: bt)
  next
    case False
    then have "word_ptr (k_pd_pa L) j \<notin> ?g ` set [0..<4]" using j by (auto dest!: inj)
    from fold_write_other [OF this, of "\<lambda>i. table_de (k_pt_pa L + of_nat i * 0x400)" ?m2] show ?thesis
      by (simp only: bt m2 False if_False)
  qed
qed

lemma boot_tables_pt:
  assumes L: "layout_ok L" and k: "k < 1024"
  shows "boot_tables L m (word_ptr (k_pt_pa L) k) = 0"
proof -
  have "word_ptr (k_pt_pa L) k \<notin> word_ptr (k_pd_pa L) ` {..<4096}" using pt_not_pd [OF L k] by auto
  then show ?thesis
    unfolding boot_tables_def Let_def
    by (subst fold_write_other, force simp: unat_va_pde kmode_consts)+ (simp add: zero_words_other zero_words_at [OF inj_pt [OF L] k])
qed

lemma boot_tables_other:
  assumes "a \<notin> table_words L"
  shows "boot_tables L m a = m a"
  using assms unfolding boot_tables_def Let_def
  by (subst fold_write_other, force simp: unat_va_pde kmode_consts)+ (simp add: zero_words_other)

lemma boot_tables_linked: "layout_ok L \<Longrightarrow> tables_linked L (boot_tables L m)"
  by (simp add: tables_linked_def boot_tables_pd)

section \<open>The sections\<close>

definition all_pages :: "layout \<Rightarrow> (u8 \<times> addr) list" where
  "all_pages L = concat (map (\<lambda>s. map (Pair (sec_desc s)) (pages (sec_start s) (sec_end s))) (si L))"

abbreviation put_page :: "layout \<Rightarrow> u8 \<times> addr \<Rightarrow> phys \<Rightarrow> phys" where
  "put_page L p m \<equiv> m(word_ptr (k_pt_pa L) (page_no (snd p)) := boot_te (fst p) (snd p))"

lemma all_pages_iff:
  assumes "layout_ok L"
  shows "(c, va) \<in> set (all_pages L) \<longleftrightarrow>
    (\<exists>s\<in>set (si L). c = sec_desc s \<and> sec_start s \<le> va \<and> va < sec_end s \<and> unat va mod 4096 = 0)"
proof -
  have "(c, va) \<in> set (all_pages L) \<longleftrightarrow> (\<exists>s\<in>set (si L). c = sec_desc s \<and> va \<in> set (pages (sec_start s) (sec_end s)))"
    by (auto simp: all_pages_def)
  also have "\<dots> \<longleftrightarrow> (\<exists>s\<in>set (si L). c = sec_desc s \<and> sec_start s \<le> va \<and> va < sec_end s \<and> unat va mod 4096 = 0)"
  proof (intro bex_cong refl conj_cong)
    fix s
    assume "s \<in> set (si L)"
    from layout_sections(2,3) [OF assms this]
    show "va \<in> set (pages (sec_start s) (sec_end s)) \<longleftrightarrow> sec_start s \<le> va \<and> va < sec_end s \<and> unat va mod 4096 = 0"
      by (intro set_pages) simp_all
  qed
  finally show ?thesis .
qed

lemma section_range:
  assumes "layout_ok L" and "s \<in> set (si L)" and "sec_start s \<le> va" and "va < sec_end s"
  shows "0x40000000 \<le> unat va" and "unat va < 0x40400000"
  using layout_sections(1,2) [OF assms(1,2)] assms(3,4) unfolding word_le_nat_alt word_less_nat_alt by linarith+

lemma boot_map_section_fold:
  assumes "layout_ok L" and "s \<in> set (si L)"
  shows "boot_map_section L s m = Inr (fold (boot_map_page L (sec_desc s)) (pages (sec_start s) (sec_end s)) m)"
  using layout_sections(2) [OF assms] by (simp add: boot_map_section_def page_loop_fold)

lemma fold_put_pages:
  assumes L: "layout_ok L" and "tables_linked L m" and "\<forall>p\<in>set ps. 0x40000000 \<le> unat (snd p) \<and> unat (snd p) < 0x40400000"
  shows "fold (\<lambda>p. boot_map_page L (fst p) (snd p)) ps m = fold (put_page L) ps m"
  using assms(2,3)
proof (induction ps arbitrary: m)
  case (Cons p ps)
  have p: "0x40000000 \<le> unat (snd p)" "unat (snd p) < 0x40400000" using Cons.prems(2) by simp_all
  show ?case
    using Cons.IH [OF boot_map_page_writes(2) [OF L Cons.prems(1) p]] Cons.prems(2) boot_map_page_writes(1) [OF L Cons.prems(1) p]
    by (simp del: fun_upd_apply)
qed simp

lemma boot_map_fold:
  assumes L: "layout_ok L"
  shows "boot_map L m = Inr (fold (put_page L) (all_pages L) (boot_tables L m))"
proof -
  have "for_each_res (boot_map_section L) ss m =
      Inr (fold (\<lambda>p. boot_map_page L (fst p) (snd p))
        (concat (map (\<lambda>s. map (Pair (sec_desc s)) (pages (sec_start s) (sec_end s))) ss)) m)"
    if "set ss \<subseteq> set (si L)" for ss m
    using that by (induction ss arbitrary: m) (simp_all add: boot_map_section_fold [OF L] fold_map comp_def)
  then have "boot_map L m = Inr (fold (\<lambda>p. boot_map_page L (fst p) (snd p)) (all_pages L) (boot_tables L m))"
    by (simp add: boot_map_def all_pages_def)
  moreover have "\<forall>p\<in>set (all_pages L). 0x40000000 \<le> unat (snd p) \<and> unat (snd p) < 0x40400000"
    using all_pages_iff [OF L] section_range [OF L] by (metis prod.collapse)
  ultimately show ?thesis using fold_put_pages [OF L boot_tables_linked [OF L]] by simp
qed

lemma page_no_inj:
  assumes "0x40000000 \<le> unat va" "0x40000000 \<le> unat wa" "unat va mod 4096 = 0" "unat wa mod 4096 = 0" "page_no va = page_no wa"
  shows "va = wa"
proof -
  have "0x40000 \<le> unat va div 4096" "0x40000 \<le> unat wa div 4096" using assms(1,2) by linarith+
  then have "unat va div 4096 = unat wa div 4096" using assms(5) unfolding page_no_def by linarith
  then have "unat va = unat wa" using assms(3,4) by (metis mult_div_mod_eq)
  then show ?thesis by (simp only: word_unat_eq_iff)
qed

lemma pages_inj:
  assumes L: "layout_ok L"
  shows "inj_on (\<lambda>p. word_ptr (k_pt_pa L) (page_no (snd p))) (set (all_pages L))"
proof (rule inj_onI)
  fix p q
  assume p: "p \<in> set (all_pages L)" and q: "q \<in> set (all_pages L)"
    and eq: "word_ptr (k_pt_pa L) (page_no (snd p)) = word_ptr (k_pt_pa L) (page_no (snd q))"
  from p obtain s where s: "s \<in> set (si L)" "fst p = sec_desc s" "sec_start s \<le> snd p" "snd p < sec_end s" "unat (snd p) mod 4096 = 0"
    using all_pages_iff [OF L, of "fst p" "snd p"] by auto
  from q obtain t where t: "t \<in> set (si L)" "fst q = sec_desc t" "sec_start t \<le> snd q" "snd q < sec_end t" "unat (snd q) mod 4096 = 0"
    using all_pages_iff [OF L, of "fst q" "snd q"] by auto
  note rs = section_range [OF L s(1,3,4)] and rt = section_range [OF L t(1,3,4)]
  have "page_no (snd p) = page_no (snd q)"
    by (rule inj_onD [OF inj_pt [OF L] eq]) (simp_all add: page_no_index(3) [OF rs] page_no_index(3) [OF rt])
  then have v: "snd p = snd q" by (rule page_no_inj [OF rs(1) rt(1) s(5) t(5)])
  moreover have "s = t"
    using layout_sections(4) [OF L s(1) t(1)] s(3,4) t(3,4) v unfolding word_le_nat_alt word_less_nat_alt by fastforce
  ultimately show "p = q" using s(2) t(2) by (simp add: prod_eq_iff)
qed

lemma boot_map_result:
  assumes L: "layout_ok L"
  obtains m' where "boot_map L m = Inr m'"
    and "\<And>s va. s \<in> set (si L) \<Longrightarrow> sec_start s \<le> va \<Longrightarrow> va < sec_end s \<Longrightarrow> unat va mod 4096 = 0 \<Longrightarrow>
      m' (word_ptr (k_pt_pa L) (page_no va)) = boot_te (sec_desc s) va"
    and "\<And>k. k < 1024 \<Longrightarrow> k \<notin> page_no ` snd ` set (all_pages L) \<Longrightarrow> m' (word_ptr (k_pt_pa L) k) = 0"
    and "\<And>a. a \<notin> word_ptr (k_pt_pa L) ` {..<1024} \<Longrightarrow> m' a = boot_tables L m a"
proof
  let ?g = "\<lambda>p. word_ptr (k_pt_pa L) (page_no (snd p))"
  let ?m = "fold (put_page L) (all_pages L) (boot_tables L m)"
  have less: "page_no (snd p) < 1024" if "p \<in> set (all_pages L)" for p
    using that all_pages_iff [OF L, of "fst p" "snd p"] section_range [OF L] page_no_index(3) by auto
  show "boot_map L m = Inr ?m" by (rule boot_map_fold [OF L])
  show "?m (word_ptr (k_pt_pa L) (page_no va)) = boot_te (sec_desc s) va"
    if "s \<in> set (si L)" "sec_start s \<le> va" "va < sec_end s" "unat va mod 4096 = 0" for s va
    using fold_write_at [OF _ pages_inj [OF L], of "(sec_desc s, va)" "\<lambda>p. boot_te (fst p) (snd p)" "boot_tables L m"]
      all_pages_iff [OF L, of "sec_desc s" va] that by auto
  show "?m (word_ptr (k_pt_pa L) k) = 0" if k: "k < 1024" "k \<notin> page_no ` snd ` set (all_pages L)" for k
  proof -
    have "word_ptr (k_pt_pa L) k \<notin> ?g ` set (all_pages L)"
      using k less inj_onD [OF inj_pt [OF L]] by (auto simp: image_iff)
    from fold_write_other [OF this, of "\<lambda>p. boot_te (fst p) (snd p)"] show ?thesis using boot_tables_pt [OF L k(1)] by simp
  qed
  show "?m a = boot_tables L m a" if "a \<notin> word_ptr (k_pt_pa L) ` {..<1024}" for a
    by (rule fold_write_other) (use that less in auto)
qed

section \<open>What the tables say\<close>

text \<open>The tables in memory as the code of src/kernel/mmu.c sees them later.\<close>

definition boot_mmu :: "layout \<Rightarrow> phys \<Rightarrow> mmu_state" where
  "boot_mmu L m =
    \<lparr>pd = (\<lambda>j. m (word_ptr (k_pd_pa L) j)), kpt = (\<lambda>k. m (word_ptr (k_pt_pa L) k)), ptm = (\<lambda>_. 0), tlb = {}\<rparr>"

text \<open>A page may be executed, or written.\<close>

definition executable :: "u32 \<Rightarrow> bool" where
  "executable te \<longleftrightarrow> te \<noteq> 0 \<and> bits_get te PTE_SP_XN = 0"

definition writable :: "u32 \<Rightarrow> bool" where
  "writable te \<longleftrightarrow> te \<noteq> 0 \<and> bits_get te PTE_APX = 0"

lemma boot_te_type: "bits_get (boot_te c va) PTE_TYPE = 2 \<or> bits_get (boot_te c va) PTE_TYPE = 3"
proof (cases "c AND 1 = 0")
  case True
  have "bits_get (bits_on PTE_SP_XN) PTE_TYPE = 1"
    by (simp add: fields bits_get_def bits_extract_def bits_on_def bits_mask_def)
  then have "bits_get (boot_te c va) PTE_TYPE = 3"
    using True by (simp add: boot_te_def Let_def field_read fields mask_eq_exp_minus_1)
  then show ?thesis ..
next
  case False
  then have "bits_get (boot_te c va) PTE_TYPE = 2"
    by (simp add: boot_te_def Let_def field_read fields mask_eq_exp_minus_1)
  then show ?thesis ..
qed

lemma boot_te_nonzero [simp]: "boot_te c va \<noteq> 0"
  using boot_te_type [of c va] by auto

lemma boot_te_rights:
  "executable (boot_te c va) \<longleftrightarrow> c AND 1 \<noteq> 0" "writable (boot_te c va) \<longleftrightarrow> c AND 2 \<noteq> 0"
proof -
  have x: "bits_get (bits_set (0, 2) 2) (0, Suc 0) = 0"
    by (simp add: bits_get_def bits_extract_def bits_set_def bits_arrange_def bits_mask_def)
  show "executable (boot_te c va) \<longleftrightarrow> c AND 1 \<noteq> 0"
    by (simp add: executable_def) (simp add: boot_te_def Let_def x field_read fields mask_eq_exp_minus_1)
  show "writable (boot_te c va) \<longleftrightarrow> c AND 2 \<noteq> 0"
    by (simp add: writable_def) (simp add: boot_te_def Let_def field_read fields mask_eq_exp_minus_1)
qed

lemma boot_te_base: "bits_pull (boot_te c va) PTE_SP_BASE = bits_push PTE_SP_BASE (va - KMODE_VA)"
  by (simp add: boot_te_def Let_def field_read fields)

lemma page_of:
  assumes "0x40000000 \<le> unat va"
  obtains pg where "unat pg = unat va div 4096 * 4096" and "page_no pg = page_no va" and "unat (pg - KMODE_VA) mod 4096 = 0"
    and "va - KMODE_VA = pg - KMODE_VA + of_nat (unat va mod 4096)"
proof -
  define pg where "pg = (of_nat (unat va div 4096 * 4096) :: addr)"
  have "unat va div 4096 * 4096 \<le> unat va" by simp
  then have "unat va div 4096 * 4096 < 2 ^ 32" by (rule le_less_trans) simp
  then have u: "unat pg = unat va div 4096 * 4096" unfolding pg_def by (simp only: unat_of_nat len_of_numeral_defs) simp
  have "0x40000 \<le> unat va div 4096" using assms by linarith
  then have "KMODE_VA \<le> pg" unfolding word_le_nat_alt u kmode_consts by linarith
  then have "unat (pg - KMODE_VA) = (unat va div 4096 - 0x40000) * 4096"
    by (simp add: unat_sub_le u kmode_consts diff_mult_distrib)
  then have m: "unat (pg - KMODE_VA) mod 4096 = 0" by simp
  have "va = pg + of_nat (unat va mod 4096)" by (simp only: pg_def of_nat_add [symmetric]) simp
  then have "va - KMODE_VA = pg - KMODE_VA + of_nat (unat va mod 4096)" by (simp add: algebra_simps)
  with u m show thesis by (intro that [of pg]) (simp_all add: page_no_def)
qed

lemma kernel_va_to_pa:
  assumes va: "0x40000000 \<le> unat va" "unat va < 0x40400000" and pg: "unat pg = unat va div 4096 * 4096"
    and type: "bits_get (pd st (unat va div 2 ^ 20)) PDE_TYPE0 = 1" and te: "kpt st (page_no va) = boot_te c pg"
  shows "mmu_va_to_pa p2v va st = Inr (va - KMODE_VA)"
proof -
  obtain q where q: "unat q = unat va div 4096 * 4096" "unat (q - KMODE_VA) mod 4096 = 0"
      "va - KMODE_VA = q - KMODE_VA + of_nat (unat va mod 4096)"
    using page_of [OF va(1)] by metis
  then have "q = pg" using pg by (simp only: word_unat_eq_iff)
  note q = q [unfolded this]
  note ix = page_no_index [OF va]
  have "page_no va div 256 < 4" using ix(3) by linarith
  then have pt: "pt_of p2v (unat va div 2 ^ 20) st = Inr (Static (page_no va div 256 * 0x100))"
    unfolding pt_of_def ix(1) by simp
  have e: "pt_get (pt_index (Static (page_no va div 256 * 0x100)) (unat va div 2 ^ 12 mod 2 ^ 8)) 0 st = boot_te c pg"
    unfolding ix(2) by (simp add: te)
  have "base_pa PTE_SP_BASE (boot_te c pg) va = pg - KMODE_VA + of_nat (unat va mod 4096)"
    unfolding pde_section_fields
    by (rule base_pa_aligned [where a = "unat va div 4096"])
      (use q(2) boot_te_base [of c pg] in \<open>simp_all add: PTE_SP_BASE_def\<close>)
  then show ?thesis
    using boot_te_type [of c pg]
    unfolding mmu_va_to_pa_def Let_def unat_va_pde unat_va_pte type pt bind_res_simps e q(3) by auto
qed

lemma identity_va_to_pa:
  assumes "unat va < 0x400000" and "pd st (unat va div 2 ^ 20) = identity_de (unat va div 2 ^ 20)"
  shows "mmu_va_to_pa p2v va st = Inr va"
proof -
  let ?i = "unat va div 2 ^ 20"
  have i: "?i \<in> set [0..<4]" using assms(1) by simp
  have "\<forall>i\<in>set [0..<4]. bits_get (identity_de i) PDE_TYPE0 = 2 \<and> bits_get (identity_de i) PDE_TYPE1 = 0
    \<and> bits_pull (identity_de i) PDE_S_BASE = bits_push PDE_S_BASE (of_nat i * 0x100000) \<and> unat (of_nat i * 0x100000 :: addr) mod 2 ^ 20 = 0"
    by (simp add: upt_rec identity_de_def fields bits_defs bits_mask_def)
  with i have d: "bits_get (identity_de ?i) PDE_TYPE0 = 2" "bits_get (identity_de ?i) PDE_TYPE1 = 0"
      "bits_pull (identity_de ?i) PDE_S_BASE = bits_push PDE_S_BASE (of_nat ?i * 0x100000)"
      "unat (of_nat ?i * 0x100000 :: addr) mod 2 ^ 20 = 0" by blast+
  have "base_pa PDE_S_BASE (identity_de ?i) va = of_nat ?i * 0x100000 + of_nat (unat va mod 2 ^ 20)"
    unfolding pde_section_fields
    by (rule base_pa_aligned [where a = ?i]) (use d(3,4) in \<open>simp_all add: PDE_S_BASE_def\<close>)
  also have "\<dots> = of_nat (?i * 2 ^ 20 + unat va mod 2 ^ 20)" by (simp only: of_nat_add of_nat_mult) simp
  also have "\<dots> = va" by simp
  finally show ?thesis unfolding mmu_va_to_pa_def Let_def unat_va_pde assms(2) d by simp
qed

text \<open>What \<open>boot_map_result\<close> says of the memory afterwards, for the tables as the code sees them.\<close>

lemma boot_mmu_pd:
  assumes L: "layout_ok L" and m': "boot_map L m = Inr m'" and j: "j < 4096"
  shows "pd (boot_mmu L m') j = (if j < 4 then identity_de j
    else if 0x400 \<le> j \<and> j < 0x404 then table_de (k_pt_pa L + of_nat (j - 0x400) * 0x400) else 0)"
proof -
  have "word_ptr (k_pd_pa L) j \<notin> word_ptr (k_pt_pa L) ` {..<1024}" using pt_not_pd [OF L _ j, THEN not_sym] by auto
  then have "m' (word_ptr (k_pd_pa L) j) = boot_tables L m (word_ptr (k_pd_pa L) j)"
    using boot_map_result [OF L, of m] m' by (metis sum.inject(2))
  then show ?thesis using boot_tables_pd [OF L j] by (simp add: boot_mmu_def)
qed

lemma boot_mmu_type:
  fixes va :: addr
  assumes L: "layout_ok L" and m': "boot_map L m = Inr m'" and va: "0x40000000 \<le> unat va" "unat va < 0x40400000"
  shows "bits_get (pd (boot_mmu L m') (unat va div 2 ^ 20)) PDE_TYPE0 = 1"
proof -
  note ix = page_no_index [OF va]
  have i: "page_no va div 256 < 4" using ix(3) by linarith
  have "pd (boot_mmu L m') (page_no va div 256 + 0x400) = table_de (k_pt_pa L + of_nat (page_no va div 256) * 0x400)"
    using boot_mmu_pd [OF L m', of "page_no va div 256 + 0x400"] i by simp
  then show ?thesis unfolding ix(1) by (simp add: table_de_def field_read fields mask_eq_exp_minus_1)
qed

lemma boot_mmu_at:
  assumes L: "layout_ok L" and m': "boot_map L m = Inr m'"
    and s: "s \<in> set (si L)" "sec_start s \<le> va" "va < sec_end s" "unat va mod 4096 = 0"
  shows "kpt (boot_mmu L m') (page_no va) = boot_te (sec_desc s) va"
  using boot_map_result [OF L, of m] m' s unfolding boot_mmu_def mmu_state.select_convs by (metis sum.inject(2))

lemma boot_mmu_page:
  assumes L: "layout_ok L" and m': "boot_map L m = Inr m'" and s: "s \<in> set (si L)" "sec_start s \<le> va" "va < sec_end s"
  shows "\<exists>pg. unat pg = unat va div 4096 * 4096 \<and> kpt (boot_mmu L m') (page_no va) = boot_te (sec_desc s) pg"
proof -
  obtain pg where pg: "unat pg = unat va div 4096 * 4096" "page_no pg = page_no va"
    using page_of [OF section_range(1) [OF L s]] by metis
  have "unat (sec_start s) \<le> unat va div 4096 * 4096" using layout_sections(3) [OF L s(1)] s(2) unfolding word_le_nat_alt
    by (metis mod_0_imp_dvd dvd_div_mult_self div_le_mono mult_le_mono1)
  then have "sec_start s \<le> pg" "pg < sec_end s" "unat pg mod 4096 = 0"
    using s(3) pg(1) unfolding word_le_nat_alt word_less_nat_alt by (simp_all add: le_less_trans [OF div_times_less_eq_dividend])
  from boot_mmu_at [OF L m' s(1) this] pg show ?thesis by auto
qed

lemma boot_mmu_section:
  assumes L: "layout_ok L" and m': "boot_map L m = Inr m'" and s: "s \<in> set (si L)" "sec_start s \<le> va" "va < sec_end s"
  shows "mmu_va_to_pa p2v va (boot_mmu L m') = Inr (va - KMODE_VA)
    \<and> executable (kpt (boot_mmu L m') (page_no va)) = (sec_desc s AND 1 \<noteq> 0)
    \<and> writable (kpt (boot_mmu L m') (page_no va)) = (sec_desc s AND 2 \<noteq> 0)"
proof -
  note r = section_range [OF L s]
  obtain pg where pg: "unat pg = unat va div 4096 * 4096" "kpt (boot_mmu L m') (page_no va) = boot_te (sec_desc s) pg"
    using boot_mmu_page [OF L m' s] by blast
  from kernel_va_to_pa [OF r pg(1) boot_mmu_type [OF L m' r] pg(2)] boot_te_rights show ?thesis by (simp add: pg(2))
qed

lemma boot_mmu_entry:
  assumes L: "layout_ok L" and m': "boot_map L m = Inr m'" and k: "k < 1024"
  shows "kpt (boot_mmu L m') k = 0 \<or> (\<exists>s\<in>set (si L). \<exists>va. sec_start s \<le> va \<and> va < sec_end s \<and> page_no va = k
      \<and> kpt (boot_mmu L m') k = boot_te (sec_desc s) va)"
proof (cases "k \<in> page_no ` snd ` set (all_pages L)")
  case True
  then obtain c va where va: "(c, va) \<in> set (all_pages L)" "k = page_no va" by auto
  from va(1) obtain s where s: "s \<in> set (si L)" "sec_start s \<le> va" "va < sec_end s" "unat va mod 4096 = 0"
    unfolding all_pages_iff [OF L] by auto
  with boot_mmu_at [OF L m' s] va(2) show ?thesis by blast
next
  case False
  then show ?thesis
    using boot_map_result [OF L, of m] m' k unfolding boot_mmu_def mmu_state.select_convs by (metis sum.inject(2))
qed

lemma boot_mmu_not_both:
  assumes L: "layout_ok L" and m': "boot_map L m = Inr m'" and k: "k < 1024"
  shows "\<not> (executable (kpt (boot_mmu L m') k) \<and> writable (kpt (boot_mmu L m') k))"
proof -
  have "\<forall>s\<in>set (si L). \<not> (sec_desc s AND 1 \<noteq> 0 \<and> sec_desc s AND 2 \<noteq> 0)" by (simp add: si_def)
  then show ?thesis using boot_mmu_entry [OF assms] boot_te_rights by (auto simp: executable_def)
qed

lemma boot_mmu_identity:
  assumes L: "layout_ok L" and m': "boot_map L m = Inr m'" and va: "unat va < 0x400000"
  shows "mmu_va_to_pa p2v va (boot_mmu L m') = Inr va"
proof -
  have "unat va div 2 ^ 20 < 4" using va by simp
  then show ?thesis using boot_mmu_pd [OF L m', of "unat va div 2 ^ 20"] by (intro identity_va_to_pa [OF va]) simp
qed

lemma boot_map_frame:
  assumes L: "layout_ok L" and m': "boot_map L m = Inr m'" and a: "a \<notin> table_words L"
  shows "m' a = m a"
proof -
  have "m' a = boot_tables L m a" using boot_map_result [OF L, of m] m' a by (metis UnI2 sum.inject(2))
  then show ?thesis using boot_tables_other [OF a] by simp
qed

text \<open>C30: The first page tables. For every image the linker script allows, \<open>boot_map\<close> ends, with every byte of every section
  mapped to the place it was loaded at, executable and writable exactly as the section says, and no page both; the other
  pages of the 4 MB stay unmapped, as does every megabyte that is neither there nor among the first four, which are mapped to
  themselves; and no word of memory outside the tables changes.\<close>

theorem boot_map_translates:
  assumes L: "layout_ok L"
  shows "\<exists>m'. boot_map L m = Inr m'
    \<and> (\<forall>s\<in>set (si L). \<forall>va. sec_start s \<le> va \<and> va < sec_end s \<longrightarrow>
        mmu_va_to_pa p2v va (boot_mmu L m') = Inr (va - KMODE_VA)
        \<and> executable (kpt (boot_mmu L m') (page_no va)) = (sec_desc s AND 1 \<noteq> 0)
        \<and> writable (kpt (boot_mmu L m') (page_no va)) = (sec_desc s AND 2 \<noteq> 0))
    \<and> (\<forall>k<1024. \<not> (executable (kpt (boot_mmu L m') k) \<and> writable (kpt (boot_mmu L m') k)))
    \<and> (\<forall>k<1024. (\<forall>s\<in>set (si L). \<forall>va. sec_start s \<le> va \<and> va < sec_end s \<longrightarrow> page_no va \<noteq> k) \<longrightarrow> kpt (boot_mmu L m') k = 0)
    \<and> (\<forall>va. unat va < 0x400000 \<longrightarrow> mmu_va_to_pa p2v va (boot_mmu L m') = Inr va)
    \<and> (\<forall>j<4096. 4 \<le> j \<and> \<not> (0x400 \<le> j \<and> j < 0x404) \<longrightarrow> pd (boot_mmu L m') j = 0)
    \<and> (\<forall>a. a \<notin> table_words L \<longrightarrow> m' a = m a)"
proof -
  obtain m' where m': "boot_map L m = Inr m'" using boot_map_result [OF L, of m] by metis
  note facts = boot_mmu_section [OF L m'] boot_mmu_not_both [OF L m'] boot_mmu_identity [OF L m'] boot_map_frame [OF L m']
  have "kpt (boot_mmu L m') k = 0"
    if "k < 1024" "\<forall>s\<in>set (si L). \<forall>va. sec_start s \<le> va \<and> va < sec_end s \<longrightarrow> page_no va \<noteq> k" for k
    using boot_mmu_entry [OF L m' that(1)] that(2) by blast
  moreover have "pd (boot_mmu L m') j = 0" if "j < 4096" "4 \<le> j \<and> \<not> (0x400 \<le> j \<and> j < 0x404)" for j
    using boot_mmu_pd [OF L m' that(1)] that(2) by (simp only: if_False not_less [symmetric] simp_thms)
  ultimately show ?thesis using m' facts by (intro exI [of _ m'] conjI) blast+
qed

text \<open>An image, for the example.\<close>

definition layout0 :: layout where
  "layout0 = \<lparr>text_start = 0x40010000, text_end = 0x40014abc, rodata_start = 0x40015000, rodata_end = 0x40015200,
     data_start = 0x40016000, data_end = 0x40016010, bss_start = 0x40017000, bss_end = 0x4001b400,
     k_pd_start = 0x4001c000, k_pd_end = 0x40020000, k_pt_start = 0x40020000, k_pt_end = 0x40021000\<rparr>"

theorem boot_map_translates_witness:
  "\<exists>m'. boot_map layout0 (\<lambda>_. 7) = Inr m' \<and> mmu_va_to_pa (\<lambda>_ _. Inl Deadlock) 0x40012345 (boot_mmu layout0 m') = Inr 0x12345
    \<and> \<not> writable (kpt (boot_mmu layout0 m') 0x12)"
proof -
  have L: "layout_ok layout0" by (simp add: layout_ok_def layout0_def si_def kmode_consts)
  have s: "\<lparr>sec_start = 0x40010000, sec_end = 0x40014abc, sec_desc = 5\<rparr> \<in> set (si layout0)" by (simp add: si_def layout0_def)
  have p: "page_no 0x40012345 = 0x12" by (simp add: page_no_def)
  obtain m' where "boot_map layout0 (\<lambda>_. 7) = Inr m'"
    and t: "\<forall>s\<in>set (si layout0). \<forall>va. sec_start s \<le> va \<and> va < sec_end s \<longrightarrow>
        mmu_va_to_pa (\<lambda>_ _. Inl Deadlock) va (boot_mmu layout0 m') = Inr (va - KMODE_VA)
        \<and> executable (kpt (boot_mmu layout0 m') (page_no va)) = (sec_desc s AND 1 \<noteq> 0)
        \<and> writable (kpt (boot_mmu layout0 m') (page_no va)) = (sec_desc s AND 2 \<noteq> 0)"
    using boot_map_translates [OF L, of "\<lambda>_. 7" "\<lambda>_ _. Inl Deadlock"] by blast
  moreover from t [rule_format, OF s, of "0x40012345"] have
    "mmu_va_to_pa (\<lambda>_ _. Inl Deadlock) 0x40012345 (boot_mmu layout0 m') = Inr 0x12345
      \<and> \<not> writable (kpt (boot_mmu layout0 m') 0x12)" by (simp add: p KMODE_VA_def)
  ultimately show ?thesis by blast
qed

section \<open>Reading the list\<close>

definition ATAG_MEM :: u32 where "ATAG_MEM = 0x54410002"

text \<open>A list of tags at \<open>p\<close>, each with its length in words, that ends with the empty tag; and the memory it names, if any.\<close>

fun tags_at :: "phys \<Rightarrow> addr \<Rightarrow> (u32 \<times> u32) list \<Rightarrow> bool" where
  "tags_at m p [] \<longleftrightarrow> m (word_ptr p 0) = 0 \<and> m (word_ptr p 1) = 0"
| "tags_at m p ((sz, tag) # ts) \<longleftrightarrow> m (word_ptr p 0) = sz \<and> m (word_ptr p 1) = tag \<and> (sz \<noteq> 0 \<or> tag \<noteq> 0)
     \<and> tags_at m (word_ptr p (unat sz)) ts"

fun tag_mem :: "phys \<Rightarrow> addr \<Rightarrow> (u32 \<times> u32) list \<Rightarrow> u32 \<times> u32 \<Rightarrow> u32 \<times> u32" where
  "tag_mem m p [] r = r"
| "tag_mem m p ((sz, tag) # ts) r =
     (if tag = ATAG_MEM then (m (word_ptr p 2), m (word_ptr p 3)) else tag_mem m (word_ptr p (unat sz)) ts r)"

lemma atag_loop_stuck:
  assumes "m (word_ptr p 0) = 0" and "m (word_ptr p 1) \<noteq> 0" and "m (word_ptr p 1) \<noteq> ATAG_MEM"
  shows "atag_loop m p = None"
proof -
  have "atag_loop m p = Some r \<Longrightarrow> m (word_ptr p 0) = 0 \<Longrightarrow> m (word_ptr p 1) \<noteq> 0 \<Longrightarrow> m (word_ptr p 1) \<noteq> ATAG_MEM \<Longrightarrow> False" for r
  proof (induction rule: atag_loop.raw_induct [rotated 1, consumes 1, case_names loop])
    case (loop f m p r)
    then have "f m p = Some r" by (simp add: ATAG_MEM_def) (simp add: word_ptr_def)
    from loop.IH [OF this] loop.prems show False by blast
  qed
  with assms show ?thesis by (cases "atag_loop m p") blast+
qed

lemma atag_loop_tags:
  "tags_at m p ts \<Longrightarrow> \<exists>q. atag_loop m p = Some q \<and> tag_mem m p ts r = (case q of None \<Rightarrow> r | Some x \<Rightarrow> x)"
proof (induction m p ts rule: tags_at.induct)
  case (1 m p)
  then show ?case by (subst atag_loop.simps) simp
next
  case (2 m p sz tag ts)
  then show ?case by (subst atag_loop.simps) (cases "tag = ATAG_MEM", auto simp: ATAG_MEM_def)
qed

text \<open>C31: Reading the list of the boot loader ends for every list of tags, with the size and the start of the first memory tag, or
  with what they were when there is none. A tag of length zero that is neither the end nor a memory tag is
  read for ever.\<close>

theorem atag_memory_found:
  "(tags_at m p ts \<longrightarrow> boot_copy_atag_mem m p r = Inr (tag_mem m p ts r))
    \<and> (m (word_ptr p 0) = 0 \<and> m (word_ptr p 1) \<noteq> 0 \<and> m (word_ptr p 1) \<noteq> ATAG_MEM \<longrightarrow> boot_copy_atag_mem m p r = Inl Endless)"
proof -
  have "tags_at m p ts \<Longrightarrow> boot_copy_atag_mem m p r = Inr (tag_mem m p ts r)"
    using atag_loop_tags [of m p ts r] by (auto simp: boot_copy_atag_mem_def split: option.splits)
  moreover have "boot_copy_atag_mem m p r = Inl Endless"
    if "m (word_ptr p 0) = 0 \<and> m (word_ptr p 1) \<noteq> 0 \<and> m (word_ptr p 1) \<noteq> ATAG_MEM"
    using that atag_loop_stuck [of m p] by (simp add: boot_copy_atag_mem_def)
  ultimately show ?thesis by blast
qed

theorem atag_memory_found_witness:
  "boot_copy_atag_mem (\<lambda>a. if a = 0x100 then 2 else if a = 0x104 then 0x54410001 else if a = 0x108 then 4
      else if a = 0x10c then 0x54410002 else if a = 0x110 then 0x8000000 else 0) 0x100 (1, 1) = Inr (0x8000000, 0)
    \<and> boot_copy_atag_mem (\<lambda>a. if a = 0x104 then 5 else 0) 0x100 (1, 1) = Inl Endless"
proof
  let ?m = "\<lambda>a :: addr. if a = 0x100 then 2 else if a = 0x104 then 0x54410001 else if a = 0x108 then 4
      else if a = 0x10c then 0x54410002 else if a = 0x110 then 0x8000000 else (0 :: u32)"
  have "tags_at ?m 0x100 [(2, 0x54410001), (4, 0x54410002)]" by (simp add: word_ptr_def)
  with atag_memory_found [of ?m "0x100" "[(2, 0x54410001), (4, 0x54410002)]" "(1, 1)"]
  show "boot_copy_atag_mem ?m 0x100 (1, 1) = Inr (0x8000000, 0)" by (simp add: word_ptr_def ATAG_MEM_def)
  show "boot_copy_atag_mem (\<lambda>a. if a = 0x104 then 5 else 0) 0x100 (1, 1) = Inl Endless"
    using atag_memory_found [of "\<lambda>a. if a = 0x104 then 5 else 0" "0x100" "[]" "(1, 1)"] by (simp add: word_ptr_def ATAG_MEM_def)
qed

end
