(* ===== verification/PmInit.thy ===== *)
theory PmInit
  imports Boot SlubProps
begin

text \<open>
  \<open>pm_init\<close> of src/kernel/pm.c: the size of the RAM is cut to 128 MB, the buddy bitmap is built, the first 8 MB
  are reserved, and the array of \<open>struct page\<close> gets a section of its own, is mapped, cleared and filled for the
  frames of the kernel's sections and of the array itself.
\<close>

section \<open>Operations\<close>

text \<open>From the linker script: the array of \<open>struct page\<close> follows the 4 MB of the kernel.\<close>

definition ram_map_start :: addr where "ram_map_start = 0x40400000"

text \<open>The sections whose frames are entered in the array; the tables are one of them.\<close>

definition pm_sections :: "layout \<Rightarrow> (addr \<times> addr) list" where
  "pm_sections L =
    [(text_start L, text_end L), (rodata_start L, rodata_end L), (data_start L, data_end L), (bss_start L, bss_end L),
     (k_pd_start L, k_pt_end L)]"

definition ram_map_req :: "addr \<Rightarrow> mmu_map_req" where
  "ram_map_req pa = \<lparr>mr_n = 1, mr_va_start = ram_map_start, mr_pa_start = pa, mr_mt = MT_NRM_IO_WBA, mr_ap = AP_SRW,
     mr_mu = MAP_UNIT_SECTION, mr_flags = bits_on MMR_XN OR bits_on MMR_AF\<rparr>"

text \<open>\<open>ram_map[t].flags |= bits_set(PGF_UNIT, unit)\<close> and \<open>ram_map[t].u0.ref = 1\<close>.\<close>

definition mark_boot_page :: "pm_unit \<Rightarrow> nat \<Rightarrow> (nat \<Rightarrow> page) \<Rightarrow> nat \<Rightarrow> page" where
  "mark_boot_page unit t m = m(t := (m t)\<lparr>pflags := pflags (m t) OR bits_set PGF_UNIT (of_nat unit), u0 := 1\<rparr>)"

definition mark_boot_va :: "addr \<Rightarrow> (nat \<Rightarrow> page) \<Rightarrow> nat \<Rightarrow> page" where
  "mark_boot_va va = mark_boot_page PM_UNIT_PAGE (unat (drop_bit PAGE_SIZE_SZ (va - KMODE_VA)))"

definition mark_section :: "addr \<times> addr \<Rightarrow> (nat \<Rightarrow> page) \<Rightarrow> (nat \<Rightarrow> page) res" where
  "mark_section s m = (case page_loop mark_boot_va (snd s) (fst s) m of None \<Rightarrow> Inl Endless | Some m \<Rightarrow> Inr m)"

text \<open>\<open>memset(ram_map, 0, mapsz)\<close>; a \<open>struct page\<close> has 8 bytes.\<close>

definition zero_ram_map :: "u32 \<Rightarrow> (nat \<Rightarrow> page) \<Rightarrow> nat \<Rightarrow> page" where
  "zero_ram_map sz m = (\<lambda>f. if f < unat sz div 8 then \<lparr>pflags = 0, u0 = 0\<rparr> else m f)"

text \<open>The first 8 MB are reserved, the array gets a section of its own.\<close>

definition pm_reserve :: "u32 list \<Rightarrow> u32 \<Rightarrow> pm_state \<Rightarrow> (pm_state \<times> addr) res" where
  "pm_reserve mp rs pm =
    (let npfns = unat (drop_bit PAGE_SIZE_SZ rs);
         mapsz = drop_bit PAGE_SIZE_SZ (align_up (bdy_map_size npfns) PAGE_SIZE)
     in assert_that ''pm.c:76'' (0 < sint mapsz \<and> sint mapsz < 3)
       (bind_res (pm_ram_alloc0 PM_UNIT_2MB 4 (pm\<lparr>ramsz := rs, bdy_ram := bdy_init mp npfns\<rparr>)) (\<lambda>(pm, pa).
         case pa of
           None \<Rightarrow> Inl (Assert ''pm.c:81'')
         | Some pa \<Rightarrow> assert_that ''pm.c:83'' (\<forall>i<4. pa ! i = of_nat i * 2 * 1024 * 1024)
            (let mapsz = align_up (of_nat npfns * 8) PAGE_SIZE
             in assert_that ''pm.c:94'' (sint mapsz \<le> 1024 * 1024)
               (bind_res (pm_ram_alloc0 PM_UNIT_SECTION 1 pm) (\<lambda>(pm, pa).
                 case pa of None \<Rightarrow> Inl (Assert ''pm.c:97'') | Some pa \<Rightarrow> Inr (pm, pa ! 0)))))))"

definition pm_fill :: "layout \<Rightarrow> u32 \<Rightarrow> addr \<Rightarrow> pm_state \<Rightarrow> pm_state res" where
  "pm_fill L rs pa pm =
    (let m = zero_ram_map (align_up (of_nat (unat (drop_bit PAGE_SIZE_SZ rs)) * 8) PAGE_SIZE) (ram_map pm)
     in bind_res (for_each_res mark_section (pm_sections L) m) (\<lambda>m.
       Inr (pm\<lparr>ram_map := fold (\<lambda>i. mark_boot_page PM_UNIT_SECTION (unat (drop_bit PAGE_SIZE_SZ pa) + i)) [0..<256] m\<rparr>)))"

definition pm_init ::
    "(slub_state \<Rightarrow> (slub_state \<times> addr) res) \<Rightarrow> layout \<Rightarrow> u32 list \<Rightarrow> u32 \<Rightarrow> u32 \<Rightarrow> slub_state \<Rightarrow> slub_state res" where
  "pm_init sa L mp ram sz st =
    assert_that ''pm.c:64'' (ram = 0) (assert_that ''pm.c:65'' (sz \<noteq> 0)
      (let rs = (if 128 * 1024 * 1024 < sz then 128 * 1024 * 1024 else sz)
       in bind_res (pm_reserve mp rs (pmem st)) (\<lambda>(pm, pa).
         bind_res (mmu_map sa mmu_slub_pa_to_va (ram_map_req pa) (st\<lparr>pmem := pm\<rparr>)) (\<lambda>st.
           bind_res (pm_fill L rs pa (pmem st)) (\<lambda>pm. Inr (st\<lparr>pmem := pm\<rparr>))))))"

section \<open>The reservations\<close>

lemma frames_of_ram:
  fixes rs :: u32
  assumes "0x900000 \<le> unat rs" and "unat rs \<le> 0x8000000"
  shows "unat (drop_bit PAGE_SIZE_SZ rs) = unat rs div 4096" and "0x900 \<le> unat rs div 4096" and "unat rs div 4096 \<le> 32768"
  using frame_of_unat [of rs] assms div_le_mono [OF assms(1), of 4096] div_le_mono [OF assms(2), of 4096]
  by (simp_all add: frame_of_def)

lemma map_bytes:
  assumes "0 < N" and "N \<le> 32768"
  shows "until N BDY_NLEVELS + 8 \<le> 2 ^ 32" and "0 < unat (bdy_map_size N)" and "unat (bdy_map_size N) \<le> 8192"
proof -
  have u: "until N BDY_NLEVELS \<le> 65528" using until_mono_frames [OF assms(2), of BDY_NLEVELS] until_128mb by simp
  then show e: "until N BDY_NLEVELS + 8 \<le> 2 ^ 32" by simp
  have "until N 1 \<le> until N BDY_NLEVELS" by (rule until_mono) (simp add: BDY_NLEVELS_def)
  then have "0 < until N BDY_NLEVELS" using assms(1) by (simp add: until_def)
  with u unat_bdy_map_size [OF e] show "0 < unat (bdy_map_size N)" "unat (bdy_map_size N) \<le> 8192" by simp_all
qed

lemma page_round:
  assumes "unat (v :: u32) \<le> 2 ^ 31"
  shows "unat (align_up v PAGE_SIZE) = (unat v + 4095) div 4096 * 4096"
    and "unat (drop_bit PAGE_SIZE_SZ (align_up v PAGE_SIZE)) = (unat v + 4095) div 4096"
proof -
  have p: "PAGE_SIZE = 2 ^ 12" by (simp add: PAGE_SIZE_def)
  show u: "unat (align_up v PAGE_SIZE) = (unat v + 4095) div 4096 * 4096"
    unfolding p by (subst unat_align_up) (use assms in simp_all)
  show "unat (drop_bit PAGE_SIZE_SZ (align_up v PAGE_SIZE)) = (unat v + 4095) div 4096"
    using frame_of_unat [of "align_up v PAGE_SIZE"] u by (simp add: frame_of_def)
qed

lemma pm_reserve_ok:
  assumes rs: "0x900000 \<le> unat rs" "unat rs \<le> 0x8000000" and mp: "2048 \<le> length mp"
  shows "\<exists>b. pm_reserve mp rs pm = Inr (pm\<lparr>ramsz := rs, bdy_ram := b\<rparr>, 0x800000) \<and> bdy_rel (unat rs div 4096) {..<0x900} b"
proof -
  define N where "N = unat rs div 4096"
  note N = frames_of_ram [OF rs, folded N_def]
  have N0: "0 < N" using N(2) by linarith
  note mb = map_bytes [OF N0 N(3)]
  let ?sz = "drop_bit PAGE_SIZE_SZ (align_up (bdy_map_size N) PAGE_SIZE)"
  have "unat ?sz = (unat (bdy_map_size N) + 4095) div 4096" by (rule page_round) (use mb in simp)
  then have sz: "0 < unat ?sz" "unat ?sz < 3" using mb(2,3) by linarith+
  then have "sint ?sz = int (unat ?sz)" by (intro positive_word(2)) simp
  then have a: "0 < sint ?sz \<and> sint ?sz < 3" using sz by linarith
  have "unat (of_nat N * 8 :: u32) = N * 8"
  proof -
    have "(of_nat N * 8 :: u32) = of_nat (N * 8)" by simp
    then show ?thesis using N(3) by (simp only: unat_of_nat len_of_numeral_defs) simp
  qed
  then have "unat (align_up (of_nat N * 8) PAGE_SIZE) = (N * 8 + 4095) div 4096 * 4096"
    using page_round(1) [of "of_nat N * 8"] N(3) by simp
  also have "\<dots> \<le> N * 8 + 4095" by (rule div_times_less_eq_dividend)
  finally have "unat (align_up (of_nat N * 8) PAGE_SIZE) \<le> 0x80000" using N(3) by linarith
  then have c: "sint (align_up (of_nat N * 8) PAGE_SIZE) \<le> 1024 * 1024"
    by (subst positive_word(2)) (rule le_less_trans, assumption, simp, linarith)
  have "bdy_rel N {} (bdy_init mp N)"
    by (rule bdy_init_rel) (use mb mp unat_bdy_map_size [OF mb(1)] in linarith)+
  then have r0: "bdy_rel N {..<0 * 2 ^ PM_UNIT_2MB} (bdy_init mp N)" by simp
  obtain b1 where b1: "alloc_many bdy_alloc PM_UNIT_2MB 4 (bdy_init mp N) = (b1, [0..<4], True)" "bdy_rel N {..<4 * 2 ^ PM_UNIT_2MB} b1"
    using alloc_many_next [OF r0, of 4] N(2) by (auto simp: pm_consts)
  have r1: "bdy_rel N {..<8 * 2 ^ PM_UNIT_SECTION} b1" using b1(2) by (simp add: pm_consts)
  obtain b2 where b2: "alloc_many bdy_alloc PM_UNIT_SECTION 1 b1 = (b2, [8], True)" "bdy_rel N {..<0x900} b2"
    using alloc_many_next [OF r1, of 1] N(2) by (auto simp: pm_consts)
  have p: "\<forall>i<4. map (pm_pa PM_UNIT_2MB) [0..<4] ! i = of_nat i * 2 * 1024 * 1024"
    by (simp add: pm_pa_def pm_consts push_bit_eq_mult)
  have q: "pm_pa PM_UNIT_SECTION 8 = 0x800000" by (simp add: pm_pa_def pm_consts push_bit_eq_mult)
  have u: "PM_UNIT_2MB < PM_UNIT_MAX" "PM_UNIT_SECTION < PM_UNIT_MAX" by (simp_all add: pm_consts)
  have e1: "pm_ram_alloc0 PM_UNIT_2MB 4 (pm\<lparr>ramsz := rs, bdy_ram := bdy_init mp N\<rparr>)
      = Inr (pm\<lparr>ramsz := rs, bdy_ram := b1\<rparr>, Some (map (pm_pa PM_UNIT_2MB) [0..<4]))"
    using u(1) b1(1) by (simp add: pm_ram_alloc0_def del: upt_Suc)
  have e2: "pm_ram_alloc0 PM_UNIT_SECTION 1 (pm\<lparr>ramsz := rs, bdy_ram := b1\<rparr>)
      = Inr (pm\<lparr>ramsz := rs, bdy_ram := b2\<rparr>, Some [pm_pa PM_UNIT_SECTION 8])"
    using u(2) b2(1) by (simp add: pm_ram_alloc0_def del: alloc_many.simps One_nat_def)
  have "pm_reserve mp rs pm = Inr (pm\<lparr>ramsz := rs, bdy_ram := b2\<rparr>, 0x800000)"
    unfolding pm_reserve_def Let_def N(1) using a c p q by (simp add: e1 e2 [unfolded One_nat_def])
  with b2(2) show ?thesis unfolding N_def by blast
qed

section \<open>The array\<close>

lemma fold_mark_boot:
  "fold (\<lambda>x. mark_boot_page unit (g x)) xs m t =
    (if t \<in> g ` set xs then (m t)\<lparr>pflags := pflags (m t) OR bits_set PGF_UNIT (of_nat unit), u0 := 1\<rparr> else m t)"
  by (induction xs arbitrary: m) (auto simp: mark_boot_page_def or.assoc)

text \<open>The frames of the image.\<close>

definition image_frame :: "layout \<Rightarrow> nat \<Rightarrow> bool" where
  "image_frame L f \<longleftrightarrow> (\<exists>s\<in>set (si L). \<exists>va. sec_start s \<le> va \<and> va < sec_end s \<and> page_no va = f)"

lemma pm_sections_range:
  assumes L: "layout_ok L" and s: "(a, b) \<in> set (pm_sections L)"
  shows "0x40000000 \<le> unat a" and "unat b \<le> 0x403ff000" and "unat a mod 4096 = 0"
    and "(\<exists>va. a \<le> va \<and> va < b \<and> page_no va = f) \<Longrightarrow> image_frame L f"
proof -
  note o = layout_chain [OF L]
  have kpd: "\<lparr>sec_start = k_pd_start L, sec_end = k_pd_end L, sec_desc = 6\<rparr> \<in> set (si L)" by (simp add: si_def)
  consider (one) q where "q \<in> set (si L)" "a = sec_start q" "b = sec_end q" | (tables) "a = k_pd_start L" "b = k_pt_end L"
  proof -
    have "(\<exists>q\<in>set (si L). a = sec_start q \<and> b = sec_end q) \<or> (a = k_pd_start L \<and> b = k_pt_end L)"
      using s unfolding pm_sections_def si_def by simp (elim disjE; simp)
    then show thesis using that by blast
  qed
  note cases = this
  from cases have "0x40000000 \<le> unat a \<and> unat b \<le> 0x403ff000 \<and> unat a mod 4096 = 0"
  proof cases
    case one
    from layout_sections(1-3) [OF L one(1)] show ?thesis unfolding one(2,3) by blast
  next
    case tables
    have "unat (k_pt_end L) \<le> 0x403ff000" using o(13) by linarith
    with layout_sections(1,3) [OF L kpd] show ?thesis unfolding tables boot_section.select_convs by blast
  qed
  then show "0x40000000 \<le> unat a" "unat b \<le> 0x403ff000" "unat a mod 4096 = 0" by blast+
  show "image_frame L f" if f: "\<exists>va. a \<le> va \<and> va < b \<and> page_no va = f"
  proof -
    from f obtain va where va: "a \<le> va" "va < b" "page_no va = f" by blast
    from cases show ?thesis
    proof cases
      case one
      with va show ?thesis unfolding image_frame_def by blast
    next
      case tables
      have "va < k_pd_end L \<or> k_pt_start L \<le> va"
        using o(10,11) unfolding word_le_nat_alt word_less_nat_alt by linarith
      with va tables have "\<exists>s\<in>set (si L). sec_start s \<le> va \<and> va < sec_end s" by (auto simp: si_def)
      with va(3) show ?thesis unfolding image_frame_def by blast
    qed
  qed
qed

lemma image_frame_pm_section:
  assumes L: "layout_ok L" and f: "image_frame L f"
  shows "\<exists>(a, b)\<in>set (pm_sections L). \<exists>va. a \<le> va \<and> va < b \<and> page_no va = f"
proof -
  obtain s va where s: "s \<in> set (si L)" "sec_start s \<le> va" "va < sec_end s" "page_no va = f"
    using f unfolding image_frame_def by blast
  note o = layout_chain [OF L]
  have "\<exists>(a, b)\<in>set (pm_sections L). a \<le> sec_start s \<and> sec_end s \<le> b"
    using s(1) o(10-12) by (auto simp: si_def pm_sections_def word_le_nat_alt)
  then obtain a b where "(a, b) \<in> set (pm_sections L)" "a \<le> sec_start s" "sec_end s \<le> b" by blast
  with s(2-4) show ?thesis by (intro bexI [of _ "(a, b)"]) (auto intro!: exI [of _ va] elim: order_trans less_le_trans)
qed

lemma image_frame_less: "layout_ok L \<Longrightarrow> image_frame L f \<Longrightarrow> f < 0x400"
  unfolding image_frame_def using section_range page_no_index(3) by fastforce

lemma section_pages_marked:
  assumes L: "layout_ok L" and s: "s \<in> set (pm_sections L)"
  shows "mark_section s m = Inr (fold (\<lambda>va. mark_boot_page PM_UNIT_PAGE (page_no va)) (pages (fst s) (snd s)) m)"
proof -
  note r = pm_sections_range [OF L, of "fst s" "snd s"]
  have e: "unat (snd s) + 4096 \<le> 2 ^ 32" using r(2) s by simp
  have "mark_boot_va va m = mark_boot_page PM_UNIT_PAGE (page_no va) m" if va: "va \<in> set (pages (fst s) (snd s))" for va m
  proof -
    have "fst s \<le> va" using va set_pages [OF e] r(3) s by simp
    then have "0x40000000 \<le> unat va" using r(1) s unfolding word_le_nat_alt by simp
    then have "unat (va - KMODE_VA) = unat va - 0x40000000" by (simp add: unat_sub_le word_le_nat_alt kmode_consts)
    then have "frame_of (va - KMODE_VA) = page_no va" using frame_of_unat [of "va - KMODE_VA"] by (simp add: page_no_def)
    then show ?thesis by (simp add: mark_boot_va_def frame_of_def)
  qed
  then have "fold mark_boot_va (pages (fst s) (snd s)) m = fold (\<lambda>va. mark_boot_page PM_UNIT_PAGE (page_no va)) (pages (fst s) (snd s)) m"
    by (intro fold_cong) auto
  with e show ?thesis by (simp add: mark_section_def page_loop_fold)
qed

lemma sections_marked:
  assumes L: "layout_ok L"
  shows "\<exists>m'. for_each_res mark_section (pm_sections L) m = Inr m'
    \<and> (\<forall>t. m' t = (if image_frame L t then (m t)\<lparr>u0 := 1\<rparr> else m t))"
proof -
  let ?ps = "concat (map (\<lambda>s. pages (fst s) (snd s)) (pm_sections L))"
  have "for_each_res mark_section ss m = Inr (fold (\<lambda>va. mark_boot_page PM_UNIT_PAGE (page_no va))
      (concat (map (\<lambda>s. pages (fst s) (snd s)) ss)) m)" if "set ss \<subseteq> set (pm_sections L)" for ss m
    using that by (induction ss arbitrary: m) (simp_all add: section_pages_marked [OF L])
  then have f: "for_each_res mark_section (pm_sections L) m = Inr (fold (\<lambda>va. mark_boot_page PM_UNIT_PAGE (page_no va)) ?ps m)" by simp
  have "t \<in> page_no ` set ?ps \<longleftrightarrow> image_frame L t" for t
  proof
    assume "t \<in> page_no ` set ?ps"
    then obtain a b va where p: "(a, b) \<in> set (pm_sections L)" "va \<in> set (pages a b)" "t = page_no va" by auto
    note r = pm_sections_range [OF L p(1)]
    have "a \<le> va \<and> va < b" using p(2) set_pages [of b a va] r(2,3) by simp
    with p(3) r(4) show "image_frame L t" by blast
  next
    assume "image_frame L t"
    then obtain a b va where p: "(a, b) \<in> set (pm_sections L)" "a \<le> va" "va < b" "page_no va = t"
      using image_frame_pm_section [OF L] by blast
    note r = pm_sections_range [OF L p(1)]
    have "0x40000000 \<le> unat va" using r(1) p(2) unfolding word_le_nat_alt by linarith
    then obtain pg where pg: "unat pg = unat va div 4096 * 4096" "page_no pg = page_no va" using page_of by metis
    have "unat a \<le> unat va div 4096 * 4096" using r(3) p(2) unfolding word_le_nat_alt
      by (metis mod_0_imp_dvd dvd_div_mult_self div_le_mono mult_le_mono1)
    then have "pg \<in> set (pages a b)" using set_pages [of b a pg] r(2,3) p(3) pg(1)
      unfolding word_le_nat_alt word_less_nat_alt by (simp add: le_less_trans [OF div_times_less_eq_dividend])
    with p(1,4) pg(2) show "t \<in> page_no ` set ?ps" by (force intro: image_eqI [of _ _ pg])
  qed
  then have "fold (\<lambda>va. mark_boot_page PM_UNIT_PAGE (page_no va)) ?ps m t = (if image_frame L t then (m t)\<lparr>u0 := 1\<rparr> else m t)" for t
    unfolding fold_mark_boot by (simp add: PM_UNIT_PAGE_def bits_set_def bits_arrange_def)
  with f show ?thesis by blast
qed

lemma pm_fill_ok:
  assumes L: "layout_ok L" and rs: "0x900000 \<le> unat rs" "unat rs \<le> 0x8000000"
  shows "\<exists>m. pm_fill L rs 0x800000 pm = Inr (pm\<lparr>ram_map := m\<rparr>)
    \<and> (\<forall>f<unat rs div 4096. m f = \<lparr>pflags = (if f \<in> {0x800..<0x900} then 8 else 0),
          u0 = (if f \<in> {0x800..<0x900} \<or> image_frame L f then 1 else 0)\<rparr>)"
proof -
  define N where "N = unat rs div 4096"
  note N = frames_of_ram [OF rs, folded N_def]
  let ?sz = "align_up (of_nat N * 8) PAGE_SIZE"
  have n8: "unat (of_nat N * 8 :: u32) = N * 8"
  proof -
    have "(of_nat N * 8 :: u32) = of_nat (N * 8)" by simp
    then show ?thesis using N(3) by (simp only: unat_of_nat len_of_numeral_defs) simp
  qed
  have "unat ?sz = (N * 8 + 4095) div 4096 * 4096" using page_round(1) [of "of_nat N * 8"] n8 N(3) by simp
  moreover have "N * 8 \<le> (N * 8 + 4095) div 4096 * 4096" by linarith
  ultimately have "N \<le> unat ?sz div 8" by linarith
  then have z: "zero_ram_map ?sz (ram_map pm) f = \<lparr>pflags = 0, u0 = 0\<rparr>" if "f < N" for f
    using that by (simp add: zero_ram_map_def)
  obtain m1 where m1: "for_each_res mark_section (pm_sections L) (zero_ram_map ?sz (ram_map pm)) = Inr m1"
      "\<And>t. m1 t = (if image_frame L t then (zero_ram_map ?sz (ram_map pm) t)\<lparr>u0 := 1\<rparr> else zero_ram_map ?sz (ram_map pm) t)"
    using sections_marked [OF L] by blast
  let ?m = "fold (\<lambda>i. mark_boot_page PM_UNIT_SECTION (0x800 + i)) [0..<256] m1"
  have p: "unat (drop_bit PAGE_SIZE_SZ (0x800000 :: u32)) = 0x800" by (simp add: PAGE_SIZE_SZ_def)
  have b: "bits_set PGF_UNIT (of_nat PM_UNIT_SECTION) = 8"
    by (simp add: bits_set_def bits_arrange_def bits_mask_def PGF_UNIT_def PM_UNIT_SECTION_def)
  have "pm_fill L rs 0x800000 pm = Inr (pm\<lparr>ram_map := ?m\<rparr>)"
    unfolding pm_fill_def Let_def N(1) p by (simp only: m1(1) bind_res_simps)
  moreover have "?m f = \<lparr>pflags = (if f \<in> {0x800..<0x900} then 8 else 0),
          u0 = (if f \<in> {0x800..<0x900} \<or> image_frame L f then 1 else 0)\<rparr>" if f: "f < N" for f
  proof -
    have "f \<in> (+) 0x800 ` set [0..<256] \<longleftrightarrow> f \<in> {0x800..<0x900}" by (simp add: image_add_atLeastLessThan)
    then show ?thesis unfolding fold_mark_boot m1(2) z [OF f] b by simp
  qed
  ultimately show ?thesis unfolding N_def by blast
qed

section \<open>The memory after \<open>pm_init\<close>\<close>

lemma ram_map_mapped:
  assumes "bits_get (pd st 0x404) PDE_TYPE0 = 0"
  shows "\<exists>st'. mmu_map sa p2v (ram_map_req 0x800000) st = Inr st' \<and> (\<exists>p t. st' = st\<lparr>pd := p, tlb := t\<rparr>)
    \<and> pd st' 0x404 = section_de (ram_map_req 0x800000) 0x800000 \<and> (\<forall>j. j \<noteq> 0x404 \<and> j < 4096 \<longrightarrow> pd st' j = pd st j)"
proof -
  let ?r = "ram_map_req 0x800000"
  have r: "mr_mu ?r = MAP_UNIT_SECTION" "req_ok ?r" "unat (mr_va_start ?r) = 0x404 * 2 ^ 20" "nat (mr_n ?r) = 1" "mr_pa_start ?r = 0x800000"
    by (simp_all add: req_ok_def ram_map_req_def ram_map_start_def req_bytes_def)
  have free: "bits_get (pd st j) PDE_TYPE0 = 0" if "0x404 \<le> j" "j < 0x404 + nat (mr_n ?r)" for j
  proof -
    have "j = 0x404" using that unfolding r by linarith
    then show ?thesis using assms by simp
  qed
  obtain p t where "mmu_map sa p2v ?r st = Inr (st\<lparr>pd := p, tlb := t\<rparr>)"
    and "\<forall>j<4096. p j = (if 0x404 \<le> j \<and> j < 0x405 then section_de ?r (0x800000 + of_nat (j - 0x404) * 2 ^ 20) else pd st j)"
    using sections_mapped [OF r(1-3) free, where sa = sa and p2v = p2v] unfolding r by auto
  then show ?thesis by (intro exI [of _ "st\<lparr>pd := p, tlb := t\<rparr>"]) auto
qed

lemma ram_map_va_to_pa:
  assumes "pd st 0x404 = section_de (ram_map_req 0x800000) 0x800000" and "d < 0x100000"
  shows "mmu_va_to_pa p2v (ram_map_start + of_nat d) st = Inr (0x800000 + of_nat d)"
proof (rule va_to_pa_section [where a = "0x404" and k = 20])
  have u: "unat (ram_map_start + of_nat d) = 0x404 * 2 ^ 20 + d"
    using req_byte [of "ram_map_req 0x800000" d] assms(2) by (simp add: ram_map_req_def req_bytes_def ram_map_start_def)
  then show "unat (ram_map_start + of_nat d) = 0x404 * 2 ^ 20 + d" .
  have "(0x404 * 2 ^ 20 + d) div 2 ^ 20 = 0x404" using assms(2) by simp
  with assms(1) show "pd st (unat (ram_map_start + of_nat d) div 2 ^ 20) = section_de (ram_map_req 0x800000) 0x800000"
    unfolding u by (simp only:)
qed (use assms(2) in \<open>simp_all add: ram_map_req_def\<close>)

lemma pm_init_result:
  assumes L: "layout_ok L" and mp: "2048 \<le> length mp" and sz: "0x900000 \<le> unat sz"
    and free: "bits_get (pd st 0x404) PDE_TYPE0 = 0"
  shows "\<exists>st'. pm_init sa L mp 0 sz st = Inr st'
    \<and> (let N = min (unat sz) 0x8000000 div 4096
       in bdy_rel N {..<0x900} (bdy_ram (pmem st'))
        \<and> (\<forall>f<N. ram_map (pmem st') f = \<lparr>pflags = (if f \<in> {0x800..<0x900} then of_nat PM_UNIT_SECTION else 0),
              u0 = (if f \<in> {0x800..<0x900} \<or> image_frame L f then 1 else 0)\<rparr>))
    \<and> unat (ramsz (pmem st')) = min (unat sz) 0x8000000
    \<and> (\<forall>d<0x100000. mmu_va_to_pa p2v (ram_map_start + of_nat d) st' = Inr (0x800000 + of_nat d))
    \<and> (\<forall>j. j \<noteq> 0x404 \<and> j < 4096 \<longrightarrow> pd st' j = pd st j) \<and> kpt st' = kpt st \<and> ptm st' = ptm st \<and> pd st' 0x404 = section_de (ram_map_req 0x800000) 0x800000
    \<and> (\<exists>p t q. st' = st\<lparr>pd := p, tlb := t, pmem := q\<rparr>)"
proof -
  define rs where "rs = (if 128 * 1024 * 1024 < sz then 128 * 1024 * 1024 else sz)"
  have u: "unat rs = min (unat sz) 0x8000000" by (simp add: rs_def word_less_nat_alt)
  then have r: "0x900000 \<le> unat rs" "unat rs \<le> 0x8000000" using sz by simp_all
  have nz: "sz \<noteq> 0" using sz by auto
  obtain b where b: "pm_reserve mp rs (pmem st) = Inr ((pmem st)\<lparr>ramsz := rs, bdy_ram := b\<rparr>, 0x800000)"
      "bdy_rel (unat rs div 4096) {..<0x900} b" using pm_reserve_ok [OF r mp] by blast
  let ?st = "st\<lparr>pmem := (pmem st)\<lparr>ramsz := rs, bdy_ram := b\<rparr>\<rparr>"
  obtain st1 p t where m: "mmu_map sa mmu_slub_pa_to_va (ram_map_req 0x800000) ?st = Inr st1" "st1 = ?st\<lparr>pd := p, tlb := t\<rparr>"
    and pd1: "pd st1 0x404 = section_de (ram_map_req 0x800000) 0x800000" "\<forall>j. j \<noteq> 0x404 \<and> j < 4096 \<longrightarrow> pd st1 j = pd ?st j"
    using ram_map_mapped [of ?st sa mmu_slub_pa_to_va] free by auto
  obtain a where a: "pm_fill L rs 0x800000 (pmem st1) = Inr ((pmem st1)\<lparr>ram_map := a\<rparr>)"
      "\<forall>f<unat rs div 4096. a f = \<lparr>pflags = (if f \<in> {0x800..<0x900} then 8 else 0),
          u0 = (if f \<in> {0x800..<0x900} \<or> image_frame L f then 1 else 0)\<rparr>"
    using pm_fill_ok [OF L r] by blast
  have "pm_init sa L mp 0 sz st = Inr (st1\<lparr>pmem := (pmem st1)\<lparr>ram_map := a\<rparr>\<rparr>)"
    unfolding pm_init_def Let_def rs_def [symmetric] using nz by (simp add: b(1) m(1) a(1) del: fun_upd_apply)
  moreover have "pd (st1\<lparr>pmem := (pmem st1)\<lparr>ram_map := a\<rparr>\<rparr>) 0x404 = section_de (ram_map_req 0x800000) 0x800000" using pd1(1) by simp
  note tr = ram_map_va_to_pa [OF this]
  moreover have "st1\<lparr>pmem := (pmem st1)\<lparr>ram_map := a\<rparr>\<rparr> = st\<lparr>pd := p, tlb := t, pmem := (pmem st1)\<lparr>ram_map := a\<rparr>\<rparr>"
    by (rule slub_state.equality) (simp_all add: m(2))
  ultimately show ?thesis
    using b(2) a(2) pd1 m(2) tr by (simp add: u [symmetric] Let_def PM_UNIT_SECTION_def) blast
qed

text \<open>\<open>pm_init\<close> on a machine with at least 9 MB. It returns, whatever the bitmap and the array held before: no assertion
  fails, with any size of the RAM. The first 9 MB and nothing else are allocated in the bitmap; the array is at its address,
  in the section that follows the first 8 MB, and says of every frame of the RAM whether it belongs to the array, to the
  image, or is not in use.\<close>

theorem pm_init_memory:
  assumes L: "layout_ok L" and mp: "2048 \<le> length mp" and sz: "0x900000 \<le> unat sz"
    and free: "bits_get (pd st 0x404) PDE_TYPE0 = 0"
  shows "\<exists>st'. pm_init sa L mp 0 sz st = Inr st'
    \<and> (let N = min (unat sz) 0x8000000 div 4096
       in bdy_rel N {..<0x900} (bdy_ram (pmem st'))
        \<and> (\<forall>f<N. ram_map (pmem st') f = \<lparr>pflags = (if f \<in> {0x800..<0x900} then of_nat PM_UNIT_SECTION else 0),
              u0 = (if f \<in> {0x800..<0x900} \<or> image_frame L f then 1 else 0)\<rparr>))
    \<and> unat (ramsz (pmem st')) = min (unat sz) 0x8000000
    \<and> (\<forall>d<0x100000. mmu_va_to_pa p2v (ram_map_start + of_nat d) st' = Inr (0x800000 + of_nat d))
    \<and> (\<forall>j. j \<noteq> 0x404 \<and> j < 4096 \<longrightarrow> pd st' j = pd st j) \<and> kpt st' = kpt st \<and> ptm st' = ptm st"
  using pm_init_result [OF assms, of sa p2v] by blast

theorem pm_init_memory_witness:
  "\<exists>st'. pm_init (\<lambda>_. Inl Deadlock) layout0 (replicate 2048 7) 0 0x40000000 demo = Inr st'
    \<and> unat (ramsz (pmem st')) = 0x8000000 \<and> bdy_rel 32768 {..<0x900} (bdy_ram (pmem st'))
    \<and> ram_map (pmem st') 0x12 = \<lparr>pflags = 0, u0 = 1\<rparr> \<and> ram_map (pmem st') 0x810 = \<lparr>pflags = 8, u0 = 1\<rparr>
    \<and> ram_map (pmem st') 0x900 = \<lparr>pflags = 0, u0 = 0\<rparr>
    \<and> mmu_va_to_pa (\<lambda>_ _. Inl Deadlock) 0x40400010 st' = Inr 0x800010"
proof -
  have L: "layout_ok layout0" by (simp add: layout_ok_def layout0_def si_def kmode_consts)
  have "\<lparr>sec_start = 0x40010000, sec_end = 0x40014abc, sec_desc = 5\<rparr> \<in> set (si layout0)" by (simp add: si_def layout0_def)
  then have i: "image_frame layout0 0x12" unfolding image_frame_def
    by (rule bexI [rotated]) (rule exI [of _ "0x40012345"], simp add: page_no_def)
  have n: "\<not> image_frame layout0 f" if "0x400 \<le> f" for f using image_frame_less [OF L, of f] that by auto
  have m: "min (unat (0x40000000 :: u32)) 0x8000000 = 0x8000000" "(0x8000000 :: nat) div 4096 = 32768" by simp_all
  have h: "2048 \<le> length (replicate 2048 (7 :: u32))" "0x900000 \<le> unat (0x40000000 :: u32)"
    "bits_get (pd demo 0x404) PDE_TYPE0 = 0" by (simp_all add: demo_def bits_get_def bits_extract_def)
  obtain st' where e: "pm_init (\<lambda>_. Inl Deadlock) layout0 (replicate 2048 7) 0 0x40000000 demo = Inr st'"
      "unat (ramsz (pmem st')) = 0x8000000" "bdy_rel 32768 {..<0x900} (bdy_ram (pmem st'))"
    and f: "\<forall>f<32768. ram_map (pmem st') f = \<lparr>pflags = (if f \<in> {0x800..<0x900} then of_nat PM_UNIT_SECTION else 0),
              u0 = (if f \<in> {0x800..<0x900} \<or> image_frame layout0 f then 1 else 0)\<rparr>"
    and t: "\<forall>d<0x100000. mmu_va_to_pa (\<lambda>_ _. Inl Deadlock) (ram_map_start + of_nat d) st' = Inr (0x800000 + of_nat d)"
    using pm_init_memory [OF L h, of "\<lambda>_. Inl Deadlock" "\<lambda>_ _. Inl Deadlock"] unfolding m Let_def by blast
  from t [rule_format, of "0x10"] have "mmu_va_to_pa (\<lambda>_ _. Inl Deadlock) 0x40400010 st' = Inr 0x800010"
    by (simp add: ram_map_start_def)
  with e i n f show ?thesis by (simp add: PM_UNIT_SECTION_def)
qed

end
