(* ===== verification/SlubInit.thy ===== *)
theory SlubInit
  imports PmInit
begin

text \<open>
  \<open>slub_init\<close> of src/kernel/slub.c, run on the memory that \<open>pm_init\<close> of src/kernel/pm.c leaves: the slab of page tables is
  mapped through the static tables, the pages of the nine first slabs through a table that comes from that slab,
  and the slabs describe each other from a page of their own. Every step is shown to succeed.
\<close>

section \<open>Mapping one page\<close>

definition one_page :: "mmu_map_req \<Rightarrow> bool" where
  "one_page r \<longleftrightarrow> mr_n r = 1 \<and> mr_mu r = MAP_UNIT_PAGE \<and> mt_val (mr_mt r) < mt_val MT_MAX \<and> ap_val (mr_ap r) < ap_val AP_MAX
    \<and> unat (mr_va_start r) mod 4096 = 0 \<and> unat (mr_pa_start r) mod 4096 = 0"

lemma mmu_map_one_page:
  assumes r: "one_page r"
  shows "mmu_map sa p2v r st = bind_res (map_page_one sa p2v r (mr_va_start r) (mr_pa_start r) st) (\<lambda>(pa, st). Inr st)"
proof -
  have "map_inc MAP_UNIT_PAGE = 2 ^ 12" by (simp add: map_inc_def pm_consts push_bit_eq_mult)
  then have al: "mr_va_start r AND (map_inc (mr_mu r) - 1) = 0" "mr_pa_start r AND (map_inc (mr_mu r) - 1) = 0"
    using r mask_aligned [of 12 "mr_va_start r"] mask_aligned [of 12 "mr_pa_start r"] by (simp_all add: one_page_def)
  show ?thesis
    using r al by (cases "map_page_one sa p2v r (mr_va_start r) (mr_pa_start r) st")
      (auto simp: mmu_map_def one_page_def mmu_map_pages_def unit_loop_def Let_def)
qed

lemma one_page_tlb: "one_page r \<Longrightarrow> \<exists>t. mmu_tlb_invalidate va (map_inc (mr_mu r)) st = Inr (st\<lparr>tlb := t\<rparr>)"
  using mmu_tlb_invalidate_pages [OF map_inc_page_multiple, of "mr_mu r" va st] by (fastforce simp: one_page_def)

text \<open>The page is entered in the table \<open>pt\<close>, whose entry must be free.\<close>

lemma map_into_table:
  assumes r: "one_page r" and j: "unat (mr_va_start r) div 2 ^ 20 = j" "unat (mr_va_start r) div 2 ^ 12 mod 2 ^ 8 = i"
    and d: "bits_get (pd st j) PDE_TYPE0 = 1" and pt: "pt_of p2v j st = Inr pt" and free: "bits_get (pt_get pt i st) PTE_TYPE = 0"
  shows "\<exists>t. mmu_map sa p2v r st = Inr ((pt_set pt i (page_te r (mr_pa_start r)) st)\<lparr>tlb := t\<rparr>)"
proof -
  let ?st = "pt_set (pt_index pt i) 0 (page_te r (mr_pa_start r)) st"
  have e: "?st = pt_set pt i (page_te r (mr_pa_start r)) st" by (cases pt) simp_all
  obtain t where t: "mmu_tlb_invalidate (mr_va_start r) (map_inc (mr_mu r)) ?st = Inr (?st\<lparr>tlb := t\<rparr>)"
    using one_page_tlb [OF r] by blast
  have v: "unat (bits_get (mr_va_start r) VA_PDE_IX) = j" "unat (bits_get (mr_va_start r) VA_PTE_IX) = i"
    using j by (simp_all add: unat_va_pde unat_va_pte)
  have f: "bits_get (pt_get (pt_index pt i) 0 st) PTE_TYPE = 0" using free by (simp add: pt_get_index)
  have n: "pm_alloc_nunits (mr_mu r) = 1" using r by (simp add: one_page_def)
  show ?thesis
    unfolding mmu_map_one_page [OF r] map_page_one_def v n Let_def d
    by (rule exI [of _ t]) (use pt f t in \<open>simp add: e\<close>)
qed

text \<open>The table comes from \<open>sa\<close>, is cleared, and is entered in the directory.\<close>

lemma map_into_new_table:
  assumes r: "one_page r" and j: "unat (mr_va_start r) div 2 ^ 20 = j" "unat (mr_va_start r) div 2 ^ 12 mod 2 ^ 8 = i"
    and d: "bits_get (pd st j) PDE_TYPE0 = 0" and sa: "sa st = Inr (st1, v)" and tpa: "mmu_va_to_pa p2v v st1 = Inr tpa"
  shows "\<exists>t. mmu_map sa p2v r st = Inr (st1\<lparr>pd := (pd st1)(j := table_de tpa),
      ptm := (\<lambda>x. if x = v + 4 * of_nat i then page_te r (mr_pa_start r) else if \<exists>k<256. x = v + 4 * of_nat k then 0 else ptm st1 x),
      tlb := t\<rparr>)"
proof -
  let ?st = "st1\<lparr>pd := (pd st1)(j := table_de tpa),
      ptm := (\<lambda>x. if x = v + 4 * of_nat i then page_te r (mr_pa_start r) else if \<exists>k<256. x = v + 4 * of_nat k then 0 else ptm st1 x)\<rparr>"
  obtain t where t: "mmu_tlb_invalidate (mr_va_start r) (map_inc (mr_mu r)) ?st = Inr (?st\<lparr>tlb := t\<rparr>)"
    using one_page_tlb [OF r] by blast
  have v: "unat (bits_get (mr_va_start r) VA_PDE_IX) = j" "unat (bits_get (mr_va_start r) VA_PTE_IX) = i"
    using j by (simp_all add: unat_va_pde unat_va_pte)
  have i: "i < 256" using j(2) by auto
  have n: "pm_alloc_nunits (mr_mu r) = 1" using r by (simp add: one_page_def)
  have z: "fold (\<lambda>k. pt_set (Slab v) k 0) [0..<256] st1 = st1\<lparr>ptm := (\<lambda>x. if \<exists>k<256. x = v + 4 * of_nat k then 0 else ptm st1 x)\<rparr>"
    by (rule fold_pt_set_slab)
  have e: "(\<lambda>x. if \<exists>k<256. x = v + 4 * of_nat k then 0 else ptm st1 x)(v + 4 * of_nat i := w)
      = (\<lambda>x. if x = v + 4 * of_nat i then w else if \<exists>k<256. x = v + 4 * of_nat k then 0 else ptm st1 x)" for w
    by auto
  have g: "bits_get (0 :: u32) PTE_TYPE = 0" by (simp add: bits_get_def bits_extract_def)
  show ?thesis
    unfolding mmu_map_one_page [OF r] map_page_one_def v n Let_def d
    using sa tpa t i g by (auto simp: z e pd_set_def table_de_def)
qed

section \<open>Frames\<close>

lemma pm_pa_page: "pm_pa PM_UNIT_PAGE pos = of_nat (pos * 4096)"
  by (simp add: pm_pa_def pm_consts push_bit_eq_mult)

lemma pm_ram_alloc_next:
  assumes r: "bdy_rel N {..<F} (bdy_ram pm)" and n: "F + n \<le> N" "0 < n" and N: "N \<le> 2 ^ 20"
  shows "\<exists>b. pm_ram_alloc PM_UNIT_PAGE PGF_USE_SLUB n pm = Inr (pm\<lparr>bdy_ram := b,
      ram_map := (\<lambda>f. if F \<le> f \<and> f < F + n then \<lparr>pflags = 16, u0 = 0\<rparr> else ram_map pm f)\<rparr>,
      Some (map (\<lambda>i. of_nat ((F + i) * 4096)) [0..<n])) \<and> bdy_rel N {..<F + n} b"
proof -
  obtain b where b: "alloc_many bdy_alloc PM_UNIT_PAGE n (bdy_ram pm) = (b, [F..<F + n], True)" "bdy_rel N {..<F + n} b"
    using alloc_many_next [of N F PM_UNIT_PAGE "bdy_ram pm" n] r n by (auto simp: pm_consts)
  have m: "map (pm_pa PM_UNIT_PAGE) [F..<F + n] = map (\<lambda>i. of_nat ((F + i) * 4096)) [0..<n]"
    by (rule nth_equalityI) (simp_all add: pm_pa_page del: of_nat_mult)
  have fr: "frames PM_UNIT_PAGE (of_nat ((F + i) * 4096)) = {F + i}" if "i < n" for i
  proof -
    have "(F + i) * 2 ^ PM_UNIT_PAGE * 4096 < 2 ^ 32" using that n N by (simp add: PM_UNIT_PAGE_def)
    from frame_of_pm_pa(2) [OF this, unfolded pm_pa_page] show ?thesis by (simp add: frames_def PM_UNIT_PAGE_def del: of_nat_mult of_nat_add)
  qed
  have "(\<exists>pa\<in>set (map (\<lambda>i. of_nat ((F + i) * 4096)) [0..<n]). f \<in> frames PM_UNIT_PAGE pa) \<longleftrightarrow> F \<le> f \<and> f < F + n" for f
  proof -
    have "(\<exists>i<n. f = F + i) \<longleftrightarrow> F \<le> f \<and> f < F + n" by (metis add_less_cancel_left le_Suc_ex le_add1)
    then show ?thesis using fr by auto
  qed
  then have "fold (mark_pages PM_UNIT_PAGE PGF_USE_SLUB) (map (\<lambda>i. of_nat ((F + i) * 4096)) [0..<n]) (ram_map pm)
      = (\<lambda>f. if F \<le> f \<and> f < F + n then \<lparr>pflags = 16, u0 = 0\<rparr> else ram_map pm f)"
    by (intro ext) (simp only: fold_mark_pages new_page_eq,
      simp add: bits_set_def bits_arrange_def bits_mask_def PGF_USE_def PM_UNIT_PAGE_def usage_val_def)
  moreover have "PM_UNIT_PAGE < PM_UNIT_MAX" by (simp add: pm_consts)
  ultimately show ?thesis
    by (intro exI [of _ b]) (use b n(2) in \<open>simp add: pm_ram_alloc_def pm_ram_alloc0_def m del: of_nat_mult\<close>)
qed

text \<open>The flags of a page of a slab, and the slab its entry names.\<close>

lemma slab_flags:
  assumes "lg < 32"
  shows "bits_get (16 OR bits_set PGF_SLUB_LSIZE (of_nat lg)) PGF_USE = usage_val PGF_USE_SLUB"
    and "bits_get (16 OR bits_set PGF_SLUB_LSIZE (of_nat lg)) PGF_UNIT = of_nat PM_UNIT_PAGE"
    and "bits_get (16 OR bits_set PGF_SLUB_LSIZE (of_nat lg)) PGF_SLUB_LSIZE = of_nat lg"
proof -
  have ok: "field_ok PGF_USE" "field_ok PGF_UNIT" "field_ok PGF_SLUB_LSIZE" "fields_disjoint PGF_USE PGF_SLUB_LSIZE"
    "fields_disjoint PGF_UNIT PGF_SLUB_LSIZE" by (simp_all add: field_ok_def fields_disjoint_def fields)
  have v: "bits_get 16 PGF_USE = 1" "bits_get 16 PGF_UNIT = 0" "bits_get 16 PGF_SLUB_LSIZE = 0" by code_simp+
  have "take_bit 5 (of_nat lg :: u32) = of_nat lg" using assms by (simp add: take_bit_of_nat take_bit_nat_eq_self)
  then have m: "(of_nat lg :: u32) AND mask (snd PGF_SLUB_LSIZE) = of_nat lg" by (simp add: take_bit_eq_mask PGF_SLUB_LSIZE_def)
  show "bits_get (16 OR bits_set PGF_SLUB_LSIZE (of_nat lg)) PGF_USE = usage_val PGF_USE_SLUB"
    "bits_get (16 OR bits_set PGF_SLUB_LSIZE (of_nat lg)) PGF_UNIT = of_nat PM_UNIT_PAGE"
    "bits_get (16 OR bits_set PGF_SLUB_LSIZE (of_nat lg)) PGF_SLUB_LSIZE = of_nat lg"
    using ok v m by (simp_all only: field_read) (simp_all add: usage_val_def PM_UNIT_PAGE_def)
qed

lemma leader_bit:
  assumes "even (unat (sl :: addr))"
  shows "bits_get (sl OR bits_on SLUB_LEADER) SLUB_LEADER \<noteq> 0" and "(sl OR bits_on SLUB_LEADER) AND bits_off SLUB_LEADER = sl"
proof -
  have ok: "field_ok SLUB_LEADER" by (simp add: field_ok_def fields)
  have "bit (bits_get (sl OR bits_on SLUB_LEADER) SLUB_LEADER) 0"
    unfolding bit_bits_get [OF ok] bit_or_iff bit_bits_on [OF ok] by (simp add: SLUB_LEADER_def)
  then show "bits_get (sl OR bits_on SLUB_LEADER) SLUB_LEADER \<noteq> 0" by (metis bit_0_eq bot_apply bot_bool_def)
  have "bit sl 0 = bit (unat sl) 0" by (simp only: bit_unsigned_iff) simp
  then have "\<not> bit sl 0" using assms by (simp only: bit_0) simp
  then show "(sl OR bits_on SLUB_LEADER) AND bits_off SLUB_LEADER = sl"
    by (intro bit_word_eqI) (unfold bit_and_iff bit_or_iff bit_bits_on [OF ok] bit_bits_off [OF ok], auto simp: SLUB_LEADER_def intro!: gr0I)
qed

lemma pt_page_va:
  assumes pa: "pa < ramsz (pmem st)" and pg: "ram_map (pmem st) (frame_of pa) = \<lparr>pflags = 16 OR bits_set PGF_SLUB_LSIZE 10, u0 = sl OR bits_on SLUB_LEADER\<rparr>"
    and sl: "even (unat sl)"
  shows "mmu_slub_pa_to_va st pa = Inr (sl_p (slab st sl) + (pa AND bits_mask PAGE_SIZE_SZ))"
proof -
  have "slub_page site pa st = Inr (frame_of pa)" for site
    using pa slab_flags(1) [of 10] by (simp add: slub_page_def pm_ram_get_page_def pg)
  moreover have "slub_leader site (frame_of pa) st = Inr sl" for site
    using leader_bit [OF sl] by (simp add: slub_leader_def pg Let_def)
  ultimately show ?thesis using slab_flags(3) [of 10] by (simp add: mmu_slub_pa_to_va_def pg)
qed

section \<open>The page of the page tables\<close>

lemma one_page_map_req: "unat va mod 4096 = 0 \<Longrightarrow> unat pa mod 4096 = 0 \<Longrightarrow> one_page (map_req va pa)"
  by (simp add: one_page_def map_req_def)

definition zeroed :: "addr \<Rightarrow> (addr \<Rightarrow> u32) \<Rightarrow> addr \<Rightarrow> u32" where
  "zeroed va w = (\<lambda>a. if a - va < PAGE_SIZE then 0 else w a)"

lemma zeroed_out: "4096 \<le> unat (a - va) \<Longrightarrow> zeroed va w a = w a"
  by (simp add: zeroed_def PAGE_SIZE_def word_less_nat_alt)

lemma zero_page_eq: "zero_page va st = st\<lparr>ptm := zeroed va (ptm st)\<rparr>"
  by (simp add: zero_page_def zeroed_def)

lemma area_mapped:
  assumes "bits_get (pd st 0x403) PDE_TYPE0 = 1" and "bits_get (kpt st 0x3ff) PTE_TYPE = 0"
  shows "\<exists>t. slub_map sa mmu_slub_area 0x900000 st = Inr (st\<lparr>kpt := (kpt st)(0x3ff := page_te (map_req mmu_slub_area 0x900000) 0x900000),
    tlb := t, ptm := zeroed mmu_slub_area (ptm st)\<rparr>)"
proof -
  let ?r = "map_req mmu_slub_area 0x900000"
  have r: "one_page ?r" by (rule one_page_map_req) (simp_all add: mmu_slub_area_def)
  have v: "mr_va_start ?r = mmu_slub_area" "mr_pa_start ?r = 0x900000" by (simp_all add: map_req_def)
  have j: "unat (mr_va_start ?r) div 2 ^ 20 = 0x403" "unat (mr_va_start ?r) div 2 ^ 12 mod 2 ^ 8 = 0xff"
    unfolding v by (simp_all add: mmu_slub_area_def)
  have pt: "pt_of mmu_slub_pa_to_va 0x403 st = Inr (Static 0x300)" by (simp add: pt_of_def)
  have f: "bits_get (pt_get (Static 0x300) 0xff st) PTE_TYPE = 0" using assms(2) by simp
  from map_into_table [OF r j assms(1) pt f, of sa] obtain t
    where "mmu_map sa mmu_slub_pa_to_va ?r st = Inr ((pt_set (Static 0x300) 0xff (page_te ?r (mr_pa_start ?r)) st)\<lparr>tlb := t\<rparr>)" by blast
  then show ?thesis by (intro exI [of _ t]) (simp add: slub_map_def zero_page_eq v)
qed

lemma area_translates:
  assumes "bits_get (pd st 0x403) PDE_TYPE0 = 1" and "kpt st 0x3ff = page_te (map_req mmu_slub_area 0x900000) 0x900000" and "d < 4096"
  shows "mmu_va_to_pa p2v (mmu_slub_area + of_nat d) st = Inr (0x900000 + of_nat d)"
proof -
  have u: "unat (mmu_slub_area + of_nat d) = 0x403ff * 4096 + d"
    using req_byte [of "map_req mmu_slub_area 0x900000" d] assms(3) by (simp add: map_req_def req_bytes_def mmu_slub_area_def)
  have "(0x403ff * 4096 + d) div 2 ^ 20 = 0x403" "(0x403ff * 4096 + d) div 2 ^ 12 = 0x403ff" using assms(3) by simp_all
  then show ?thesis
    by (intro page_translates [where j = "0x403" and i = "0xff" and n = "0x403ff" and pt = "Static 0x300" and r = "map_req mmu_slub_area 0x900000"])
      (use u assms in \<open>simp_all add: pt_of_def map_req_def\<close>)
qed

section \<open>Words of pages\<close>

lemma out_of_page:
  assumes "unat (va :: addr) + 4096 \<le> 2 ^ 32" and "unat a < unat va \<or> unat va + 4096 \<le> unat a"
  shows "4096 \<le> unat (a - va)"
proof (cases "va \<le> a")
  case True
  then show ?thesis using assms by (simp add: unat_sub word_le_nat_alt)
next
  case False
  then have l: "unat a < unat va" by (simp add: word_le_nat_alt)
  have "(of_nat (unat a + 0x100000000 - unat va) :: addr) = of_nat (unat a) + of_nat (0x100000000) - of_nat (unat va)"
    using assms(1) by (subst of_nat_diff) simp_all
  then have "a - va = of_nat (unat a + 0x100000000 - unat va)" by simp
  moreover have "unat a + 0x100000000 - unat va < 0x100000000" using l by linarith
  ultimately have "unat (a - va) = unat a + 0x100000000 - unat va" by (simp only: unat_of_nat len_of_numeral_defs) simp
  then show ?thesis using assms(1) by simp
qed

lemma table_word:
  assumes "unat (v :: addr) + 1024 \<le> 2 ^ 32" and "x < 256"
  shows "unat (v + 4 * of_nat x) = unat v + 4 * x"
proof -
  have "v + 4 * of_nat x = of_nat (unat v + 4 * x)" by simp
  moreover have "unat v + 4 * x < 2 ^ 32" using assms by linarith
  ultimately show ?thesis by (simp only: unat_of_nat len_of_numeral_defs) simp
qed

section \<open>A page table from its slab\<close>

lemma nobj_10: "nobj 10 = 4" by (simp add: nobj_def)

lemma table_taken:
  assumes wf: "slab_wf st MmuPt e (j # js)" and lg: "sp_log_sz (subs st MmuPt) = 10"
    and first: "first_slab MmuPt st = Some e" and lock: "\<not> sp_lock (subs st MmuPt)"
  shows "\<exists>st'. mmu_slub_alloc d st = Inr (st', obj (sl_p (slab st e)) 10 j) \<and> slab_wf st' MmuPt e js
    \<and> st' = st\<lparr>ptm := (ptm st)(obj (sl_p (slab st e)) 10 j := 0), slab := (slab st)(e := slab st' e), subs := subs st'\<rparr>
    \<and> sl_p (slab st' e) = sl_p (slab st e)
    \<and> subs st' MmuPt = relisted e (length js = 3) (js = []) (subs st MmuPt)
    \<and> (\<forall>i. i \<noteq> MmuPt \<longrightarrow> e \<notin> set (sp_busy (subs st i)) \<union> set (sp_part (subs st i)) \<union> set (sp_free (subs st i)) \<longrightarrow> subs st' i = subs st i)"
  using object_taken [OF wf first lock, of "kmalloc d"] lg by (simp add: mmu_slub_alloc_def nobj_10)

section \<open>The nine first slabs are mapped\<close>

definition first_va :: "nat \<Rightarrow> addr" where "first_va i = 0xf7ff7000 + of_nat i * 0x1000"
definition first_pa :: "nat \<Rightarrow> addr" where "first_pa i = 0x901000 + of_nat i * 0x1000"
definition first_te :: "nat \<Rightarrow> u32" where "first_te i = page_te (map_req (first_va i) (first_pa i)) (first_pa i)"

lemma first_unat:
  assumes "i < 9"
  shows "unat (first_va i) = 0xf7ff7000 + i * 0x1000" and "unat (first_pa i) = 0x901000 + i * 0x1000"
proof -
  have "first_va i = of_nat (0xf7ff7000 + i * 0x1000)" "first_pa i = of_nat (0x901000 + i * 0x1000)"
    by (simp_all add: first_va_def first_pa_def)
  then show "unat (first_va i) = 0xf7ff7000 + i * 0x1000" "unat (first_pa i) = 0x901000 + i * 0x1000"
    using assms by (simp_all only: unat_of_nat len_of_numeral_defs) simp_all
qed

lemma first_index:
  assumes "i < 9"
  shows "unat (first_va i) div 2 ^ 20 = 0xf7f" and "unat (first_va i) div 2 ^ 12 mod 2 ^ 8 = 247 + i"
proof -
  have "unat (first_va i) = (0xf7ff7 + i) * 4096" using first_unat(1) [OF assms] by simp
  moreover have "(0xf7ff7 + i) mod 256 = 247 + i" using assms mod_mult_self3 [of 3967 256 "247 + i"] by simp
  ultimately show "unat (first_va i) div 2 ^ 20 = 0xf7f" "unat (first_va i) div 2 ^ 12 mod 2 ^ 8 = 247 + i"
    using assms by simp_all
qed

text \<open>\<open>k\<close> of the nine are mapped; \<open>s\<close> is the state before the first.\<close>

definition mapped :: "addr \<Rightarrow> slub_state \<Rightarrow> nat \<Rightarrow> slub_state \<Rightarrow> bool" where
  "mapped mps s k st \<longleftrightarrow>
    kpt st = kpt s \<and> pmem st = pmem s \<and> vm_areas st = vm_areas s \<and> vseg st = vseg s \<and> vm_areas_lock st = vm_areas_lock s
    \<and> fslab st = fslab s \<and> fulls st = fulls s \<and> slub_16byte_free st = slub_16byte_free s
    \<and> slab_wf st MmuPt mps (if k = 0 then [0, 1, 2, 3] else [1, 2, 3]) \<and> sl_p (slab st mps) = mmu_slub_area
    \<and> subs st MmuPt = \<lparr>sp_busy = [], sp_part = (if k = 0 then [] else [mps]), sp_free = (if k = 0 then [mps] else []),
                       sp_lock = False, sp_log_sz = 10\<rparr>
    \<and> (\<forall>i<k. subs st (Sub i) = \<lparr>sp_busy = [], sp_part = [], sp_free = [], sp_lock = False, sp_log_sz = 3 + i\<rparr>)
    \<and> pd st = (if k = 0 then pd s else (pd s)(0xf7f := table_de 0x900000))
    \<and> (k \<noteq> 0 \<longrightarrow> (\<forall>x<256. ptm st (mmu_slub_area + 4 * of_nat x) = (if 247 \<le> x \<and> x < 247 + k then first_te (x - 247) else 0)))"

text \<open>What \<open>s\<close> provides: the page of the tables, its translation and its slab.\<close>

definition area_ready :: "addr \<Rightarrow> slub_state \<Rightarrow> bool" where
  "area_ready mps s \<longleftrightarrow>
    bits_get (pd s 0x403) PDE_TYPE0 = 1 \<and> kpt s 0x3ff = page_te (map_req mmu_slub_area 0x900000) 0x900000
    \<and> bits_get (pd s 0xf7f) PDE_TYPE0 = 0 \<and> 0x900000 < ramsz (pmem s)
    \<and> ram_map (pmem s) 0x900 = \<lparr>pflags = 16 OR bits_set PGF_SLUB_LSIZE 10, u0 = mps OR bits_on SLUB_LEADER\<rparr> \<and> even (unat mps)"

lemma table_de_900: "bits_get (table_de 0x900000) PDE_TYPE0 = 1" "bits_pull (table_de 0x900000) PDE_PT_BASE = 0x900000"
  by code_simp+

lemma frame_900: "frame_of 0x900000 = 0x900" by (simp add: frame_of_unat)

lemma area_word: "x < 256 \<Longrightarrow> unat (mmu_slub_area + 4 * of_nat x) = 0x403ff000 + 4 * x"
  using table_word [of mmu_slub_area x] by (simp add: mmu_slub_area_def)

lemma area_far:
  assumes "i < 9" and "unat a < 0xf7ff7000"
  shows "4096 \<le> unat (a - first_va i)"
  by (rule out_of_page) (use assms first_unat(1) [OF assms(1)] in auto)

lemma area_object: "j < 4 \<Longrightarrow> unat (obj mmu_slub_area 10 j) = 0x403ff000 + j * 0x400"
  using obj_nonzero(2) [of 10 j mmu_slub_area] by (simp add: mmu_slub_area_def nobj_10)

lemma area_object_word:
  assumes "0 < j" "j < 4" "x < 256"
  shows "obj mmu_slub_area 10 j \<noteq> mmu_slub_area + 4 * of_nat x"
proof
  assume "obj mmu_slub_area 10 j = mmu_slub_area + 4 * of_nat x"
  then have "0x403ff000 + j * 0x400 = 0x403ff000 + 4 * x" using area_object [OF assms(2)] area_word [OF assms(3)] by simp
  then show False using assms by linarith
qed

lemma area_word_inj: "x < 256 \<Longrightarrow> y < 256 \<Longrightarrow> mmu_slub_area + 4 * of_nat x = mmu_slub_area + 4 * of_nat y \<longleftrightarrow> x = y"
  using area_word [of x] area_word [of y] by (metis add_left_cancel mult_cancel1 zero_neq_numeral)

lemma init0_mapped:
  assumes "mapped mps s k st" and "k < 9"
  shows "mapped mps s k (slub_subpage_init0 (Sub k) (3 + k) st)"
proof -
  have "slab_wf (slub_subpage_init0 (Sub k) (3 + k) st) MmuPt mps js = slab_wf st MmuPt mps js" for js
    by (rule slab_wf_cong) (simp_all add: slub_subpage_init0_def upd_sub_def)
  with assms show ?thesis by (simp add: mapped_def slub_subpage_init0_def upd_sub_def)
qed

lemma first_req:
  assumes "k < 9"
  shows "one_page (map_req (first_va k) (first_pa k))" and "mr_va_start (map_req (first_va k) (first_pa k)) = first_va k"
    and "mr_pa_start (map_req (first_va k) (first_pa k)) = first_pa k"
proof -
  have "unat (first_va k) mod 4096 = 0" "unat (first_pa k) mod 4096 = 0" using first_unat [OF assms] by simp_all
  then show "one_page (map_req (first_va k) (first_pa k))" by (rule one_page_map_req)
qed (simp_all add: map_req_def)

text \<open>The words of the page of the tables stay when a first slab is cleared.\<close>

lemma cleared_area:
  assumes "k < 9"
  shows "x < 256 \<Longrightarrow> zeroed (first_va k) w (mmu_slub_area + 4 * of_nat x) = w (mmu_slub_area + 4 * of_nat x)"
    and "j < 4 \<Longrightarrow> zeroed (first_va k) w (obj mmu_slub_area 10 j) = w (obj mmu_slub_area 10 j)"
proof -
  show "zeroed (first_va k) w (mmu_slub_area + 4 * of_nat x) = w (mmu_slub_area + 4 * of_nat x)" if "x < 256"
    by (rule zeroed_out, rule area_far [OF assms]) (use area_word [OF that] that in simp)
  show "zeroed (first_va k) w (obj mmu_slub_area 10 j) = w (obj mmu_slub_area 10 j)" if "j < 4"
    by (rule zeroed_out, rule area_far [OF assms]) (use area_object [OF that] that in simp)
qed

lemma map_first:
  assumes s: "area_ready mps s" and m: "mapped mps s 0 st"
    and f: "subs st (Sub 0) = \<lparr>sp_busy = [], sp_part = [], sp_free = [], sp_lock = False, sp_log_sz = 3\<rparr>"
  shows "\<exists>st'. slub_map (mmu_slub_alloc d) (first_va 0) (first_pa 0) st = Inr st' \<and> mapped mps s 1 st'"
proof -
  note M = m [unfolded mapped_def, simplified]
  note R = s [unfolded area_ready_def]
  have wf: "slab_wf st MmuPt mps (0 # [1, 2, 3])" using M by simp
  have p: "sl_p (slab st mps) = mmu_slub_area" using M by blast
  have sub: "subs st MmuPt = \<lparr>sp_busy = [], sp_part = [], sp_free = [mps], sp_lock = False, sp_log_sz = 10\<rparr>" using M by blast
  have lg: "sp_log_sz (subs st MmuPt) = 10" "first_slab MmuPt st = Some mps" "\<not> sp_lock (subs st MmuPt)"
    by (simp_all add: sub first_slab_def)
  have o: "obj mmu_slub_area 10 0 = mmu_slub_area" by (simp add: obj_def)
  obtain st1 where a: "mmu_slub_alloc d st = Inr (st1, mmu_slub_area)" and w1: "slab_wf st1 MmuPt mps [1, 2, 3]"
    and e1: "st1 = st\<lparr>ptm := (ptm st)(mmu_slub_area := 0), slab := (slab st)(mps := slab st1 mps), subs := subs st1\<rparr>"
    and p1: "sl_p (slab st1 mps) = mmu_slub_area"
    and s1: "subs st1 MmuPt = \<lparr>sp_busy = [], sp_part = [mps], sp_free = [], sp_lock = False, sp_log_sz = 10\<rparr>"
    and o1: "subs st1 (Sub 0) = subs st (Sub 0)"
    using table_taken [OF wf lg, of d] unfolding p o sub by (auto simp: f relisted_def)
  have k1: "pd st1 = pd s" "kpt st1 = kpt s" "pmem st1 = pmem s" "vm_areas st1 = vm_areas s" "vseg st1 = vseg s"
    "vm_areas_lock st1 = vm_areas_lock s" "fslab st1 = fslab s" "fulls st1 = fulls s" "slub_16byte_free st1 = slub_16byte_free s"
    by (subst e1, use M in simp)+
  have tr: "mmu_va_to_pa mmu_slub_pa_to_va mmu_slub_area st1 = Inr 0x900000"
    using area_translates [of st1 0 mmu_slub_pa_to_va] R by (simp add: k1)
  let ?r = "map_req (first_va 0) (first_pa 0)"
  note q = first_req [of 0, simplified]
  have ix: "unat (mr_va_start ?r) div 2 ^ 20 = 0xf7f" "unat (mr_va_start ?r) div 2 ^ 12 mod 2 ^ 8 = 247"
    using first_index [of 0] by (simp_all add: q)
  have d: "bits_get (pd st 0xf7f) PDE_TYPE0 = 0" using M R by simp
  obtain t where mm: "mmu_map (mmu_slub_alloc d) mmu_slub_pa_to_va ?r st = Inr (st1\<lparr>pd := (pd st1)(0xf7f := table_de 0x900000),
      ptm := (\<lambda>x. if x = mmu_slub_area + 4 * of_nat 247 then page_te ?r (mr_pa_start ?r)
        else if \<exists>k<256. x = mmu_slub_area + 4 * of_nat k then 0 else ptm st1 x), tlb := t\<rparr>)"
    using map_into_new_table [where sa = "mmu_slub_alloc d", OF q(1) ix d a tr] by blast
  let ?w = "\<lambda>x. if x = mmu_slub_area + 4 * of_nat 247 then page_te ?r (mr_pa_start ?r)
        else if \<exists>k<256. x = mmu_slub_area + 4 * of_nat k then 0 else ptm st1 x"
  let ?st = "st1\<lparr>pd := (pd st1)(0xf7f := table_de 0x900000), ptm := zeroed (first_va 0) ?w, tlb := t\<rparr>"
  have "slub_map (mmu_slub_alloc d) (first_va 0) (first_pa 0) st = Inr ?st"
    by (simp add: slub_map_def mm zero_page_eq)
  moreover have "mapped mps s 1 ?st"
  proof -
    have "slab_wf ?st MmuPt mps [1, 2, 3]"
    proof (rule slab_wf_words [OF _ _ _ w1])
      fix j assume j: "j \<in> set [1, 2, 3 :: nat]"
      then have "0 < j" "j < 4" by auto
      then show "ptm ?st (obj (sl_p (slab st1 mps)) (sp_log_sz (subs st1 MmuPt)) j) = ptm st1 (obj (sl_p (slab st1 mps)) (sp_log_sz (subs st1 MmuPt)) j)"
        using cleared_area(2) [of 0 j ?w] area_object_word [of j 247] area_object_word [of j] by (auto simp: p1 s1)
    qed simp_all
    moreover have "ptm ?st (mmu_slub_area + 4 * of_nat x) = (if x = 247 then first_te 0 else 0)" if "x < 256" for x
      using cleared_area(1) [of 0 x ?w] that area_word_inj [of x 247] by (auto simp: first_te_def q)
    ultimately show ?thesis using k1 p1 s1 o1 f by (auto simp: mapped_def)
  qed
  ultimately show ?thesis by blast
qed

lemma map_next:
  assumes s: "area_ready mps s" and m: "mapped mps s k st" and k: "0 < k" "k < 9"
    and f: "subs st (Sub k) = \<lparr>sp_busy = [], sp_part = [], sp_free = [], sp_lock = False, sp_log_sz = 3 + k\<rparr>"
  shows "\<exists>st'. slub_map (mmu_slub_alloc d) (first_va k) (first_pa k) st = Inr st' \<and> mapped mps s (Suc k) st'"
proof -
  have k0: "k \<noteq> 0" using k by simp
  note M = m [unfolded mapped_def if_not_P [OF k0]]
  note R = s [unfolded area_ready_def]
  have pdk: "pd st 0xf7f = table_de 0x900000" using M by simp
  let ?r = "map_req (first_va k) (first_pa k)"
  note q = first_req [OF k(2)]
  have ix: "unat (mr_va_start ?r) div 2 ^ 20 = 0xf7f" "unat (mr_va_start ?r) div 2 ^ 12 mod 2 ^ 8 = 247 + k"
    using first_index [OF k(2)] by (simp_all add: q)
  have "mmu_slub_pa_to_va st 0x900000 = Inr (sl_p (slab st mps) + (0x900000 AND bits_mask PAGE_SIZE_SZ))"
    by (rule pt_page_va) (use M R frame_900 in simp_all)
  moreover have "(0x900000 :: u32) AND bits_mask PAGE_SIZE_SZ = 0" by code_simp
  ultimately have pt: "pt_of mmu_slub_pa_to_va 0xf7f st = Inr (Slab mmu_slub_area)"
    using M by (simp add: pt_of_def pdk table_de_900)
  have w: "ptm st (mmu_slub_area + 4 * of_nat x) = (if 247 \<le> x \<and> x < 247 + k then first_te (x - 247) else 0)" if "x < 256" for x
    using M k0 that by blast
  have free: "bits_get (pt_get (Slab mmu_slub_area) (247 + k) st) PTE_TYPE = 0" using w [of "247 + k"] k by simp
  have d: "bits_get (pd st 0xf7f) PDE_TYPE0 = 1" using pdk table_de_900 by simp
  obtain t where mm: "mmu_map (mmu_slub_alloc d) mmu_slub_pa_to_va ?r st
      = Inr ((pt_set (Slab mmu_slub_area) (247 + k) (page_te ?r (mr_pa_start ?r)) st)\<lparr>tlb := t\<rparr>)"
    using map_into_table [OF q(1) ix d pt free] by blast
  let ?w = "(ptm st)(mmu_slub_area + 4 * of_nat (247 + k) := first_te k)"
  let ?st = "st\<lparr>ptm := zeroed (first_va k) ?w, tlb := t\<rparr>"
  have "slub_map (mmu_slub_alloc d) (first_va k) (first_pa k) st = Inr ?st"
    by (simp add: slub_map_def mm zero_page_eq q first_te_def)
  moreover have "mapped mps s (Suc k) ?st"
  proof -
    have w1: "slab_wf st MmuPt mps [1, 2, 3]" and p1: "sl_p (slab st mps) = mmu_slub_area" "sp_log_sz (subs st MmuPt) = 10" using M by simp_all
    have "slab_wf ?st MmuPt mps [1, 2, 3]"
    proof (rule slab_wf_words [OF _ _ _ w1])
      fix j assume j: "j \<in> set [1, 2, 3 :: nat]"
      then have "0 < j" "j < 4" by auto
      then show "ptm ?st (obj (sl_p (slab st mps)) (sp_log_sz (subs st MmuPt)) j) = ptm st (obj (sl_p (slab st mps)) (sp_log_sz (subs st MmuPt)) j)"
        using cleared_area(2) [OF k(2), of j ?w] area_object_word [of j "247 + k"] k by (auto simp: p1)
    qed simp_all
    moreover have "ptm ?st (mmu_slub_area + 4 * of_nat x) = (if 247 \<le> x \<and> x < 247 + Suc k then first_te (x - 247) else 0)" if "x < 256" for x
      using cleared_area(1) [OF k(2) that, of ?w] w [OF that] area_word_inj [OF that, of "247 + k"] k by (auto simp: less_Suc_eq)
    ultimately show ?thesis using M f by (auto simp: mapped_def less_Suc_eq)
  qed
  ultimately show ?thesis by blast
qed

lemma maps_first:
  assumes s: "area_ready mps s" and m: "mapped mps s 0 s"
  shows "\<exists>st'. for_res 0 9 (\<lambda>i st. slub_map (mmu_slub_alloc d) (first_va i) (first_pa i) (slub_subpage_init0 (Sub i) (3 + i) st)) s = Inr st'
    \<and> mapped mps s 9 st'"
proof -
  have step: "\<exists>st'. slub_map (mmu_slub_alloc d) (first_va i) (first_pa i) (slub_subpage_init0 (Sub i) (3 + i) st) = Inr st' \<and> mapped mps s (Suc i) st'"
    if "i < 9" "mapped mps s i st" for i st
  proof -
    have f: "subs (slub_subpage_init0 (Sub i) (3 + i) st) (Sub i) = \<lparr>sp_busy = [], sp_part = [], sp_free = [], sp_lock = False, sp_log_sz = 3 + i\<rparr>"
      by (simp add: slub_subpage_init0_def upd_sub_def)
    note m = init0_mapped [OF that(2,1)]
    show ?thesis
    proof (cases "i = 0")
      case True
      show ?thesis using map_first [OF s, of "slub_subpage_init0 (Sub 0) 3 st"] m f unfolding True by simp
    next
      case False
      then show ?thesis using map_next [OF s m _ that(1) f] by simp
    qed
  qed
  show ?thesis using for_res_total [where P = "mapped mps s" and i = 0 and k = 9 and s = s and
      body = "\<lambda>i st. slub_map (mmu_slub_alloc d) (first_va i) (first_pa i) (slub_subpage_init0 (Sub i) (3 + i) st)"] step m by simp
qed

section \<open>The nine first slabs\<close>

definition first_slab_at :: "nat \<Rightarrow> addr" where "first_slab_at i = 0xf7ff8000 + 16 * of_nat i"

lemma first_slab_unat: "i < 9 \<Longrightarrow> unat (first_slab_at i) = 0xf7ff8000 + 16 * i"
proof -
  assume i: "i < 9"
  have "first_slab_at i = of_nat (0xf7ff8000 + 16 * i)" by (simp add: first_slab_at_def)
  then show ?thesis using i by (simp only: unat_of_nat len_of_numeral_defs) simp
qed

lemma first_slab_inj: "i < 9 \<Longrightarrow> k < 9 \<Longrightarrow> first_slab_at i = first_slab_at k \<longleftrightarrow> i = k"
  by (metis add_left_cancel first_slab_unat mult_cancel1 zero_neq_numeral)

text \<open>What the entry of the first slab of class \<open>i\<close> and the lists of the class are.\<close>

definition reserved :: "nat \<Rightarrow> nat" where "reserved i = (if i = 1 then 9 else 0)"

definition first_subs :: "nat \<Rightarrow> subpage" where
  "first_subs i = \<lparr>sp_busy = [], sp_part = (if i = 1 then [first_slab_at i] else []),
     sp_free = (if i = 1 then [] else [first_slab_at i]), sp_lock = False, sp_log_sz = 3 + i\<rparr>"

definition first_page :: "nat \<Rightarrow> page" where
  "first_page i = \<lparr>pflags = 16 OR bits_set PGF_SLUB_LSIZE (of_nat (3 + i)), u0 = first_slab_at i OR bits_on SLUB_LEADER\<rparr>"

definition filled :: "addr \<Rightarrow> slub_state \<Rightarrow> nat \<Rightarrow> slub_state \<Rightarrow> bool" where
  "filled mps s k st \<longleftrightarrow>
    pd st = pd s \<and> kpt st = kpt s \<and> tlb st = tlb s \<and> vm_areas st = vm_areas s \<and> vseg st = vseg s \<and> vm_areas_lock st = vm_areas_lock s
    \<and> fslab st = fslab s \<and> fulls st = fulls s \<and> slub_16byte_free st = slub_16byte_free s + (if 1 < k then 247 else 0)
    \<and> slab_wf st MmuPt mps [1, 2, 3] \<and> slab st mps = slab s mps \<and> subs st MmuPt = subs s MmuPt
    \<and> bdy_ram (pmem st) = bdy_ram (pmem s) \<and> ramsz (pmem st) = ramsz (pmem s)
    \<and> (\<forall>f. ram_map (pmem st) f = (if 0x901 \<le> f \<and> f < 0x901 + k then first_page (f - 0x901) else ram_map (pmem s) f))
    \<and> (\<forall>i<k. slab_wf st (Sub i) (first_slab_at i) [reserved i..<nobj (3 + i)] \<and> sl_p (slab st (first_slab_at i)) = first_va i
         \<and> subs st (Sub i) = first_subs i)
    \<and> (\<forall>i<9. k \<le> i \<longrightarrow> subs st (Sub i) = \<lparr>sp_busy = [], sp_part = [], sp_free = [], sp_lock = False, sp_log_sz = 3 + i\<rparr>)
    \<and> (\<forall>x<256. ptm st (mmu_slub_area + 4 * of_nat x) = ptm s (mmu_slub_area + 4 * of_nat x))"

lemma first_pages_apart:
  assumes "i < 9" "k < 9" "i \<noteq> k" "unat (a - first_va i) < 4096"
  shows "4096 \<le> unat (a - first_va k)"
proof -
  have "\<not> (unat a < unat (first_va i) \<or> unat (first_va i) + 4096 \<le> unat a)"
    using out_of_page [of "first_va i" a] assms(4) first_unat(1) [OF assms(1)] assms(1) by auto
  then have "unat a < unat (first_va k) \<or> unat (first_va k) + 4096 \<le> unat a"
    unfolding first_unat(1) [OF assms(1)] first_unat(1) [OF assms(2)] using assms(3) by linarith
  then show ?thesis using out_of_page [of "first_va k" a] first_unat(1) [OF assms(2)] assms(2) by simp
qed

lemma fill_next:
  assumes f: "filled mps s k st" and k: "k < 9" and mps: "unat mps < 0x403ff000" and p: "sl_p (slab s mps) = mmu_slub_area"
    and lg: "sp_log_sz (subs s MmuPt) = 10"
    and sz: "0x90a000 \<le> unat (ramsz (pmem s))" and pg: "\<forall>i<9. ram_map (pmem s) (0x901 + i) = \<lparr>pflags = 16, u0 = 0\<rparr>"
  shows "\<exists>st'. slub_subpage_init1 (Sub k) (first_slab_at k) (first_va k) (first_pa k) st = Inr st' \<and> filled mps s (Suc k) st'"
proof -
  note F = f [unfolded filled_def]
  have fr: "frame_of (first_pa k) = 0x901 + k" using first_unat(2) [OF k] by (simp add: frame_of_unat)
  have pk: "ram_map (pmem st) (0x901 + k) = \<lparr>pflags = 16, u0 = 0\<rparr>" using F pg k by simp
  have b: "bits_get 16 PGF_USE = usage_val PGF_USE_SLUB" "bits_get 16 PGF_UNIT = of_nat PM_UNIT_PAGE" by code_simp+
  have sk: "subs st (Sub k) = \<lparr>sp_busy = [], sp_part = [], sp_free = [], sp_lock = False, sp_log_sz = 3 + k\<rparr>" using F k by simp
  have r: "reserved k = (if 3 + k = 4 then SLUB_SUBPAGE_NSIZES else 0)" by (simp add: reserved_def slub_consts)
  obtain w where e: "slub_subpage_init1 (Sub k) (first_slab_at k) (first_va k) (first_pa k) st = Inr (st\<lparr>ptm := w,
      pmem := (pmem st)\<lparr>ram_map := (ram_map (pmem st))(0x901 + k := first_page k)\<rparr>,
      slab := (slab st)(first_slab_at k := \<lparr>sl_nfree = of_nat (nobj (3 + k) - reserved k), sl_free = of_nat (reserved k), sl_p = first_va k\<rparr>),
      subs := (subs st)(Sub k := first_subs k),
      slub_16byte_free := slub_16byte_free st + (if k = 1 then 247 else 0)\<rparr>)"
    and w: "\<forall>j. reserved k \<le> j \<and> j < nobj (3 + k) \<longrightarrow> w (obj (first_va k) (3 + k) j) = of_nat (j + 1)"
      "\<And>a. 4096 \<le> unat (a - first_va k) \<Longrightarrow> w a = ptm st a"
  proof -
    have 1: "first_pa k < ramsz (pmem st)" using F sz first_unat(2) [OF k] k by (simp add: word_less_nat_alt)
    have 2: "unat (first_va k) mod 4096 = 0" "first_va k \<noteq> 0" "unat (first_va k) + 4096 < 2 ^ 32"
      using first_unat(1) [OF k] k by auto
    have 3: "(if 3 + k = 4 then int (nobj (3 + k) - reserved k) else 0) = (if k = 1 then 247 else 0)" by (simp add: nobj_def reserved_def)
    have 4: "(if 3 + k = 4 then (subs st (Sub k))\<lparr>sp_part := sp_part (subs st (Sub k)) @ [first_slab_at k]\<rparr>
        else (subs st (Sub k))\<lparr>sp_free := sp_free (subs st (Sub k)) @ [first_slab_at k]\<rparr>) = first_subs k"
      unfolding sk by (simp add: first_subs_def)
    show thesis
      using init1_result [where sl = "first_slab_at k" and st = st and i = "Sub k" and pa = "first_pa k" and va = "first_va k"
          and lg = "3 + k" and k = "reserved k", unfolded fr pk 3 4] 1 2 r k b sk that
      by (simp add: slub_consts first_page_def del: of_nat_add) blast
  qed
  let ?st = "st\<lparr>ptm := w,
      pmem := (pmem st)\<lparr>ram_map := (ram_map (pmem st))(0x901 + k := first_page k)\<rparr>,
      slab := (slab st)(first_slab_at k := \<lparr>sl_nfree = of_nat (nobj (3 + k) - reserved k), sl_free = of_nat (reserved k), sl_p = first_va k\<rparr>),
      subs := (subs st)(Sub k := first_subs k),
      slub_16byte_free := slub_16byte_free st + (if k = 1 then 247 else 0)\<rparr>"
  have ne: "mps \<noteq> first_slab_at k" using mps first_slab_unat [OF k] by auto
  have "slab_wf ?st MmuPt mps [1, 2, 3]"
  proof (rule slab_wf_page [of _ _ st])
    fix a assume "unat (a - sl_p (slab st mps)) < 4096"
    then have "unat (a - mmu_slub_area) < 4096" using F p by simp
    then have "unat a < 0xf7ff7000" using out_of_page [of mmu_slub_area a] by (force simp: mmu_slub_area_def)
    from area_far [OF k this] show "ptm ?st a = ptm st a" using w(2) by simp
  qed (use F ne in simp_all)
  moreover have "slab_wf ?st (Sub i) (first_slab_at i) [reserved i..<nobj (3 + i)]" if i: "i < k" for i
  proof (rule slab_wf_page [of _ _ st])
    fix a assume "unat (a - sl_p (slab st (first_slab_at i))) < 4096"
    then have "unat (a - first_va i) < 4096" using F i by simp
    from first_pages_apart [OF _ k _ this] show "ptm ?st a = ptm st a" using w(2) i k by simp
  qed (use F i k first_slab_inj [of i k] in simp_all)
  moreover have "slab_wf ?st (Sub k) (first_slab_at k) [reserved k..<nobj (3 + k)]"
    by (rule init1_wf) (use k r w(1) first_unat(1) [OF k] in \<open>auto simp: slub_consts first_subs_def\<close>)
  moreover have "w (mmu_slub_area + 4 * of_nat x) = ptm st (mmu_slub_area + 4 * of_nat x)" if "x < 256" for x
    using area_word [OF that] that by (intro w(2) area_far [OF k]) simp
  ultimately have "filled mps s (Suc k) ?st"
    using F k ne first_slab_inj unfolding filled_def by (auto simp: less_Suc_eq)
  with e show ?thesis by blast
qed

section \<open>The state that \<open>slub_init\<close> leaves\<close>

definition slub_ready :: "nat \<Rightarrow> addr \<Rightarrow> slub_state \<Rightarrow> bool" where
  "slub_ready N mps st \<longleftrightarrow>
    bdy_rel N {..<0x90a} (bdy_ram (pmem st)) \<and> 0x90a000 \<le> unat (ramsz (pmem st))
    \<and> slab_wf st MmuPt mps [1, 2, 3] \<and> sl_p (slab st mps) = mmu_slub_area
    \<and> subs st MmuPt = \<lparr>sp_busy = [], sp_part = [mps], sp_free = [], sp_lock = False, sp_log_sz = 10\<rparr>
    \<and> (\<forall>i<9. slab_wf st (Sub i) (first_slab_at i) [reserved i..<nobj (3 + i)] \<and> sl_p (slab st (first_slab_at i)) = first_va i
         \<and> subs st (Sub i) = first_subs i)
    \<and> (\<forall>i<15. fulls st i = \<lparr>fp_busy = [], fp_lock = False, fp_log_sz = 12 + i\<rparr>)
    \<and> ram_map (pmem st) 0x900 = \<lparr>pflags = 16 OR bits_set PGF_SLUB_LSIZE 10, u0 = mps OR bits_on SLUB_LEADER\<rparr>
    \<and> (\<forall>i<9. ram_map (pmem st) (0x901 + i) = first_page i)
    \<and> bits_get (pd st 0x403) PDE_TYPE0 = 1 \<and> kpt st 0x3ff = page_te (map_req mmu_slub_area 0x900000) 0x900000
    \<and> pd st 0xf7f = table_de 0x900000
    \<and> (\<forall>x<256. ptm st (mmu_slub_area + 4 * of_nat x) = (if 247 \<le> x then first_te (x - 247) else 0))"

text \<open>What it leaves alone.\<close>

definition slub_kept :: "slub_state \<Rightarrow> slub_state \<Rightarrow> bool" where
  "slub_kept s st \<longleftrightarrow>
    (\<forall>j. j \<noteq> 0xf7f \<longrightarrow> pd st j = pd s j) \<and> (\<forall>k. k \<noteq> 0x3ff \<longrightarrow> kpt st k = kpt s k)
    \<and> vm_areas st = vm_areas s \<and> vseg st = vseg s \<and> vm_areas_lock st = vm_areas_lock s \<and> fslab st = fslab s
    \<and> ramsz (pmem st) = ramsz (pmem s) \<and> slub_16byte_free st = slub_16byte_free s + 247
    \<and> (\<forall>f. \<not> (0x900 \<le> f \<and> f < 0x90a) \<longrightarrow> ram_map (pmem st) f = ram_map (pmem s) f)"

lemma fulls_fold: "fold (\<lambda>i. upd_full i (\<lambda>_. g i)) [0..<n] st = st\<lparr>fulls := (\<lambda>i. if i < n then g i else fulls st i)\<rparr>"
proof (induction n)
  case (Suc n)
  then show ?case by (auto simp: upd_full_def fun_eq_iff less_Suc_eq intro!: slub_state.equality)
qed simp

text \<open>The first slab of page tables.\<close>

lemma area_init:
  assumes rel: "bdy_rel N {..<0x900} (bdy_ram (pmem st))" and N: "0x90a \<le> N" "N \<le> 2 ^ 20" and sz: "0x90a000 \<le> unat (ramsz (pmem st))"
    and tabs: "bits_get (pd st 0x403) PDE_TYPE0 = 1" "bits_get (kpt st 0x3ff) PTE_TYPE = 0"
  shows "\<exists>s1 s2 s3 w b. slub_pages site 1 st = Inr (s1, [0x900000])
    \<and> slub_map sa mmu_slub_area 0x900000 (slub_subpage_init0 MmuPt 10 s1) = Inr s2
    \<and> slub_subpage_init1 MmuPt mps mmu_slub_area 0x900000 s2 = Inr s3
    \<and> bdy_rel N {..<0x901} b \<and> slab_wf s3 MmuPt mps [0, 1, 2, 3]
    \<and> s3 = st\<lparr>kpt := (kpt st)(0x3ff := page_te (map_req mmu_slub_area 0x900000) 0x900000), tlb := tlb s3, ptm := w,
        pmem := (pmem st)\<lparr>bdy_ram := b, ram_map := (ram_map (pmem st))(0x900 :=
          \<lparr>pflags = 16 OR bits_set PGF_SLUB_LSIZE 10, u0 = mps OR bits_on SLUB_LEADER\<rparr>)\<rparr>,
        slab := (slab st)(mps := \<lparr>sl_nfree = 4, sl_free = 0, sl_p = mmu_slub_area\<rparr>),
        subs := (subs st)(MmuPt := \<lparr>sp_busy = [], sp_part = [], sp_free = [mps], sp_lock = False, sp_log_sz = 10\<rparr>)\<rparr>"
proof -
  obtain b where b: "pm_ram_alloc PM_UNIT_PAGE PGF_USE_SLUB 1 (pmem st) = Inr ((pmem st)\<lparr>bdy_ram := b,
      ram_map := (\<lambda>f. if 0x900 \<le> f \<and> f < 0x900 + 1 then \<lparr>pflags = 16, u0 = 0\<rparr> else ram_map (pmem st) f)\<rparr>, Some [0x900000])"
      "bdy_rel N {..<0x901} b"
    using pm_ram_alloc_next [OF rel, of 1] N by auto
  define s1 where "s1 = st\<lparr>pmem := (pmem st)\<lparr>bdy_ram := b, ram_map := (ram_map (pmem st))(0x900 := \<lparr>pflags = 16, u0 = 0\<rparr>)\<rparr>\<rparr>"
  have one: "(\<lambda>f. if 0x900 \<le> f \<and> f < 0x900 + 1 then x else m f) = m(0x900 := x)" for x and m :: "nat \<Rightarrow> page" by auto
  have p1: "slub_pages site 1 st = Inr (s1, [0x900000])" using b(1) unfolding one by (simp add: slub_pages_def s1_def)
  define s0 where "s0 = slub_subpage_init0 MmuPt 10 s1"
  have k0: "pd s0 = pd st" "kpt s0 = kpt st" by (simp_all add: s0_def s1_def slub_subpage_init0_def upd_sub_def)
  obtain t where m: "slub_map sa mmu_slub_area 0x900000 s0
      = Inr (s0\<lparr>kpt := (kpt s0)(0x3ff := page_te (map_req mmu_slub_area 0x900000) 0x900000), tlb := t, ptm := zeroed mmu_slub_area (ptm s0)\<rparr>)"
    using area_mapped [of s0 sa] tabs unfolding k0 by blast
  define s2 where "s2 = s0\<lparr>kpt := (kpt s0)(0x3ff := page_te (map_req mmu_slub_area 0x900000) 0x900000), tlb := t, ptm := zeroed mmu_slub_area (ptm s0)\<rparr>"
  have k2: "pmem s2 = (pmem st)\<lparr>bdy_ram := b, ram_map := (ram_map (pmem st))(0x900 := \<lparr>pflags = 16, u0 = 0\<rparr>)\<rparr>"
    "subs s2 MmuPt = \<lparr>sp_busy = [], sp_part = [], sp_free = [], sp_lock = False, sp_log_sz = 10\<rparr>"
    by (simp_all add: s2_def s0_def s1_def slub_subpage_init0_def upd_sub_def)
  have fl: "bits_get 16 PGF_USE = usage_val PGF_USE_SLUB" "bits_get 16 PGF_UNIT = of_nat PM_UNIT_PAGE" by code_simp+
  have va: "unat mmu_slub_area mod 4096 = 0" "mmu_slub_area \<noteq> 0" "unat mmu_slub_area + 4096 < 2 ^ 32" by (simp_all add: mmu_slub_area_def)
  have sz2: "0x900000 < ramsz (pmem s2)" using sz unfolding k2(1) by (simp add: word_less_nat_alt)
  obtain w where i1: "slub_subpage_init1 MmuPt mps mmu_slub_area 0x900000 s2 = Inr (s2\<lparr>ptm := w,
      pmem := (pmem st)\<lparr>bdy_ram := b, ram_map := (ram_map (pmem st))(0x900 := \<lparr>pflags = 16 OR bits_set PGF_SLUB_LSIZE 10, u0 = mps OR bits_on SLUB_LEADER\<rparr>)\<rparr>,
      slab := (slab s2)(mps := \<lparr>sl_nfree = 4, sl_free = 0, sl_p = mmu_slub_area\<rparr>),
      subs := (subs s2)(MmuPt := \<lparr>sp_busy = [], sp_part = [], sp_free = [mps], sp_lock = False, sp_log_sz = 10\<rparr>)\<rparr>)"
    and w: "\<forall>j<4. w (obj mmu_slub_area 10 j) = of_nat (j + 1)"
    using init1_result [where sl = mps and st = s2 and i = MmuPt and pa = "0x900000" and va = mmu_slub_area and lg = 10 and k = 0,
        OF sz2 _ _ _ _ _ va] unfolding k2 frame_900
    by (simp add: fl slub_consts nobj_10) blast
  define s3 where "s3 = s2\<lparr>ptm := w,
      pmem := (pmem st)\<lparr>bdy_ram := b, ram_map := (ram_map (pmem st))(0x900 := \<lparr>pflags = 16 OR bits_set PGF_SLUB_LSIZE 10, u0 = mps OR bits_on SLUB_LEADER\<rparr>)\<rparr>,
      slab := (slab s2)(mps := \<lparr>sl_nfree = 4, sl_free = 0, sl_p = mmu_slub_area\<rparr>),
      subs := (subs s2)(MmuPt := \<lparr>sp_busy = [], sp_part = [], sp_free = [mps], sp_lock = False, sp_log_sz = 10\<rparr>)\<rparr>"
  have "slab_wf s3 MmuPt mps [0..<nobj 10]"
    by (rule init1_wf [where k = 0]) (use w va in \<open>simp_all add: slub_consts nobj_10 s3_def\<close>)
  moreover have "[0..<4] = [0, 1, 2, 3 :: nat]" by (simp add: upt_rec)
  ultimately have "slab_wf s3 MmuPt mps [0, 1, 2, 3]" by (simp only: nobj_10)
  moreover have "s3 = st\<lparr>kpt := (kpt st)(0x3ff := page_te (map_req mmu_slub_area 0x900000) 0x900000), tlb := tlb s3, ptm := w,
        pmem := (pmem st)\<lparr>bdy_ram := b, ram_map := (ram_map (pmem st))(0x900 :=
          \<lparr>pflags = 16 OR bits_set PGF_SLUB_LSIZE 10, u0 = mps OR bits_on SLUB_LEADER\<rparr>)\<rparr>,
        slab := (slab st)(mps := \<lparr>sl_nfree = 4, sl_free = 0, sl_p = mmu_slub_area\<rparr>),
        subs := (subs st)(MmuPt := \<lparr>sp_busy = [], sp_part = [], sp_free = [mps], sp_lock = False, sp_log_sz = 10\<rparr>)\<rparr>"
    by (rule slub_state.equality) (simp_all add: s3_def s2_def s0_def s1_def slub_subpage_init0_def upd_sub_def)
  ultimately show ?thesis
    using p1 m [folded s2_def, unfolded s0_def] i1 [folded s3_def] b(2) by blast
qed

text \<open>The code, step by step.\<close>

lemma slub_init_steps:
  assumes r0: "s0 = fold (\<lambda>i. upd_full i (\<lambda>_. \<lparr>fp_busy = [], fp_lock = False, fp_log_sz = 12 + i\<rparr>)) [0..<15] st"
    and r1: "slub_pages ''slub.c:216'' 1 s0 = Inr (s1, [0x900000])"
    and r2: "slub_map (mmu_slub_alloc d) mmu_slub_area 0x900000 (slub_subpage_init0 MmuPt 10 s1) = Inr s2"
    and r3: "slub_subpage_init1 MmuPt mps mmu_slub_area 0x900000 s2 = Inr s3"
    and r4: "slub_pages ''slub.c:234'' 9 s3 = Inr (s4, map first_pa [0..<9])"
    and r5: "for_res 0 9 (\<lambda>i st. slub_map (mmu_slub_alloc d) (first_va i) (first_pa i) (slub_subpage_init0 (Sub i) (3 + i) st)) s4 = Inr s5"
    and r6: "for_res 0 9 (\<lambda>i. slub_subpage_init1 (Sub i) (first_slab_at i) (first_va i) (first_pa i)) s5 = Inr st'"
  shows "slub_init d mps st = Inr st'"
proof -
  have va: "vm_slub_end - of_nat 9 * PAGE_SIZE + of_nat i * PAGE_SIZE = first_va i" for i
    by (simp add: vm_slub_end_def PAGE_SIZE_def first_va_def)
  have sl: "first_va 1 + 16 * of_nat i = first_slab_at i" for i by (simp add: first_va_def first_slab_at_def)
  have c: "for_res 0 9 body s = for_res 0 9 body' s" if "\<And>i s. i < 9 \<Longrightarrow> body i s = body' i s" for body body' :: "nat \<Rightarrow> slub_state \<Rightarrow> slub_state res" and s
    by (rule for_res_cong) (use that in auto)
  have n: "SLUB_SUBPAGE_NSIZES = 9" "SLUB_FULLPAGE_NSIZES = 15" "SLUB_SUBPAGE_START = 3" "PAGE_SIZE_SZ = 12" "SLUB_SUBPAGE_START + 7 = 10"
    by (simp_all add: slub_consts pm_consts)
  have ten: "3 + 7 = (10 :: nat)" by simp
  have l1: "for_res 0 9 (\<lambda>i st. slub_map (mmu_slub_alloc d) (first_va i) (map first_pa [0..<9] ! i) (slub_subpage_init0 (Sub i) (3 + i) st)) s4 = Inr s5"
    unfolding r5 [symmetric] by (rule c) simp
  have l2: "for_res 0 9 (\<lambda>i. slub_subpage_init1 (Sub i) (first_slab_at i) (first_va i) (map first_pa [0..<9] ! i)) s5 = Inr st'"
    unfolding r6 [symmetric] by (rule c) simp
  show ?thesis
    unfolding slub_init_def Let_def n r0 [symmetric] va sl
    by (simp only: r1 ten r2 r3 r4 bind_res_simps prod.case nth_Cons_0 l1 l2)
qed

lemma slub_init_ready:
  assumes rel: "bdy_rel N {..<0x900} (bdy_ram (pmem st))" and N: "0x90a \<le> N" "N \<le> 2 ^ 20" and sz: "0x90a000 \<le> unat (ramsz (pmem st))"
    and tabs: "bits_get (pd st 0x403) PDE_TYPE0 = 1" "bits_get (kpt st 0x3ff) PTE_TYPE = 0" "bits_get (pd st 0xf7f) PDE_TYPE0 = 0"
    and mps: "even (unat mps)" "unat mps < 0x403ff000"
  shows "\<exists>st'. slub_init d mps st = Inr st' \<and> slub_ready N mps st' \<and> slub_kept st st'"
proof -
  let ?f = "\<lambda>i. if i < 15 then \<lparr>fp_busy = [], fp_lock = False, fp_log_sz = 12 + i\<rparr> else fulls st i"
  define s0 where "s0 = st\<lparr>fulls := ?f\<rparr>"
  have k0: "bdy_rel N {..<0x900} (bdy_ram (pmem s0))" "0x90a000 \<le> unat (ramsz (pmem s0))"
    "bits_get (pd s0 0x403) PDE_TYPE0 = 1" "bits_get (kpt s0 0x3ff) PTE_TYPE = 0" using rel sz tabs by (simp_all add: s0_def)
  obtain s1 s2 s3 w b where r1: "slub_pages ''slub.c:216'' 1 s0 = Inr (s1, [0x900000])"
    and r2: "slub_map (mmu_slub_alloc d) mmu_slub_area 0x900000 (slub_subpage_init0 MmuPt 10 s1) = Inr s2"
    and r3: "slub_subpage_init1 MmuPt mps mmu_slub_area 0x900000 s2 = Inr s3"
    and b: "bdy_rel N {..<0x901} b" and w3: "slab_wf s3 MmuPt mps [0, 1, 2, 3]"
    and e3: "s3 = s0\<lparr>kpt := (kpt s0)(0x3ff := page_te (map_req mmu_slub_area 0x900000) 0x900000), tlb := tlb s3, ptm := w,
        pmem := (pmem s0)\<lparr>bdy_ram := b, ram_map := (ram_map (pmem s0))(0x900 :=
          \<lparr>pflags = 16 OR bits_set PGF_SLUB_LSIZE 10, u0 = mps OR bits_on SLUB_LEADER\<rparr>)\<rparr>,
        slab := (slab s0)(mps := \<lparr>sl_nfree = 4, sl_free = 0, sl_p = mmu_slub_area\<rparr>),
        subs := (subs s0)(MmuPt := \<lparr>sp_busy = [], sp_part = [], sp_free = [mps], sp_lock = False, sp_log_sz = 10\<rparr>)\<rparr>"
    using area_init [OF k0(1) N k0(2-4), of "''slub.c:216''" "mmu_slub_alloc d" mps] by blast
  have f3: "kpt s3 = (kpt st)(0x3ff := page_te (map_req mmu_slub_area 0x900000) 0x900000)" "pd s3 = pd st"
    "vm_areas s3 = vm_areas st" "vseg s3 = vseg st" "vm_areas_lock s3 = vm_areas_lock st" "fslab s3 = fslab st" "fulls s3 = ?f"
    "slub_16byte_free s3 = slub_16byte_free st"
    "slab s3 mps = \<lparr>sl_nfree = 4, sl_free = 0, sl_p = mmu_slub_area\<rparr>"
    "subs s3 MmuPt = \<lparr>sp_busy = [], sp_part = [], sp_free = [mps], sp_lock = False, sp_log_sz = 10\<rparr>"
    "pmem s3 = (pmem st)\<lparr>bdy_ram := b, ram_map := (ram_map (pmem st))(0x900 :=
          \<lparr>pflags = 16 OR bits_set PGF_SLUB_LSIZE 10, u0 = mps OR bits_on SLUB_LEADER\<rparr>)\<rparr>"
    by (subst e3, simp add: s0_def)+
  have b3: "bdy_rel N {..<0x901} (bdy_ram (pmem s3))" using b by (simp add: f3)
  obtain c where c: "pm_ram_alloc PM_UNIT_PAGE PGF_USE_SLUB 9 (pmem s3) = Inr ((pmem s3)\<lparr>bdy_ram := c,
      ram_map := (\<lambda>f. if 0x901 \<le> f \<and> f < 0x901 + 9 then \<lparr>pflags = 16, u0 = 0\<rparr> else ram_map (pmem s3) f)\<rparr>, Some (map first_pa [0..<9]))"
      "bdy_rel N {..<0x90a} c"
  proof -
    have "(of_nat ((0x901 + i) * 4096) :: addr) = first_pa i" for i by (simp add: first_pa_def)
    then show thesis using pm_ram_alloc_next [OF b3, of 9] N that by (auto simp del: of_nat_mult of_nat_add)
  qed
  define s4 where "s4 = s3\<lparr>pmem := (pmem s3)\<lparr>bdy_ram := c,
      ram_map := (\<lambda>f. if 0x901 \<le> f \<and> f < 0x901 + 9 then \<lparr>pflags = 16, u0 = 0\<rparr> else ram_map (pmem s3) f)\<rparr>\<rparr>"
  have r4: "slub_pages ''slub.c:234'' 9 s3 = Inr (s4, map first_pa [0..<9])" using c(1) by (simp add: slub_pages_def s4_def)
  have f4: "kpt s4 = (kpt st)(0x3ff := page_te (map_req mmu_slub_area 0x900000) 0x900000)" "pd s4 = pd st"
    "vm_areas s4 = vm_areas st" "vseg s4 = vseg st" "vm_areas_lock s4 = vm_areas_lock st" "fslab s4 = fslab st" "fulls s4 = ?f"
    "slub_16byte_free s4 = slub_16byte_free st" "ramsz (pmem s4) = ramsz (pmem st)" "bdy_ram (pmem s4) = c"
    "slab s4 mps = \<lparr>sl_nfree = 4, sl_free = 0, sl_p = mmu_slub_area\<rparr>"
    "subs s4 MmuPt = \<lparr>sp_busy = [], sp_part = [], sp_free = [mps], sp_lock = False, sp_log_sz = 10\<rparr>"
    "ram_map (pmem s4) 0x900 = \<lparr>pflags = 16 OR bits_set PGF_SLUB_LSIZE 10, u0 = mps OR bits_on SLUB_LEADER\<rparr>"
    "\<forall>i<9. ram_map (pmem s4) (0x901 + i) = \<lparr>pflags = 16, u0 = 0\<rparr>"
    "\<forall>f. \<not> (0x900 \<le> f \<and> f < 0x90a) \<longrightarrow> ram_map (pmem s4) f = ram_map (pmem st) f"
    by (auto simp: s4_def f3)
  have "slab_wf s4 MmuPt mps [0, 1, 2, 3]" by (subst slab_wf_cong [of _ _ s3]) (simp_all add: s4_def w3 [simplified])
  then have m0: "mapped mps s4 0 s4" unfolding mapped_def using f4 by simp
  have ar: "area_ready mps s4" unfolding area_ready_def using f4 tabs mps sz by (simp add: word_less_nat_alt)
  obtain s5 where s5: "for_res 0 9 (\<lambda>i st. slub_map (mmu_slub_alloc d) (first_va i) (first_pa i) (slub_subpage_init0 (Sub i) (3 + i) st)) s4 = Inr s5"
    and m9: "mapped mps s4 9 s5" using maps_first [OF ar m0] by blast
  note M = m9 [unfolded mapped_def, simplified]
  have f0: "filled mps s5 0 s5" unfolding filled_def using M by simp auto
  obtain st' where st': "for_res 0 9 (\<lambda>i. slub_subpage_init1 (Sub i) (first_slab_at i) (first_va i) (first_pa i)) s5 = Inr st'"
    and f9: "filled mps s5 9 st'"
  proof -
    have "\<exists>s'. slub_subpage_init1 (Sub i) (first_slab_at i) (first_va i) (first_pa i) s = Inr s' \<and> filled mps s5 (Suc i) s'"
      if "i < 9" "filled mps s5 i s" for i s
      by (rule fill_next [OF that(2,1) mps(2)]) (use M f4 sz in simp_all)
    then show thesis
      using that for_res_total [where P = "filled mps s5" and i = 0 and k = 9 and s = s5 and
          body = "\<lambda>i. slub_subpage_init1 (Sub i) (first_slab_at i) (first_va i) (first_pa i)"] f0 by auto
  qed
  have "slub_init d mps st = Inr st'" by (rule slub_init_steps [OF _ r1 r2 r3 r4 s5 st']) (simp add: s0_def fulls_fold)
  moreover have "slub_ready N mps st'" "slub_kept st st'"
    using M f9 [unfolded filled_def, simplified] f4 c(2) sz tabs by (simp_all add: slub_ready_def slub_kept_def)
  ultimately show ?thesis by blast
qed

end
