(* ===== verification/MemInit.thy ===== *)
theory MemInit
  imports SlubInit Io
begin

text \<open>The start-up of memory: \<open>excpt_init\<close> of \<open>src/src/kernel/excptc.c\<close> and the first calls of \<open>kmain\<close> in
  \<open>src/src/kernel/main.c\<close>, from \<open>mmu_init\<close> to \<open>excpt_init\<close>, run on the tables that \<open>boot_map\<close> leaves.

  \<open>memory_ready\<close> says what the drivers find: which frames are taken, which addresses translate where, and that the
  allocators can serve requests. \<open>kmain_memory_ready\<close> composes the results of \<open>Boot\<close>, \<open>PmInit\<close> and \<open>SlubInit\<close>
  with those of \<open>io_init\<close>, \<open>vm_init\<close> and \<open>excpt_init\<close> proved here.\<close>

section \<open>Operations\<close>

text \<open>\<open>excpt_start\<close> and \<open>excpt_start_pa\<close> come from the linker script; the second depends on the size of the image.\<close>

definition excpt_start :: addr where "excpt_start = 0xffff0000"

definition excpt_req :: "addr \<Rightarrow> mmu_map_req" where
  "excpt_req pa = \<lparr>mr_n = 1, mr_va_start = excpt_start, mr_pa_start = pa, mr_mt = MT_NRM_IO_WBA, mr_ap = AP_SRO,
     mr_mu = MAP_UNIT_PAGE, mr_flags = bits_on MMR_AF\<rparr>"

definition excpt_init :: "(slub_state \<Rightarrow> (slub_state \<times> addr) res) \<Rightarrow> addr \<Rightarrow> slub_state \<Rightarrow> slub_state res" where
  "excpt_init sa excpt_start_pa st = mmu_map sa mmu_slub_pa_to_va (excpt_req excpt_start_pa) st"

text \<open>The calls of \<open>kmain\<close> that set up memory, in their order.\<close>

definition kmain_memory ::
    "nat \<Rightarrow> board \<Rightarrow> layout \<Rightarrow> u32 list \<Rightarrow> addr \<Rightarrow> addr \<Rightarrow> u32 \<Rightarrow> u32 \<Rightarrow> slub_state \<Rightarrow> slub_state res" where
  "kmain_memory d b L mp mmu_pt_slab excpt_start_pa ram sz st =
    bind_res (mmu_init st) (\<lambda>st.
      bind_res (io_init (mmu_slub_alloc d) mmu_slub_pa_to_va b st) (\<lambda>st.
        bind_res (pm_init (mmu_slub_alloc d) L mp ram sz st) (\<lambda>st.
          bind_res (slub_init d mmu_pt_slab st) (\<lambda>st.
            bind_res (vm_init (kmalloc d) st) (excpt_init (mmu_slub_alloc d) excpt_start_pa)))))"

section \<open>The tables before the allocator\<close>

lemma mmu_init_result: "\<exists>t. mmu_init st = Inr (st\<lparr>pd := (\<lambda>j. if j < 4 then 0 else pd st j), tlb := t\<rparr>)"
proof -
  have "unat (1024 * push_bit PAGE_SIZE_SZ 1 :: u32) mod 4096 = 0" by (simp add: pm_consts push_bit_eq_mult)
  moreover have "fold (\<lambda>k. pd_set k 0) [0..<4] st = st\<lparr>pd := (\<lambda>j. if j < 4 then 0 else pd st j)\<rparr>"
    using fold_pd_set [of 0 0 4 st] by simp
  ultimately show ?thesis
    using mmu_tlb_invalidate_pages [of "1024 * push_bit PAGE_SIZE_SZ 1" 0 "st\<lparr>pd := (\<lambda>j. if j < 4 then 0 else pd st j)\<rparr>"]
    unfolding mmu_init_def Let_def by auto
qed

lemma io_index:
  assumes d: "d < 0x400000"
  shows "0xf80 \<le> unat (io_base + of_nat d) div 2 ^ 20" and "unat (io_base + of_nat d) div 2 ^ 20 < 0xf84"
proof -
  have "unat (io_base + of_nat d) = 0xf8000000 + d"
    using req_byte [of "io_map_req RPI" d] d by (simp add: io_map_req_def req_bytes_def io_base_def)
  moreover have "(0xf8000000 + d) div 2 ^ 20 = 0xf80 + d div 2 ^ 20" by simp
  moreover have "d div 2 ^ 20 < 4" using d by simp
  ultimately show "0xf80 \<le> unat (io_base + of_nat d) div 2 ^ 20" and "unat (io_base + of_nat d) div 2 ^ 20 < 0xf84" by simp_all
qed

lemma io_init_result:
  assumes free: "\<And>j. 0xf80 \<le> j \<Longrightarrow> j < 0xf85 \<Longrightarrow> bits_get (pd st j) PDE_TYPE0 = 0"
  shows "\<exists>p t. io_init sa p2v b st = Inr (st\<lparr>pd := p, tlb := t\<rparr>)
    \<and> (\<forall>j<4096. \<not> (0xf80 \<le> j \<and> j < 0xf85) \<longrightarrow> p j = pd st j) \<and> (\<forall>j. 0xf80 \<le> j \<and> j < 0xf84 \<longrightarrow> bits_get (p j) PDE_TYPE0 = 2)
    \<and> (\<forall>d<0x400000. \<forall>p2v. mmu_va_to_pa p2v (io_base + of_nat d) (st\<lparr>pd := p, tlb := t\<rparr>) = Inr (IO_BASE_PA b + of_nat d))"
proof -
  let ?r = "io_map_req b"
  have r: "mr_mu ?r = MAP_UNIT_SECTION" "req_ok ?r" "unat (mr_va_start ?r) = 0xf80 * 2 ^ 20" "nat (mr_n ?r) = 4"
    "mr_va_start ?r = io_base" "mr_pa_start ?r = IO_BASE_PA b"
    by (cases b; simp add: io_map_req_def req_ok_def req_bytes_def io_base_def IO_BASE_PA_def)+
  obtain p t where m: "mmu_map sa p2v ?r st = Inr (st\<lparr>pd := p, tlb := t\<rparr>)"
    and p: "\<forall>j<4096. if 0xf80 \<le> j \<and> j < 0xf80 + 4 then bits_get (p j) PDE_TYPE0 = 2 else p j = pd st j"
    and tr: "\<forall>d<4 * 2 ^ 20. \<forall>p2v. mmu_va_to_pa p2v (io_base + of_nat d) (st\<lparr>pd := p, tlb := t\<rparr>) = Inr (IO_BASE_PA b + of_nat d)"
  proof -
    have "bits_get (pd st j) PDE_TYPE0 = 0" if "0xf80 \<le> j" "j < 0xf80 + nat (mr_n ?r)" for j using free that unfolding r by simp
    from sections_mapped [OF r(1-3) this, where sa = sa and p2v = p2v] that show thesis
      unfolding r by (force simp: section_de_type)
  qed
  show ?thesis
  proof (cases b)
    case RPI
    show ?thesis
      by (intro exI [of _ p] exI [of _ t]) (use m p tr RPI in \<open>auto simp: io_init_def io_ctrl_init_def\<close>)
  next
    case QRPI2
    let ?q = "?r\<lparr>mr_n := 1, mr_va_start := ctrl_base, mr_pa_start := CTRL_BASE_PA\<rparr>"
    have q: "mr_mu ?q = MAP_UNIT_SECTION" "req_ok ?q" "unat (mr_va_start ?q) = 0xf84 * 2 ^ 20" "nat (mr_n ?q) = 1"
      by (simp_all add: io_map_req_def req_ok_def req_bytes_def io_base_def ctrl_base_def CTRL_BASE_PA_def)
    let ?s = "st\<lparr>pd := p, tlb := t\<rparr>"
    have f84: "bits_get (pd ?s j) PDE_TYPE0 = 0" if "0xf84 \<le> j" "j < 0xf84 + nat (mr_n ?q)" for j
    proof -
      have "j = 0xf84" using that unfolding q by linarith
      then show ?thesis using p free [of "0xf84"] by simp
    qed
    obtain p' t' where m': "mmu_map sa p2v ?q ?s = Inr (?s\<lparr>pd := p', tlb := t'\<rparr>)"
      and p': "\<forall>j<4096. if 0xf84 \<le> j \<and> j < 0xf84 + 1 then bits_get (p' j) PDE_TYPE0 = 2 else p' j = p j"
      using sections_mapped [OF q(1-3) f84, where sa = sa and p2v = p2v] unfolding q by (force simp: section_de_type)
    have "mmu_va_to_pa p2v (io_base + of_nat d) (?s\<lparr>pd := p', tlb := t'\<rparr>) = Inr (IO_BASE_PA b + of_nat d)" if d: "d < 0x400000" for d p2v
    proof -
      note i = io_index [OF d]
      have "mmu_va_to_pa p2v (io_base + of_nat d) (?s\<lparr>pd := p', tlb := t'\<rparr>) = mmu_va_to_pa p2v (io_base + of_nat d) ?s"
        by (rule va_to_pa_cong) (use i p p' in auto)
      then show ?thesis using tr d by simp
    qed
    then show ?thesis
      by (intro exI [of _ p'] exI [of _ t']) (use m m' p p' QRPI2 in \<open>auto simp: io_init_def io_ctrl_init_def\<close>)
  qed
qed

section \<open>The first segment\<close>

lemma vm_init_result:
  assumes wf: "slab_wf st (Sub 1) e (j # js)" and lg: "sp_log_sz (subs st (Sub 1)) = 4" and first: "first_slab (Sub 1) st = Some e"
    and lock: "\<not> sp_lock (subs st (Sub 1))" and free: "slub_16byte_free st \<noteq> 5" and js: "js \<noteq> []" "Suc (length js) < 256"
    and p: "p = obj (sl_p (slab st e)) 4 j"
  shows "\<exists>st'. vm_init (kmalloc (Suc d)) st = Inr st' \<and> area_wf st' \<and> slab_wf st' (Sub 1) e js
    \<and> vm_areas st' VMA_SLUB = [p] \<and> vseg st' p = \<lparr>vs_start = 0xf7ff7000, vs_flags = bits_set VSF_NPAGES 9\<rparr> \<and> \<not> vm_areas_lock st' VMA_SLUB
    \<and> st' = st\<lparr>ptm := (ptm st)(p := 0), slab := (slab st)(e := slab st' e), subs := subs st', slub_16byte_free := slub_16byte_free st - 1,
        vm_areas := vm_areas st', vseg := vseg st', vm_areas_lock := vm_areas_lock st'\<rparr>
    \<and> sl_p (slab st' e) = sl_p (slab st e) \<and> subs st' (Sub 1) = subs st (Sub 1)
    \<and> (\<forall>k. k \<noteq> Sub 1 \<longrightarrow> e \<notin> set (sp_busy (subs st k)) \<union> set (sp_part (subs st k)) \<union> set (sp_free (subs st k)) \<longrightarrow> subs st' k = subs st k)"
proof -
  define s where "s = st\<lparr>vm_areas := (vm_areas st)(0 := []), vm_areas_lock := (vm_areas_lock st)(0 := False)\<rparr>"
  have k: "subs s = subs st" "slab s = slab st" "ptm s = ptm st" "slub_16byte_free s = slub_16byte_free st" by (simp_all add: s_def)
  have wf': "slab_wf s (Sub 1) e (j # js)" using wf by (simp add: slab_wf_def k)
  have first': "first_slab (Sub 1) s = Some e" using first by (simp only: first_slab_def k)
  have P: "(Suc (length js) = nobj 4) = False" "(js = []) = False" using js by (simp_all add: nobj_def)
  obtain s' where a: "kmalloc (Suc d) 16 s = Inr (s', p)" and w: "slab_wf s' (Sub 1) e js"
    and e: "s' = s\<lparr>ptm := (ptm s)(p := 0), slab := (slab s)(e := slab s' e), subs := subs s', slub_16byte_free := slub_16byte_free s - 1\<rparr>"
    and p': "sl_p (slab s' e) = sl_p (slab s e)" and b: "subs s' (Sub 1) = subs s (Sub 1)"
    and o: "\<forall>k. k \<noteq> Sub 1 \<longrightarrow> e \<notin> set (sp_busy (subs s k)) \<union> set (sp_part (subs s k)) \<union> set (sp_free (subs s k)) \<longrightarrow> subs s' k = subs s k"
    using object_taken [OF wf' first', of "kmalloc d"] lock free lg p
    unfolding k lg P relisted_def kmalloc_16 by auto
  define g where "g = \<lparr>vs_start = 0xf7ff7000 :: addr, vs_flags = bits_set VSF_NPAGES 9\<rparr>"
  define f where "f = s'\<lparr>vseg := (vseg s')(p := g), vm_areas := (vm_areas s')(VMA_SLUB := [p])\<rparr>"
  have va: "vm_slub_end - push_bit PAGE_SIZE_SZ 9 = 0xf7ff7000" by (simp add: vm_slub_end_def pm_consts push_bit_eq_mult)
  have s: "vm_areas s' = (vm_areas st)(0 := [])" by (subst e) (simp add: s_def)
  have ks: "pd s' = pd st" "kpt s' = kpt st" "ptm s' = (ptm st)(p := 0)" "tlb s' = tlb st" "pmem s' = pmem st"
    "slab s' = (slab st)(e := slab s' e)" "fslab s' = fslab st" "fulls s' = fulls st" "slub_16byte_free s' = slub_16byte_free st - 1"
    by (subst e, simp add: s_def)+
  have "vm_init (kmalloc (Suc d)) st = Inr f"
  proof -
    have "fold (\<lambda>i st. st\<lparr>vm_areas := (vm_areas st)(i := []), vm_areas_lock := (vm_areas_lock st)(i := False)\<rparr>) [0..<VMA_MAX] st = s"
      by (simp add: s_def VMA_MAX_def)
    then show ?thesis unfolding vm_init_def Let_def using a va
      by (simp add: f_def g_def s VMA_SLUB_def del: kmalloc.simps)
  qed
  moreover have "area_wf f"
  proof -
    have "seg_end g = vm_slub_end" unfolding g_def by code_simp
    moreover have "vs_start g < vm_slub_end" "vm_slub_start \<le> vs_start g" by (simp_all add: g_def vm_slub_end_def vm_slub_start_def)
    ultimately show ?thesis by (simp add: area_wf_def f_def)
  qed
  moreover have "slab_wf f (Sub 1) e js" using w by (subst slab_wf_cong [of _ _ s']) (simp_all add: f_def)
  moreover have "f = st\<lparr>ptm := (ptm st)(p := 0), slab := (slab st)(e := slab f e), subs := subs f, slub_16byte_free := slub_16byte_free st - 1,
        vm_areas := vm_areas f, vseg := vseg f, vm_areas_lock := vm_areas_lock f\<rparr>"
    unfolding f_def by (rule slub_state.equality) (simp_all add: ks(1-5,7-9), rule ks(6))
  moreover have "\<not> vm_areas_lock f VMA_SLUB" unfolding f_def by (subst e) (simp add: s_def VMA_SLUB_def)
  ultimately show ?thesis using p' b o by (intro exI [of _ f]) (simp add: f_def k g_def)
qed

section \<open>The exception vectors\<close>

text \<open>A page whose table is an object of the slab of page tables.\<close>

definition area_known :: "addr \<Rightarrow> slub_state \<Rightarrow> bool" where
  "area_known mps st \<longleftrightarrow> 0x901000 \<le> unat (ramsz (pmem st)) \<and> even (unat mps) \<and> sl_p (slab st mps) = mmu_slub_area
    \<and> ram_map (pmem st) 0x900 = \<lparr>pflags = 16 OR bits_set PGF_SLUB_LSIZE 10, u0 = mps OR bits_on SLUB_LEADER\<rparr>"

lemma table_of:
  assumes a: "area_known mps st" and j: "pd st j = table_de (0x900000 + of_nat k * 0x400)" "k < 4" "j < 0x400 \<or> 0x404 \<le> j"
  shows "bits_get (pd st j) PDE_TYPE0 = 1" and "pt_of mmu_slub_pa_to_va j st = Inr (Slab (obj mmu_slub_area 10 k))"
proof -
  let ?pa = "0x900000 + of_nat k * 0x400 :: addr"
  have "k \<in> {0, 1, 2, 3}" using j(2) by auto
  then have b: "bits_get (table_de ?pa) PDE_TYPE0 = 1 \<and> bits_pull (table_de ?pa) PDE_PT_BASE = ?pa
      \<and> ?pa AND bits_mask PAGE_SIZE_SZ = of_nat k * 0x400" by (elim insertE emptyE; hypsubst; code_simp)
  then show "bits_get (pd st j) PDE_TYPE0 = 1" using j(1) by simp
  have "?pa = of_nat (0x900000 + k * 0x400)" by simp
  then have u: "unat ?pa = 0x900000 + k * 0x400" using j(2) by (simp only: unat_of_nat len_of_numeral_defs) simp
  have f: "frame_of ?pa = 0x900" unfolding frame_of_unat u using j(2) by simp
  have "mmu_slub_pa_to_va st ?pa = Inr (sl_p (slab st mps) + (?pa AND bits_mask PAGE_SIZE_SZ))"
    by (rule pt_page_va) (use a u f j(2) in \<open>simp_all add: area_known_def word_less_nat_alt\<close>)
  then have "mmu_slub_pa_to_va st ?pa = Inr (obj mmu_slub_area 10 k)" using b a by (simp add: area_known_def obj_def)
  then show "pt_of mmu_slub_pa_to_va j st = Inr (Slab (obj mmu_slub_area 10 k))" using j b by (auto simp: pt_of_def)
qed

lemma excpt_req_page: "unat pa mod 4096 = 0 \<Longrightarrow> one_page (excpt_req pa)"
  "mr_va_start (excpt_req pa) = excpt_start" "mr_pa_start (excpt_req pa) = pa" "mr_mu (excpt_req pa) = MAP_UNIT_PAGE"
  by (simp_all add: one_page_def excpt_req_def excpt_start_def)

lemma excpt_init_result:
  assumes wf: "slab_wf st MmuPt mps [1, 2, 3]" and area: "area_known mps st"
    and sub: "subs st MmuPt = \<lparr>sp_busy = [], sp_part = [mps], sp_free = [], sp_lock = False, sp_log_sz = 10\<rparr>"
    and tabs: "bits_get (pd st 0x403) PDE_TYPE0 = 1" "kpt st 0x3ff = page_te (map_req mmu_slub_area 0x900000) 0x900000"
      "bits_get (pd st 0xfff) PDE_TYPE0 = 0" and pa: "unat pa mod 4096 = 0"
  shows "\<exists>st' w. excpt_init (mmu_slub_alloc d) pa st = Inr st' \<and> slab_wf st' MmuPt mps [2, 3]
    \<and> st' = st\<lparr>pd := (pd st)(0xfff := table_de 0x900400), ptm := w, tlb := tlb st', slab := (slab st)(mps := slab st' mps), subs := subs st'\<rparr>
    \<and> sl_p (slab st' mps) = mmu_slub_area \<and> subs st' MmuPt = subs st MmuPt
    \<and> (\<forall>k. k \<noteq> MmuPt \<longrightarrow> mps \<notin> set (sp_busy (subs st k)) \<union> set (sp_part (subs st k)) \<union> set (sp_free (subs st k)) \<longrightarrow> subs st' k = subs st k)
    \<and> (\<forall>a. unat a < 0x403ff400 \<or> 0x403ff800 \<le> unat a \<longrightarrow> w a = ptm st a)
    \<and> (\<forall>d<4096. slub_va_to_pa (excpt_start + of_nat d) st' = Inr (pa + of_nat d))"
proof -
  have lg: "sp_log_sz (subs st MmuPt) = 10" "first_slab MmuPt st = Some mps" "\<not> sp_lock (subs st MmuPt)"
    by (simp_all add: sub first_slab_def)
  have p: "sl_p (slab st mps) = mmu_slub_area" using area by (simp add: area_known_def)
  obtain st1 where a: "mmu_slub_alloc d st = Inr (st1, obj mmu_slub_area 10 1)" and w1: "slab_wf st1 MmuPt mps [2, 3]"
    and e1: "st1 = st\<lparr>ptm := (ptm st)(obj mmu_slub_area 10 1 := 0), slab := (slab st)(mps := slab st1 mps), subs := subs st1\<rparr>"
    and p1: "sl_p (slab st1 mps) = mmu_slub_area" and s1: "subs st1 MmuPt = subs st MmuPt"
    and o1: "\<forall>k. k \<noteq> MmuPt \<longrightarrow> mps \<notin> set (sp_busy (subs st k)) \<union> set (sp_part (subs st k)) \<union> set (sp_free (subs st k)) \<longrightarrow> subs st1 k = subs st k"
    using table_taken [OF wf lg, of d] unfolding p by (auto simp: relisted_def)
  have o: "obj mmu_slub_area 10 1 = mmu_slub_area + of_nat 0x400" by (simp add: obj_def)
  have k1: "pd st1 = pd st" "kpt st1 = kpt st" by (subst e1, simp)+
  have tr: "mmu_va_to_pa mmu_slub_pa_to_va (obj mmu_slub_area 10 1) st1 = Inr 0x900400"
    using area_translates [of st1 "0x400" mmu_slub_pa_to_va] tabs(1,2) unfolding k1 o by simp
  note q = excpt_req_page(1) [OF pa] excpt_req_page(2-4) [of pa]
  have ix: "unat (mr_va_start (excpt_req pa)) div 2 ^ 20 = 0xfff" "unat (mr_va_start (excpt_req pa)) div 2 ^ 12 mod 2 ^ 8 = 0xf0"
    unfolding q by (simp_all add: excpt_start_def)
  let ?v = "obj mmu_slub_area 10 1"
  let ?w = "\<lambda>x. if x = ?v + 4 * of_nat 0xf0 then page_te (excpt_req pa) (mr_pa_start (excpt_req pa))
        else if \<exists>k<256. x = ?v + 4 * of_nat k then 0 else ptm st1 x"
  obtain t where m: "mmu_map (mmu_slub_alloc d) mmu_slub_pa_to_va (excpt_req pa) st
      = Inr (st1\<lparr>pd := (pd st1)(0xfff := table_de 0x900400), ptm := ?w, tlb := t\<rparr>)"
    using map_into_new_table [where sa = "mmu_slub_alloc d", OF q(1) ix tabs(3) a tr] by blast
  let ?st = "st1\<lparr>pd := (pd st1)(0xfff := table_de 0x900400), ptm := ?w, tlb := t\<rparr>"
  have uv: "unat ?v = 0x403ff400" using area_object [of 1] by simp
  have word: "unat (?v + 4 * of_nat k) = 0x403ff400 + 4 * k" if "k < 256" for k using table_word [of ?v k] that uv by simp
  have out: "?w a = ptm st a" if a: "unat a < 0x403ff400 \<or> 0x403ff800 \<le> unat a" for a
  proof -
    have n: "a \<noteq> ?v + 4 * of_nat k" if "k < 256" for k using word [OF that] that a by auto
    have "ptm st1 = (ptm st)(?v := 0)" by (subst e1) simp
    moreover have "a \<noteq> ?v" using n [of 0] by simp
    ultimately show ?thesis using n [of "0xf0"] n by auto
  qed
  have w: "slab_wf ?st MmuPt mps [2, 3]"
  proof (rule slab_wf_words [OF _ _ _ w1])
    fix j assume "j \<in> set [2, 3 :: nat]"
    then have j: "2 \<le> j" "j < 4" by auto
    have lg1: "sp_log_sz (subs st1 MmuPt) = 10" using s1 lg by simp
    have u: "unat (obj mmu_slub_area 10 j) = 0x403ff000 + j * 0x400" by (rule area_object [OF j(2)])
    have n: "obj mmu_slub_area 10 j \<noteq> ?v + 4 * of_nat k" if "k < 256" for k
    proof
      assume "obj mmu_slub_area 10 j = ?v + 4 * of_nat k"
      then have "0x403ff000 + j * 0x400 = 0x403ff400 + 4 * k" using u word [OF that] by simp
      then show False using j that by linarith
    qed
    then show "ptm ?st (obj (sl_p (slab st1 mps)) (sp_log_sz (subs st1 MmuPt)) j) = ptm st1 (obj (sl_p (slab st1 mps)) (sp_log_sz (subs st1 MmuPt)) j)"
      using n [of "0xf0"] unfolding p1 lg1 by auto
  qed simp_all
  have ks: "kpt st1 = kpt st" "pmem st1 = pmem st" "vm_areas st1 = vm_areas st" "vseg st1 = vseg st" "vm_areas_lock st1 = vm_areas_lock st"
    "fslab st1 = fslab st" "fulls st1 = fulls st" "slub_16byte_free st1 = slub_16byte_free st" "slab st1 = (slab st)(mps := slab st1 mps)"
    by (subst e1, simp)+
  have eq: "?st = st\<lparr>pd := (pd st)(0xfff := table_de 0x900400), ptm := ?w, tlb := tlb ?st, slab := (slab st)(mps := slab ?st mps), subs := subs ?st\<rparr>"
    by (rule slub_state.equality) (simp_all add: ks(1-8) k1, rule ks(9))
  have ak: "area_known mps ?st" using area p1 by (simp add: area_known_def ks(2))
  have d4: "pd ?st 0xfff = table_de (0x900000 + of_nat 1 * 0x400)" by simp
  note T = table_of [OF ak d4]
  have tre: "slub_va_to_pa (excpt_start + of_nat d) ?st = Inr (pa + of_nat d)" if d: "d < 4096" for d
  proof -
    have "excpt_start + of_nat d = of_nat (0xffff0000 + d)" by (simp add: excpt_start_def)
    then have u: "unat (excpt_start + of_nat d) = 0xffff0 * 4096 + d" using d by (simp only: unat_of_nat len_of_numeral_defs) simp
    have "(0xffff0 * 4096 + d) div 2 ^ 12 = 0xffff0" using d by simp
    then have "(0xffff0 * 4096 + d) div 2 ^ 20 = 0xfff" "(0xffff0 * 4096 + d) div 2 ^ 12 mod 2 ^ 8 = 0xf0"
      using d by (simp, simp only:) simp
    then show ?thesis
      unfolding slub_va_to_pa_def
      by (intro page_translates [where j = "0xfff" and i = "0xf0" and n = "0xffff0" and pt = "Slab ?v" and r = "excpt_req pa"])
        (use T u d pa q in simp_all)
  qed
  show ?thesis
    by (intro exI [of _ ?st] exI [of _ ?w] conjI eq w)
      (use m p1 s1 o1 out tre in \<open>simp_all add: excpt_init_def\<close>)
qed

section \<open>What the memory looks like afterwards\<close>

text \<open>Every class has a slab with free objects that the next request uses.\<close>

definition slabs_usable :: "slub_state \<Rightarrow> bool" where
  "slabs_usable st \<longleftrightarrow> slub_16byte_free st \<noteq> 5 \<and>
    (\<forall>i<9. \<exists>j js. slab_wf st (Sub i) (first_slab_at i) (j # js) \<and> sl_p (slab st (first_slab_at i)) = first_va i
      \<and> first_slab (Sub i) st = Some (first_slab_at i) \<and> \<not> sp_lock (subs st (Sub i)) \<and> sp_log_sz (subs st (Sub i)) = 3 + i)"

lemma slabs_usable_kmalloc:
  assumes u: "slabs_usable st" and n: "0 < unat n" "unat n \<le> 2048"
  shows "\<exists>st' p. kmalloc (Suc d) n st = Inr (st', p) \<and> 0xf7ff7000 \<le> unat p \<and> unat p + unat n \<le> 0xf8000000"
proof -
  obtain i where i: "size_class n = Some i" "unat n \<le> 2 ^ (i + 3)" "0 < i \<longrightarrow> 2 ^ (i + 2) < unat n"
    using kmalloc_size_classes [of n d st] n by (auto split: option.splits)
  have i9: "i < 9"
  proof (rule ccontr)
    assume "\<not> i < 9"
    then have "11 \<le> i + 2" "0 < i" by simp_all
    then show False using i(3) n(2) power_increasing [of 11 "i + 2" "2 :: nat"] by simp
  qed
  obtain j js where w: "slab_wf st (Sub i) (first_slab_at i) (j # js)" "sl_p (slab st (first_slab_at i)) = first_va i"
      "first_slab (Sub i) st = Some (first_slab_at i)" "\<not> sp_lock (subs st (Sub i))" "sp_log_sz (subs st (Sub i)) = 3 + i"
    using u i9 unfolding slabs_usable_def by blast
  have g: "sp_log_sz (subs st (Sub i)) = 4 \<longrightarrow> slub_16byte_free st \<noteq> 5" using u by (simp add: slabs_usable_def)
  obtain st' where st': "kmalloc_subpages (kmalloc d) (Sub i) st = Inr (st', obj (first_va i) (3 + i) j)"
    using object_taken [OF w(1,3,4) g, of "kmalloc d"] unfolding w(2,5) by blast
  have "n \<noteq> 0" using n(1) by auto
  then have k: "kmalloc (Suc d) n st = Inr (st', obj (first_va i) (3 + i) j)" using st' i(1) i9 by (simp add: slub_consts)
  have l: "3 + i \<le> 12" "j < nobj (3 + i)" using w(1,5) i9 by (auto simp: slab_wf_def Let_def)
  have f: "unat (first_va i) + 4096 \<le> 0xf8000000" "0xf7ff7000 \<le> unat (first_va i)" using first_unat(1) [OF i9] i9 by simp_all
  have "first_va i \<noteq> 0" using f by auto
  with f have "unat (obj (first_va i) (3 + i) j) = unat (first_va i) + j * 2 ^ (3 + i)"
    by (intro obj_nonzero(2) [OF l]) simp_all
  moreover have "unat n \<le> 2 ^ (3 + i)" using i(2) by (simp add: add.commute)
  ultimately show ?thesis using k f obj_offset(1) [OF l] by (intro exI [of _ st'] exI [of _ "obj (first_va i) (3 + i) j"]) simp
qed

text \<open>The slabs are usable after \<open>slub_init\<close>, and stay so when other words change.\<close>

lemma slabs_usable_keep:
  assumes i9: "i < 9" and wf: "slab_wf st (Sub i) (first_slab_at i) js" and p: "sl_p (slab st (first_slab_at i)) = first_va i"
    and same: "slab st' (first_slab_at i) = slab st (first_slab_at i)" "subs st' (Sub i) = subs st (Sub i)"
    and words: "\<And>a. ptm st' a \<noteq> ptm st a \<Longrightarrow> unat a < 0xf7ff7000 \<or> i \<noteq> 1 \<and> unat (a - first_va 1) < 4096"
  shows "slab_wf st' (Sub i) (first_slab_at i) js"
proof (rule slab_wf_page [OF _ same(1) _ wf])
  fix a assume a: "unat (a - sl_p (slab st (first_slab_at i))) < 4096"
  show "ptm st' a = ptm st a"
  proof (rule ccontr)
    assume "ptm st' a \<noteq> ptm st a"
    from words [OF this] show False
      using a area_far [OF i9, of a] first_pages_apart [of 1 i a] i9 unfolding p by auto
  qed
qed (simp add: same(2))

text \<open>The memory after the part of \<open>kmain\<close> that precedes the drivers.\<close>

definition memory_ready :: "board \<Rightarrow> layout \<Rightarrow> addr \<Rightarrow> nat \<Rightarrow> slub_state \<Rightarrow> bool" where
  "memory_ready b L epa N st \<longleftrightarrow>
    bdy_rel N {..<0x90a} (bdy_ram (pmem st))
    \<and> (\<forall>s\<in>set (si L). \<forall>va. sec_start s \<le> va \<and> va < sec_end s \<longrightarrow> slub_va_to_pa va st = Inr (va - KMODE_VA))
    \<and> (\<forall>va. unat va < 0x400000 \<longrightarrow> slub_va_to_pa va st = Inl (Assert ''mmu.c:418''))
    \<and> (\<forall>k<0x100000. slub_va_to_pa (ram_map_start + of_nat k) st = Inr (0x800000 + of_nat k))
    \<and> (\<forall>k<0x400000. slub_va_to_pa (io_base + of_nat k) st = Inr (IO_BASE_PA b + of_nat k))
    \<and> (\<forall>k<0x1000. slub_va_to_pa (excpt_start + of_nat k) st = Inr (epa + of_nat k))
    \<and> area_wf st \<and> \<not> vm_areas_lock st VMA_SLUB \<and> slabs_usable st"

text \<open>What the next requests for threads find when \<open>n\<close> pages have been handed out: the frames and the pages follow each other, the entries of
  the table are free, and the first slabs of objects of 16 and of 32 bytes serve the descriptors and the structures.\<close>

definition pages_ready :: "addr \<Rightarrow> nat \<Rightarrow> nat \<Rightarrow> slub_state \<Rightarrow> bool" where
  "pages_ready mps N n st \<longleftrightarrow>
    bdy_rel N {..<0x90a + n} (bdy_ram (pmem st)) \<and> N \<le> 2 ^ 20 \<and> N * 4096 \<le> unat (ramsz (pmem st))
    \<and> area_known mps st \<and> unat mps < 0x403ff000 \<and> pd st 0xf7f = table_de 0x900000
    \<and> (\<forall>x<247 - n. bits_get (ptm st (mmu_slub_area + 4 * of_nat x)) PTE_TYPE = 0)
    \<and> area_wf st \<and> \<not> vm_areas_lock st VMA_SLUB
    \<and> (\<forall>e\<in>set (vm_areas st VMA_SLUB). 0xf7ff7000 - n * 0x1000 \<le> unat (vs_start (vseg st e)))
    \<and> (\<forall>x. 0xf7ff7000 - n * 0x1000 \<le> unat x \<and> unat x < 0xf8000000 \<longrightarrow> (\<exists>e\<in>set (vm_areas st VMA_SLUB). in_seg (vseg st e) x))
    \<and> set (vm_areas st VMA_SLUB) \<subseteq> obj (first_va 1) 4 ` {..<10 + 2 * n}
    \<and> slab_wf st (Sub 1) (first_slab_at 1) [10 + 2 * n..<256] \<and> sl_p (slab st (first_slab_at 1)) = first_va 1
    \<and> subs st (Sub 1) = first_subs 1 \<and> slub_16byte_free st = 246 - 2 * int n
    \<and> fp_log_sz (fulls st 0) = 12 \<and> \<not> fp_lock (fulls st 0)"

definition thread_subs :: "nat \<Rightarrow> subpage" where
  "thread_subs n = \<lparr>sp_busy = [], sp_part = (if n = 0 then [] else [first_slab_at 2]), sp_free = (if n = 0 then [first_slab_at 2] else []),
     sp_lock = False, sp_log_sz = 5\<rparr>"

definition threads_ready :: "addr \<Rightarrow> nat \<Rightarrow> nat \<Rightarrow> slub_state \<Rightarrow> bool" where
  "threads_ready mps N n st \<longleftrightarrow> pages_ready mps N n st
    \<and> slab_wf st (Sub 2) (first_slab_at 2) [n..<128] \<and> sl_p (slab st (first_slab_at 2)) = first_va 2 \<and> subs st (Sub 2) = thread_subs n"

text \<open>The first slab of size class \<open>k\<close> with the free objects \<open>js\<close>: its page is mapped, its frame names it, and it is in the list its number of free
  objects asks for.\<close>

definition class_lists :: "nat \<Rightarrow> nat \<Rightarrow> subpage" where
  "class_lists k n = \<lparr>sp_busy = (if n = 0 then [first_slab_at k] else []),
     sp_part = (if 0 < n \<and> n < nobj (3 + k) then [first_slab_at k] else []),
     sp_free = (if n = nobj (3 + k) then [first_slab_at k] else []), sp_lock = False, sp_log_sz = 3 + k\<rparr>"

definition class_rel :: "addr \<Rightarrow> nat \<Rightarrow> nat list \<Rightarrow> slub_state \<Rightarrow> bool" where
  "class_rel mps k js st \<longleftrightarrow> k < 9 \<and> k \<noteq> 1 \<and> area_known mps st \<and> unat mps < 0x403ff000 \<and> pd st 0xf7f = table_de 0x900000
    \<and> ptm st (mmu_slub_area + 4 * of_nat (247 + k)) = first_te k
    \<and> 0x90a000 \<le> unat (ramsz (pmem st)) \<and> ram_map (pmem st) (0x901 + k) = first_page k
    \<and> slab_wf st (Sub k) (first_slab_at k) js \<and> sl_p (slab st (first_slab_at k)) = first_va k \<and> subs st (Sub k) = class_lists k (length js)"

lemma memory_before_slub:
  assumes L: "layout_ok L" and boot: "boot_map L m = Inr m'" and tabs: "pd st = pd (boot_mmu L m')" "kpt st = kpt (boot_mmu L m')"
    and mp: "2048 \<le> length mp" and sz: "0x90a000 \<le> unat sz"
  shows "\<exists>s1 s2 s3. mmu_init st = Inr s1 \<and> io_init sa p2v b s1 = Inr s2 \<and> pm_init sb L mp 0 sz s2 = Inr s3
    \<and> bdy_rel (min (unat sz) 0x8000000 div 4096) {..<0x900} (bdy_ram (pmem s3)) \<and> unat (ramsz (pmem s3)) = min (unat sz) 0x8000000
    \<and> kpt s3 = kpt st \<and> slub_16byte_free s3 = slub_16byte_free st \<and> (\<forall>j<4. pd s3 j = 0) \<and> (\<forall>j. 0x400 \<le> j \<and> j < 0x404 \<longrightarrow> pd s3 j = pd st j)
    \<and> pd s3 0xf7f = 0 \<and> pd s3 0xfff = 0
    \<and> pd s3 0x404 = section_de (ram_map_req 0x800000) 0x800000 \<and> (\<forall>j. 0xf80 \<le> j \<and> j < 0xf84 \<longrightarrow> bits_get (pd s3 j) PDE_TYPE0 = 2)
    \<and> (\<forall>k<0x100000. \<forall>p2v. mmu_va_to_pa p2v (ram_map_start + of_nat k) s3 = Inr (0x800000 + of_nat k))
    \<and> (\<forall>k<0x400000. \<forall>p2v. mmu_va_to_pa p2v (io_base + of_nat k) s3 = Inr (IO_BASE_PA b + of_nat k))"
proof -
  have pd0: "pd st j = (if j < 4 then identity_de j else if 0x400 \<le> j \<and> j < 0x404 then table_de (k_pt_pa L + of_nat (j - 0x400) * 0x400) else 0)"
    if "j < 4096" for j using boot_mmu_pd [OF L boot that] tabs(1) by simp
  obtain t1 where s1: "mmu_init st = Inr (st\<lparr>pd := (\<lambda>j. if j < 4 then 0 else pd st j), tlb := t1\<rparr>)" using mmu_init_result by blast
  let ?s1 = "st\<lparr>pd := (\<lambda>j. if j < 4 then 0 else pd st j), tlb := t1\<rparr>"
  have free1: "bits_get (pd ?s1 j) PDE_TYPE0 = 0" if "0xf80 \<le> j" "j < 0xf85" for j using pd0 [of j] that by simp
  obtain p t where s2: "io_init sa p2v b ?s1 = Inr (?s1\<lparr>pd := p, tlb := t\<rparr>)"
    and p: "\<And>j. j < 4096 \<Longrightarrow> \<not> (0xf80 \<le> j \<and> j < 0xf85) \<Longrightarrow> p j = pd ?s1 j"
    and io: "\<forall>j. 0xf80 \<le> j \<and> j < 0xf84 \<longrightarrow> bits_get (p j) PDE_TYPE0 = 2"
    and iot: "\<forall>d<0x400000. \<forall>p2v. mmu_va_to_pa p2v (io_base + of_nat d) (?s1\<lparr>pd := p, tlb := t\<rparr>) = Inr (IO_BASE_PA b + of_nat d)"
    using io_init_result [OF free1, of sa p2v b] by blast
  let ?s2 = "?s1\<lparr>pd := p, tlb := t\<rparr>"
  have f404: "bits_get (pd ?s2 0x404) PDE_TYPE0 = 0" using p [of "0x404"] pd0 [of "0x404"] by simp
  have sz': "0x900000 \<le> unat sz" using sz by simp
  obtain s3 where s3: "pm_init sb L mp 0 sz ?s2 = Inr s3"
      "bdy_rel (min (unat sz) 0x8000000 div 4096) {..<0x900} (bdy_ram (pmem s3))" "unat (ramsz (pmem s3)) = min (unat sz) 0x8000000"
      "\<forall>j. j \<noteq> 0x404 \<and> j < 4096 \<longrightarrow> pd s3 j = pd ?s2 j" "kpt s3 = kpt ?s2" "pd s3 0x404 = section_de (ram_map_req 0x800000) 0x800000"
      "slub_16byte_free s3 = slub_16byte_free st"
    using pm_init_result [OF L mp sz' f404, of sb] unfolding Let_def by force
  have ram: "mmu_va_to_pa q2v (ram_map_start + of_nat k) s3 = Inr (0x800000 + of_nat k)" if "k < 0x100000" for k q2v
    by (rule ram_map_va_to_pa [OF s3(6) that])
  have io3: "mmu_va_to_pa q2v (io_base + of_nat k) s3 = Inr (IO_BASE_PA b + of_nat k)" if k: "k < 0x400000" for k q2v
  proof -
    note i = io_index [OF k]
    have "mmu_va_to_pa q2v (io_base + of_nat k) s3 = mmu_va_to_pa q2v (io_base + of_nat k) ?s2"
      by (rule va_to_pa_cong) (use i s3(4) io in auto)
    then show ?thesis using iot k by simp
  qed
  have pd3: "pd s3 j = (if j < 4 then 0 else pd st j)" if "j < 4096" "j \<noteq> 0x404" "\<not> (0xf80 \<le> j \<and> j < 0xf85)" for j
    using s3(4) p [OF that(1,3)] that by simp
  show ?thesis
    using s1 s2 s3 ram io3 pd3 pd0 io by (intro exI [of _ ?s1] exI [of _ ?s2] exI [of _ s3]) (auto simp: section_de_type)
qed

lemma memory_after_slub:
  assumes r: "slub_ready N mps s" and c: "slub_16byte_free s = 247" and N: "N \<le> 2 ^ 20" "N * 4096 \<le> unat (ramsz (pmem s))" and mps: "even (unat mps)" "unat mps < 0x403ff000"
    and f: "bits_get (pd s 0xfff) PDE_TYPE0 = 0" and epa: "unat epa mod 4096 = 0"
  shows "\<exists>s5 st'. vm_init (kmalloc (Suc d)) s = Inr s5 \<and> excpt_init (mmu_slub_alloc (Suc d)) epa s5 = Inr st'
    \<and> pmem st' = pmem s \<and> kpt st' = kpt s \<and> (\<forall>j. j \<noteq> 0xfff \<longrightarrow> pd st' j = pd s j)
    \<and> area_wf st' \<and> \<not> vm_areas_lock st' VMA_SLUB \<and> slabs_usable st' \<and> threads_ready mps N 0 st'
    \<and> (\<forall>k<9. k \<noteq> 1 \<longrightarrow> class_rel mps k [0..<nobj (3 + k)] st')
    \<and> (\<forall>k<0x1000. slub_va_to_pa (excpt_start + of_nat k) st' = Inr (epa + of_nat k))"
proof -
  note R = r [unfolded slub_ready_def]
  have wfs: "slab_wf s (Sub i) (first_slab_at i) [reserved i..<nobj (3 + i)]" "sl_p (slab s (first_slab_at i)) = first_va i"
    "subs s (Sub i) = first_subs i" if "i < 9" for i using R that by blast+
  let ?e = "first_slab_at 1"
  have one: "[reserved 1..<nobj (3 + 1)] = 9 # [10..<256]" by (simp add: reserved_def nobj_def upt_conv_Cons)
  have w1: "slab_wf s (Sub 1) ?e (9 # [10..<256])" using wfs(1) [of 1] unfolding one by simp
  have s1: "subs s (Sub 1) = \<lparr>sp_busy = [], sp_part = [?e], sp_free = [], sp_lock = False, sp_log_sz = 4\<rparr>"
    using wfs(3) [of 1] by (simp add: first_subs_def)
  define p where "p = obj (sl_p (slab s ?e)) 4 9"
  have up: "unat p = 0xf7ff8090" using wfs(2) [of 1] by (simp add: p_def obj_def first_va_def)
  obtain s5 where v: "vm_init (kmalloc (Suc d)) s = Inr s5" and a5: "area_wf s5" and w5: "slab_wf s5 (Sub 1) ?e [10..<256]"
    and l5: "\<not> vm_areas_lock s5 VMA_SLUB"
    and e5: "s5 = s\<lparr>ptm := (ptm s)(p := 0), slab := (slab s)(?e := slab s5 ?e), subs := subs s5, slub_16byte_free := slub_16byte_free s - 1,
        vm_areas := vm_areas s5, vseg := vseg s5, vm_areas_lock := vm_areas_lock s5\<rparr>"
    and p5: "sl_p (slab s5 ?e) = sl_p (slab s ?e)" and b5: "subs s5 (Sub 1) = subs s (Sub 1)"
    and o5: "\<forall>k. k \<noteq> Sub 1 \<longrightarrow> ?e \<notin> set (sp_busy (subs s k)) \<union> set (sp_part (subs s k)) \<union> set (sp_free (subs s k)) \<longrightarrow> subs s5 k = subs s k"
    and va5: "vm_areas s5 VMA_SLUB = [p]" "vseg s5 p = \<lparr>vs_start = 0xf7ff7000, vs_flags = bits_set VSF_NPAGES 9\<rparr>"
    using vm_init_result [OF w1 _ _ _ _ _ _ p_def, of d] s1 c by (auto simp: first_slab_def)
  have k5: "pd s5 = pd s" "kpt s5 = kpt s" "pmem s5 = pmem s" "ptm s5 = (ptm s)(p := 0)" "slub_16byte_free s5 = slub_16byte_free s - 1"
    "slab s5 x = (if x = ?e then slab s5 ?e else slab s x)" for x by (subst e5, simp)+
  have neq: "mps \<noteq> first_slab_at i" if "i < 9" for i using mps(2) first_slab_unat [OF that] by auto
  have sub5: "subs s5 (Sub i) = first_subs i" if i: "i < 9" for i
  proof (cases "i = 1")
    case False
    then have "?e \<noteq> first_slab_at i" using first_slab_inj [OF _ i, of 1] by simp
    then show ?thesis using o5 wfs(3) [OF i] False by (auto simp: first_subs_def)
  qed (use b5 s1 in \<open>simp add: first_subs_def\<close>)
  have m: "subs s MmuPt = \<lparr>sp_busy = [], sp_part = [mps], sp_free = [], sp_lock = False, sp_log_sz = 10\<rparr>" using R by blast
  have m5: "subs s5 MmuPt = subs s MmuPt" using o5 neq [of 1] by (simp add: m)
  have sm5: "slab s5 mps = slab s mps" using neq [of 1] by (subst k5(6)) simp
  have pm: "sl_p (slab s mps) = mmu_slub_area" using R by blast
  have wm5: "slab_wf s5 MmuPt mps [1, 2, 3]"
  proof (rule slab_wf_page [of _ _ s])
    fix a assume "unat (a - sl_p (slab s mps)) < 4096"
    then have "unat (a - mmu_slub_area) < 4096" using pm by simp
    then have "unat a < 0xf7ff7000" using out_of_page [of mmu_slub_area a] by (force simp: mmu_slub_area_def)
    then have "a \<noteq> p" using up by auto
    then show "ptm s5 a = ptm s a" by (simp add: k5)
  qed (use R m5 sm5 in simp_all)
  have ak: "area_known mps s5" unfolding area_known_def k5(3) sm5 using R mps by simp
  have tabs: "bits_get (pd s5 0x403) PDE_TYPE0 = 1" "kpt s5 0x3ff = page_te (map_req mmu_slub_area 0x900000) 0x900000"
    "bits_get (pd s5 0xfff) PDE_TYPE0 = 0" unfolding k5 using R f by simp_all
  obtain st' w where x: "excpt_init (mmu_slub_alloc (Suc d)) epa s5 = Inr st'"
    and e6: "st' = s5\<lparr>pd := (pd s5)(0xfff := table_de 0x900400), ptm := w, tlb := tlb st', slab := (slab s5)(mps := slab st' mps), subs := subs st'\<rparr>"
    and o6: "\<forall>k. k \<noteq> MmuPt \<longrightarrow> mps \<notin> set (sp_busy (subs s5 k)) \<union> set (sp_part (subs s5 k)) \<union> set (sp_free (subs s5 k)) \<longrightarrow> subs st' k = subs s5 k"
    and w6: "\<forall>a. unat a < 0x403ff400 \<or> 0x403ff800 \<le> unat a \<longrightarrow> w a = ptm s5 a"
    and p6: "sl_p (slab st' mps) = mmu_slub_area"
    and t6: "\<forall>k<4096. slub_va_to_pa (excpt_start + of_nat k) st' = Inr (epa + of_nat k)"
    using excpt_init_result [OF wm5 ak m5 [unfolded m] tabs epa, of "Suc d"] by blast
  have k6: "pd st' = (pd s5)(0xfff := table_de 0x900400)" "kpt st' = kpt s5" "pmem st' = pmem s5" "ptm st' = w"
    "slub_16byte_free st' = slub_16byte_free s5" "vm_areas st' = vm_areas s5" "vseg st' = vseg s5" "vm_areas_lock st' = vm_areas_lock s5"
    "slab st' x = (if x = mps then slab st' mps else slab s5 x)" for x by (subst e6, simp)+
  have sub6: "subs st' (Sub i) = first_subs i" if i: "i < 9" for i using o6 sub5 [OF i] neq [OF i] by (auto simp: first_subs_def)
  have sl6: "slab st' (first_slab_at i) = slab s5 (first_slab_at i)" if "i < 9" for i
    using neq [OF that] by (subst k6(9)) auto
  have slk: "slab s5 (first_slab_at i) = slab s (first_slab_at i)" if "i < 9" "i \<noteq> 1" for i
    using first_slab_inj [OF that(1), of 1] that(2) by (subst k5(6)) simp
  have plk: "sl_p (slab s5 (first_slab_at i)) = first_va i" if "i < 9" for i
    using slk [of i] p5 wfs(2) [OF that] that by (cases "i = 1") simp_all
  have keep: "slab_wf st' (Sub i) (first_slab_at i) js" if i: "i < 9" and w: "slab_wf s5 (Sub i) (first_slab_at i) js"
      and p: "sl_p (slab s5 (first_slab_at i)) = first_va i" for i js
  proof (rule slabs_usable_keep [OF i w p sl6 [OF i]])
    show "subs st' (Sub i) = subs s5 (Sub i)" using sub6 [OF i] sub5 [OF i] by simp
    show "unat a < 0xf7ff7000 \<or> i \<noteq> 1 \<and> unat (a - first_va 1) < 4096" if "ptm st' a \<noteq> ptm s5 a" for a
    proof -
      have "\<not> (unat a < 0x403ff400 \<or> 0x403ff800 \<le> unat a)" using w6 that unfolding k6(4) by blast
      then show ?thesis by simp
    qed
  qed
  have fresh: "slab_wf st' (Sub i) (first_slab_at i) [0..<nobj (3 + i)]" if i: "i < 9" "i \<noteq> 1" for i
  proof (rule keep [OF i(1) _ plk [OF i(1)]], rule slabs_usable_keep [OF i(1) _ wfs(2) [OF i(1)] slk [OF i]])
    show "slab_wf s (Sub i) (first_slab_at i) [0..<nobj (3 + i)]" using wfs(1) [OF i(1)] i(2) by (simp add: reserved_def)
    show "subs s5 (Sub i) = subs s (Sub i)" using sub5 [OF i(1)] wfs(3) [OF i(1)] by simp
    show "unat a < 0xf7ff7000 \<or> i \<noteq> 1 \<and> unat (a - first_va 1) < 4096" if "ptm s5 a \<noteq> ptm s a" for a
    proof -
      have "a = p" using that by (simp add: k5 split: if_splits)
      then show ?thesis using i(2) wfs(2) [of 1] by (simp add: p_def obj_def)
    qed
  qed
  have entry: "ptm st' (mmu_slub_area + 4 * of_nat x) = (if 247 \<le> x then first_te (x - 247) else 0)" if x: "x < 256" for x
  proof -
    have u: "unat (mmu_slub_area + 4 * of_nat x) = 0x403ff000 + 4 * x" using area_word [OF x] .
    have "mmu_slub_area + 4 * of_nat x \<noteq> p" using u up x by auto
    moreover have "w (mmu_slub_area + 4 * of_nat x) = ptm s5 (mmu_slub_area + 4 * of_nat x)" using w6 u x by simp
    moreover have "ptm s (mmu_slub_area + 4 * of_nat x) = (if 247 \<le> x then first_te (x - 247) else 0)" using R x by simp
    ultimately show ?thesis by (simp add: k6 k5)
  qed
  have ak6: "area_known mps st'" using R mps p6 by (simp add: area_known_def k6(3) k5(3))
  have pd6: "pd st' 0xf7f = table_de 0x900000" using R by (simp add: k6(1) k5(1))
  have classes: "class_rel mps k [0..<nobj (3 + k)] st'" if k: "k < 9" "k \<noteq> 1" for k
  proof -
    have "first_subs k = class_lists k (nobj (3 + k))"
    proof -
      have "k \<in> {0,1,2,3,4,5,6,7,8}" using k by auto
      then show ?thesis using k(2) by (auto simp: first_subs_def class_lists_def nobj_def)
    qed
    moreover have "ptm st' (mmu_slub_area + 4 * of_nat (247 + k)) = first_te k" using entry [of "247 + k"] k(1) by simp
    ultimately show ?thesis
      unfolding class_rel_def using k ak6 pd6 mps(2) fresh [OF k] plk [OF k(1)] sl6 [OF k(1)] sub6 [OF k(1)] R by (simp add: k6(3) k5(3))
  qed
  have "slabs_usable st'"
  proof -
    have "\<exists>j js. slab_wf st' (Sub i) (first_slab_at i) (j # js) \<and> sl_p (slab st' (first_slab_at i)) = first_va i
      \<and> first_slab (Sub i) st' = Some (first_slab_at i) \<and> \<not> sp_lock (subs st' (Sub i)) \<and> sp_log_sz (subs st' (Sub i)) = 3 + i" if i: "i < 9" for i
    proof -
      have "\<exists>j js. slab_wf s5 (Sub i) (first_slab_at i) (j # js) \<and> sl_p (slab s5 (first_slab_at i)) = first_va i"
      proof (cases "i = 1")
        case True
        have "[10..<256] = 10 # [11..<256 :: nat]" by (simp add: upt_conv_Cons)
        then show ?thesis using w5 p5 wfs(2) [of 1] True by auto
      next
        case False
        have "slab_wf s5 (Sub i) (first_slab_at i) [reserved i..<nobj (3 + i)]"
        proof (rule slabs_usable_keep [OF i wfs(1) [OF i] wfs(2) [OF i]])
          show "slab s5 (first_slab_at i) = slab s (first_slab_at i)" using first_slab_inj [OF i, of 1] False by (subst k5(6)) simp
          show "subs s5 (Sub i) = subs s (Sub i)" using sub5 [OF i] wfs(3) [OF i] by simp
          show "unat a < 0xf7ff7000 \<or> i \<noteq> 1 \<and> unat (a - first_va 1) < 4096" if "ptm s5 a \<noteq> ptm s a" for a
          proof -
            have "a = p" using that by (simp add: k5 split: if_splits)
            then show ?thesis using False wfs(2) [of 1] by (simp add: p_def obj_def)
          qed
        qed
        moreover have "reserved i < nobj (3 + i)"
        proof -
          have "i \<in> {0,1,2,3,4,5,6,7,8}" using i by auto
          then show ?thesis by (auto simp: reserved_def nobj_def)
        qed
        moreover have "slab s5 (first_slab_at i) = slab s (first_slab_at i)" using first_slab_inj [OF i, of 1] False by (subst k5(6)) simp
        ultimately show ?thesis using wfs(2) [OF i] by (auto simp: upt_conv_Cons)
      qed
      then obtain j js where j: "slab_wf s5 (Sub i) (first_slab_at i) (j # js)" "sl_p (slab s5 (first_slab_at i)) = first_va i" by blast
      have "slab_wf st' (Sub i) (first_slab_at i) (j # js)"
      proof (rule slabs_usable_keep [OF i j sl6 [OF i]])
        show "subs st' (Sub i) = subs s5 (Sub i)" using sub6 [OF i] sub5 [OF i] by simp
        show "unat a < 0xf7ff7000 \<or> i \<noteq> 1 \<and> unat (a - first_va 1) < 4096" if "ptm st' a \<noteq> ptm s5 a" for a
        proof -
          have "\<not> (unat a < 0x403ff400 \<or> 0x403ff800 \<le> unat a)" using w6 that unfolding k6(4) by blast
          then show ?thesis by simp
        qed
      qed
      moreover have "first_slab (Sub i) st' = Some (first_slab_at i)" using sub6 [OF i] by (simp add: first_slab_def first_subs_def)
      ultimately show ?thesis using j(2) sl6 [OF i] sub6 [OF i] by (auto simp: first_subs_def)
    qed
    moreover have "slub_16byte_free st' \<noteq> 5" using c by (simp add: k6(5) k5(5))
    ultimately show ?thesis unfolding slabs_usable_def by blast
  qed
  moreover have "threads_ready mps N 0 st'"
  proof -
    have t2: "subs st' (Sub 2) = thread_subs 0" using sub6 [of 2] by (simp add: first_subs_def thread_subs_def)
    have seg: "seg_end \<lparr>vs_start = 0xf7ff7000, vs_flags = bits_set VSF_NPAGES 9\<rparr> = 0xf8000000" by code_simp
    have areas: "vm_areas st' VMA_SLUB = [p]" "vseg st' p = \<lparr>vs_start = 0xf7ff7000, vs_flags = bits_set VSF_NPAGES 9\<rparr>" by (simp_all add: k6 va5)
    have cover: "in_seg (vseg st' p) a" if "0xf7ff7000 \<le> unat a" "unat a < 0xf8000000" for a
      using that unfolding in_seg_def areas seg by (simp add: word_le_nat_alt word_less_nat_alt)
    have table: "bits_get (ptm st' (mmu_slub_area + 4 * of_nat x)) PTE_TYPE = 0" if "x < 247" for x
      using entry [of x] that by (simp add: bits_get_def bits_extract_def)
    have "slab_wf st' (Sub 1) ?e [10..<256]" by (rule keep) (use w5 p5 wfs(2) [of 1] in simp_all)
    moreover have "p \<in> obj (first_va 1) 4 ` {..<10}" using wfs(2) [of 1] by (simp add: p_def)
    moreover have "fulls st' 0 = \<lparr>fp_busy = [], fp_lock = False, fp_log_sz = 12\<rparr>"
    proof -
      have "fulls st' = fulls s" by (subst e6, simp, subst e5, simp)
      then show ?thesis using R by simp
    qed
    moreover have "sl_p (slab st' ?e) = first_va 1" using sl6 [of 1] p5 wfs(2) [of 1] by simp
    moreover have "slub_16byte_free st' = 246" using c by (simp add: k6(5) k5(5))
    moreover have "area_wf st'" using a5 by (simp add: area_wf_def k6(6,7))
    moreover have "\<not> vm_areas_lock st' VMA_SLUB" using l5 k6(8) by simp
    moreover have "bdy_rel N {..<0x90a} (bdy_ram (pmem st'))" using R by (simp add: k6(3) k5(3))
    moreover have "N * 4096 \<le> unat (ramsz (pmem st'))" using N by (simp add: k6(3) k5(3))
    ultimately have "pages_ready mps N 0 st'"
      unfolding pages_ready_def using N(1) mps(2) ak6 pd6 table cover sub6 [of 1] by (simp add: areas)
    moreover have "slab_wf st' (Sub 2) (first_slab_at 2) [0..<128]" using fresh [of 2] by (simp add: nobj_def)
    ultimately show ?thesis unfolding threads_ready_def using t2 sl6 [of 2] plk [of 2] by simp
  qed
  moreover have "area_wf st'" using a5 by (simp add: area_wf_def k6(6,7))
  moreover have "\<not> vm_areas_lock st' VMA_SLUB" using l5 k6(8) by simp
  moreover have "\<forall>k<9. k \<noteq> 1 \<longrightarrow> class_rel mps k [0..<nobj (3 + k)] st'" using classes by blast
  ultimately show ?thesis
    by (intro exI [of _ s5] exI [of _ st']) (use v x t6 k6(1-3) k5(1-3) in auto)
qed

text \<open>The kernel's half of the address space is read as before when the tables keep its entries.\<close>

lemma image_translates:
  assumes L: "layout_ok L" and boot: "boot_map L m = Inr m'"
    and pd: "\<And>j. 0x400 \<le> j \<Longrightarrow> j < 0x404 \<Longrightarrow> pd st j = pd (boot_mmu L m') j"
    and kpt: "\<And>k. k \<noteq> 0x3ff \<Longrightarrow> kpt st k = kpt (boot_mmu L m') k"
    and s: "s \<in> set (si L)" "sec_start s \<le> va" "va < sec_end s"
  shows "slub_va_to_pa va st = Inr (va - KMODE_VA)"
proof -
  note r = section_range [OF L s]
  note ix = page_no_index [OF r]
  have n: "page_no va \<noteq> 0x3ff"
    using layout_sections(2) [OF L s(1)] s(3) r unfolding page_no_def word_less_nat_alt by linarith
  have i: "0x400 \<le> unat va div 2 ^ 20" "unat va div 2 ^ 20 < 0x404" using r by simp_all
  have p: "unat va div 2 ^ 12 - 0x40000 = page_no va" by (simp add: page_no_def)
  have "slub_va_to_pa va st = mmu_va_to_pa (\<lambda>_ _. Inl Deadlock) va (boot_mmu L m')"
    unfolding slub_va_to_pa_def by (rule va_to_pa_cong) (use pd [OF i] kpt [OF n] i p in simp_all)
  then show ?thesis using boot_mmu_section [OF L boot s] by simp
qed

lemma no_translation: "pd st (unat va div 2 ^ 20) = 0 \<Longrightarrow> mmu_va_to_pa p2v va st = Inl (Assert ''mmu.c:418'')"
proof -
  have "bits_get (0 :: u32) PDE_TYPE0 = 0" by (simp add: bits_get_def bits_extract_def)
  moreover assume "pd st (unat va div 2 ^ 20) = 0"
  ultimately show ?thesis by (simp only: mmu_va_to_pa_def Let_def unat_va_pde) (simp add: assert_that_def)
qed

lemma last_page_free:
  assumes L: "layout_ok L" and boot: "boot_map L m = Inr m'"
  shows "kpt (boot_mmu L m') 0x3ff = 0"
proof -
  have "page_no va \<noteq> 0x3ff" if s: "s \<in> set (si L)" "sec_start s \<le> va" "va < sec_end s" for s va
    using layout_sections(2) [OF L s(1)] s(3) section_range [OF L s] unfolding page_no_def word_less_nat_alt by linarith
  then show ?thesis using boot_mmu_entry [OF L boot, of "0x3ff"] by auto
qed

lemma kmain_memory_result:
  assumes L: "layout_ok L" and boot: "boot_map L m = Inr m'" and tabs: "pd st = pd (boot_mmu L m')" "kpt st = kpt (boot_mmu L m')"
    and mp: "2048 \<le> length mp" and sz: "0x90a000 \<le> unat sz" and free: "slub_16byte_free st = 0"
    and slab: "bss_start L \<le> mps" "mps < bss_end L" "even (unat mps)" and epa: "unat epa mod 4096 = 0"
  shows "\<exists>st'. kmain_memory (Suc d) b L mp mps epa 0 sz st = Inr st' \<and> memory_ready b L epa (min (unat sz) 0x8000000 div 4096) st' \<and> threads_ready mps (min (unat sz) 0x8000000 div 4096) 0 st'
    \<and> (\<forall>k<9. k \<noteq> 1 \<longrightarrow> class_rel mps k [0..<nobj (3 + k)] st')
    \<and> (\<forall>n. 0 < unat n \<and> unat n \<le> 2048 \<longrightarrow>
        (\<exists>st'' p. kmalloc (Suc d) n st' = Inr (st'', p) \<and> 0xf7ff7000 \<le> unat p \<and> unat p + unat n \<le> 0xf8000000))"
proof -
  let ?N = "min (unat sz) 0x8000000 div 4096"
  have N: "0x90a \<le> ?N" "?N \<le> 2 ^ 20" using sz div_le_mono [of "0x90a000" "min (unat sz) 0x8000000" 4096] div_le_mono [of "min (unat sz) 0x8000000" "0x8000000" 4096] by simp_all
  obtain s1 s2 s3 where s: "mmu_init st = Inr s1" "io_init (mmu_slub_alloc (Suc d)) mmu_slub_pa_to_va b s1 = Inr s2"
      "pm_init (mmu_slub_alloc (Suc d)) L mp 0 sz s2 = Inr s3"
    and a3: "bdy_rel ?N {..<0x900} (bdy_ram (pmem s3))" "unat (ramsz (pmem s3)) = min (unat sz) 0x8000000"
      "kpt s3 = kpt st" "slub_16byte_free s3 = slub_16byte_free st"
    and p3: "\<forall>j<4. pd s3 j = 0" "\<forall>j. 0x400 \<le> j \<and> j < 0x404 \<longrightarrow> pd s3 j = pd st j" "pd s3 0xf7f = 0" "pd s3 0xfff = 0"
      "pd s3 0x404 = section_de (ram_map_req 0x800000) 0x800000" "\<forall>j. 0xf80 \<le> j \<and> j < 0xf84 \<longrightarrow> bits_get (pd s3 j) PDE_TYPE0 = 2"
    and t3: "\<forall>k<0x100000. \<forall>p2v. mmu_va_to_pa p2v (ram_map_start + of_nat k) s3 = Inr (0x800000 + of_nat k)"
      "\<forall>k<0x400000. \<forall>p2v. mmu_va_to_pa p2v (io_base + of_nat k) s3 = Inr (IO_BASE_PA b + of_nat k)"
    using memory_before_slub [OF L boot tabs mp sz, of "mmu_slub_alloc (Suc d)" mmu_slub_pa_to_va b "mmu_slub_alloc (Suc d)"] by blast
  have "0x90a000 \<le> unat (ramsz (pmem s3))" using a3(2) sz by simp
  moreover have "bits_get (pd s3 0x403) PDE_TYPE0 = 1"
    using p3(2) tabs(1) boot_mmu_type [OF L boot, of "0x40300000"] by simp
  moreover have "bits_get (kpt s3 0x3ff) PTE_TYPE = 0" using a3(3) tabs(2) last_page_free [OF L boot] by simp
  moreover have "bits_get (pd s3 0xf7f) PDE_TYPE0 = 0" using p3(3) by simp
  moreover have mps: "unat mps < 0x403ff000" using slab(2) layout_chain [OF L] unfolding word_less_nat_alt by linarith
  ultimately obtain s4 where s4: "slub_init (Suc d) mps s3 = Inr s4" and r4: "slub_ready ?N mps s4" and k4: "slub_kept s3 s4"
    using slub_init_ready [OF a3(1) N _ _ _ _ slab(3)] by blast
  note K = k4 [unfolded slub_kept_def]
  have c: "slub_16byte_free s4 = 247" using K a3(4) free by simp
  have "ramsz (pmem s4) = ramsz (pmem s3)" using K by simp
  then have N4: "?N * 4096 \<le> unat (ramsz (pmem s4))" using a3(2) by (simp only: div_times_less_eq_dividend)
  have "pd s4 0xfff = pd s3 0xfff" using K by simp
  then have "bits_get (pd s4 0xfff) PDE_TYPE0 = 0" using p3(4) by simp
  then obtain s5 st' where s5: "vm_init (kmalloc (Suc d)) s4 = Inr s5" and s6: "excpt_init (mmu_slub_alloc (Suc d)) epa s5 = Inr st'"
    and k6: "pmem st' = pmem s4" "kpt st' = kpt s4" "\<forall>j. j \<noteq> 0xfff \<longrightarrow> pd st' j = pd s4 j"
    and r6: "area_wf st'" "\<not> vm_areas_lock st' VMA_SLUB" "slabs_usable st'" "threads_ready mps ?N 0 st'"
      "\<forall>k<9. k \<noteq> 1 \<longrightarrow> class_rel mps k [0..<nobj (3 + k)] st'"
      "\<forall>k<0x1000. slub_va_to_pa (excpt_start + of_nat k) st' = Inr (epa + of_nat k)"
    using memory_after_slub [OF r4 c N(2) N4 slab(3) mps _ epa, of d] by blast
  have run: "kmain_memory (Suc d) b L mp mps epa 0 sz st = Inr st'"
    using s s4 s5 s6 by (simp add: kmain_memory_def del: kmalloc.simps)
  have pd6: "pd st' j = pd s3 j" if "j \<noteq> 0xf7f" "j \<noteq> 0xfff" for j using k6(3) K that by simp
  have kp6: "kpt st' k = kpt (boot_mmu L m') k" if "k \<noteq> 0x3ff" for k using k6(2) K a3(3) tabs(2) that by simp
  have image: "slub_va_to_pa va st' = Inr (va - KMODE_VA)" if "s \<in> set (si L)" "sec_start s \<le> va" "va < sec_end s" for s va
    by (rule image_translates [OF L boot _ kp6 that]) (use pd6 p3(2) tabs(1) in auto)
  have low: "slub_va_to_pa va st' = Inl (Assert ''mmu.c:418'')" if "unat va < 0x400000" for va
    unfolding slub_va_to_pa_def by (rule no_translation) (use pd6 p3(1) that in \<open>simp add: less_mult_imp_div_less\<close>)
  have ram: "slub_va_to_pa (ram_map_start + of_nat k) st' = Inr (0x800000 + of_nat k)" if k: "k < 0x100000" for k
    unfolding slub_va_to_pa_def by (rule ram_map_va_to_pa [OF _ k]) (simp add: pd6 p3(5))
  have io: "slub_va_to_pa (io_base + of_nat k) st' = Inr (IO_BASE_PA b + of_nat k)" if k: "k < 0x400000" for k
  proof -
    note i = io_index [OF k]
    have "mmu_va_to_pa mmu_slub_pa_to_va (io_base + of_nat k) st' = mmu_va_to_pa mmu_slub_pa_to_va (io_base + of_nat k) s3"
      by (rule va_to_pa_cong) (use i p3(6) pd6 in auto)
    then show ?thesis using t3(2) k by (simp add: slub_va_to_pa_def)
  qed
  have "memory_ready b L epa ?N st'"
    unfolding memory_ready_def using r4 k6(1) image low ram io r6 by (auto simp: slub_ready_def)
  then show ?thesis using run r6(4,5) slabs_usable_kmalloc [OF r6(3)] by (intro exI [of _ st']) blast
qed

text \<open>C32: The start-up of memory, from the tables of \<open>boot_map\<close> to the vectors. On a machine with at least nine megabytes and ten pages,
  with any image the linker script allows, no assertion fails and nothing is waited for. Afterwards exactly those
  frames are allocated; the image, the array of pages, the device registers and the exception vectors translate to their
  places; the identity map of the boot code is gone; the area of virtual memory is well formed; and each request for up
  to half a page gets memory from the pages of the first slabs.\<close>

theorem kmain_memory_ready:
  assumes L: "layout_ok L" and boot: "boot_map L m = Inr m'" and tabs: "pd st = pd (boot_mmu L m')" "kpt st = kpt (boot_mmu L m')"
    and mp: "2048 \<le> length mp" and sz: "0x90a000 \<le> unat sz" and free: "slub_16byte_free st = 0"
    and slab: "bss_start L \<le> mps" "mps < bss_end L" "even (unat mps)" and epa: "unat epa mod 4096 = 0"
  shows "\<exists>st'. kmain_memory (Suc d) b L mp mps epa 0 sz st = Inr st' \<and> memory_ready b L epa (min (unat sz) 0x8000000 div 4096) st'
    \<and> (\<forall>n. 0 < unat n \<and> unat n \<le> 2048 \<longrightarrow>
        (\<exists>st'' p. kmalloc (Suc d) n st' = Inr (st'', p) \<and> 0xf7ff7000 \<le> unat p \<and> unat p + unat n \<le> 0xf8000000))"
  using kmain_memory_result [OF assms] by blast

theorem kmain_memory_ready_witness:
  "\<exists>m' st' st'' p. boot_map layout0 (\<lambda>_. 7) = Inr m'
    \<and> kmain_memory 22 RPI layout0 (replicate 2048 7) 0x40018000 0x21000 0 0x8000000
        (demo\<lparr>pd := pd (boot_mmu layout0 m'), kpt := kpt (boot_mmu layout0 m'), slub_16byte_free := 0\<rparr>) = Inr st'
    \<and> slub_va_to_pa 0x40012345 st' = Inr 0x12345 \<and> slub_va_to_pa 0x12345 st' = Inl (Assert ''mmu.c:418'')
    \<and> slub_va_to_pa 0xffff0010 st' = Inr 0x21010 \<and> kmalloc 22 100 st' = Inr (st'', p) \<and> unat p + 100 \<le> 0xf8000000"
proof -
  have L: "layout_ok layout0" by (simp add: layout_ok_def layout0_def si_def kmode_consts)
  have s: "\<lparr>sec_start = 0x40010000, sec_end = 0x40014abc, sec_desc = 5\<rparr> \<in> set (si layout0)" by (simp add: si_def layout0_def)
  obtain m' where m': "boot_map layout0 (\<lambda>_. 7) = Inr m'" using boot_map_result [OF L, of "\<lambda>_. 7"] by metis
  let ?st = "demo\<lparr>pd := pd (boot_mmu layout0 m'), kpt := kpt (boot_mmu layout0 m'), slub_16byte_free := 0\<rparr>"
  have h: "pd ?st = pd (boot_mmu layout0 m')" "kpt ?st = kpt (boot_mmu layout0 m')" "2048 \<le> length (replicate 2048 (7 :: u32))"
    "0x90a000 \<le> unat (0x8000000 :: u32)" "slub_16byte_free ?st = 0" "bss_start layout0 \<le> 0x40018000" "0x40018000 < bss_end layout0"
    "even (unat (0x40018000 :: addr))" "unat (0x21000 :: addr) mod 4096 = 0" by (simp_all add: layout0_def)
  obtain st' where e: "kmain_memory (Suc 21) RPI layout0 (replicate 2048 7) 0x40018000 0x21000 0 0x8000000 ?st = Inr st'"
    and r: "memory_ready RPI layout0 0x21000 (min (unat (0x8000000 :: u32)) 0x8000000 div 4096) st'"
    and k: "\<forall>n. 0 < unat n \<and> unat n \<le> 2048 \<longrightarrow>
        (\<exists>st'' p. kmalloc (Suc 21) n st' = Inr (st'', p) \<and> 0xf7ff7000 \<le> unat p \<and> unat p + unat n \<le> 0xf8000000)"
    using kmain_memory_ready [OF L m' h, of 21 RPI] by blast
  note R = r [unfolded memory_ready_def]
  have "(0x40012345 :: addr) - KMODE_VA = 0x12345" by (simp add: KMODE_VA_def)
  then have t: "slub_va_to_pa 0x40012345 st' = Inr 0x12345" using R s by fastforce
  have l: "slub_va_to_pa 0x12345 st' = Inl (Assert ''mmu.c:418'')" using R by simp
  have "slub_va_to_pa (excpt_start + of_nat 0x10) st' = Inr (0x21000 + of_nat 0x10)"
    by (rule conjunct1 [OF R [THEN conjunct2, THEN conjunct2, THEN conjunct2, THEN conjunct2, THEN conjunct2], rule_format]) simp
  moreover have "excpt_start + of_nat 0x10 = 0xffff0010" "(0x21000 :: addr) + of_nat 0x10 = 0x21010" by (simp_all add: excpt_start_def)
  ultimately have x: "slub_va_to_pa 0xffff0010 st' = Inr 0x21010" by (simp only:)
  have d: "Suc 21 = 22" by simp
  obtain st'' p where a: "kmalloc 22 100 st' = Inr (st'', p)" "unat p + 100 \<le> 0xf8000000"
    using k [unfolded d, rule_format, of 100] by auto
  show ?thesis
    by (rule exI [of _ m'], rule exI [of _ st'], rule exI [of _ st''], rule exI [of _ p], intro conjI m' e [unfolded d] t l x a)
qed

end
