(* ===== verification/SlubHeap.thy ===== *)
theory SlubHeap
imports MemInit
begin

text \<open>
  \<open>kmalloc\<close> and \<open>kfree\<close> of src/kernel/slub.c against an abstract allocator: a size class is a list of free objects, from which a request takes the
  first and to which a release adds one. The relation between the two holds for the slabs that start-up leaves (MemInit), and every series of requests and
  releases keeps it; the classes do not disturb each other.
\<close>

section \<open>The page of a class\<close>

lemma class_relD:
  assumes "class_rel mps k js st"
  shows "k < 9" and "k \<noteq> 1" and "area_known mps st" and "unat mps < 0x403ff000" and "pd st 0xf7f = table_de 0x900000"
    and "ptm st (mmu_slub_area + 4 * of_nat (247 + k)) = first_te k" and "0x90a000 \<le> unat (ramsz (pmem st))"
    and "ram_map (pmem st) (0x901 + k) = first_page k" and "slab_wf st (Sub k) (first_slab_at k) js"
    and "sl_p (slab st (first_slab_at k)) = first_va k" and "subs st (Sub k) = class_lists k (length js)"
  using assms unfolding class_rel_def by blast+

lemma nobj_class: "k < 9 \<Longrightarrow> 2 \<le> nobj (3 + k)"
proof -
  assume "k < 9"
  then have "k \<in> {0,1,2,3,4,5,6,7,8}" by auto
  then show ?thesis by (auto simp: nobj_def)
qed

lemma class_wf:
  assumes "class_rel mps k js st"
  shows "distinct js" and "\<forall>j\<in>set js. j < nobj (3 + k)" and "length js \<le> nobj (3 + k)" and "sp_log_sz (subs st (Sub k)) = 3 + k"
proof -
  note C = class_relD [OF assms]
  show lg: "sp_log_sz (subs st (Sub k)) = 3 + k" by (simp add: C(11) class_lists_def)
  show "distinct js" "\<forall>j\<in>set js. j < nobj (3 + k)" using C(9) by (simp_all add: slab_wf_def Let_def lg)
  then show "length js \<le> nobj (3 + k)" by (rule distinct_bound)
qed

lemma class_translates:
  assumes r: "class_rel mps k js st" and d: "d < 4096"
  shows "slub_va_to_pa (first_va k + of_nat d) st = Inr (first_pa k + of_nat d)"
proof -
  note C = class_relD [OF r]
  have t: "pd st 0xf7f = table_de (0x900000 + of_nat 0 * 0x400)" using C(5) by simp
  have o: "obj mmu_slub_area 10 0 = mmu_slub_area" by (simp add: obj_def)
  have T: "bits_get (pd st 0xf7f) PDE_TYPE0 = 1" "pt_of mmu_slub_pa_to_va 0xf7f st = Inr (Slab mmu_slub_area)"
    using table_of [OF C(3) t, unfolded o] by simp_all
  have b: "unat (first_va k) = (0xf7ff7 + k) * 4096" using first_unat(1) [OF C(1)] by simp
  have "unat (of_nat d :: u32) = d" using d by (simp add: unat_of_nat)
  then have u: "unat (first_va k + of_nat d) = (0xf7ff7 + k) * 4096 + d"
    using unat_add_no_overflow [of "first_va k" "of_nat d"] b d C(1) by simp
  have e: "(0xf7ff7 + k) * 4096 = 0xf7ff7000 + k * 4096" by simp
  have j: "((0xf7ff7 + k) * 4096 + d) div 2 ^ 20 = 0xf7f" by (rule div_nat_eqI; unfold e; use C(1) d in simp)
  have q: "((0xf7ff7 + k) * 4096 + d) div 2 ^ 12 = 0xf7ff7 + k" using d by simp
  have s: "unat (first_va k) div 2 ^ 12 = 0xf7ff7 + k" unfolding b by simp
  have x: "((0xf7ff7 + k) * 4096 + d) div 2 ^ 12 mod 2 ^ 8 = 247 + k" using first_index(2) [OF C(1)] unfolding q s .
  have pa: "unat (first_pa k) mod 4096 = 0" using first_unat(2) [OF C(1)] by simp
  show ?thesis
    unfolding slub_va_to_pa_def
    by (intro page_translates [where j = "0xf7f" and i = "247 + k" and n = "0xf7ff7 + k" and pt = "Slab mmu_slub_area" and r = "map_req (first_va k) (first_pa k)"])
      (use u j x T C(6) pa d in \<open>simp_all add: map_req_def first_te_def\<close>)
qed

text \<open>Changes to one class leave the others alone.\<close>

lemma class_keep:
  assumes r: "class_rel mps i js st" and k: "k < 9" "i \<noteq> k"
    and same: "pd st' = pd st" "pmem st' = pmem st" "\<And>x. x \<noteq> first_slab_at k \<Longrightarrow> slab st' x = slab st x" "subs st' (Sub i) = subs st (Sub i)"
    and words: "\<And>a. 4096 \<le> unat (a - first_va k) \<Longrightarrow> ptm st' a = ptm st a"
  shows "class_rel mps i js st'"
proof -
  note C = class_relD [OF r]
  have ne: "first_slab_at i \<noteq> first_slab_at k" "mps \<noteq> first_slab_at k"
    using first_slab_inj [OF C(1) k(1)] k(2) C(4) first_slab_unat [OF k(1)] by auto
  have "slab_wf st' (Sub i) (first_slab_at i) js"
  proof (rule slab_wf_page [OF _ same(3) [OF ne(1)] _ C(9)])
    fix a assume "unat (a - sl_p (slab st (first_slab_at i))) < 4096"
    then have "unat (a - first_va i) < 4096" by (simp only: C(10))
    from words [OF first_pages_apart [OF C(1) k(1) k(2) this]] show "ptm st' a = ptm st a" .
  qed (simp add: same(4))
  moreover have "ptm st' (mmu_slub_area + 4 * of_nat (247 + i)) = ptm st (mmu_slub_area + 4 * of_nat (247 + i))"
    by (rule words, rule area_far [OF k(1)]) (use area_word [of "247 + i"] C(1) in simp)
  ultimately show ?thesis using C same(3) [OF ne(1)] same(3) [OF ne(2)] unfolding class_rel_def area_known_def same(1,2,4) by simp
qed

section \<open>One request, one release\<close>

definition class_obj :: "nat \<Rightarrow> nat \<Rightarrow> addr" where "class_obj k j = obj (first_va k) (3 + k) j"

lemma class_obj_in_page:
  assumes "k < 9" and "j < nobj (3 + k)"
  shows "unat (class_obj k j - first_va k) < 4096" and "class_obj k j = first_va k + of_nat (j * 2 ^ (3 + k))" and "j * 2 ^ (3 + k) < 4096"
    and "class_obj k j \<noteq> mmu_slub_area + 4 * of_nat (247 + k)"
proof -
  have l: "3 + k \<le> 12" using assms(1) by simp
  have p: "0 < (2 :: nat) ^ (3 + k)" by simp
  show m: "j * 2 ^ (3 + k) < 4096" using obj_offset(1) [OF l assms(2)] p by linarith
  show b: "unat (class_obj k j - first_va k) < 4096" using obj_offset(2) [OF l assms(2)] m by (simp add: class_obj_def obj_def)
  show "class_obj k j = first_va k + of_nat (j * 2 ^ (3 + k))" by (simp add: class_obj_def obj_def)
  show "class_obj k j \<noteq> mmu_slub_area + 4 * of_nat (247 + k)"
  proof
    assume e: "class_obj k j = mmu_slub_area + 4 * of_nat (247 + k)"
    have "unat (class_obj k j) < 0xf7ff7000" unfolding e using area_word [of "247 + k"] assms(1) by simp
    from area_far [OF assms(1) this] b show False by simp
  qed
qed

lemma class_first: "class_rel mps k (j # js) st \<Longrightarrow> first_slab (Sub k) st = Some (first_slab_at k) \<and> \<not> sp_lock (subs st (Sub k))"
proof -
  assume r: "class_rel mps k (j # js) st"
  have "length (j # js) \<le> nobj (3 + k)" by (rule class_wf(3) [OF r])
  then show ?thesis unfolding first_slab_def class_relD(11) [OF r] by (auto simp: class_lists_def)
qed

lemma lists_after_request:
  assumes "k < 9" and "Suc n \<le> nobj (3 + k)"
  shows "relisted (first_slab_at k) (Suc n = nobj (3 + k)) (n = 0) (class_lists k (Suc n)) = class_lists k n"
  using assms(2) nobj_class [OF assms(1)] by (auto simp: relisted_def class_lists_def)

lemma class_request:
  assumes r: "class_rel mps k (j # js) st" and n: "size_class n = Some k" "n \<noteq> 0"
  shows "\<exists>st'. kmalloc (Suc d) n st = Inr (st', class_obj k j) \<and> class_rel mps k js st'
    \<and> (\<forall>i ls. i \<noteq> k \<longrightarrow> class_rel mps i ls st \<longrightarrow> class_rel mps i ls st')"
proof -
  let ?e = "first_slab_at k"
  note C = class_relD [OF r] and W = class_wf [OF r]
  have f: "first_slab (Sub k) st = Some ?e" "\<not> sp_lock (subs st (Sub k))" using class_first [OF r] by simp_all
  have g: "sp_log_sz (subs st (Sub k)) = 4 \<longrightarrow> slub_16byte_free st \<noteq> 5" using W(4) C(2) by simp
  have L: "subs st (Sub k) = class_lists k (Suc (length js))" using C(11) by simp
  have z: "(js = []) = (length js = 0)" by simp
  have four: "(3 + k = 4) = False" using C(2) by simp
  obtain st' where a: "kmalloc_subpages (kmalloc d) (Sub k) st = Inr (st', class_obj k j)" and w: "slab_wf st' (Sub k) ?e js"
    and e: "st' = st\<lparr>ptm := (ptm st)(class_obj k j := 0), slab := (slab st)(?e := slab st' ?e), subs := subs st', slub_16byte_free := slub_16byte_free st - 0\<rparr>"
    and p: "sl_p (slab st' ?e) = first_va k" and s: "subs st' (Sub k) = relisted ?e (Suc (length js) = nobj (3 + k)) (length js = 0) (subs st (Sub k))"
    and o: "\<forall>i. i \<noteq> Sub k \<longrightarrow> ?e \<notin> set (sp_busy (subs st i)) \<union> set (sp_part (subs st i)) \<union> set (sp_free (subs st i)) \<longrightarrow> subs st' i = subs st i"
    using object_taken [OF C(9) f g, of "kmalloc d"] unfolding W(4) C(10) z four if_False class_obj_def by blast
  have k': "pd st' = pd st" "pmem st' = pmem st" "ptm st' = (ptm st)(class_obj k j := 0)" "slab st' x = (if x = ?e then slab st' ?e else slab st x)" for x
    by (subst e, simp)+
  have other: "slab st' x = slab st x" if "x \<noteq> ?e" for x using that by (subst k'(4)) simp
  have j: "j < nobj (3 + k)" using W(2) by simp
  note O = class_obj_in_page [OF C(1) j]
  have words: "ptm st' a = ptm st a" if "4096 \<le> unat (a - first_va k)" for a using that O(1) by (auto simp: k')
  have "mps \<noteq> ?e" using C(4) first_slab_unat [OF C(1)] C(1) by auto
  then have "area_known mps st'" using C(3) other [of mps] by (simp add: area_known_def k')
  moreover have "subs st' (Sub k) = class_lists k (length js)" unfolding s L using W(3) by (intro lists_after_request [OF C(1)]) simp
  moreover have "ptm st' (mmu_slub_area + 4 * of_nat (247 + k)) = first_te k" using C(6) O(4) by (auto simp: k')
  ultimately have "class_rel mps k js st'" unfolding class_rel_def using C w p by (simp add: k'(1,2))
  moreover have "class_rel mps i ls st'" if i: "i \<noteq> k" "class_rel mps i ls st" for i ls
  proof (rule class_keep [OF i(2) C(1) i(1) k'(1,2) other _ words])
    have "?e \<noteq> first_slab_at i" using first_slab_inj [OF C(1) class_relD(1) [OF i(2)]] i(1) by auto
    then show "subs st' (Sub i) = subs st (Sub i)" using o class_relD(11) [OF i(2)] i(1) by (auto simp: class_lists_def)
  qed
  moreover have "kmalloc (Suc d) n st = Inr (st', class_obj k j)" using a n C(1) by (simp add: slub_consts)
  ultimately show ?thesis by blast
qed

lemma relist_free_rest:
  "pd (relist_free i e m n st) = pd st" "kpt (relist_free i e m n st) = kpt st" "slab (relist_free i e m n st) = slab st"
  "ptm (relist_free i e m n st) = ptm st" "pmem (relist_free i e m n st) = pmem st"
  by (simp_all add: relist_free_def upd_sub_def slab_del_def)

lemma lists_after_release:
  assumes "k < 9" and "n < nobj (3 + k)" and "subs st (Sub k) = (class_lists k n)\<lparr>sp_lock := True\<rparr>"
  shows "(subs (relist_free (Sub k) (first_slab_at k) (Suc n) (nobj (3 + k)) st) (Sub k))\<lparr>sp_lock := False\<rparr> = class_lists k (Suc n)"
  using assms(2,3) nobj_class [OF assms(1)] by (auto simp: relist_free_def upd_sub_def slab_del_def class_lists_def)

lemma relist_free_others:
  assumes "i \<noteq> k" and "e \<notin> set (sp_busy (subs st (Sub i))) \<union> set (sp_part (subs st (Sub i))) \<union> set (sp_free (subs st (Sub i)))"
  shows "subs (relist_free (Sub k) e m n st) (Sub i) = subs st (Sub i)"
  using assms by (simp add: relist_free_def upd_sub_def slab_del_def remove1_idem)

lemma class_release:
  assumes r: "class_rel mps k js st" and j: "j < nobj (3 + k)" "j \<notin> set js"
  shows "\<exists>st'. kfree (Suc d) (class_obj k j) st = Inr st' \<and> class_rel mps k (j # js) st'
    \<and> (\<forall>i ls. i \<noteq> k \<longrightarrow> class_rel mps i ls st \<longrightarrow> class_rel mps i ls st')"
proof -
  let ?e = "first_slab_at k" and ?lg = "3 + k" and ?p = "class_obj k j" and ?pg = "0x901 + k"
  note C = class_relD [OF r] and W = class_wf [OF r] and O = class_obj_in_page [OF class_relD(1) [OF r] j(1)]
  have lg: "?lg < 32" using C(1) by simp
  have ev: "even (unat ?e)" using first_slab_unat [OF C(1)] by simp
  obtain pa where pa: "pa = first_pa k + of_nat (j * 2 ^ ?lg)" by blast
  have tr: "slub_va_to_pa ?p st = Inr pa" unfolding pa O(2) by (rule class_translates [OF r O(3)])
  have m: "unat (of_nat (j * 2 ^ ?lg) :: u32) = j * 2 ^ ?lg"
    unfolding unat_of_nat by (rule mod_less, rule less_trans [OF O(3)]) simp
  have u: "unat pa = (0x901 + k) * 4096 + j * 2 ^ ?lg"
    using unat_add_no_overflow [of "first_pa k" "of_nat (j * 2 ^ ?lg)"] first_unat(2) [OF C(1)] O(3) C(1) unfolding m pa by simp
  have fr: "frame_of pa = ?pg" unfolding frame_of_unat u using O(3) by simp
  have lt: "pa < ramsz (pmem st)" using C(7) O(3) C(1) unfolding word_less_nat_alt u by simp
  have "unat pa < 0xffffffff" unfolding u using O(3) C(1) by simp
  then have ne: "pa \<noteq> 0xffffffff" by auto
  have us: "bits_get (pflags (ram_map (pmem st) ?pg)) PGF_USE = usage_val PGF_USE_SLUB"
    by (simp only: C(8) first_page_def page.simps slab_flags [OF lg])
  have pg: "slub_page site pa st = Inr ?pg" for site
    using lt us by (simp add: slub_page_def pm_ram_get_page_def fr)
  have ld: "slub_leader site ?pg st = Inr ?e" for site
    using leader_bit [OF ev] by (simp add: slub_leader_def C(8) first_page_def Let_def)
  have sz: "int (unat (bits_get (pflags (ram_map (pmem st) ?pg)) PGF_SLUB_LSIZE)) - int SLUB_SUBPAGE_START = int k"
  proof -
    have "unat (of_nat ?lg :: u32) = ?lg" using lg by (simp only: unat_of_nat len_of_numeral_defs) simp
    then show ?thesis by (simp only: C(8) first_page_def page.simps slab_flags [OF lg]) (simp add: slub_consts)
  qed
  let ?u = "upd_sub (Sub k) (\<lambda>s. s\<lparr>sp_lock := True\<rparr>) st"
  let ?v = "pushed ?p j ?e ?u"
  let ?w = "relist_free (Sub k) ?e (Suc (length js)) (nobj ?lg) ?v"
  have idx: "?lg - SLUB_SUBPAGE_START = k" by (simp add: slub_consts)
  have lock: "\<not> sp_lock (subs st (Sub k))" by (simp add: C(11) class_lists_def)
  have po: "?p = obj (sl_p (slab st ?e)) ?lg j" by (simp only: C(10) class_obj_def)
  have un: "bits_get (pflags (ram_map (pmem st) ?pg)) PGF_UNIT = of_nat PM_UNIT_PAGE" by (simp only: C(8) first_page_def page.simps slab_flags [OF lg])
  have kf: "kfree_subpages ?p (Sub k) ?pg ?e st = Inr (sub_unlock (Sub k) ?w)"
    using kfree_subpages_pushes [where lg = ?lg and src = "Sub k" and st = st and sl = ?e and p = ?p and pg = ?pg and js = js and j = j, unfolded idx,
        OF C(9) j(2,1) W(4) W(4) po lock un] by (simp only: Let_def)
  have run: "kfree (Suc d) ?p st = Inr (sub_unlock (Sub k) ?w)"
    using C(1) ne kf by (simp add: tr pg ld sz [simplified]) (simp add: slub_consts)
  define f where "f = sub_unlock (Sub k) ?w"
  have len: "length js < nobj ?lg"
  proof -
    have "distinct (j # js)" "\<forall>i\<in>set (j # js). i < nobj ?lg" using W(1,2) j by simp_all
    from distinct_bound [OF this] show ?thesis by simp
  qed
  have sv: "subs ?v = (subs st)(Sub k := (class_lists k (length js))\<lparr>sp_lock := True\<rparr>)" by (simp add: pushed_def C(11))
  have wu: "slab_wf ?u (Sub k) ?e js" using C(9) by (subst slab_wf_cong [of _ _ st]) simp_all
  have wv: "slab_wf ?v (Sub k) ?e (j # js)" by (rule pushed_wf [OF wu j(2,1)]) (use W(4) po in simp_all)
  have sf: "subs f (Sub k) = class_lists k (Suc (length js))"
    using lists_after_release [OF C(1) len, of ?v] sv by (simp add: f_def sub_unlock_def)
  have kf': "pd f = pd st" "pmem f = pmem st" "ptm f = (ptm st)(?p := ucast (sl_free (slab st ?e)))"
    "slab f x = (if x = ?e then (slab st ?e)\<lparr>sl_free := of_nat j, sl_nfree := sl_nfree (slab st ?e) + 1\<rparr> else slab st x)" for x
    by (simp_all add: f_def sub_unlock_def upd_sub_def relist_free_rest pushed_def upd_slab_def set_word_def)
  have words: "ptm f a = ptm st a" if "4096 \<le> unat (a - first_va k)" for a using that O(1) by (auto simp: kf')
  have wf: "slab_wf f (Sub k) ?e (j # js)"
  proof -
    have "sp_log_sz (subs f (Sub k)) = sp_log_sz (subs ?v (Sub k))" by (simp add: sf sv class_lists_def)
    moreover have "slab f ?e = slab ?v ?e" "ptm f = ptm ?v" by (simp_all add: f_def sub_unlock_def relist_free_rest)
    ultimately show ?thesis using wv slab_wf_cong [of f "Sub k" ?v ?e] by blast
  qed
  have "mps \<noteq> ?e" using C(4) first_slab_unat [OF C(1)] C(1) by auto
  then have "area_known mps f" using C(3) by (simp add: area_known_def kf')
  moreover have "ptm f (mmu_slub_area + 4 * of_nat (247 + k)) = first_te k" using C(6) O(4) by (auto simp: kf')
  ultimately have "class_rel mps k (j # js) f" unfolding class_rel_def using C wf sf by (simp add: kf')
  moreover have "class_rel mps i ls f" if i: "i \<noteq> k" "class_rel mps i ls st" for i ls
  proof (rule class_keep [OF i(2) C(1) i(1) kf'(1,2) _ _ words])
    show "slab f x = slab st x" if "x \<noteq> ?e" for x using that by (simp add: kf')
    have ne: "?e \<noteq> first_slab_at i" using first_slab_inj [OF C(1) class_relD(1) [OF i(2)]] i(1) by auto
    have si: "subs ?v (Sub i) = class_lists i (length ls)" using sv i(1) class_relD(11) [OF i(2)] by simp
    have "subs ?w (Sub i) = subs ?v (Sub i)" by (rule relist_free_others [OF i(1)]) (use ne si in \<open>simp add: class_lists_def\<close>)
    then show "subs f (Sub i) = subs st (Sub i)" using sv i(1) by (simp add: f_def sub_unlock_def)
  qed
  ultimately show ?thesis using run unfolding f_def by blast
qed

section \<open>Series of operations\<close>

datatype heap_op = Request u32 | Release nat

fun heap_run :: "nat \<Rightarrow> nat \<Rightarrow> heap_op list \<Rightarrow> slub_state \<Rightarrow> (slub_state \<times> addr list) res" where
  "heap_run d k [] st = Inr (st, [])"
| "heap_run d k (Request n # ops) st =
    bind_res (kmalloc d n st) (\<lambda>(st, p). bind_res (heap_run d k ops st) (\<lambda>(st, ps). Inr (st, p # ps)))"
| "heap_run d k (Release j # ops) st = bind_res (kfree d (class_obj k j) st) (heap_run d k ops)"

text \<open>The abstract allocator: the free objects, and the objects that are handed out. Legal are requests of the class while there is an object, and releases of objects
  that are not free.\<close>

fun heap_spec :: "heap_op list \<Rightarrow> nat list \<Rightarrow> nat list \<times> nat list" where
  "heap_spec [] js = (js, [])"
| "heap_spec (Request n # ops) js = (case heap_spec ops (tl js) of (js', out) \<Rightarrow> (js', hd js # out))"
| "heap_spec (Release j # ops) js = heap_spec ops (j # js)"

fun heap_legal :: "nat \<Rightarrow> heap_op list \<Rightarrow> nat list \<Rightarrow> bool" where
  "heap_legal k [] js \<longleftrightarrow> True"
| "heap_legal k (Request n # ops) js \<longleftrightarrow> n \<noteq> 0 \<and> size_class n = Some k \<and> js \<noteq> [] \<and> heap_legal k ops (tl js)"
| "heap_legal k (Release j # ops) js \<longleftrightarrow> j < nobj (3 + k) \<and> j \<notin> set js \<and> heap_legal k ops (j # js)"

lemma heap_refines:
  assumes "class_rel mps k js st" and "heap_legal k ops js"
  shows "\<exists>st'. heap_run (Suc d) k ops st = Inr (st', map (class_obj k) (snd (heap_spec ops js))) \<and> class_rel mps k (fst (heap_spec ops js)) st'
    \<and> (\<forall>i ls. i \<noteq> k \<longrightarrow> class_rel mps i ls st \<longrightarrow> class_rel mps i ls st')"
  using assms
proof (induction ops arbitrary: js st)
  case (Cons op ops)
  show ?case
  proof (cases op)
    case (Request n)
    then obtain j js' where js: "js = j # js'" and l: "n \<noteq> 0" "size_class n = Some k" "heap_legal k ops js'"
      using Cons.prems(2) by (cases js) auto
    obtain s1 where s1: "kmalloc (Suc d) n st = Inr (s1, class_obj k j)" "class_rel mps k js' s1"
        "\<forall>i ls. i \<noteq> k \<longrightarrow> class_rel mps i ls st \<longrightarrow> class_rel mps i ls s1"
      using class_request [OF Cons.prems(1) [unfolded js] l(2,1), of d] by blast
    obtain s2 where "heap_run (Suc d) k ops s1 = Inr (s2, map (class_obj k) (snd (heap_spec ops js')))" "class_rel mps k (fst (heap_spec ops js')) s2"
        "\<forall>i ls. i \<noteq> k \<longrightarrow> class_rel mps i ls s1 \<longrightarrow> class_rel mps i ls s2" using Cons.IH [OF s1(2) l(3)] by blast
    then show ?thesis using s1 by (intro exI [of _ s2]) (cases "heap_spec ops js'"; simp add: Request js del: kmalloc.simps)
  next
    case (Release j)
    then have l: "j < nobj (3 + k)" "j \<notin> set js" "heap_legal k ops (j # js)" using Cons.prems(2) by simp_all
    obtain s1 where s1: "kfree (Suc d) (class_obj k j) st = Inr s1" "class_rel mps k (j # js) s1"
        "\<forall>i ls. i \<noteq> k \<longrightarrow> class_rel mps i ls st \<longrightarrow> class_rel mps i ls s1"
      using class_release [OF Cons.prems(1) l(1,2), of d] by blast
    obtain s2 where "heap_run (Suc d) k ops s1 = Inr (s2, map (class_obj k) (snd (heap_spec ops (j # js))))" "class_rel mps k (fst (heap_spec ops (j # js))) s2"
        "\<forall>i ls. i \<noteq> k \<longrightarrow> class_rel mps i ls s1 \<longrightarrow> class_rel mps i ls s2" using Cons.IH [OF s1(2) l(3)] by blast
    then show ?thesis using s1 by (intro exI [of _ s2]) (simp add: Release del: kfree.simps)
  qed
qed simp

text \<open>What a request gets was free at that time.\<close>

lemma heap_spec_fresh:
  assumes "heap_legal k (pre @ Request n # post) js"
  shows "snd (heap_spec (pre @ Request n # post) js) ! length (snd (heap_spec pre js)) \<in> set (fst (heap_spec pre js))"
  using assms
proof (induction pre arbitrary: js)
  case Nil
  then show ?case by (cases "heap_spec post (tl js)") simp
next
  case (Cons op pre)
  show ?case
  proof (cases op)
    case (Request x)
    then show ?thesis using Cons.IH [of "tl js"] Cons.prems
      by (cases "heap_spec pre (tl js)"; cases "heap_spec (pre @ Request n # post) (tl js)"; simp)
  qed (use Cons in simp)
qed

section \<open>Properties\<close>

text \<open>C39: The allocator of small objects refines its specification. After the start-up of memory, every legal series of requests of one size class
  (other than that of sixteen bytes, which also serves the descriptors) and of releases runs to its end without an assertion or a deadlock: a request gets the first
  object of the list of free objects, so never one that is in use, a release puts the object in front of the list; and the
  first slabs of the other classes are as they were.\<close>

theorem small_objects_refine:
  assumes L: "layout_ok L" and boot: "boot_map L m = Inr m'" and tabs: "pd st = pd (boot_mmu L m')" "kpt st = kpt (boot_mmu L m')"
    and mp: "2048 \<le> length mp" and sz: "0x90a000 \<le> unat sz" and free: "slub_16byte_free st = 0"
    and slab: "bss_start L \<le> mps" "mps < bss_end L" "even (unat mps)" and epa: "unat epa mod 4096 = 0"
    and k: "k < 9" "k \<noteq> 1" and legal: "heap_legal k ops [0..<nobj (3 + k)]"
  shows "\<exists>m1 m2. kmain_memory (Suc d) b L mp mps epa 0 sz st = Inr m1
    \<and> heap_run (Suc d) k ops m1 = Inr (m2, map (class_obj k) (snd (heap_spec ops [0..<nobj (3 + k)])))
    \<and> class_rel mps k (fst (heap_spec ops [0..<nobj (3 + k)])) m2
    \<and> (\<forall>pre n post. ops = pre @ Request n # post \<longrightarrow>
        snd (heap_spec ops [0..<nobj (3 + k)]) ! length (snd (heap_spec pre [0..<nobj (3 + k)])) \<in> set (fst (heap_spec pre [0..<nobj (3 + k)])))
    \<and> (\<forall>i<9. i \<noteq> 1 \<longrightarrow> i \<noteq> k \<longrightarrow> class_rel mps i [0..<nobj (3 + i)] m2)"
proof -
  obtain m1 where m1: "kmain_memory (Suc d) b L mp mps epa 0 sz st = Inr m1" "\<forall>k<9. k \<noteq> 1 \<longrightarrow> class_rel mps k [0..<nobj (3 + k)] m1"
    using kmain_memory_result [OF L boot tabs mp sz free slab epa, of d b] by blast
  have "class_rel mps k [0..<nobj (3 + k)] m1" using m1(2) k by blast
  from heap_refines [OF this legal, of d] show ?thesis using m1 heap_spec_fresh legal by blast
qed

theorem small_objects_refine_witness:
  "\<exists>m' m1 m2. boot_map layout0 (\<lambda>_. 7) = Inr m'
    \<and> kmain_memory 22 RPI layout0 (replicate 2048 7) 0x40018000 0x21000 0 0x8000000
        (demo\<lparr>pd := pd (boot_mmu layout0 m'), kpt := kpt (boot_mmu layout0 m'), slub_16byte_free := 0\<rparr>) = Inr m1
    \<and> heap_run 22 2 [Request 20, Request 32, Release 0, Request 17] m1 = Inr (m2, [0xf7ff9000, 0xf7ff9020, 0xf7ff9000])"
proof -
  have L: "layout_ok layout0" by (simp add: layout_ok_def layout0_def si_def kmode_consts)
  obtain m' where m': "boot_map layout0 (\<lambda>_. 7) = Inr m'" using boot_map_result [OF L, of "\<lambda>_. 7"] by metis
  let ?st = "demo\<lparr>pd := pd (boot_mmu layout0 m'), kpt := kpt (boot_mmu layout0 m'), slub_16byte_free := 0\<rparr>"
  let ?ops = "[Request 20, Request 32, Release 0, Request 17]"
  have up: "[0..<nobj (3 + 2)] = 0 # 1 # [2..<128]" by (simp add: nobj_def upt_conv_Cons)
  have legal: "heap_legal 2 ?ops [0..<nobj (3 + 2)]"
    unfolding up by (simp add: size_class_eq upt_rec nobj_def)
  have h: "pd ?st = pd (boot_mmu layout0 m')" "kpt ?st = kpt (boot_mmu layout0 m')" "2048 \<le> length (replicate 2048 (7 :: u32))"
    "0x90a000 \<le> unat (0x8000000 :: u32)" "slub_16byte_free ?st = 0" "bss_start layout0 \<le> 0x40018000" "0x40018000 < bss_end layout0"
    "even (unat (0x40018000 :: addr))" "unat (0x21000 :: addr) mod 4096 = 0" "(2 :: nat) < 9" "(2 :: nat) \<noteq> 1" by (simp_all add: layout0_def)
  obtain m1 m2 where e: "kmain_memory (Suc 21) RPI layout0 (replicate 2048 7) 0x40018000 0x21000 0 0x8000000 ?st = Inr m1"
    and r: "heap_run (Suc 21) 2 ?ops m1 = Inr (m2, map (class_obj 2) (snd (heap_spec ?ops [0..<nobj (3 + 2)])))"
    using small_objects_refine [OF L m' h legal, of 21 RPI] by blast
  have d: "Suc 21 = 22" by simp
  have "map (class_obj 2) (snd (heap_spec ?ops [0..<nobj (3 + 2)])) = [0xf7ff9000, 0xf7ff9020, 0xf7ff9000]"
    unfolding up by (simp add: class_obj_def obj_def first_va_def)
  then show ?thesis using m' e r unfolding d by (intro exI [of _ m'] exI [of _ m1] exI [of _ m2]) (simp only: simp_thms)
qed

end
