(* ===== verification/Fb.thy ===== *)
theory Fb
  imports Sdhc SlubProps
begin

text \<open>
  The frame buffer, src/kernel/fb.c: the request to the VideoCore through the mailbox, the block of virtual memory that is
  reserved for it, its mapping and its first clearing.
\<close>

section \<open>Data\<close>

definition VM_UNIT_4MB :: nat where "VM_UNIT_4MB = 10"
definition SECTION_SIZE_SZ :: nat where "SECTION_SIZE_SZ = 20"

text \<open>The variable \<open>fb\<close>; the buffer \<open>b\<close> of the request is ten words at the address \<open>b\<close>, in the order of \<open>struct mbox_fb_buf\<close>.\<close>

record fb_state = sdhc_state +
  fb :: addr

definition fb_addr :: "addr \<Rightarrow> addr" where "fb_addr b = b + 32"
definition fb_sz :: "addr \<Rightarrow> addr" where "fb_sz b = b + 36"

text \<open>The words of the request: \<open>phy_width\<close>, \<open>phy_height\<close>, \<open>virt_width\<close>, \<open>virt_height\<close>, \<open>pitch\<close>, \<open>depth\<close>, \<open>virt_x\<close>, \<open>virt_y\<close>,
  \<open>addr\<close>, \<open>sz\<close>.\<close>

definition fb_request :: "u32 list" where
  "fb_request = [1024, 768, 1024, 768, 0, 24, 0, 0, 0, 0]"

definition fb_map_req :: "addr \<Rightarrow> addr \<Rightarrow> u32 \<Rightarrow> mmu_map_req" where
  "fb_map_req va pa n = \<lparr>mr_n = uint n, mr_va_start = va, mr_pa_start = pa, mr_mt = MT_NRM_IO_NC, mr_ap = AP_SRW,
     mr_mu = MAP_UNIT_SECTION, mr_flags = bits_on MMR_XN OR bits_on MMR_AF\<rparr>"

text \<open>\<open>memset(va, 0, n)\<close> on words: the last one may be cleared in part, its low bytes first.\<close>

definition clear_bytes :: "addr \<Rightarrow> nat \<Rightarrow> (addr \<Rightarrow> u32) \<Rightarrow> addr \<Rightarrow> u32" where
  "clear_bytes va n w =
    (let w = fold (\<lambda>k w. w(va + 4 * of_nat k := 0)) [0..<n div 4] w; a = va + 4 * of_nat (n div 4)
     in if n mod 4 = 0 then w else w(a := w a AND NOT (mask (8 * (n mod 4)))))"

section \<open>Set-up\<close>

text \<open>\<open>sleep\<close> is everything that happens while the thread waits for the mailbox, \<open>ior\<close> the request on its stack.\<close>

definition fb_init ::
    "('a fb_state_scheme \<Rightarrow> 'a fb_state_scheme res) \<Rightarrow> device \<Rightarrow> nat \<Rightarrow> addr \<Rightarrow> addr \<Rightarrow> 'a fb_state_scheme \<Rightarrow> 'a fb_state_scheme res" where
  "fb_init sleep dev d ior b st =
    bind_res (mbox_fb_alloc sleep dev ior b (put_words b fb_request st)) (\<lambda>st.
      let sz = align_up (word_at (fb_sz b) st) (push_bit SECTION_SIZE_SZ 1);
          sz = drop_bit SECTION_SIZE_SZ sz
      in assert_that ''fb.c:54'' (sz < 4)
        (bind_res (vm_alloc (kmalloc d) VMA_SLUB VM_UNIT_4MB 1 (mem st)) (\<lambda>(m, vas).
          let st = st\<lparr>mem := m, fb := hd vas\<rparr>
          in bind_res (mmu_map (mmu_slub_alloc d) mmu_slub_pa_to_va (fb_map_req (fb st) (word_at (fb_addr b) st) sz) (mem st)) (\<lambda>m.
            let st = st\<lparr>mem := m\<rparr>
            in Inr (st\<lparr>mem := m\<lparr>ptm := clear_bytes (fb st) (unat (word_at (fb_sz b) st)) (ptm m)\<rparr>\<rparr>)))))"

section \<open>Memory\<close>

text \<open>What \<open>fb_init\<close> finds when the reply has come: an area with a free block of 4 MB, no block mapped that is not in a segment, and an
  object of sixteen bytes at hand that is no segment.\<close>

definition fb_room :: "addr \<Rightarrow> nat \<Rightarrow> addr \<Rightarrow> slub_state \<Rightarrow> bool" where
  "fb_room e j p m \<longleftrightarrow> area_wf m \<and> \<not> vm_areas_lock m VMA_SLUB
    \<and> (\<exists>js. slab_wf m (Sub 1) e (j # js)) \<and> first_slab (Sub 1) m = Some e \<and> \<not> sp_lock (subs m (Sub 1))
    \<and> sp_log_sz (subs m (Sub 1)) = 4 \<and> slub_16byte_free m \<noteq> 5
    \<and> p = obj (sl_p (slab m e)) 4 j \<and> p \<notin> set (vm_areas m VMA_SLUB)
    \<and> (\<exists>i<32. \<forall>s\<in>set (vm_areas m VMA_SLUB). \<forall>x. in_block VM_UNIT_4MB (vm_block VM_UNIT_4MB i) x \<longrightarrow> \<not> in_seg (vseg m s) x)
    \<and> (\<forall>i<32. (\<forall>s\<in>set (vm_areas m VMA_SLUB). \<forall>x. in_block VM_UNIT_4MB (vm_block VM_UNIT_4MB i) x \<longrightarrow> \<not> in_seg (vseg m s) x)
         \<longrightarrow> (\<forall>k<4. bits_get (pd m (0xf00 + 4 * i + k)) PDE_TYPE0 = 0))"

lemma fb_block_allocated:
  assumes r: "fb_room e j p m"
  shows "\<exists>i<32. \<exists>m'. vm_alloc (kmalloc (Suc d)) VMA_SLUB VM_UNIT_4MB 1 m = Inr (m', [vm_block VM_UNIT_4MB i])
    \<and> (\<forall>s\<in>set (vm_areas m VMA_SLUB). \<forall>x. in_block VM_UNIT_4MB (vm_block VM_UNIT_4MB i) x \<longrightarrow> \<not> in_seg (vseg m s) x)
    \<and> area_wf m' \<and> vm_areas m' VMA_SLUB = p # vm_areas m VMA_SLUB \<and> pd m' = pd m \<and> kpt m' = kpt m
    \<and> ptm m' = (ptm m)(p := 0) \<and> pmem m' = pmem m"
proof -
  obtain js where wf: "slab_wf m (Sub 1) e (j # js)" using r by (auto simp: fb_room_def)
  note R = r [unfolded fb_room_def]
  define m1 where "m1 = m\<lparr>vm_areas_lock := (vm_areas_lock m)(VMA_SLUB := True)\<rparr>"
  have k: "subs m1 = subs m" "slab m1 = slab m" "ptm m1 = ptm m" "slub_16byte_free m1 = slub_16byte_free m" "vm_areas m1 = vm_areas m"
    "vseg m1 = vseg m" "pd m1 = pd m" "kpt m1 = kpt m" "pmem m1 = pmem m" by (simp_all add: m1_def)
  have wf1: "slab_wf m1 (Sub 1) e (j # js)" using wf by (simp add: slab_wf_def k)
  have "first_slab (Sub 1) m = Some e" using R by blast
  then have first: "first_slab (Sub 1) m1 = Some e" by (simp only: first_slab_def k)
  have lock: "\<not> sp_lock (subs m1 (Sub 1))" and grow: "sp_log_sz (subs m1 (Sub 1)) = 4 \<longrightarrow> slub_16byte_free m1 \<noteq> 5" using R by (simp_all add: k)
  have lg: "sp_log_sz (subs m1 (Sub 1)) = 4" "obj (sl_p (slab m1 e)) 4 j = p" using R by (simp_all add: k)
  obtain m2 where m2: "kmalloc_subpages (kmalloc d) (Sub 1) m1 = Inr (m2, p)"
    and e2: "m2 = m1\<lparr>ptm := (ptm m1)(p := 0), slab := (slab m1)(e := slab m2 e), subs := subs m2, slub_16byte_free := slub_16byte_free m1 - 1\<rparr>"
    using object_taken [OF wf1 first lock grow, of "kmalloc d"] unfolding lg by (auto simp: lg)
  have k2: "vm_areas m2 = vm_areas m" "vseg m2 = vseg m" "pd m2 = pd m" "kpt m2 = kpt m" "ptm m2 = (ptm m)(p := 0)" "pmem m2 = pmem m"
    by (subst e2, simp add: k)+
  have km: "kmalloc (Suc d) 16 m1 = Inr (m2, p)" using m2 by (simp only: kmalloc_16)
  have u: "VM_UNIT_4MB < VM_UNIT_MAX" "2 ^ (15 - VM_UNIT_4MB) = (32 :: nat)" by (simp_all add: VM_UNIT_4MB_def VM_UNIT_MAX_def)
  have wfa: "area_wf m" and l: "\<not> vm_areas_lock m VMA_SLUB" using R by simp_all
  have room: "\<exists>i<2 ^ (15 - VM_UNIT_4MB). \<forall>s\<in>set (vm_areas m VMA_SLUB). \<forall>x. in_block VM_UNIT_4MB (vm_block VM_UNIT_4MB i) x \<longrightarrow> \<not> in_seg (vseg m s) x"
    using R unfolding u by blast
  obtain i where i: "i < 32" "\<forall>s\<in>set (vm_areas m VMA_SLUB). \<forall>x. in_block VM_UNIT_4MB (vm_block VM_UNIT_4MB i) x \<longrightarrow> \<not> in_seg (vseg m s) x"
    and a: "vm_alloc (kmalloc (Suc d)) VMA_SLUB VM_UNIT_4MB 1 m = Inr (area_unlock VMA_SLUB
        (m2\<lparr>vseg := (vseg m2)(p := \<lparr>vs_start = vm_block VM_UNIT_4MB i, vs_flags = bits_set VSF_NPAGES (push_bit VM_UNIT_4MB 1)\<rparr>),
          vm_areas := (vm_areas m2)(VMA_SLUB := p # vm_areas m2 VMA_SLUB)\<rparr>), [vm_block VM_UNIT_4MB i])"
    using vm_alloc_total [where km = "kmalloc (Suc d)", OF wfa u(1) l room km [unfolded m1_def]] unfolding u by blast
  define f where "f = area_unlock VMA_SLUB
        (m2\<lparr>vseg := (vseg m2)(p := \<lparr>vs_start = vm_block VM_UNIT_4MB i, vs_flags = bits_set VSF_NPAGES (push_bit VM_UNIT_4MB 1)\<rparr>),
          vm_areas := (vm_areas m2)(VMA_SLUB := p # vm_areas m2 VMA_SLUB)\<rparr>)"
  have kf: "vm_areas f VMA_SLUB = p # vm_areas m VMA_SLUB" "pd f = pd m" "kpt f = kpt m" "ptm f = (ptm m)(p := 0)" "pmem f = pmem m"
    by (simp_all add: f_def area_unlock_def k2)
  have new: "p \<notin> set (vm_areas m VMA_SLUB)" using R by blast
  have km': "p' \<notin> set (vm_areas m VMA_SLUB) \<and> vm_areas m4 = vm_areas m \<and> vseg m4 = vseg m"
    if "area_lock VMA_SLUB m = Inr m3" "kmalloc (Suc d) 16 m3 = Inr (m4, p')" for m3 m4 p'
  proof -
    have "m3 = m1" using that(1) l by (simp add: area_lock_def m1_def)
    then have "m4 = m2" "p' = p" using that(2) km by simp_all
    then show ?thesis using new k2(1,2) by simp
  qed
  have "area_wf f" using vm_alloc_disjoint [where km = "kmalloc (Suc d)", OF wfa u(1) a [folded f_def]] km' by blast
  then show ?thesis using a [folded f_def] i kf by blast
qed

lemma fold_clear_words: "fold (\<lambda>k w. w(va + 4 * of_nat k := 0)) [0..<n] w x = (if \<exists>k<n. x = va + 4 * of_nat k then 0 else w x)" for x :: addr
  by (induction n) (auto simp: less_Suc_eq)

lemma clear_bytes_words: "k < n div 4 \<Longrightarrow> clear_bytes va n w (va + 4 * of_nat k) = 0"
  by (auto simp: clear_bytes_def Let_def fold_clear_words)

lemma fb_sections:
  assumes "n \<le> 0xfff00000" and "n = unat v"
  shows "unat (drop_bit SECTION_SIZE_SZ (align_up v (push_bit SECTION_SIZE_SZ 1))) = (n + 0xfffff) div 0x100000"
proof -
  have p: "push_bit SECTION_SIZE_SZ 1 = (2 ^ 20 :: u32)" by (simp add: SECTION_SIZE_SZ_def push_bit_eq_mult)
  have "unat (align_up v (2 ^ 20)) = (n + 2 ^ 20 - 1) div 2 ^ 20 * 2 ^ 20"
    unfolding assms(2) by (rule unat_align_up) (use assms(1) [unfolded assms(2)] in simp_all)
  moreover have "unat (drop_bit 20 w) = unat w div 2 ^ 20" for w :: u32 by (simp add: drop_bit_eq_div unat_div)
  moreover have "n + 2 ^ 20 - 1 = n + 0xfffff" by simp
  ultimately show ?thesis unfolding p SECTION_SIZE_SZ_def by (simp only:) simp
qed

text \<open>The mapping of the block: \<open>n\<close> sections from its start.\<close>

lemma fb_block_mapped:
  assumes i: "i < 32" and free: "\<forall>k<4. bits_get (pd m (0xf00 + 4 * i + k)) PDE_TYPE0 = 0"
    and sz: "0 < unat sz" "unat sz < 4" and pa: "unat pa mod 2 ^ 20 = 0" "unat pa + unat sz * 2 ^ 20 \<le> 2 ^ 32"
  shows "\<exists>q t. mmu_map sa p2v (fb_map_req (vm_block VM_UNIT_4MB i) pa sz) m = Inr (m\<lparr>pd := q, tlb := t\<rparr>)
    \<and> (\<forall>k<4096. \<not> (0xf00 + 4 * i \<le> k \<and> k < 0xf00 + 4 * i + unat sz) \<longrightarrow> q k = pd m k)
    \<and> (\<forall>k<4096. 0xf00 + 4 * i \<le> k \<and> k < 0xf00 + 4 * i + unat sz \<longrightarrow> bits_get (q k) PDE_TYPE0 = 2)
    \<and> (\<forall>k<unat sz * 2 ^ 20. \<forall>p2v. mmu_va_to_pa p2v (vm_block VM_UNIT_4MB i + of_nat k) (m\<lparr>pd := q, tlb := t\<rparr>) = Inr (pa + of_nat k))"
proof -
  let ?r = "fb_map_req (vm_block VM_UNIT_4MB i) pa sz"
  have u: "unat (vm_block VM_UNIT_4MB i) = (0xf00 + 4 * i) * 2 ^ 20"
    using unat_vm_block [of VM_UNIT_4MB i] i by (simp add: VM_UNIT_4MB_def VM_UNIT_MAX_def)
  have n: "nat (mr_n ?r) = unat sz" by (simp add: fb_map_req_def)
  have r: "mr_mu ?r = MAP_UNIT_SECTION" "mr_va_start ?r = vm_block VM_UNIT_4MB i" "mr_pa_start ?r = pa" by (simp_all add: fb_map_req_def)
  have "(0xf00 + 4 * i + unat sz) * 2 ^ 20 \<le> 2 ^ 32" using i sz by simp
  then have v: "unat (mr_va_start ?r) + unat sz * 2 ^ 20 \<le> 2 ^ 32" "unat (mr_va_start ?r) mod 2 ^ 20 = 0" unfolding r(2) u by (simp_all add: add_mult_distrib)
  have b: "req_bytes ?r = unat sz * 2 ^ 20" by (simp only: req_bytes_def n r(1)) simp
  have "0 < mr_n ?r" using n sz(1) by simp
  moreover have "mr_mt ?r \<noteq> MT_MAX" "mr_ap ?r \<noteq> AP_MAX" by (simp_all add: fb_map_req_def)
  moreover have "unit_bits MAP_UNIT_SECTION = 20" by simp
  ultimately have ok: "req_ok ?r" unfolding req_ok_def b r(1,3) using v pa by simp
  have f: "bits_get (pd m k) PDE_TYPE0 = 0" if k: "0xf00 + 4 * i \<le> k" "k < 0xf00 + 4 * i + nat (mr_n ?r)" for k
  proof -
    obtain c where c: "k = 0xf00 + 4 * i + c" using le_Suc_ex [OF k(1)] by blast
    then have "c < 4" using k(2) sz(2) unfolding n by linarith
    then show ?thesis unfolding c using free by blast
  qed
  have u': "unat (mr_va_start ?r) = (0xf00 + 4 * i) * 2 ^ 20" by (simp only: r(2) u)
  let ?P = "\<lambda>q t. mmu_map sa p2v ?r m = Inr (m\<lparr>pd := q, tlb := t\<rparr>)
      \<and> (\<forall>j<4096. q j = (if 0xf00 + 4 * i \<le> j \<and> j < 0xf00 + 4 * i + unat sz then section_de ?r (pa + of_nat (j - (0xf00 + 4 * i)) * 2 ^ 20) else pd m j))
      \<and> (\<forall>k<unat sz * 2 ^ 20. \<forall>p2v. mmu_va_to_pa p2v (vm_block VM_UNIT_4MB i + of_nat k) (m\<lparr>pd := q, tlb := t\<rparr>) = Inr (pa + of_nat k))"
  have "\<exists>q t. ?P q t" by (rule sections_mapped [OF r(1) ok u', unfolded n r(2,3)]) (erule (1) f [unfolded n])
  then obtain q t where x: "?P q t" by (elim exE) (rule that)
  note q = x [THEN conjunct2, THEN conjunct1, rule_format]
  have "q k = pd m k" if "k < 4096" "\<not> (0xf00 + 4 * i \<le> k \<and> k < 0xf00 + 4 * i + unat sz)" for k
    unfolding q [OF that(1)] using that(2) by (rule if_not_P)
  moreover have "bits_get (q k) PDE_TYPE0 = 2" if "k < 4096" "0xf00 + 4 * i \<le> k \<and> k < 0xf00 + 4 * i + unat sz" for k
    unfolding q [OF that(1)] if_P [OF that(2)] by (rule section_de_type)
  ultimately have "(\<forall>k<4096. \<not> (0xf00 + 4 * i \<le> k \<and> k < 0xf00 + 4 * i + unat sz) \<longrightarrow> q k = pd m k)
    \<and> (\<forall>k<4096. 0xf00 + 4 * i \<le> k \<and> k < 0xf00 + 4 * i + unat sz \<longrightarrow> bits_get (q k) PDE_TYPE0 = 2)" by blast
  then show ?thesis using x by blast
qed

section \<open>Properties\<close>

text \<open>C36: The frame buffer. When the reply has come, with a buffer of up to 3 MB that starts at a section: \<open>fb_init\<close> reserves a block of
  4 MB that was in no segment, maps the sections that hold the buffer and no others, and clears it; every byte of the buffer
  translates to its place, and the area stays well formed. A larger buffer stops in the assertion of line 54, although the
  comment there allows 4 MB; no buffer at all stops in \<open>mmu_map\<close>.\<close>

theorem fb_init_maps:
  fixes st :: "'a fb_state_scheme"
  assumes reply: "mbox_fb_alloc sleep dev ior b (put_words b fb_request st) = Inr s"
    and room: "fb_room e j p (mem s)" and buf: "p \<noteq> fb_addr b" "p \<noteq> fb_sz b"
    and n: "n = unat (word_at (fb_sz b) s)" and pa: "pa = word_at (fb_addr b) s"
  shows "(0 < n \<and> n \<le> 0x300000 \<and> unat pa mod 2 ^ 20 = 0 \<and> unat pa + 0x300000 \<le> 2 ^ 32 \<longrightarrow>
      (\<exists>st' i. i < 32 \<and> fb_init sleep dev (Suc d) ior b st = Inr st' \<and> fb st' = vm_block VM_UNIT_4MB i
        \<and> (\<forall>g\<in>set (vm_areas (mem s) VMA_SLUB). \<forall>x. in_block VM_UNIT_4MB (fb st') x \<longrightarrow> \<not> in_seg (vseg (mem s) g) x)
        \<and> area_wf (mem st') \<and> vm_areas (mem st') VMA_SLUB = p # vm_areas (mem s) VMA_SLUB
        \<and> (\<forall>k<n. slub_va_to_pa (fb st' + of_nat k) (mem st') = Inr (pa + of_nat k))
        \<and> (\<forall>k<n div 4. ptm (mem st') (fb st' + 4 * of_nat k) = 0)
        \<and> (\<forall>k<4096. \<not> (0xf00 + 4 * i \<le> k \<and> k < 0xf00 + 4 * i + (n + 0xfffff) div 0x100000) \<longrightarrow> pd (mem st') k = pd (mem s) k)))
    \<and> (0x300000 < n \<and> n \<le> 0xfff00000 \<longrightarrow> fb_init sleep dev (Suc d) ior b st = Inl (Assert ''fb.c:54''))
    \<and> (n = 0 \<longrightarrow> fb_init sleep dev (Suc d) ior b st = Inl (Assert ''mmu.c:297''))"
proof -
  let ?sz = "drop_bit SECTION_SIZE_SZ (align_up (word_at (fb_sz b) s) (push_bit SECTION_SIZE_SZ 1))"
  obtain i m' where i: "i < 32" and a: "vm_alloc (kmalloc (Suc d)) VMA_SLUB VM_UNIT_4MB 1 (mem s) = Inr (m', [vm_block VM_UNIT_4MB i])"
    and new: "\<forall>g\<in>set (vm_areas (mem s) VMA_SLUB). \<forall>x. in_block VM_UNIT_4MB (vm_block VM_UNIT_4MB i) x \<longrightarrow> \<not> in_seg (vseg (mem s) g) x"
    and m': "area_wf m'" "vm_areas m' VMA_SLUB = p # vm_areas (mem s) VMA_SLUB" "pd m' = pd (mem s)" "ptm m' = (ptm (mem s))(p := 0)"
    using fb_block_allocated [OF room, of d] by blast
  define s1 where "s1 = s\<lparr>mem := m', fb := vm_block VM_UNIT_4MB i\<rparr>"
  have w: "word_at (fb_addr b) s1 = pa" "word_at (fb_sz b) s1 = word_at (fb_sz b) s"
    using buf pa by (simp_all add: word_at_def s1_def m')
  have run: "fb_init sleep dev (Suc d) ior b st = assert_that ''fb.c:54'' (?sz < 4)
      (bind_res (mmu_map (mmu_slub_alloc (Suc d)) mmu_slub_pa_to_va (fb_map_req (vm_block VM_UNIT_4MB i) pa ?sz) m') (\<lambda>m.
        Inr (s1\<lparr>mem := m\<lparr>ptm := clear_bytes (vm_block VM_UNIT_4MB i) (unat (word_at (fb_sz b) (s1\<lparr>mem := m\<rparr>))) (ptm m)\<rparr>\<rparr>)))"
    unfolding fb_init_def reply bind_res_simps Let_def a prod.case list.sel
    using w by (simp add: s1_def del: kmalloc.simps)
  have lt: "n < 2 ^ 32" using n unat_u32_less [of "word_at (fb_sz b) s"] by simp
  have big: "fb_init sleep dev (Suc d) ior b st = Inl (Assert ''fb.c:54'')" if "0x300000 < n" "n \<le> 0xfff00000"
  proof -
    have "4 \<le> unat ?sz" unfolding fb_sections [OF that(2) n] using that(1) by simp
    then have "\<not> ?sz < 4" by (simp add: word_less_nat_alt)
    then show ?thesis unfolding run by simp
  qed
  have none: "fb_init sleep dev (Suc d) ior b st = Inl (Assert ''mmu.c:297'')" if "n = 0"
  proof -
    have "unat ?sz = 0" using fb_sections [OF _ n] that by simp
    then have "?sz = 0" by (simp only: unat_eq_0)
    then show ?thesis unfolding run by (simp add: mmu_map_def fb_map_req_def)
  qed
  have map: "\<exists>st' i. i < 32 \<and> fb_init sleep dev (Suc d) ior b st = Inr st' \<and> fb st' = vm_block VM_UNIT_4MB i
        \<and> (\<forall>g\<in>set (vm_areas (mem s) VMA_SLUB). \<forall>x. in_block VM_UNIT_4MB (fb st') x \<longrightarrow> \<not> in_seg (vseg (mem s) g) x)
        \<and> area_wf (mem st') \<and> vm_areas (mem st') VMA_SLUB = p # vm_areas (mem s) VMA_SLUB
        \<and> (\<forall>k<n. slub_va_to_pa (fb st' + of_nat k) (mem st') = Inr (pa + of_nat k))
        \<and> (\<forall>k<n div 4. ptm (mem st') (fb st' + 4 * of_nat k) = 0)
        \<and> (\<forall>k<4096. \<not> (0xf00 + 4 * i \<le> k \<and> k < 0xf00 + 4 * i + (n + 0xfffff) div 0x100000) \<longrightarrow> pd (mem st') k = pd (mem s) k)"
    if c: "0 < n" "n \<le> 0x300000" "unat pa mod 2 ^ 20 = 0" "unat pa + 0x300000 \<le> 2 ^ 32"
  proof -
    have z: "unat ?sz = (n + 0xfffff) div 0x100000" by (rule fb_sections [OF _ n]) (use c in simp)
    have sz: "0 < unat ?sz" "unat ?sz < 4" "n \<le> unat ?sz * 2 ^ 20" "unat ?sz * 2 ^ 20 \<le> 0x300000"
    proof -
      define a where "a = (n + 0xfffff) div 0x100000"
      have e: "a * 0x100000 + (n + 0xfffff) mod 0x100000 = n + 0xfffff" "(n + 0xfffff) mod 0x100000 < 0x100000"
        unfolding a_def by (rule div_mult_mod_eq) simp
      have "a \<le> 0x3fffff div 0x100000" unfolding a_def by (rule div_le_mono) (use c(2) in simp)
      then have "a \<le> 3" by simp
      then show "0 < unat ?sz" "unat ?sz < 4" "n \<le> unat ?sz * 2 ^ 20" "unat ?sz * 2 ^ 20 \<le> 0x300000"
        unfolding z a_def [symmetric] using e c(1) by simp_all
    qed
    have free: "\<forall>k<4. bits_get (pd m' (0xf00 + 4 * i + k)) PDE_TYPE0 = 0"
      using room new i unfolding m' fb_room_def by blast
    have pa': "unat pa + unat ?sz * 2 ^ 20 \<le> 2 ^ 32" using sz(4) c(4) by linarith
    obtain q t where x: "mmu_map (mmu_slub_alloc (Suc d)) mmu_slub_pa_to_va (fb_map_req (vm_block VM_UNIT_4MB i) pa ?sz) m' = Inr (m'\<lparr>pd := q, tlb := t\<rparr>)"
      and q0: "\<forall>k<4096. \<not> (0xf00 + 4 * i \<le> k \<and> k < 0xf00 + 4 * i + unat ?sz) \<longrightarrow> q k = pd m' k"
      and q2: "\<forall>k<4096. 0xf00 + 4 * i \<le> k \<and> k < 0xf00 + 4 * i + unat ?sz \<longrightarrow> bits_get (q k) PDE_TYPE0 = 2"
      and tr: "\<forall>k<unat ?sz * 2 ^ 20. \<forall>p2v. mmu_va_to_pa p2v (vm_block VM_UNIT_4MB i + of_nat k) (m'\<lparr>pd := q, tlb := t\<rparr>) = Inr (pa + of_nat k)"
      using fb_block_mapped [OF i free sz(1,2) c(3) pa', of "mmu_slub_alloc (Suc d)" mmu_slub_pa_to_va] by blast
    let ?M = "m'\<lparr>pd := q, tlb := t\<rparr>"
    have w': "word_at (fb_sz b) (s1\<lparr>mem := ?M\<rparr>) = word_at (fb_sz b) s" using w(2) by (simp add: word_at_def s1_def)
    define f where "f = s1\<lparr>mem := ?M\<lparr>ptm := clear_bytes (vm_block VM_UNIT_4MB i) n (ptm m')\<rparr>\<rparr>"
    have ok: "?sz < 4" using sz(2) by (simp add: word_less_nat_alt)
    have r: "fb_init sleep dev (Suc d) ior b st = Inr f"
      unfolding run x bind_res_simps w' n [symmetric] using ok by (simp add: f_def)
    have kf: "fb f = vm_block VM_UNIT_4MB i" "pd (mem f) = q" "vm_areas (mem f) = vm_areas m'" "vseg (mem f) = vseg m'"
      "ptm (mem f) = clear_bytes (vm_block VM_UNIT_4MB i) n (ptm m')" by (simp_all add: f_def s1_def)
    have tf: "slub_va_to_pa (fb f + of_nat k) (mem f) = Inr (pa + of_nat k)" if k: "k < n" for k
    proof -
      have u: "unat (vm_block VM_UNIT_4MB i) = (0xf00 + 4 * i) * 2 ^ 20"
        using unat_vm_block [of VM_UNIT_4MB i] i by (simp add: VM_UNIT_4MB_def VM_UNIT_MAX_def)
      have k': "k < unat ?sz * 2 ^ 20" "unat (of_nat k :: u32) = k" using k sz(3) c(2) by (simp_all add: unat_of_nat)
      have "unat (vm_block VM_UNIT_4MB i + of_nat k) = (0xf00 + 4 * i) * 2 ^ 20 + k"
        using unat_add_no_overflow [of "vm_block VM_UNIT_4MB i" "of_nat k"] u k'(2) i k c(2) by simp
      moreover have "((0xf00 + 4 * i) * 2 ^ 20 + k) div 2 ^ 20 = 0xf00 + 4 * i + k div 2 ^ 20" by simp
      ultimately have x: "unat (vm_block VM_UNIT_4MB i + of_nat k) div 2 ^ 20 = 0xf00 + 4 * i + k div 2 ^ 20" by (simp only:)
      have "k div 2 ^ 20 < unat ?sz" using k'(1) by (rule less_mult_imp_div_less)
      then have "unat (vm_block VM_UNIT_4MB i + of_nat k) div 2 ^ 20 < 4096" "0xf00 + 4 * i \<le> unat (vm_block VM_UNIT_4MB i + of_nat k) div 2 ^ 20"
        "unat (vm_block VM_UNIT_4MB i + of_nat k) div 2 ^ 20 < 0xf00 + 4 * i + unat ?sz" unfolding x using i sz(2) by linarith+
      then have ty: "bits_get (pd ?M (unat (vm_block VM_UNIT_4MB i + of_nat k) div 2 ^ 20)) PDE_TYPE0 = 2" using q2 by simp
      have "slub_va_to_pa (fb f + of_nat k) (mem f) = mmu_va_to_pa mmu_slub_pa_to_va (vm_block VM_UNIT_4MB i + of_nat k) ?M"
        unfolding slub_va_to_pa_def kf(1) by (rule va_to_pa_cong) (use ty kf(2) in simp_all)
      then show ?thesis using tr k'(1) by simp
    qed
    have "area_wf (mem f)" using m'(1) by (simp add: area_wf_def kf)
    moreover have "\<forall>k<n div 4. ptm (mem f) (fb f + 4 * of_nat k) = 0" unfolding kf by (simp add: clear_bytes_words)
    moreover have "\<forall>k<4096. \<not> (0xf00 + 4 * i \<le> k \<and> k < 0xf00 + 4 * i + (n + 0xfffff) div 0x100000) \<longrightarrow> pd (mem f) k = pd (mem s) k"
      using q0 unfolding z kf(2) m'(3) .
    ultimately show ?thesis using i r kf(1,3) new m'(2) tf by (intro exI [of _ f] exI [of _ i]) simp
  qed
  show ?thesis by (intro conjI impI) (elim conjE, erule (3) map, elim conjE, erule (1) big, erule none)
qed

text \<open>A VideoCore that grants a buffer of \<open>n\<close> bytes at 0x3c100000, for the example.\<close>

definition fb_mem :: slub_state where
  "fb_mem = demo\<lparr>pd := (\<lambda>j. if j = 0x400 then 2 else 0), slub_16byte_free := 9, vm_areas := (\<lambda>_. [0xf7ff8000]),
     vseg := (\<lambda>_. \<lparr>vs_start = 0xf7ff7000, vs_flags = bits_set VSF_NPAGES 9\<rparr>)\<rparr>"

definition fb0 :: fb_state where
  "fb0 = sdhc_state.extend (uart_state.extend (mbox_state.extend (mbox0\<lparr>mem := fb_mem\<rparr>) (uart_state.fields 0))
     (sdhc_state.fields 0 0 0 (\<lambda>_. \<lparr>ci_cmd = SDHC_CMD0, ci_arg = 0, ci_resp = 0\<rparr>))) (fb_state.fields 0)"

definition fb_reply :: "u32 \<Rightarrow> fb_state \<Rightarrow> fb_state res" where
  "fb_reply n st = Inr (upd_req 0x2000 (\<lambda>r. r\<lparr>ir_done := True\<rparr>) (put_words 0x40010040 [0x3c100000, n] st))"

definition fb_replied :: "u32 \<Rightarrow> fb_state" where
  "fb_replied n = projr (mbox_fb_alloc (fb_reply n) (\<lambda>_ _. 0) 0x2000 0x40010020 (put_words 0x40010020 fb_request fb0))"

text \<open>A request to an idle mailbox is written at once, and the thread waits.\<close>

lemma fb_alloc_waits:
  assumes q: "ioqs st mbox_ioq = \<lparr>q_in = [], q_busy = 0\<rparr>" and w: "mbox_word MBOX_IOCTL_FB_ALLOC b (mem st) = Inr w"
  shows "\<exists>s. mem s = mem st \<and> \<not> ir_done (reqs s ior) \<and> mbox_fb_alloc sleep (\<lambda>_ _. 0) ior b st = run_loop (ioq_wait_loop sleep ior s)"
proof -
  let ?r = "\<lparr>ir_type = IOR_TYPE_IOCTL, ir_async = False, ir_done = False, ir_status = 0, ir_cmd = MBOX_IOCTL_FB_ALLOC, ir_arg = b\<rparr>"
  define t where "t = upd_req ior (\<lambda>_. ?r) st"
  define u where "u = upd_ioq mbox_ioq (\<lambda>x. \<lparr>q_in = [ior], q_busy = 1\<rparr>) (t\<lparr>sch := (sch t)\<lparr>wqs := (wqs (sch t))(ioc_wait ior := [])\<rparr>\<rparr>)"
  have sub: "ioq_ior_submit (mbox_ioctl (\<lambda>_ _. 0)) mbox_ioq ior t = mbox_ioctl (\<lambda>_ _. 0) ior u"
    using q by (simp add: ioq_ior_submit_def t_def u_def ioq_ior_next_def ioq_ior_run_def upd_req_def upd_ioq_def Let_def)
  have ku: "reqs u ior = ?r" "mem u = mem st" by (simp_all add: u_def t_def upd_req_def upd_ioq_def)
  have "mbox_ioctl (\<lambda>_ _. 0) ior u = Inr (writel w (mbox_rw MBOX_ARM_WO) (u\<lparr>io_log := Rd (Mmio (mbox_status MBOX_ARM_WO)) 0 # io_log u\<rparr>))"
    using w by (simp add: mbox_ioctl_def ku poll_port_def poll.simps Let_def)
  then obtain s where s: "mbox_ioctl (\<lambda>_ _. 0) ior u = Inr s" "s = u\<lparr>io_log := io_log s\<rparr>"
    by (simp add: writel_def emit_def)
  have "reqs s ior = ?r" "mem s = mem st" by (subst s(2), simp add: ku)+
  then show ?thesis
    using sub s(1) by (intro exI [of _ s]) (simp add: mbox_fb_alloc_def mbox_request_def t_def ioq_ior_wait_def Let_def)
qed

lemma fb_word: "mbox_word MBOX_IOCTL_FB_ALLOC 0x40010020 (fb_mem\<lparr>ptm := f\<rparr>) = Inr 0x10021"
proof -
  have "bits_get (2 :: u32) PDE_TYPE0 = 2" "bits_get (2 :: u32) PDE_TYPE1 = 0" "base_pa PDE_S_BASE 2 0x40010020 = 0x10020"
    "unat (bits_get (0x40010020 :: addr) VA_PDE_IX) = 0x400" by code_simp+
  then have "slub_va_to_pa 0x40010020 (fb_mem\<lparr>ptm := f\<rparr>) = Inr 0x10020"
    by (simp add: slub_va_to_pa_def mmu_va_to_pa_def Let_def fb_mem_def)
  then show ?thesis by (simp add: mbox_word_def mbox_channel_def mbox_consts aligned_def)
qed

lemma fb_replied:
  "\<exists>s. mbox_fb_alloc (fb_reply n) (\<lambda>_ _. 0) 0x2000 0x40010020 (put_words 0x40010020 fb_request fb0) = Inr s
    \<and> mem s = fb_mem\<lparr>ptm := ptm (mem s)\<rparr> \<and> word_at 0x40010044 s = n \<and> word_at 0x40010040 s = 0x3c100000
    \<and> (\<forall>a. 0x40010048 \<le> unat a \<longrightarrow> ptm (mem s) a = ptm fb_mem a)"
proof -
  let ?t = "put_words 0x40010020 fb_request fb0"
  have m0: "mem fb0 = fb_mem" "ioqs fb0 mbox_ioq = \<lparr>q_in = [], q_busy = 0\<rparr>"
    by (simp_all add: fb0_def mbox0_def ioq0_def ioq_state.defs mbox_state.defs uart_state.defs sdhc_state.defs fb_state.defs)
  have t: "mem ?t = fb_mem\<lparr>ptm := ptm (mem ?t)\<rparr>" "ioqs ?t = ioqs fb0"
    by (simp_all add: put_words_def fb_request_def set_word_def m0)
  have far: "a \<noteq> 0x40010020 + 4 * of_nat k" if "0x40010048 \<le> unat a" "k < 10" for a :: addr and k
  proof -
    have "k \<in> {0,1,2,3,4,5,6,7,8,9}" using that(2) by auto
    then show ?thesis using that(1) by auto
  qed
  have o: "ptm (mem ?t) a = ptm fb_mem a" if a: "0x40010048 \<le> unat a" for a
    using far [OF a, of 0] far [OF a, of 1] far [OF a, of 2] far [OF a, of 3] far [OF a, of 4] far [OF a, of 5] far [OF a, of 6]
      far [OF a, of 7] far [OF a, of 8] far [OF a, of 9] by (simp add: put_words_def fb_request_def set_word_def m0)
  have "mbox_word MBOX_IOCTL_FB_ALLOC 0x40010020 (mem ?t) = Inr 0x10021" by (subst t(1)) (rule fb_word)
  from fb_alloc_waits [OF _ this, of "0x2000" "fb_reply n"] obtain s where s: "mem s = mem ?t" "\<not> ir_done (reqs s 0x2000)"
    and e: "mbox_fb_alloc (fb_reply n) (\<lambda>_ _. 0) 0x2000 0x40010020 ?t = run_loop (ioq_wait_loop (fb_reply n) 0x2000 s)" using t(2) m0(2) by auto
  let ?s = "upd_req 0x2000 (\<lambda>r. r\<lparr>ir_done := True\<rparr>) (put_words 0x40010040 [0x3c100000, n] s)"
  have "ioq_wait_loop (fb_reply n) 0x2000 s = Some (Inr ?s)"
    using s(2) by (subst ioq_wait_loop.simps, simp add: fb_reply_def, subst ioq_wait_loop.simps) (simp add: upd_req_def)
  then have r: "mbox_fb_alloc (fb_reply n) (\<lambda>_ _. 0) 0x2000 0x40010020 ?t = Inr ?s" by (simp add: e run_loop_def)
  have p: "ptm (mem ?s) = (ptm (mem ?t))(0x40010040 := 0x3c100000, 0x40010044 := n)" "mem ?s = (mem ?t)\<lparr>ptm := ptm (mem ?s)\<rparr>"
    by (simp_all add: upd_req_def put_words_def set_word_def s(1))
  have "ptm (mem ?s) a = ptm fb_mem a" if a: "0x40010048 \<le> unat a" for a
    using far [OF a, of 8] far [OF a, of 9] o [OF a] by (simp add: p(1))
  moreover have "mem ?s = fb_mem\<lparr>ptm := ptm (mem ?s)\<rparr>" by (subst p(2), subst t(1)) simp
  ultimately show ?thesis using r p(1) by (intro exI [of _ ?s]) (simp add: word_at_def)
qed
lemma fb_room_example:
  assumes m: "m = fb_mem\<lparr>ptm := ptm m\<rparr>" "\<forall>a. 0x40010048 \<le> unat a \<longrightarrow> ptm m a = ptm fb_mem a"
  shows "fb_room 0xf7ff8010 9 0xf7ff8090 m"
proof -
  have k: "pd m = pd fb_mem" "vm_areas m = (\<lambda>_. [0xf7ff8000])" "vseg m = (\<lambda>_. \<lparr>vs_start = 0xf7ff7000, vs_flags = bits_set VSF_NPAGES 9\<rparr>)"
    "vm_areas_lock m = (\<lambda>_. False)" "slab m = slab demo" "subs m = subs demo" "slub_16byte_free m = 9"
    by (subst m(1); simp add: fb_mem_def; simp add: demo_def)+
  have sp: "sl_p (slab demo 0xf7ff8010) = 0xf7ff8000" "first_slab (Sub 1) demo = Some 0xf7ff8010" by (simp_all add: demo_def first_slab_def)
  have e: "seg_end \<lparr>vs_start = 0xf7ff7000, vs_flags = bits_set VSF_NPAGES 9\<rparr> = vm_slub_end" by code_simp
  have "area_wf m" unfolding area_wf_def k e by (simp add: vm_slub_end_def vm_slub_start_def)
  moreover have "slab_wf m (Sub 1) 0xf7ff8010 [9, 10, 11, 12, 13]"
  proof (rule slab_wf_page [OF _ _ _ demo_wf])
    fix a :: addr assume "unat (a - sl_p (slab demo 0xf7ff8010)) < 4096"
    then have d: "unat (a - 0xf7ff8000) < 4096" unfolding sp .
    have "unat (0xf7ff8000 + (a - 0xf7ff8000)) = 0xf7ff8000 + unat (a - 0xf7ff8000)" by (subst unat_add_no_overflow) (use d in simp_all)
    then have "0x40010048 \<le> unat a" by simp
    then show "ptm m a = ptm demo a" using m(2) by (simp add: fb_mem_def)
  qed (simp_all add: k)
  moreover have "first_slab (Sub 1) m = Some 0xf7ff8010" unfolding first_slab_def k using sp(2) [unfolded first_slab_def] .
  moreover have "\<not> sp_lock (subs m (Sub 1))" "sp_log_sz (subs m (Sub 1)) = 4" unfolding k by (simp_all add: demo_def)
  moreover have "0xf7ff8090 = obj (sl_p (slab m 0xf7ff8010)) 4 9" unfolding k sp by (simp add: obj_def)
  moreover have "\<not> in_seg (vseg m g) x" if "in_block VM_UNIT_4MB (vm_block VM_UNIT_4MB 0) x" for g x
  proof -
    have "vm_block VM_UNIT_4MB 0 + vm_align VM_UNIT_4MB = 0xf0400000"
      by (simp add: vm_block_def vm_align_exp VM_UNIT_4MB_def VM_UNIT_MAX_def vm_slub_start_def)
    then have "x < 0xf0400000" using that by (simp add: in_block_def)
    then have "\<not> 0xf7ff7000 \<le> x" by (simp add: word_less_nat_alt word_le_nat_alt)
    then show ?thesis by (simp add: in_seg_def k)
  qed
  moreover have "bits_get (pd m (0xf00 + 4 * i + c)) PDE_TYPE0 = 0" for i c
  proof -
    have "pd m (0xf00 + 4 * i + c) = 0" unfolding k by (simp add: fb_mem_def)
    then show ?thesis by (simp add: bits_get_def bits_extract_def)
  qed
  ultimately show ?thesis unfolding fb_room_def by (intro conjI exI [of _ "[10, 11, 12, 13]"] exI [of _ 0]) (simp_all add: k)
qed

theorem fb_init_maps_witness:
  "\<exists>st' i. fb_init (fb_reply 0x240000) (\<lambda>_ _. 0) 22 0x2000 0x40010020 fb0 = Inr st' \<and> fb st' = vm_block VM_UNIT_4MB i
    \<and> slub_va_to_pa (fb st' + of_nat 0x1234) (mem st') = Inr 0x3c101234 \<and> ptm (mem st') (fb st' + 4 * of_nat 0x777) = 0
    \<and> fb_init (fb_reply 0x300001) (\<lambda>_ _. 0) 22 0x2000 0x40010020 fb0 = Inl (Assert ''fb.c:54'')"
proof -
  have d: "Suc 21 = 22" by simp
  have ad: "fb_sz 0x40010020 = 0x40010044" "fb_addr 0x40010020 = 0x40010040" by (simp_all add: fb_sz_def fb_addr_def)
  obtain s where s: "mbox_fb_alloc (fb_reply 0x240000) (\<lambda>_ _. 0) 0x2000 0x40010020 (put_words 0x40010020 fb_request fb0) = Inr s"
    and m: "mem s = fb_mem\<lparr>ptm := ptm (mem s)\<rparr>" "\<forall>a. 0x40010048 \<le> unat a \<longrightarrow> ptm (mem s) a = ptm fb_mem a"
    and w: "word_at 0x40010044 s = 0x240000" "word_at 0x40010040 s = 0x3c100000" using fb_replied [of "0x240000"] by blast
  have n: "(0x240000 :: nat) = unat (word_at (fb_sz 0x40010020) s)" "(0x3c100000 :: u32) = word_at (fb_addr 0x40010020) s" using w ad by simp_all
  have b: "(0xf7ff8090 :: addr) \<noteq> fb_addr 0x40010020" "(0xf7ff8090 :: addr) \<noteq> fb_sz 0x40010020" by (simp_all add: ad)
  note F = fb_init_maps [OF s fb_room_example [OF m] b n, of 21, unfolded d, THEN conjunct1]
  obtain st' i where 1: "fb_init (fb_reply 0x240000) (\<lambda>_ _. 0) 22 0x2000 0x40010020 fb0 = Inr st'" "fb st' = vm_block VM_UNIT_4MB i"
    and t: "\<forall>k<0x240000. slub_va_to_pa (fb st' + of_nat k) (mem st') = Inr (0x3c100000 + of_nat k)"
    and z: "\<forall>k<0x240000 div 4. ptm (mem st') (fb st' + 4 * of_nat k) = 0"
  proof -
    have "0 < (0x240000 :: nat) \<and> (0x240000 :: nat) \<le> 0x300000 \<and> unat (0x3c100000 :: u32) mod 2 ^ 20 = 0 \<and> unat (0x3c100000 :: u32) + 0x300000 \<le> 2 ^ 32" by simp
    from F [rule_format, OF this] that show thesis by blast
  qed
  obtain s2 where s2: "mbox_fb_alloc (fb_reply 0x300001) (\<lambda>_ _. 0) 0x2000 0x40010020 (put_words 0x40010020 fb_request fb0) = Inr s2"
    and m2: "mem s2 = fb_mem\<lparr>ptm := ptm (mem s2)\<rparr>" "\<forall>a. 0x40010048 \<le> unat a \<longrightarrow> ptm (mem s2) a = ptm fb_mem a"
    and w2: "word_at 0x40010044 s2 = 0x300001" "word_at 0x40010040 s2 = 0x3c100000" using fb_replied [of "0x300001"] by blast
  have n2: "(0x300001 :: nat) = unat (word_at (fb_sz 0x40010020) s2)" "(0x3c100000 :: u32) = word_at (fb_addr 0x40010020) s2" using w2 ad by simp_all
  have 2: "fb_init (fb_reply 0x300001) (\<lambda>_ _. 0) 22 0x2000 0x40010020 fb0 = Inl (Assert ''fb.c:54'')"
    using fb_init_maps [OF s2 fb_room_example [OF m2] b n2, of 21, unfolded d, THEN conjunct2, THEN conjunct1] by simp
  have 3: "slub_va_to_pa (fb st' + of_nat 0x1234) (mem st') = Inr 0x3c101234" using t [rule_format, of "0x1234"] by simp
  have 4: "ptm (mem st') (fb st' + 4 * of_nat 0x777) = 0" by (rule z [rule_format]) simp
  show ?thesis by (rule exI [of _ st'], rule exI [of _ i], intro conjI 1 2 3 4)
qed

end
