(* ===== verification/Cache.thy ===== *)
theory Cache
  imports Io
begin

text \<open>
  Maintenance of the data cache: \<open>mmu_dcache_clean\<close> and \<open>mmu_dcache_clean_inv\<close> of src/include/mmu.h, in the version
  for each board. Their effect is a log of the operations given to the cache; a line has 32 bytes.
\<close>

section \<open>Operations\<close>

definition CACHE_LINE_SIZE :: u32 where "CACHE_LINE_SIZE = 32"

datatype cache_op = Clean addr | CleanInv addr | CleanRange addr addr | CleanInvRange addr addr

text \<open>The loop of the version for QRPI2. The end of the range and the loop variable wrap at 32 bits.\<close>

partial_function (option) line_loop :: "(addr \<Rightarrow> cache_op) \<Rightarrow> addr \<Rightarrow> addr \<Rightarrow> cache_op list \<Rightarrow> cache_op list option" where
  "line_loop op i e l = (if i < e then line_loop op (i + CACHE_LINE_SIZE) e (l @ [op i]) else Some l)"

declare line_loop.simps [code]

definition mmu_dcache_clean_inv_qrpi2 :: "addr \<Rightarrow> u32 \<Rightarrow> cache_op list \<Rightarrow> cache_op list res" where
  "mmu_dcache_clean_inv_qrpi2 va sz l =
    (if sz \<le> 0 then Inr l
     else let s = va; e = s + sz in case line_loop CleanInv s e l of None \<Rightarrow> Inl Endless | Some l \<Rightarrow> Inr l)"

definition mmu_dcache_clean_inv_rpi :: "addr \<Rightarrow> u32 \<Rightarrow> cache_op list \<Rightarrow> cache_op list res" where
  "mmu_dcache_clean_inv_rpi va sz l = (if sz \<le> 0 then Inr l else let s = va; e = s + sz - 1 in Inr (l @ [CleanInvRange s e]))"

definition mmu_dcache_clean_qrpi2 :: "addr \<Rightarrow> u32 \<Rightarrow> cache_op list \<Rightarrow> cache_op list res" where
  "mmu_dcache_clean_qrpi2 va sz l =
    (if sz \<le> 0 then Inr l
     else let s = va; e = s + sz in case line_loop Clean s e l of None \<Rightarrow> Inl Endless | Some l \<Rightarrow> Inr l)"

definition mmu_dcache_clean_rpi :: "addr \<Rightarrow> u32 \<Rightarrow> cache_op list \<Rightarrow> cache_op list res" where
  "mmu_dcache_clean_rpi va sz l = (if sz \<le> 0 then Inr l else let s = va; e = s + sz - 1 in Inr (l @ [CleanRange s e]))"

text \<open>The preprocessor chooses.\<close>

definition mmu_dcache_clean_inv :: "board \<Rightarrow> addr \<Rightarrow> u32 \<Rightarrow> cache_op list \<Rightarrow> cache_op list res" where
  "mmu_dcache_clean_inv b = (case b of QRPI2 \<Rightarrow> mmu_dcache_clean_inv_qrpi2 | RPI \<Rightarrow> mmu_dcache_clean_inv_rpi)"

definition mmu_dcache_clean :: "board \<Rightarrow> addr \<Rightarrow> u32 \<Rightarrow> cache_op list \<Rightarrow> cache_op list res" where
  "mmu_dcache_clean b = (case b of QRPI2 \<Rightarrow> mmu_dcache_clean_qrpi2 | RPI \<Rightarrow> mmu_dcache_clean_rpi)"

section \<open>The lines they touch\<close>

text \<open>An operation on an address acts on the line that holds it, one on a range on every line between its ends.\<close>

fun op_lines :: "cache_op \<Rightarrow> nat set" where
  "op_lines (Clean a) = {unat a div 32}"
| "op_lines (CleanInv a) = {unat a div 32}"
| "op_lines (CleanRange s e) = {unat s div 32..unat e div 32}"
| "op_lines (CleanInvRange s e) = {unat s div 32..unat e div 32}"

definition lines :: "cache_op list \<Rightarrow> nat set" where "lines l = (\<Union>op\<in>set l. op_lines op)"

lemma line_loop_lines:
  assumes "unat i + 32 * k < 2 ^ 32" and "unat i + n \<le> unat i + 32 * k" and "32 * k < n + 32" and "unat e = unat i + n"
  shows "line_loop op i e l = Some (l @ map (\<lambda>j. op (i + 32 * of_nat j)) [0..<k])"
  using assms
proof (induction k arbitrary: i l n)
  case 0
  then have "\<not> i < e" by (simp add: word_less_nat_alt)
  then show ?case by (subst line_loop.simps) simp
next
  case (Suc k)
  then have lt: "i < e" by (simp add: word_less_nat_alt)
  have u: "unat (i + 32) = unat i + 32" using Suc.prems(1) by (subst unat_add_no_overflow) simp_all
  have "line_loop op (i + 32) e (l @ [op i]) = Some ((l @ [op i]) @ map (\<lambda>j. op (i + 32 + 32 * of_nat j)) [0..<k])"
  proof (cases "n < 32")
    case True
    then have "k = 0" using Suc.prems(3) by simp
    have "\<not> i + 32 < e" using True u Suc.prems(4) by (simp add: word_less_nat_alt)
    then show ?thesis using \<open>k = 0\<close> by (subst line_loop.simps) simp
  next
    case False
    show ?thesis by (rule Suc.IH [where n = "n - 32"]) (use Suc.prems False u in auto)
  qed
  moreover have "map (\<lambda>j. op (i + 32 * of_nat j)) [0..<Suc k] = op i # map (\<lambda>j. op (i + 32 + 32 * of_nat j)) [0..<k]"
    by (simp add: map_upt_Suc algebra_simps del: upt_Suc)
  ultimately show ?case using lt by (subst line_loop.simps) (simp add: CACHE_LINE_SIZE_def del: upt_Suc)
qed

lemma line_loop_endless:
  assumes "2 ^ 32 - 32 + unat i mod 32 < unat e"
  shows "line_loop op i e l = None"
proof -
  have "2 ^ 32 - 32 + unat i mod 32 < unat e \<longrightarrow> False" if "line_loop op i e l = Some y" for y
    using that
  proof (induction rule: line_loop.raw_induct [rotated 1, consumes 1, case_names loop])
    case (loop rec op i e l y)
    show ?case
    proof (cases "i < e")
      case True
      have "unat (i + 32) mod 32 = unat i mod 32" by (simp add: unat_word_ariths mod_mod_cancel)
      moreover have "rec op (i + CACHE_LINE_SIZE) e (l @ [op i]) = Some y" using loop(2) True by simp
      from loop(1) [OF this] have "2 ^ 32 - 32 + unat (i + CACHE_LINE_SIZE) mod 32 < unat e \<longrightarrow> False" .
      ultimately show ?thesis by (simp add: CACHE_LINE_SIZE_def)
    next
      case False
      have "unat i div 32 * 32 + unat i mod 32 = unat i" by simp
      moreover have "unat i div 32 \<le> 134217727" using unat_u32_less [of i] by (simp add: less_mult_imp_div_less less_Suc_eq_le [symmetric])
      ultimately have "unat i \<le> 4294967264 + unat i mod 32" by linarith
      then show ?thesis using False by (simp add: word_less_nat_alt)
    qed
  qed
  then show ?thesis using assms by (cases "line_loop op i e l") auto
qed


text \<open>The two functions differ in the operation only.\<close>

definition dcache_op :: "(addr \<Rightarrow> cache_op) \<Rightarrow> (addr \<Rightarrow> addr \<Rightarrow> cache_op) \<Rightarrow> board \<Rightarrow> addr \<Rightarrow> u32 \<Rightarrow> cache_op list \<Rightarrow> cache_op list res" where
  "dcache_op op rop b va sz l =
    (if sz = 0 then Inr l
     else case b of
       QRPI2 \<Rightarrow> (case line_loop op va (va + sz) l of None \<Rightarrow> Inl Endless | Some l \<Rightarrow> Inr l)
     | RPI \<Rightarrow> Inr (l @ [rop va (va + sz - 1)]))"

lemma dcache_op_simps: "mmu_dcache_clean = dcache_op Clean CleanRange" "mmu_dcache_clean_inv = dcache_op CleanInv CleanInvRange"
  by (simp_all add: fun_eq_iff mmu_dcache_clean_def mmu_dcache_clean_inv_def mmu_dcache_clean_qrpi2_def mmu_dcache_clean_inv_qrpi2_def
    mmu_dcache_clean_rpi_def mmu_dcache_clean_inv_rpi_def dcache_op_def Let_def split: board.split)

lemma lines_run:
  fixes va :: addr
  assumes op: "\<And>a. op_lines (op a) = {unat a div 32}" and s: "unat va + 32 * k \<le> 2 ^ 32"
  shows "lines (map (\<lambda>j. op (va + 32 * of_nat j)) [0..<k]) = {unat va div 32..<unat va div 32 + k}"
proof -
  have "unat (va + 32 * of_nat j) div 32 = unat va div 32 + j" if "j < k" for j
  proof -
    have "unat (of_nat (32 * j) :: u32) = 32 * j" using that s by (subst unat_of_nat) simp
    then have "unat (va + of_nat (32 * j)) = unat va + 32 * j" using that s unat_add_no_overflow [of va "of_nat (32 * j)"] by simp
    then show ?thesis by simp
  qed
  then have "lines (map (\<lambda>j. op (va + 32 * of_nat j)) [0..<k]) = (\<lambda>j. unat va div 32 + j) ` {..<k}"
    by (auto simp: lines_def op)
  then show ?thesis by (simp add: lessThan_atLeast0 image_add_atLeastLessThan add.commute)
qed

lemma dcache_op_lines:
  assumes op: "\<And>a. op_lines (op a) = {unat a div 32}" "\<And>s e. op_lines (rop s e) = {unat s div 32..unat e div 32}"
    and sz: "0 < unat sz" "unat va + unat sz < 2 ^ 32"
  shows "b = QRPI2 \<and> 2 ^ 32 - 32 + unat va mod 32 < unat va + unat sz \<Longrightarrow> dcache_op op rop b va sz l = Inl Endless"
    and "b = RPI \<or> unat va + unat sz \<le> 2 ^ 32 - 32 + unat va mod 32 \<Longrightarrow> \<exists>ops. dcache_op op rop b va sz l = Inr (l @ ops) \<and> lines ops =
        (if b = QRPI2 \<and> 32 \<le> unat va mod 32 + (unat sz - 1) mod 32
         then {unat va div 32..<(unat va + unat sz - 1) div 32} else {unat va div 32..(unat va + unat sz - 1) div 32})"
proof -
  have e: "unat (va + sz) = unat va + unat sz" using sz(2) by (simp add: unat_add_no_overflow)
  have n0: "sz \<noteq> 0" using sz(1) by auto
  show "dcache_op op rop b va sz l = Inl Endless" if "b = QRPI2 \<and> 2 ^ 32 - 32 + unat va mod 32 < unat va + unat sz"
    using that n0 by (simp add: dcache_op_def line_loop_endless e)
  show "\<exists>ops. dcache_op op rop b va sz l = Inr (l @ ops) \<and> lines ops =
        (if b = QRPI2 \<and> 32 \<le> unat va mod 32 + (unat sz - 1) mod 32
         then {unat va div 32..<(unat va + unat sz - 1) div 32} else {unat va div 32..(unat va + unat sz - 1) div 32})"
    if c: "b = RPI \<or> unat va + unat sz \<le> 2 ^ 32 - 32 + unat va mod 32"
  proof (cases b)
    case RPI
    have "unat (va + sz - 1) = unat va + unat sz - 1" using e sz by (subst unat_minus_one) auto
    then show ?thesis using n0 RPI by (simp add: dcache_op_def lines_def op(2))
  next
    case QRPI2
    define q where "q = unat va div 32"
    define r where "r = unat va mod 32"
    define p where "p = (unat sz - 1) div 32"
    define t where "t = (unat sz - 1) mod 32"
    have s: "unat va = 32 * q + r" "unat sz = 32 * p + t + 1" "r < 32" "t < 32"
      using sz(1) by (simp_all add: q_def r_def p_def t_def)
    have "32 * (q + p) < 2 ^ 32 - 32" using c QRPI2 s(1,2) unfolding r_def [symmetric] by simp
    then have "q + p < 2 ^ 27 - 1" by simp
    then have b: "unat va + 32 * Suc p < 2 ^ 32" using s(1,3) by simp
    have "line_loop op va (va + sz) l = Some (l @ map (\<lambda>j. op (va + 32 * of_nat j)) [0..<Suc p])"
      by (rule line_loop_lines [where n = "unat sz"]) (use b s e in auto)
    moreover have "lines (map (\<lambda>j. op (va + 32 * of_nat j)) [0..<Suc p]) = {q..<q + Suc p}"
      unfolding q_def by (rule lines_run [OF op(1)]) (use b in simp)
    moreover have "(unat va + unat sz - 1) div 32 = (if 32 \<le> r + t then q + p + 1 else q + p)"
      unfolding s using s(3,4) by auto
    moreover have "(if 32 \<le> r + t then {q..<q + p + 1} else {q..q + p}) = {q..<q + Suc p}" by auto
    ultimately show ?thesis using n0 QRPI2
      unfolding q_def [symmetric] r_def [symmetric] t_def [symmetric] dcache_op_def
      by (intro exI [of _ "map (\<lambda>j. op (va + 32 * of_nat j)) [0..<Suc p]"]) (simp only: option.case if_False board.case simp_thms split: if_splits)
  qed
qed

section \<open>Properties\<close>

text \<open>C35: Which lines are cleaned. On the Raspberry Pi it is every line of the range. The loop of the version for QEMU starts at
  the first byte and not at the first line: it misses the last line of the range when the offsets of the first byte and of the
  last byte against it add up to a line or more; and it does not end when the range comes within a line of the
  top of the address space. The ranges that the kernel cleans, words and groups of entries of tables, tables, and the
  buffers of the mailbox, are cleaned whole.\<close>

theorem dcache_clean_lines:
  assumes "f = mmu_dcache_clean \<or> f = mmu_dcache_clean_inv" and "0 < unat sz" and "unat va + unat sz < 2 ^ 32"
  shows "(b = QRPI2 \<and> 2 ^ 32 - 32 + unat va mod 32 < unat va + unat sz \<longrightarrow> f b va sz l = Inl Endless)
    \<and> (b = RPI \<or> unat va + unat sz \<le> 2 ^ 32 - 32 + unat va mod 32 \<longrightarrow> (\<exists>ops. f b va sz l = Inr (l @ ops) \<and> lines ops =
        (if b = QRPI2 \<and> 32 \<le> unat va mod 32 + (unat sz - 1) mod 32
         then {unat va div 32..<(unat va + unat sz - 1) div 32} else {unat va div 32..(unat va + unat sz - 1) div 32})))
    \<and> (unat sz \<in> {4, 16, 32, 64, 1024} \<and> unat va mod unat sz = 0 \<or> unat sz = 40 \<and> unat va mod 16 = 0
        \<longrightarrow> unat va mod 32 + (unat sz - 1) mod 32 < 32)"
proof -
  obtain op rop where f: "f = dcache_op op rop" and op: "\<And>a. op_lines (op a) = {unat a div 32}" "\<And>s e. op_lines (rop s e) = {unat s div 32..unat e div 32}"
    using assms(1) unfolding dcache_op_simps by (elim disjE) auto
  have "unat va mod 32 + (unat sz - 1) mod 32 < 32"
    if c: "unat sz \<in> {4, 16, 32, 64, 1024} \<and> unat va mod unat sz = 0 \<or> unat sz = 40 \<and> unat va mod 16 = 0"
  proof -
    have r: "unat va mod 32 mod 16 = unat va mod 16" "unat va mod 32 mod 4 = unat va mod 4" "unat va mod 64 mod 32 = unat va mod 32"
      "unat va mod 1024 mod 32 = unat va mod 32" by (simp_all add: mod_mod_cancel)
    have "unat va mod 32 < 32" by simp
    then have m: "unat va mod 16 = 0 \<Longrightarrow> unat va mod 32 \<le> 16" "unat va mod 4 = 0 \<Longrightarrow> unat va mod 32 \<le> 28" 
      unfolding r(1,2) [symmetric] by presburger+
    have z: "unat va mod 64 = 0 \<Longrightarrow> unat va mod 32 = 0" "unat va mod 1024 = 0 \<Longrightarrow> unat va mod 32 = 0"
      using r(3,4) by simp_all
    from c show ?thesis by (elim disjE conjE insertE) (use m z in auto)
  qed
  then show ?thesis using dcache_op_lines [OF op assms(2,3)] unfolding f by blast
qed

theorem dcache_clean_lines_witness:
  "mmu_dcache_clean QRPI2 0x101c 8 [] = Inr [Clean 0x101c] \<and> lines [Clean 0x101c] = {0x80}
    \<and> mmu_dcache_clean QRPI2 0xffffff00 0xf8 [] = Inl Endless"
proof -
  have "\<exists>ops. mmu_dcache_clean QRPI2 0x101c 8 [] = Inr ([] @ ops) \<and> lines ops = {0x80..<0x81}"
    using dcache_clean_lines [of mmu_dcache_clean 8 "0x101c" QRPI2 "[]"] by simp
  moreover have "mmu_dcache_clean QRPI2 0x101c 8 [] = Inr [Clean 0x101c]" by code_simp
  ultimately have "lines [Clean 0x101c] = {0x80..<0x81}" by simp
  moreover have "{0x80..<0x81 :: nat} = {0x80}" by auto
  moreover have "mmu_dcache_clean QRPI2 0xffffff00 0xf8 [] = Inl Endless"
    using dcache_clean_lines [of mmu_dcache_clean "0xf8" "0xffffff00" QRPI2 "[]"] by simp
  ultimately show ?thesis using \<open>mmu_dcache_clean QRPI2 0x101c 8 [] = Inr [Clean 0x101c]\<close> by simp
qed

end
