(* ===== verification/Switch.thy ===== *)
theory Switch
  imports Bits
begin

text \<open>
  The machine level of a context switch: \<open>_schedule\<close> of src/kernel/sched.s, the interrupt entry of
  src/kernel/excpt.s, and the first frame of a thread, which \<open>sched_thread_create\<close> of
  src/kernel/schedc.c builds. Instructions are functions on the registers, the status word and the words of memory.
  The C functions they call are arguments: \<open>callee\<close> says what the procedure call standard promises of
  them.
\<close>

section \<open>The processor\<close>

text \<open>Registers 13, 14 and 15 are those of supervisor mode, in which the kernel runs; \<open>lr_irq\<close> and \<open>spsr_irq\<close> are
  those of interrupt mode.\<close>

record cpu =
  reg :: "nat \<Rightarrow> u32"
  cpsr :: u32
  lr_irq :: u32
  spsr_irq :: u32
  ram :: "addr \<Rightarrow> u32"

abbreviation (input) SP :: nat where "SP \<equiv> 13"
abbreviation (input) LR :: nat where "LR \<equiv> 14"
abbreviation (input) PC :: nat where "PC \<equiv> 15"

definition set_reg :: "nat \<Rightarrow> u32 \<Rightarrow> cpu \<Rightarrow> cpu" where
  "set_reg r v c = c\<lparr>reg := (reg c)(r := v)\<rparr>"

fun store_words :: "addr \<Rightarrow> u32 list \<Rightarrow> (addr \<Rightarrow> u32) \<Rightarrow> addr \<Rightarrow> u32" where
  "store_words a [] m = m"
| "store_words a (w # ws) m = store_words (a + 4) ws (m(a := w))"

fun load_regs :: "nat list \<Rightarrow> addr \<Rightarrow> (addr \<Rightarrow> u32) \<Rightarrow> (nat \<Rightarrow> u32) \<Rightarrow> nat \<Rightarrow> u32" where
  "load_regs [] a m f = f"
| "load_regs (r # rs) a m f = load_regs rs (a + 4) m (f(r := m a))"

text \<open>The lowest register is at the lowest address.\<close>

definition push :: "nat list \<Rightarrow> cpu \<Rightarrow> cpu" where
  "push rs c =
    (let a = reg c SP - 4 * of_nat (length rs)
     in c\<lparr>ram := store_words a (map (reg c) rs) (ram c), reg := (reg c)(SP := a)\<rparr>)"

definition pop :: "nat list \<Rightarrow> cpu \<Rightarrow> cpu" where
  "pop rs c =
    (let a = reg c SP
     in c\<lparr>reg := (load_regs rs a (ram c) (reg c))(SP := a + 4 * of_nat (length rs))\<rparr>)"

text \<open>\<open>msr cpsr\<close> writes the flags and the control byte. \<open>cmp r, #0\<close> never borrows and never overflows.\<close>

definition msr_cpsr :: "u32 \<Rightarrow> cpu \<Rightarrow> cpu" where
  "msr_cpsr v c = c\<lparr>cpsr := (cpsr c AND 0x00ffff00) OR (v AND 0xff0000ff)\<rparr>"

definition cmp_zero :: "u32 \<Rightarrow> cpu \<Rightarrow> cpu" where
  "cmp_zero v c = c\<lparr>cpsr := (cpsr c AND 0x0fffffff) OR (v AND 0x80000000) OR (if v = 0 then 0x40000000 else 0) OR 0x20000000\<rparr>"

section \<open>The switch\<close>

definition all_regs :: "nat list" where "all_regs = [0..<13]"

text \<open>\<open>_schedule\<close>: \<open>r0\<close> and \<open>r1\<close> point to the members \<open>context\<close> of the next and of the running thread, \<open>ss\<close> is
  \<open>sched_switch\<close>.\<close>

definition save_context :: "cpu \<Rightarrow> cpu" where
  "save_context c =
    (let c = push (all_regs @ [LR]) c;
         c = set_reg 3 (cpsr c) c;
         c = set_reg 2 0 c;
         c = push [2, 3] c
     in c\<lparr>ram := (ram c)(reg c 1 := reg c SP)\<rparr>)"

definition load_context :: "(cpu \<Rightarrow> cpu) \<Rightarrow> cpu \<Rightarrow> cpu" where
  "load_context ss c =
    (let c = set_reg SP (ram c (reg c 0)) c;
         c = pop [2, 3] c;
         c = msr_cpsr (reg c 3) c;
         c = cmp_zero (reg c 2) c
     in if reg c 2 = 0
        then pop ([1..<13] @ [PC]) (pop [2] c)
        else pop (all_regs @ [PC]) (ss c))"

definition schedule_asm :: "(cpu \<Rightarrow> cpu) \<Rightarrow> cpu \<Rightarrow> cpu" where
  "schedule_asm ss c = load_context ss (save_context c)"

text \<open>The frame of a new thread: \<open>struct context\<close> at the top of its stack.\<close>

definition create_context :: "addr \<Rightarrow> addr \<Rightarrow> u32 \<Rightarrow> (addr \<Rightarrow> u32) \<Rightarrow> addr \<Rightarrow> u32" where
  "create_context stack_hi fn data m =
    (let ctx = stack_hi - 64 in m(ctx := 1, ctx + 4 := 0x153, ctx + 8 := data, ctx + 60 := fn))"

section \<open>The interrupt entry\<close>

text \<open>What the processor does when it takes an interrupt before the instruction at \<open>PC\<close>, and the code at the
  vector; \<open>ei\<close> is \<open>excpt_irq\<close>.\<close>

definition take_irq :: "cpu \<Rightarrow> cpu" where
  "take_irq c = c\<lparr>lr_irq := reg c PC + 4, spsr_irq := cpsr c, cpsr := (cpsr c AND NOT 0x3f) OR 0x192\<rparr>"

definition irq_entry :: "(cpu \<Rightarrow> cpu) \<Rightarrow> cpu \<Rightarrow> cpu" where
  "irq_entry ei c =
    (let c = c\<lparr>lr_irq := lr_irq c - 4\<rparr>;
         a = reg c SP - 8;
         c = set_reg SP a (c\<lparr>ram := (ram c)(a := lr_irq c, a + 4 := spsr_irq c)\<rparr>);
         c = c\<lparr>cpsr := (cpsr c AND NOT 0x1f) OR 19\<rparr>;
         c = push [0, 1, 2, 3, 12, LR] c;
         c = ei c;
         c = pop [0, 1, 2, 3, 12, LR] c;
         a = reg c SP
     in c\<lparr>reg := (reg c)(PC := ram c a, SP := a + 8), cpsr := ram c (a + 4)\<rparr>)"

text \<open>A function of the C compiler: it keeps the registers that the standard reserves to the caller, and writes
  no words but those of \<open>W\<close>: its own stack and the data it changes.\<close>

definition callee :: "addr set \<Rightarrow> (cpu \<Rightarrow> cpu) \<Rightarrow> bool" where
  "callee W f \<longleftrightarrow> (\<forall>c. (\<forall>r\<in>{4..11} \<union> {SP}. reg (f c) r = reg c r) \<and> (\<forall>x. x \<notin> W \<longrightarrow> ram (f c) x = ram c x))"

section \<open>Frames on a stack\<close>

definition frame :: "(addr \<Rightarrow> u32) \<Rightarrow> addr \<Rightarrow> u32 list \<Rightarrow> bool" where
  "frame m a ws \<longleftrightarrow> (\<forall>k<length ws. m (a + 4 * of_nat k) = ws ! k)"

lemma frame_simps [simp]:
  "frame m a []"
  "frame m a (w # ws) \<longleftrightarrow> m a = w \<and> frame m (a + 4) ws"
proof -
  show "frame m a []" by (simp add: frame_def)
  have "(\<forall>k<Suc n. P k) \<longleftrightarrow> P 0 \<and> (\<forall>k<n. P (Suc k))" for n :: nat and P by (metis less_Suc_eq_0_disj zero_less_Suc Suc_mono)
  then show "frame m a (w # ws) \<longleftrightarrow> m a = w \<and> frame m (a + 4) ws"
    by (simp add: frame_def add.assoc)
qed

lemma frame_append: "frame m a (us @ vs) \<longleftrightarrow> frame m a us \<and> frame m (a + 4 * of_nat (length us)) vs"
  by (induction us arbitrary: a) (simp_all add: algebra_simps)

definition area :: "addr \<Rightarrow> nat \<Rightarrow> addr set" where
  "area a n = (\<lambda>k. a + 4 * of_nat k) ` {..<n}"

lemma area_Suc: "area a (Suc n) = insert a (area (a + 4) n)"
proof -
  have "(\<lambda>k. a + 4 * of_nat (Suc k)) = (\<lambda>k. a + 4 + 4 * of_nat k)" by (rule ext) (simp add: algebra_simps)
  then have "(\<lambda>k. a + 4 * of_nat k) ` Suc ` {..<n} = area (a + 4) n" by (simp only: area_def image_image)
  then show ?thesis unfolding area_def lessThan_Suc_eq_insert_0 by simp
qed

lemma frame_cong: "(\<And>x. x \<in> area a (length ws) \<Longrightarrow> m x = m' x) \<Longrightarrow> frame m a ws \<longleftrightarrow> frame m' a ws"
  by (simp add: frame_def area_def)

lemma frame_keep: "frame m a ws \<Longrightarrow> length ws = n \<Longrightarrow> (\<And>x. x \<in> area a n \<Longrightarrow> m' x = m x) \<Longrightarrow> frame m' a ws"
  by (simp add: frame_def area_def)

lemma store_words_other: "x \<notin> area a (length ws) \<Longrightarrow> store_words a ws m x = m x"
  by (induction ws arbitrary: a m) (simp_all add: area_Suc)

lemma word_index_inj:
  fixes a :: addr
  assumes "a + 4 * of_nat i = a + 4 * of_nat k" and "i < 0x40000000" and "k < 0x40000000"
  shows "i = k"
proof -
  have "of_nat (4 * i) = (of_nat (4 * k) :: u32)" using assms(1) by simp
  then have "unat (of_nat (4 * i) :: u32) = unat (of_nat (4 * k) :: u32)" by (rule arg_cong)
  moreover have "4 * i < 2 ^ 32" "4 * k < 2 ^ 32" using assms(2,3) by simp_all
  ultimately have "4 * i = 4 * k" by (simp only: unat_of_nat len_of_numeral_defs) simp
  then show ?thesis by simp
qed

lemma area_first: "n < 0x3fffffff \<Longrightarrow> a \<notin> area (a + 4) n"
proof
  assume n: "n < 0x3fffffff" and "a \<in> area (a + 4) n"
  then obtain k where k: "k < n" "a = a + 4 + 4 * of_nat k" by (auto simp: area_def)
  have "a + 4 + 4 * of_nat k = a + 4 * of_nat (Suc k)" by (simp add: algebra_simps)
  then have "a + 4 * of_nat 0 = a + 4 * of_nat (Suc k)" using k(2) by simp
  from word_index_inj [OF this] k(1) n show False by simp
qed

lemma area_apart: "n + k < 0x40000000 \<Longrightarrow> area a n \<inter> area (a + 4 * of_nat n) k = {}"
proof -
  assume nk: "n + k < 0x40000000"
  have False if i: "i < n" and j: "j < k" and e: "a + 4 * of_nat i = a + 4 * of_nat n + 4 * of_nat j" for i j
  proof -
    have "a + 4 * of_nat i = a + 4 * of_nat (n + j)" using e by (simp add: algebra_simps)
    from word_index_inj [OF this] i j nk show False by simp
  qed
  then show ?thesis by (auto simp: area_def)
qed

lemma store_words_frame: "length ws < 0x3fffffff \<Longrightarrow> frame (store_words a ws m) a ws"
  by (induction ws arbitrary: a m) (simp_all add: store_words_other area_first)

lemma load_regs_other: "r \<notin> set rs \<Longrightarrow> load_regs rs a m f r = f r"
  by (induction rs arbitrary: a f) simp_all

lemma load_regs_frame:
  assumes "frame m a (map g rs)" and "distinct rs" and "r \<in> set rs"
  shows "load_regs rs a m f r = g r"
  using assms by (induction rs arbitrary: a f) (auto simp: load_regs_other)


lemma status_keeps [simp]:
  "reg (msr_cpsr v c) = reg c" "ram (msr_cpsr v c) = ram c" "reg (cmp_zero v c) = reg c" "ram (cmp_zero v c) = ram c"
  by (simp_all add: msr_cpsr_def cmp_zero_def)

lemma push_regs: "reg (push rs c) = (reg c)(SP := reg c SP - 4 * of_nat (length rs))"
  and push_ram: "ram (push rs c) = store_words (reg c SP - 4 * of_nat (length rs)) (map (reg c) rs) (ram c)"
  and push_cpsr: "cpsr (push rs c) = cpsr c"
  by (simp_all add: push_def Let_def)

lemma pop_frame:
  assumes "frame (ram c) (reg c SP) (map g rs)" and "distinct rs"
  shows "reg (pop rs c) r = (if r = SP then reg c SP + 4 * of_nat (length rs) else if r \<in> set rs then g r else reg c r)"
  using assms by (simp add: pop_def Let_def load_regs_frame load_regs_other)

lemma pop_keeps: "ram (pop rs c) = ram c" "cpsr (pop rs c) = cpsr c"
  by (simp_all add: pop_def Let_def)

text \<open>What \<open>_schedule\<close> leaves on the stack of the thread that calls it.\<close>

definition saved_context :: "cpu \<Rightarrow> u32 list" where
  "saved_context c = 0 # cpsr c # map (reg c) (all_regs @ [LR])"

definition saved_area :: "cpu \<Rightarrow> addr set" where
  "saved_area c = insert (reg c 1) (area (reg c SP - 64) 16)"

lemma length_all_regs [simp]: "length all_regs = 13" by (simp add: all_regs_def)

lemma area_append: "area a (n + k) = area a n \<union> area (a + 4 * of_nat n) k"
  by (induction n arbitrary: a) (simp_all add: area_Suc algebra_simps, simp add: area_def)

lemma save_context_frame:
  assumes "reg c 1 \<notin> area (reg c SP - 64) 16"
  shows "frame (ram (save_context c)) (reg c SP - 64) (saved_context c)" and "ram (save_context c) (reg c 1) = reg c SP - 64"
    and "x \<notin> saved_area c \<Longrightarrow> ram (save_context c) x = ram c x"
    and "reg (save_context c) 0 = reg c 0"
proof -
  let ?a = "reg c SP - 64"
  let ?m = "store_words (?a + 8) (map (reg c) (all_regs @ [LR])) (ram c)"
  have r: "ram (save_context c) = (store_words ?a [0, cpsr c] ?m)(reg c 1 := ?a)"
    by (simp add: save_context_def Let_def push_regs push_ram push_cpsr set_reg_def)
  have d: "area ?a 2 \<inter> area (?a + 8) 14 = {}" using area_apart [of 2 14 ?a] by simp
  have "frame ?m (?a + 8) (map (reg c) (all_regs @ [LR]))" by (rule store_words_frame) simp
  then have "frame (store_words ?a [0, cpsr c] ?m) (?a + 8) (map (reg c) (all_regs @ [LR]))"
  proof (subst frame_cong [of _ _ _ ?m])
    fix x assume "x \<in> area (?a + 8) (length (map (reg c) (all_regs @ [LR])))"
    then have "x \<notin> area ?a (length [0, cpsr c])" using d by (auto simp: numeral_2_eq_2 [symmetric])
    then show "store_words ?a [0, cpsr c] ?m x = ?m x" by (rule store_words_other)
  qed
  moreover have "frame (store_words ?a [0, cpsr c] ?m) ?a [0, cpsr c]" by (rule store_words_frame) simp
  moreover have "saved_context c = [0, cpsr c] @ map (reg c) (all_regs @ [LR])" by (simp add: saved_context_def)
  ultimately have "frame (store_words ?a [0, cpsr c] ?m) ?a (saved_context c)"
    by (simp only: frame_append) simp
  then show "frame (ram (save_context c)) ?a (saved_context c)"
    unfolding r by (subst frame_cong [of _ _ _ "store_words ?a [0, cpsr c] ?m"]) (use assms in \<open>auto simp: saved_context_def\<close>)
  show "ram (save_context c) (reg c 1) = ?a" unfolding r by simp
  have "area ?a 16 = area ?a 2 \<union> area (?a + 8) 14" using area_append [of ?a 2 14] by simp
  then show "x \<notin> saved_area c \<Longrightarrow> ram (save_context c) x = ram c x"
    using store_words_other [of x ?a "[0, cpsr c]" ?m] unfolding r saved_area_def
    by (simp add: store_words_other numeral_2_eq_2 [symmetric] del: store_words.simps)
  show "reg (save_context c) 0 = reg c 0" by (simp add: save_context_def Let_def push_regs set_reg_def)
qed

lemma load_context_resumes:
  assumes f: "frame (ram c) (ram c (reg c 0)) (saved_context p)"
  shows "reg (load_context ss c) r = (if r = 0 then reg c 0 else if r < 13 then reg p r
      else if r = SP then ram c (reg c 0) + 64 else if r = PC then reg p LR else reg c r)"
    and "ram (load_context ss c) = ram c" and "cpsr (load_context ss c) AND 0xff = cpsr p AND 0xff"
proof -
  let ?a = "ram c (reg c 0)"
  define c1 where "c1 = set_reg SP ?a c"
  have k1: "reg c1 SP = ?a" "ram c1 = ram c" "reg c1 0 = reg c 0" by (simp_all add: c1_def set_reg_def)
  have r13: "[2, 3] = map (\<lambda>r. r) [2, 3 :: nat]" by simp
  define g where "g = (\<lambda>r :: nat. if r = 2 then 0 else cpsr p)"
  have "frame (ram c1) (reg c1 SP) (map g [2, 3])" using f by (simp add: saved_context_def g_def k1)
  note p1 = pop_frame [OF this]
  define c2 where "c2 = cmp_zero 0 (msr_cpsr (cpsr p) (pop [2, 3] c1))"
  have k2: "reg c2 SP = ?a + 8" "ram c2 = ram c" "reg c2 r = (if r = 2 then 0 else if r = 3 then cpsr p else if r = SP then ?a + 8 else reg c r)" for r
    unfolding c2_def cmp_zero_def msr_cpsr_def by (simp_all add: p1 g_def pop_keeps k1) (simp add: c1_def set_reg_def)
  define h where "h = (\<lambda>r. if r = PC then reg p LR else reg p r)"
  have l: "map (reg p) (all_regs @ [LR]) = reg p 0 # map h ([1..<13] @ [PC])"
    by (simp add: all_regs_def h_def upt_conv_Cons)
  have fr: "frame (ram c) (?a + 8) (map (\<lambda>_. reg p 0) [2 :: nat])" "frame (ram c) (?a + 12) (map h ([1..<13] @ [PC]))"
    using f unfolding saved_context_def l by (simp_all add: add.assoc)
  define c3 where "c3 = pop [2] c2"
  have f3: "frame (ram c2) (reg c2 SP) (map (\<lambda>_. reg p 0) [2 :: nat])" using fr(1) by (simp add: k2)
  have k3: "reg c3 r = (if r = SP then ?a + 12 else if r = 2 then reg p 0 else reg c2 r)" "ram c3 = ram c" for r
    unfolding c3_def using pop_frame [OF f3, of r] by (simp_all add: pop_keeps k2)
  have f4: "frame (ram c3) (reg c3 SP) (map h ([1..<13] @ [PC]))" using fr(2) by (simp only: k3) simp
  have e: "load_context ss c = pop ([1..<13] @ [PC]) c3"
    using p1 [of 2] p1 [of 3] k2(3) [of 2]
    by (simp add: load_context_def Let_def c3_def c2_def c1_def g_def)
  have d: "distinct ([1..<13] @ [PC])" by simp
  show "reg (load_context ss c) r = (if r = 0 then reg c 0 else if r < 13 then reg p r
      else if r = SP then ram c (reg c 0) + 64 else if r = PC then reg p LR else reg c r)"
    unfolding e pop_frame [OF f4 d] by (auto simp: k3 k2 h_def)
  show "ram (load_context ss c) = ram c" by (simp add: e pop_keeps k3)
  have "cpsr c3 = cpsr c2" by (simp add: c3_def pop_keeps)
  then show "cpsr (load_context ss c) AND 0xff = cpsr p AND 0xff"
    unfolding e pop_keeps c2_def cmp_zero_def msr_cpsr_def
    by (simp add: pop_keeps) (simp only: bit.conj_disj_distrib2 and.assoc, simp)
qed


text \<open>A new thread: the frame that \<open>create_context\<close> builds, and \<open>sched_switch\<close> on the new stack.\<close>

lemma load_context_fresh:
  assumes f: "frame (ram c) hi' [1, st, data]" "ram c (hi' + 60) = fn" and hi: "hi' = ram c (reg c 0)"
    and ss: "callee W ss" and W: "area (hi' + 8) 14 \<inter> W = {}"
  shows "reg (load_context ss c) 0 = data" and "reg (load_context ss c) PC = fn" and "reg (load_context ss c) SP = hi' + 64"
    and "x \<notin> W \<Longrightarrow> ram (load_context ss c) x = ram c x"
    and "\<exists>s. load_context ss c = pop (all_regs @ [PC]) (ss s) \<and> cpsr s AND 0xff = st AND 0xff \<and> reg s 0 = reg c 0"
proof -
  define c1 where "c1 = set_reg SP hi' c"
  have k1: "reg c1 SP = hi'" "ram c1 = ram c" "reg c1 0 = reg c 0" by (simp_all add: c1_def set_reg_def)
  define g where "g = (\<lambda>r :: nat. if r = 2 then 1 else st)"
  have "frame (ram c1) (reg c1 SP) (map g [2, 3])" using f by (simp add: g_def k1)
  note p1 = pop_frame [OF this]
  define c2 where "c2 = cmp_zero 1 (msr_cpsr st (pop [2, 3] c1))"
  have k2: "reg c2 SP = hi' + 8" "ram c2 = ram c" "reg c2 0 = reg c 0"
    unfolding c2_def by (simp_all add: p1 g_def pop_keeps k1)
  have e: "load_context ss c = pop (all_regs @ [PC]) (ss c2)"
    using p1 [of 2] p1 [of 3] by (simp add: load_context_def Let_def c2_def c1_def g_def hi)
  have s: "reg (ss c2) SP = hi' + 8" "\<And>x. x \<notin> W \<Longrightarrow> ram (ss c2) x = ram c x" using ss k2 by (auto simp: callee_def)
  define h where "h = (\<lambda>r. if r = PC then fn else ram c (hi' + 8 + 4 * of_nat r))"
  have "frame (ram c) (hi' + 8) (map h (all_regs @ [PC]))"
    unfolding frame_def
  proof (intro allI impI)
    fix k assume "k < length (map h (all_regs @ [PC]))"
    then have "k < 13 \<or> k = 13" by auto
    then show "ram c (hi' + 8 + 4 * of_nat k) = map h (all_regs @ [PC]) ! k"
      using f(2) by (auto simp: nth_append h_def all_regs_def add.commute)
  qed
  then have "frame (ram (ss c2)) (hi' + 8) (map h (all_regs @ [PC]))"
    by (subst frame_cong [of _ _ _ "ram c"]) (use s(2) W in auto)
  then have "frame (ram (ss c2)) (reg (ss c2) SP) (map h (all_regs @ [PC]))" using s(1) by simp
  note p = pop_frame [OF this]
  have d: "distinct (all_regs @ [PC])" by (simp add: all_regs_def)
  have 0: "0 \<in> set (all_regs @ [PC])" by (simp add: all_regs_def)
  show "reg (load_context ss c) 0 = data" using f(1) 0 unfolding e p [OF d] by (simp add: h_def add.commute)
  show "reg (load_context ss c) PC = fn" unfolding e p [OF d] by (simp add: h_def)
  show "reg (load_context ss c) SP = hi' + 64" unfolding e p [OF d] by (simp add: s)
  show "x \<notin> W \<Longrightarrow> ram (load_context ss c) x = ram c x" by (simp add: e pop_keeps s)
  have "cpsr c2 AND 0xff = st AND 0xff"
    unfolding c2_def cmp_zero_def msr_cpsr_def by (simp add: pop_keeps) (simp only: bit.conj_disj_distrib2 and.assoc, simp)
  then show "\<exists>s. load_context ss c = pop (all_regs @ [PC]) (ss s) \<and> cpsr s AND 0xff = st AND 0xff \<and> reg s 0 = reg c 0"
    using e k2 by blast
qed

lemma create_context_frame:
  "frame (create_context hi fn data m) (hi - 64) [1, 0x153, data]" "create_context hi fn data m (hi - 4) = fn"
  "x \<notin> area (hi - 64) 16 \<Longrightarrow> create_context hi fn data m x = m x"
proof -
  have n: "hi - 64 \<noteq> hi - 60" "hi - 64 \<noteq> hi - 56" "hi - 64 \<noteq> hi - 4" "hi - 60 \<noteq> hi - 56" "hi - 60 \<noteq> hi - 4" "hi - 56 \<noteq> hi - 4" by simp_all
  then show "frame (create_context hi fn data m) (hi - 64) [1, 0x153, data]" "create_context hi fn data m (hi - 4) = fn"
    by (simp_all add: create_context_def Let_def)
  have a: "hi - 64 + 4 * of_nat k \<in> area (hi - 64) 16" if "k < 16" for k using that by (auto simp: area_def)
  assume "x \<notin> area (hi - 64) 16"
  then have "x \<noteq> hi - 64" "x \<noteq> hi - 60" "x \<noteq> hi - 56" "x \<noteq> hi - 4" using a [of 0] a [of 1] a [of 2] a [of 15] by auto
  then show "create_context hi fn data m x = m x" by (simp add: create_context_def Let_def)
qed

lemma load_context_ram: "callee W ss \<Longrightarrow> x \<notin> W \<Longrightarrow> ram (load_context ss c) x = ram c x"
  by (simp add: load_context_def Let_def callee_def pop_keeps set_reg_def)

section \<open>Properties\<close>

text \<open>C33: A context switch gives a thread everything back. Thread \<open>A\<close> calls \<open>_schedule\<close> in state \<open>c\<close>; some time later
  another thread calls \<open>_schedule\<close> in state \<open>d\<close> to switch to \<open>A\<close>, and the frame and the member \<open>context\<close> of \<open>A\<close> were not
  written in between and are not those of the caller. Then \<open>A\<close> goes on behind its call, with its registers, its stack
  pointer, the control bits of its status word, and in \<open>r0\<close> the address of its own member \<open>context\<close>, which the code hands
  to \<open>sched_switch\<close>. The caller's context is saved in the same way.\<close>

theorem context_switch_roundtrip:
  assumes slots: "reg c 1 \<notin> area (reg c SP - 64) 16" "reg d 1 \<notin> area (reg d SP - 64) 16" "saved_area c \<inter> saved_area d = {}"
    and ss: "callee W ss" "saved_area c \<inter> W = {}"
    and kept: "\<forall>x\<in>saved_area c. ram d x = ram (schedule_asm ss c) x" and resume: "reg d 0 = reg c 1"
  shows "(\<forall>r. 1 \<le> r \<and> r \<le> SP \<longrightarrow> reg (schedule_asm ss d) r = reg c r) \<and> reg (schedule_asm ss d) PC = reg c LR
    \<and> reg (schedule_asm ss d) 0 = reg c 1 \<and> cpsr (schedule_asm ss d) AND 0xff = cpsr c AND 0xff
    \<and> ram (schedule_asm ss d) (reg d 1) = reg d SP - 64 \<and> frame (ram (schedule_asm ss d)) (reg d SP - 64) (saved_context d)
    \<and> (\<forall>x. x \<notin> saved_area d \<longrightarrow> ram (schedule_asm ss d) x = ram d x)"
proof -
  note sd = save_context_frame [OF slots(2)] and sc = save_context_frame [OF slots(1)]
  have same: "ram (save_context d) x = ram (save_context c) x" if x: "x \<in> saved_area c" for x
  proof -
    have "ram (save_context d) x = ram d x" by (rule sd(3)) (use x slots(3) in blast)
    also have "\<dots> = ram (schedule_asm ss c) x" using kept x by blast
    also have "\<dots> = ram (save_context c) x" unfolding schedule_asm_def by (rule load_context_ram [OF ss(1)]) (use x ss(2) in blast)
    finally show ?thesis .
  qed
  have slot: "ram (save_context d) (reg (save_context d) 0) = reg c SP - 64"
    using same [of "reg c 1"] sc(2) by (simp add: sd(4) resume saved_area_def)
  have "frame (ram (save_context d)) (reg c SP - 64) (saved_context c)"
    using sc(1) by (subst frame_cong [of _ _ _ "ram (save_context c)"]) (auto simp: saved_context_def saved_area_def intro!: same)
  then have "frame (ram (save_context d)) (ram (save_context d) (reg (save_context d) 0)) (saved_context c)" by (simp only: slot)
  note r = load_context_resumes [OF this, of ss, folded schedule_asm_def]
  have "reg (schedule_asm ss d) q = reg c q" if "1 \<le> q" "q \<le> SP" for q
  proof -
    have "q < SP \<or> q = SP" using that by auto
    then show ?thesis using that by (auto simp: r(1) slot)
  qed
  moreover have "reg (schedule_asm ss d) PC = reg c LR" "reg (schedule_asm ss d) 0 = reg c 1" by (simp_all add: r(1) sd(4) resume)
  ultimately show ?thesis using r(2,3) sd by simp
qed

text \<open>A new thread starts at its function. When \<open>_schedule\<close> switches to a thread whose frame \<open>sched_thread_create\<close> has built
  at the top of its stack, the processor goes on at the function with the argument in \<open>r0\<close> and an empty stack; \<open>sched_switch\<close>
  was called with the address of the member \<open>context\<close> of the new thread, in supervisor mode with interrupts
  enabled; and the context of the caller is saved.\<close>

lemma fresh_start:
  assumes slots: "reg c 1 \<notin> area (reg c SP - 64) 16" "reg c 0 \<notin> saved_area c" "area (hi - 64) 16 \<inter> saved_area c = {}"
    and ss: "callee W ss" "(area (hi - 64) 16 \<union> saved_area c) \<inter> W = {}"
    and new: "\<forall>x\<in>area (hi - 64) 16. ram c x = create_context hi fn data m x" "ram c (reg c 0) = hi - 64"
  shows "reg (schedule_asm ss c) PC = fn \<and> reg (schedule_asm ss c) 0 = data \<and> reg (schedule_asm ss c) SP = hi
    \<and> (\<exists>s. schedule_asm ss c = pop (all_regs @ [PC]) (ss s) \<and> cpsr s AND 0xff = 0x53 \<and> reg s 0 = reg c 0)
    \<and> ram (schedule_asm ss c) (reg c 1) = reg c SP - 64 \<and> frame (ram (schedule_asm ss c)) (reg c SP - 64) (saved_context c)"
proof -
  note s = save_context_frame [OF slots(1)]
  have keep: "ram (save_context c) x = create_context hi fn data m x" if "x \<in> area (hi - 64) 16" for x
    using s(3) [of x] slots(3) new(1) that by auto
  have a: "hi - 64 + 4 * of_nat k \<in> area (hi - 64) 16" if "k < 16" for k using that by (auto simp: area_def)
  have f: "frame (ram (save_context c)) (hi - 64) [1, 0x153, data]" "ram (save_context c) (hi - 64 + 60) = fn"
    using create_context_frame(1,2) [of hi fn data m] keep a [of 0] a [of 1] a [of 2] a [of 15] by simp_all
  have hi: "hi - 64 = ram (save_context c) (reg (save_context c) 0)" using s(3) [OF slots(2)] new(2) by (simp add: s(4))
  have "area (hi - 64) 16 = area (hi - 64) 2 \<union> area (hi - 64 + 8) 14" using area_append [of "hi - 64" 2 14] by simp
  then have W: "area (hi - 64 + 8) 14 \<inter> W = {}" using ss(2) by blast
  note l = load_context_fresh [OF f hi ss(1) W, folded schedule_asm_def]
  have out: "ram (schedule_asm ss c) x = ram (save_context c) x" if "x \<in> saved_area c" for x
    by (rule l(4)) (use that ss(2) in blast)
  have "frame (ram (schedule_asm ss c)) (reg c SP - 64) (saved_context c)"
    using s(1) by (subst frame_cong [of _ _ _ "ram (save_context c)"]) (auto simp: saved_context_def saved_area_def intro!: out)
  moreover have "ram (schedule_asm ss c) (reg c 1) = reg c SP - 64" using out [of "reg c 1"] s(2) by (simp add: saved_area_def)
  moreover have "(0x153 :: u32) AND 0xff = 0x53" by simp
  ultimately show ?thesis using l(1-3,5) s(4) by simp
qed


text \<open>C34: Interrupts are invisible to the code they interrupt. If \<open>excpt_irq\<close> keeps to the procedure call standard and does not
  write the 32 bytes below the stack pointer, where the entry has saved the registers, then the code goes on with
  the instruction before which it was interrupted, with every register and the status word unchanged; and
  the entry writes no words but those 32 bytes.\<close>

theorem irq_entry_transparent:
  assumes ei: "callee W ei" and W: "area (reg c SP - 32) 8 \<inter> W = {}"
  shows "(\<forall>r\<le>PC. reg (irq_entry ei (take_irq c)) r = reg c r) \<and> cpsr (irq_entry ei (take_irq c)) = cpsr c
    \<and> (\<forall>x. x \<notin> area (reg c SP - 32) 8 \<union> W \<longrightarrow> ram (irq_entry ei (take_irq c)) x = ram c x)"
proof -
  let ?a = "reg c SP - 32" and ?rs = "[0, 1, 2, 3, 12, LR]"
  define c1 where "c1 = (take_irq c)\<lparr>lr_irq := reg c PC, ram := (ram c)(?a + 24 := reg c PC, ?a + 28 := cpsr c),
    reg := (reg c)(SP := ?a + 24), cpsr := (cpsr (take_irq c) AND NOT 0x1f) OR 19\<rparr>"
  have k1: "reg c1 r = (if r = SP then ?a + 24 else reg c r)" "ram c1 = (ram c)(?a + 24 := reg c PC, ?a + 28 := cpsr c)" for r
    by (simp_all add: c1_def)
  define c2 where "c2 = push ?rs c1"
  have two: "area (?a + 24) 2 = {?a + 24, ?a + 28}" using area_Suc [of "?a + 24" 1] area_Suc [of "?a + 28" 0] by (simp add: area_def numeral_2_eq_2)
  have split: "area ?a 8 = area ?a 6 \<union> {?a + 24, ?a + 28}" using area_append [of ?a 6 2] two by simp
  have apart: "?a + 24 \<notin> area ?a 6" "?a + 28 \<notin> area ?a 6" using area_apart [of 6 2 ?a] two by auto
  have k2: "reg c2 SP = ?a" "ram c2 = store_words ?a (map (reg c1) ?rs) (ram c1)" "\<And>r. r \<noteq> SP \<Longrightarrow> reg c2 r = reg c r"
    unfolding c2_def push_regs push_ram by (simp_all add: k1)
  have f2: "frame (ram c2) ?a (map (reg c) ?rs)"
    unfolding k2(2) by (rule store_words_frame [THEN back_subst [of "frame _ _"]]) (simp_all add: k1)
  have eik: "ram (ei s) x = ram s x" if "x \<notin> W" for s x using ei that by (simp add: callee_def)
  have len: "length (map (reg c1) ?rs) = 6" by simp
  have o2: "ram c2 x = ram c1 x" if "x \<notin> area ?a 6" for x
    unfolding k2(2) by (rule store_words_other) (unfold len, rule that)
  have f3: "frame (ram (ei c2)) (reg (ei c2) SP) (map (reg c) ?rs)"
  proof -
    have "reg (ei c2) SP = ?a" using ei k2(1) by (simp add: callee_def)
    moreover have "frame (ram (ei c2)) ?a (map (reg c) ?rs)"
      by (rule frame_keep [OF f2, of 6]) (use W split in \<open>auto intro!: eik\<close>)
    ultimately show ?thesis by simp
  qed
  define c3 where "c3 = pop ?rs (ei c2)"
  have k3: "reg c3 r = (if r = SP then ?a + 24 else if r \<in> set ?rs then reg c r else reg (ei c2) r)" "ram c3 = ram (ei c2)" for r
    unfolding c3_def pop_keeps by (subst pop_frame [OF f3]) (use ei k2(1) in \<open>auto simp: callee_def\<close>)
  have e: "irq_entry ei (take_irq c) = c3\<lparr>reg := (reg c3)(PC := ram c3 (?a + 24), SP := ?a + 32), cpsr := ram c3 (?a + 28)\<rparr>"
  proof -
    have "reg c3 SP = ?a + 24" by (simp add: k3)
    moreover have "irq_entry ei (take_irq c) = c3\<lparr>reg := (reg c3)(PC := ram c3 (reg c3 SP), SP := reg c3 SP + 8), cpsr := ram c3 (reg c3 SP + 4)\<rparr>"
      unfolding c3_def c2_def c1_def by (simp add: irq_entry_def Let_def take_irq_def set_reg_def)
    ultimately show ?thesis by simp
  qed
  have ret: "ram c3 (?a + 24) = reg c PC" "ram c3 (?a + 28) = cpsr c"
    unfolding k3(2) using ei W split o2 [OF apart(1)] o2 [OF apart(2)] by (auto simp: callee_def k1)
  have "reg (irq_entry ei (take_irq c)) r = reg c r" if r: "r \<le> PC" for r
  proof -
    have "r = SP \<or> r = PC \<or> r \<in> set ?rs \<or> r \<in> {4..11}" using r by auto
    moreover have "reg (ei c2) r = reg c r" if "r \<in> {4..11}" using ei k2(3) [of r] that by (auto simp: callee_def)
    ultimately show ?thesis unfolding e ret by (auto simp: k3)
  qed
  moreover have "ram (irq_entry ei (take_irq c)) x = ram c x" if "x \<notin> area ?a 8 \<union> W" for x
    unfolding e using that split o2 [of x] ei by (auto simp: k3(2) k1(2) callee_def)
  moreover have "cpsr (irq_entry ei (take_irq c)) = cpsr c" unfolding e ret by simp
  ultimately show ?thesis by simp
qed


text \<open>Two threads, for the examples: one runs with its stack at 0x1000 and its member \<open>context\<close> at 0x4010, the other is new, with its
  stack up to 0x3000 and its member at 0x4050. \<open>sched_switch\<close> writes the word of \<open>current\<close>.\<close>

definition set_current :: "cpu \<Rightarrow> cpu" where
  "set_current c = c\<lparr>ram := (ram c)(0x5000 := reg c 0)\<rparr>"

definition switching :: cpu where
  "switching = \<lparr>reg = (\<lambda>r. if r = 0 then 0x4050 else if r = 1 then 0x4010 else if r = 13 then 0x1000 else of_nat r),
     cpsr = 0x60000013, lr_irq = 0, spsr_irq = 0, ram = (create_context 0x3000 0x8000 7 (\<lambda>_. 0))(0x4050 := 0x2fc0)\<rparr>"

definition switching_back :: cpu where
  "switching_back = (let s = schedule_asm set_current switching
     in s\<lparr>reg := (\<lambda>r. if r = 0 then 0x4010 else if r = 1 then 0x4050 else if r = 13 then 0x2f00 else 99)\<rparr>)"

lemma set_current_callee: "callee {0x5000} set_current"
  by (auto simp: callee_def set_current_def)

lemma area_16: "area a 16 = set (map (\<lambda>k. a + 4 * of_nat k) [0..<16])"
  by (auto simp: area_def)

theorem context_switch_roundtrip_witness:
  "reg (schedule_asm set_current switching_back) 4 = 4 \<and> reg (schedule_asm set_current switching_back) 15 = 14
    \<and> reg (schedule_asm set_current switching_back) 13 = 0x1000"
proof -
  have a: "reg switching 1 \<notin> area (reg switching 13 - 64) 16" "reg switching_back 1 \<notin> area (reg switching_back 13 - 64) 16"
    "saved_area switching \<inter> saved_area switching_back = {}" "saved_area switching \<inter> {0x5000} = {}"
    unfolding saved_area_def area_16 by (simp_all add: switching_def switching_back_def Let_def upt_rec)
  have k: "\<forall>x\<in>saved_area switching. ram switching_back x = ram (schedule_asm set_current switching) x"
    "reg switching_back 0 = reg switching 1" by (simp_all add: switching_back_def Let_def switching_def)
  from context_switch_roundtrip [OF a(1-3) set_current_callee a(4) k] show ?thesis by (simp add: switching_def)
qed

lemma fresh_start_example:
  "reg (schedule_asm set_current switching) 15 = 0x8000 \<and> reg (schedule_asm set_current switching) 0 = 7
    \<and> reg (schedule_asm set_current switching) 13 = 0x3000"
proof -
  have a: "reg switching 1 \<notin> area (reg switching 13 - 64) 16" "reg switching 0 \<notin> saved_area switching"
    "area (0x3000 - 64) 16 \<inter> saved_area switching = {}" "(area (0x3000 - 64) 16 \<union> saved_area switching) \<inter> {0x5000} = {}"
    unfolding saved_area_def area_16 by (simp_all add: switching_def upt_rec)
  have k: "\<forall>x\<in>area (0x3000 - 64) 16. ram switching x = create_context 0x3000 0x8000 7 (\<lambda>_. 0) x" "ram switching (reg switching 0) = 0x3000 - 64"
    unfolding area_16 by (simp_all add: switching_def upt_rec)
  from fresh_start [OF a(1-3) set_current_callee a(4) k] show ?thesis by simp
qed

theorem irq_entry_transparent_witness:
  "reg (irq_entry set_current (take_irq switching)) 3 = 3 \<and> cpsr (irq_entry set_current (take_irq switching)) = 0x60000013"
proof -
  have "area (reg switching 13 - 32) 8 = set (map (\<lambda>k. reg switching 13 - 32 + 4 * of_nat k) [0..<8])" by (auto simp: area_def)
  then have "area (reg switching 13 - 32) 8 \<inter> {0x5000} = {}" by (simp add: switching_def upt_rec)
  from irq_entry_transparent [OF set_current_callee this] show ?thesis by (simp add: switching_def)
qed

end
