(* ===== verification/Threads.thy ===== *)
theory Threads
  imports MemInit Switch
begin

text \<open>
  The threads of the kernel, on the memory that start-up leaves: a stack is a page of the allocator of src/kernel/slub.c, which takes the
  highest free page of the area, the next frame and an entry of the last table; \<open>sched_thread_create\<close> of src/kernel/schedc.c puts the first frame
  on it. The steps of Vm, Pm, Mmu and Slub are composed here, and the result is what \<open>_schedule\<close> of Switch needs to
  start the thread.
\<close>

section \<open>Pages\<close>

text \<open>The page that the \<open>n\<close>-th request gets, and its frame.\<close>

definition stack_va :: "nat \<Rightarrow> addr" where "stack_va n = of_nat (0xf7ff6000 - n * 0x1000)"
definition stack_pa :: "nat \<Rightarrow> addr" where "stack_pa n = of_nat (0x90a000 + n * 0x1000)"

lemma stack_unat:
  assumes "n < 100"
  shows "unat (stack_va n) = 0xf7ff6000 - n * 0x1000" and "unat (stack_pa n) = 0x90a000 + n * 0x1000"
proof -
  have "0xf7ff6000 - n * 0x1000 < 2 ^ 32" "0x90a000 + n * 0x1000 < 2 ^ 32" using assms by simp_all
  then show "unat (stack_va n) = 0xf7ff6000 - n * 0x1000" "unat (stack_pa n) = 0x90a000 + n * 0x1000"
    unfolding stack_va_def stack_pa_def by (simp_all only: unat_of_nat len_of_numeral_defs) simp_all
qed

lemma stack_block: "n < 100 \<Longrightarrow> vm_block VM_UNIT_PAGE (0x7ff6 - n) = stack_va n"
proof -
  assume n: "n < 100"
  have "unat (vm_block VM_UNIT_PAGE (0x7ff6 - n)) = 0xf0000000 + (0x7ff6 - n) * 2 ^ (VM_UNIT_PAGE + 12)"
    by (rule unat_vm_block) (simp_all add: vm_consts)
  moreover have "0xf0000000 + (0x7ff6 - n) * 2 ^ (VM_UNIT_PAGE + 12) = 0xf7ff6000 - n * 0x1000" using n by (simp add: VM_UNIT_PAGE_def)
  ultimately show ?thesis using stack_unat(1) [OF n] by (metis word_unat_eq_iff)
qed

text \<open>An object of sixteen bytes: the next of the first slab of that size.\<close>

lemma small_object_taken:
  assumes wf: "slab_wf st (Sub 1) (first_slab_at 1) [j..<256]" and j: "10 \<le> j" "j < 255" and p: "sl_p (slab st (first_slab_at 1)) = first_va 1"
    and s: "subs st (Sub 1) = first_subs 1" and c: "slub_16byte_free st \<noteq> 5" and z: "size_class z = Some 1" "z \<noteq> 0"
  shows "\<exists>st'. kmalloc (Suc d) z st = Inr (st', obj (first_va 1) 4 j) \<and> slab_wf st' (Sub 1) (first_slab_at 1) [Suc j..<256]
    \<and> st' = st\<lparr>ptm := (ptm st)(obj (first_va 1) 4 j := 0), slab := (slab st)(first_slab_at 1 := slab st' (first_slab_at 1)), subs := subs st',
        slub_16byte_free := slub_16byte_free st - 1\<rparr>
    \<and> sl_p (slab st' (first_slab_at 1)) = first_va 1 \<and> subs st' (Sub 1) = first_subs 1
    \<and> (\<forall>k. k \<noteq> Sub 1 \<longrightarrow> first_slab_at 1 \<notin> set (sp_busy (subs st k)) \<union> set (sp_part (subs st k)) \<union> set (sp_free (subs st k)) \<longrightarrow> subs st' k = subs st k)"
proof -
  have up: "[j..<256] = j # [Suc j..<256]" using j(2) by (simp add: upt_conv_Cons)
  have lg: "sp_log_sz (subs st (Sub 1)) = 4" "first_slab (Sub 1) st = Some (first_slab_at 1)" "\<not> sp_lock (subs st (Sub 1))"
    unfolding s first_slab_def by (simp_all add: first_subs_def)
  have n: "(Suc (length [Suc j..<256]) = nobj 4) = False" "([Suc j..<256] = []) = False" using j by (simp_all add: nobj_def)
  have k: "kmalloc (Suc d) z st = kmalloc_subpages (kmalloc d) (Sub 1) st" using z by (simp add: slub_consts)
  obtain st' where r: "kmalloc_subpages (kmalloc d) (Sub 1) st = Inr (st', obj (first_va 1) 4 j)" and w: "slab_wf st' (Sub 1) (first_slab_at 1) [Suc j..<256]"
    and e: "st' = st\<lparr>ptm := (ptm st)(obj (first_va 1) 4 j := 0), slab := (slab st)(first_slab_at 1 := slab st' (first_slab_at 1)), subs := subs st',
        slub_16byte_free := slub_16byte_free st - 1\<rparr>"
    and q: "sl_p (slab st' (first_slab_at 1)) = first_va 1" "subs st' (Sub 1) = relisted (first_slab_at 1) False False (subs st (Sub 1))"
    and o: "\<forall>k. k \<noteq> Sub 1 \<longrightarrow> first_slab_at 1 \<notin> set (sp_busy (subs st k)) \<union> set (sp_part (subs st k)) \<union> set (sp_free (subs st k)) \<longrightarrow> subs st' k = subs st k"
    using object_taken [OF wf [unfolded up] lg(2,3), of "kmalloc d"] c unfolding n lg(1) p by auto
  have "subs st' (Sub 1) = first_subs 1" using q(2) s by (simp add: relisted_def)
  then show ?thesis using r w e q(1) o unfolding k by (intro exI [of _ st']) simp
qed

lemma size_small: "size_class 16 = Some 1" "size_class 12 = Some 1" "size_class 32 = Some 2" "size_class 4096 = Some 9"
  by (simp_all add: size_class_eq upt_rec)

text \<open>The segment of a page: the highest free block is the one below the pages in use.\<close>

lemma page_segment:
  assumes r: "pages_ready mps N n st" and n: "n < 100"
    and km: "km 16 (st\<lparr>vm_areas_lock := (vm_areas_lock st)(VMA_SLUB := True)\<rparr>) = Inr (st2, p)"
    and k: "vm_areas st2 = vm_areas st" "vseg st2 = vseg st"
  shows "vm_alloc km VMA_SLUB VM_UNIT_PAGE 1 st = Inr (area_unlock VMA_SLUB
        (st2\<lparr>vseg := (vseg st2)(p := \<lparr>vs_start = stack_va n, vs_flags = bits_set VSF_NPAGES 1\<rparr>),
          vm_areas := (vm_areas st2)(VMA_SLUB := p # vm_areas st2 VMA_SLUB)\<rparr>), [stack_va n])"
proof -
  note R = r [unfolded pages_ready_def]
  let ?free = "\<lambda>j. \<forall>e\<in>set (vm_areas st VMA_SLUB). \<forall>x. in_block VM_UNIT_PAGE (vm_block VM_UNIT_PAGE j) x \<longrightarrow> \<not> in_seg (vseg st e) x"
  have wf: "area_wf st" and l: "\<not> vm_areas_lock st VMA_SLUB" using R by blast+
  have u: "VM_UNIT_PAGE < VM_UNIT_MAX" "(2::nat) ^ (15 - VM_UNIT_PAGE) = 0x8000" by (simp_all add: vm_consts)
  have b: "unat (vm_block VM_UNIT_PAGE j) = 0xf0000000 + j * 0x1000" if "j \<le> 0x8000" for j
    using unat_vm_block [OF u(1), of j] that unfolding u(2) by (simp add: VM_UNIT_PAGE_def)
  have blk: "in_block VM_UNIT_PAGE (vm_block VM_UNIT_PAGE j) x \<longleftrightarrow> 0xf0000000 + j * 0x1000 \<le> unat x \<and> unat x < 0xf0000000 + Suc j * 0x1000"
    if "j < 0x8000" for j x
    unfolding in_block_def vm_block_Suc word_le_nat_alt word_less_nat_alt using b [of j] b [of "Suc j"] that by simp
  have free: "?free (0x7ff6 - n)"
  proof (intro ballI allI impI)
    fix e x assume e: "e \<in> set (vm_areas st VMA_SLUB)" and x: "in_block VM_UNIT_PAGE (vm_block VM_UNIT_PAGE (0x7ff6 - n)) x"
    have "(0x7ff6 - n) * 0x1000 = 0x7ff6000 - n * 0x1000" by (simp add: diff_mult_distrib)
    then have "unat x < 0xf7ff7000 - n * 0x1000" using x n blk [of "0x7ff6 - n" x] by simp
    moreover have "0xf7ff7000 - n * 0x1000 \<le> unat (vs_start (vseg st e))" using R e by blast
    ultimately show "\<not> in_seg (vseg st e) x" by (simp add: in_seg_def word_le_nat_alt)
  qed
  have used: "\<not> ?free j" if j: "0x7ff6 - n < j" "j < 0x8000" for j
  proof -
    have "0xf7ff7000 - n * 0x1000 \<le> unat (vm_block VM_UNIT_PAGE j)" "unat (vm_block VM_UNIT_PAGE j) < 0xf8000000" using b [of j] j n by simp_all
    then obtain e where "e \<in> set (vm_areas st VMA_SLUB)" "in_seg (vseg st e) (vm_block VM_UNIT_PAGE j)" using R by blast
    moreover have "in_block VM_UNIT_PAGE (vm_block VM_UNIT_PAGE j) (vm_block VM_UNIT_PAGE j)" using blk [OF j(2)] b [of j] j by simp
    ultimately show ?thesis by blast
  qed
  have room: "\<exists>j<2 ^ (15 - VM_UNIT_PAGE). ?free j" unfolding u(2) using free by (intro exI [of _ "0x7ff6 - n"]) simp
  obtain j where j: "j < 0x8000" "?free j" "\<forall>i. j < i \<longrightarrow> i < 0x8000 \<longrightarrow> \<not> ?free i"
    and a: "vm_alloc km VMA_SLUB VM_UNIT_PAGE 1 st = Inr (area_unlock VMA_SLUB
        (st2\<lparr>vseg := (vseg st2)(p := \<lparr>vs_start = vm_block VM_UNIT_PAGE j, vs_flags = bits_set VSF_NPAGES (push_bit VM_UNIT_PAGE 1)\<rparr>),
          vm_areas := (vm_areas st2)(VMA_SLUB := p # vm_areas st2 VMA_SLUB)\<rparr>), [vm_block VM_UNIT_PAGE j])"
    using vm_alloc_total [where km = km, OF wf u(1) l room km] unfolding u(2) by blast
  have "j = 0x7ff6 - n"
  proof (rule ccontr)
    assume "j \<noteq> 0x7ff6 - n"
    then consider "j < 0x7ff6 - n" | "0x7ff6 - n < j" by linarith
    then show False
    proof cases
      case 1
      have "0x7ff6 - n < (0x8000 :: nat)" by simp
      with j(3) 1 free show False by blast
    next
      case 2
      with used [OF 2 j(1)] j(2) show False by blast
    qed
  qed
  moreover have "push_bit VM_UNIT_PAGE (1 :: u32) = 1" by (simp add: VM_UNIT_PAGE_def)
  ultimately show ?thesis using a stack_block [OF n] by simp
qed
text \<open>Its mapping, through the table of the last section.\<close>

lemma stack_req:
  assumes "n < 100"
  shows "one_page (map_req (stack_va n) (stack_pa n))" and "unat (stack_va n) div 2 ^ 20 = 0xf7f" and "unat (stack_va n) div 2 ^ 12 mod 2 ^ 8 = 246 - n"
proof -
  obtain c where c: "n + c = 99" using assms by (metis add.commute le_Suc_ex less_Suc_eq_le numeral_eq_Suc pred_numeral_simps(2) semiring_norm(26,27,28))
  have u: "unat (stack_va n) = (0xf7f93 + c) * 4096" "unat (stack_pa n) = (0x90a + n) * 4096" using stack_unat [OF assms] c by simp_all
  show "one_page (map_req (stack_va n) (stack_pa n))" by (rule one_page_map_req) (simp_all add: u)
  have "(0xf7f93 + c) div 256 = 0xf7f" "(0xf7f93 + c) mod 256 = 246 - n"
    using c assms mod_mult_self3 [of "0xf7f" 256 "147 + c"] div_mult_self3 [of 256 "0xf7f" "147 + c"] by simp_all
  then show "unat (stack_va n) div 2 ^ 20 = 0xf7f" "unat (stack_va n) div 2 ^ 12 mod 2 ^ 8 = 246 - n"
    unfolding u by (simp_all add: div_mult2_eq [of _ 4096 256, simplified])
qed

lemma stack_page_mapped:
  assumes a: "area_known mps st" "pd st 0xf7f = table_de 0x900000" and n: "n < 100"
    and free: "bits_get (ptm st (mmu_slub_area + 4 * of_nat (246 - n))) PTE_TYPE = 0"
  shows "\<exists>t. slub_map sa (stack_va n) (stack_pa n) st = Inr (st\<lparr>ptm := zeroed (stack_va n)
    ((ptm st)(mmu_slub_area + 4 * of_nat (246 - n) := page_te (map_req (stack_va n) (stack_pa n)) (stack_pa n))), tlb := t\<rparr>)"
proof -
  let ?r = "map_req (stack_va n) (stack_pa n)"
  have v: "mr_va_start ?r = stack_va n" "mr_pa_start ?r = stack_pa n" by (simp_all add: map_req_def)
  have d: "pd st 0xf7f = table_de (0x900000 + of_nat 0 * 0x400)" using a(2) by simp
  have o: "obj mmu_slub_area 10 0 = mmu_slub_area" by (simp add: obj_def)
  note T = table_of [OF a(1) d, unfolded o]
  have T1: "bits_get (pd st 0xf7f) PDE_TYPE0 = 1" "pt_of mmu_slub_pa_to_va 0xf7f st = Inr (Slab mmu_slub_area)" using T by simp_all
  have f: "bits_get (pt_get (Slab mmu_slub_area) (246 - n) st) PTE_TYPE = 0" using free by simp
  obtain t where "mmu_map sa mmu_slub_pa_to_va ?r st = Inr ((pt_set (Slab mmu_slub_area) (246 - n) (page_te ?r (mr_pa_start ?r)) st)\<lparr>tlb := t\<rparr>)"
    using map_into_table [OF stack_req(1) [OF n] _ _ T1 f] stack_req(2,3) [OF n] unfolding v by blast
  then show ?thesis by (intro exI [of _ t]) (simp add: slub_map_def zero_page_eq v)
qed

lemma stack_word_apart:
  assumes "n < 100"
  shows "x < 256 \<Longrightarrow> 4096 \<le> unat (mmu_slub_area + 4 * of_nat x - stack_va n)"
    and "i < 9 \<Longrightarrow> unat (a - first_va i) < 4096 \<Longrightarrow> 4096 \<le> unat (a - stack_va n)"
    and "unat (a - stack_va n) < 4096 \<Longrightarrow> 0xf7ff6000 - n * 0x1000 \<le> unat a \<and> unat a < 0xf7ff7000 - n * 0x1000"
proof -
  note u = stack_unat(1) [OF assms]
  have b: "unat (stack_va n) + 4096 \<le> 2 ^ 32" unfolding u by simp
  show "4096 \<le> unat (mmu_slub_area + 4 * of_nat x - stack_va n)" if "x < 256"
    by (rule out_of_page [OF b]) (use area_word [OF that] that u assms in linarith)
  show in_page: "0xf7ff6000 - n * 0x1000 \<le> unat a \<and> unat a < 0xf7ff7000 - n * 0x1000" if "unat (a - stack_va n) < 4096" for a
    using out_of_page [OF b, of a] that u assms by linarith
  show "4096 \<le> unat (a - stack_va n)" if i: "i < 9" and a: "unat (a - first_va i) < 4096"
  proof (rule ccontr)
    assume "\<not> 4096 \<le> unat (a - stack_va n)"
    then have "unat a < 0xf7ff7000" using in_page [of a] by linarith
    from area_far [OF i this] a show False by simp
  qed
qed
lemma pages_ready_tail: "n < 100 \<Longrightarrow> [10 + 2 * n..<256] = (10 + 2 * n) # [11 + 2 * n..<256]"
  "n < 100 \<Longrightarrow> [11 + 2 * n..<256] = (11 + 2 * n) # [10 + 2 * Suc n..<256]"
  by (simp_all add: upt_conv_Cons)

lemma small_object_in_page: "j < 256 \<Longrightarrow> unat (obj (first_va 1) 4 j - first_va 1) < 4096" "j < 256 \<Longrightarrow> unat (obj (first_va 1) 4 j) = 0xf7ff8000 + 16 * j"
proof -
  assume j: "j < 256"
  have l: "4 \<le> (12 :: nat)" "j < nobj 4" using j by (simp_all add: nobj_def)
  show "unat (obj (first_va 1) 4 j - first_va 1) < 4096" using obj_offset [OF l] by (simp add: obj_def)
  have "unat (obj (first_va 1) 4 j) = unat (first_va 1) + j * 2 ^ 4"
    by (rule obj_nonzero(2) [OF l]) (simp_all add: first_va_def)
  then show "unat (obj (first_va 1) 4 j) = 0xf7ff8000 + 16 * j" by (simp add: first_va_def)
qed

lemma stack_seg:
  assumes "n < 100"
  shows "in_seg \<lparr>vs_start = stack_va n, vs_flags = bits_set VSF_NPAGES 1\<rparr> x \<longleftrightarrow> 0xf7ff6000 - n * 0x1000 \<le> unat x \<and> unat x < 0xf7ff7000 - n * 0x1000"
    and "seg_end \<lparr>vs_start = stack_va n, vs_flags = bits_set VSF_NPAGES 1\<rparr> = stack_va n + 0x1000"
    and "unat (stack_va n + 0x1000) = 0xf7ff7000 - n * 0x1000"
proof -
  have "bits_pull (bits_set VSF_NPAGES 1) VSF_NPAGES = 0x1000" by code_simp
  then show e: "seg_end \<lparr>vs_start = stack_va n, vs_flags = bits_set VSF_NPAGES 1\<rparr> = stack_va n + 0x1000" by (simp add: seg_end_def)
  have "unat (stack_va n + 0x1000) = unat (stack_va n) + 0x1000" by (subst unat_add_no_overflow) (use stack_unat(1) [OF assms] in simp_all)
  then show u: "unat (stack_va n + 0x1000) = 0xf7ff7000 - n * 0x1000" using stack_unat(1) [OF assms] assms by simp
  show "in_seg \<lparr>vs_start = stack_va n, vs_flags = bits_set VSF_NPAGES 1\<rparr> x \<longleftrightarrow> 0xf7ff6000 - n * 0x1000 \<le> unat x \<and> unat x < 0xf7ff7000 - n * 0x1000"
    unfolding in_seg_def e word_le_nat_alt word_less_nat_alt u using stack_unat(1) [OF assms] by simp
qed

lemma fresh_flags: "bits_get 16 PGF_USE = usage_val PGF_USE_SLUB" "bits_get 16 PGF_UNIT = of_nat PM_UNIT_PAGE"
  by code_simp+

lemma kmalloc_page_steps:
  assumes f: "fp_log_sz (fulls st 0) = 12"
    and r1: "vm_alloc km VMA_SLUB VM_UNIT_PAGE 1 st = Inr (s2, [p])"
    and r2: "pm_ram_alloc PM_UNIT_PAGE PGF_USE_SLUB 1 (pmem s2) = Inr (pm, Some [pa])"
    and r3: "slub_map (kmalloc_subpages km MmuPt) p pa (s2\<lparr>pmem := pm\<rparr>) = Inr s4"
    and r4: "km 12 s4 = Inr (s5, q)" "q \<noteq> 0" and pa: "pa < ramsz (pmem s5)" and pg: "ram_map (pmem s5) (frame_of pa) = \<lparr>pflags = 16, u0 = 0\<rparr>"
    and f5: "fulls s5 0 = fulls st 0" "\<not> fp_lock (fulls st 0)"
  shows "kmalloc_fullpages km 0 st = Inr (upd_full 0 (\<lambda>f. f\<lparr>fp_busy := fp_busy f @ [q]\<rparr>)
      (upd_page (frame_of pa) (\<lambda>_. \<lparr>pflags = 16 OR bits_set PGF_SLUB_LSIZE 12, u0 = q OR bits_on SLUB_LEADER\<rparr>) (s5\<lparr>fslab := (fslab s5)(q := p)\<rparr>)), p)"
proof -
  have g: "slub_page site pa (s5\<lparr>fslab := w\<rparr>) = Inr (frame_of pa)" for site w
    using pa by (simp add: slub_page_def pm_ram_get_page_def pg fresh_flags)
  show ?thesis
    unfolding kmalloc_fullpages_def f PAGE_SIZE_SZ_def
    by (simp only: assert_that_simps r1 bind_res_simps prod.case nth_Cons_0 Let_def r2 option.case r3 r4)
      (simp add: g pg fresh_flags f5 f upd_page_def upd_full_def)
qed
lemma pages_readyD:
  assumes "pages_ready mps N n st"
  shows "bdy_rel N {..<0x90a + n} (bdy_ram (pmem st))" and "N \<le> 2 ^ 20" and "N * 4096 \<le> unat (ramsz (pmem st))"
    and "area_known mps st" and "unat mps < 0x403ff000" and "pd st 0xf7f = table_de 0x900000"
    and "x < 247 - n \<Longrightarrow> bits_get (ptm st (mmu_slub_area + 4 * of_nat x)) PTE_TYPE = 0"
    and "area_wf st" and "\<not> vm_areas_lock st VMA_SLUB"
    and "e \<in> set (vm_areas st VMA_SLUB) \<Longrightarrow> 0xf7ff7000 - n * 0x1000 \<le> unat (vs_start (vseg st e))"
    and "0xf7ff7000 - n * 0x1000 \<le> unat a \<Longrightarrow> unat a < 0xf8000000 \<Longrightarrow> \<exists>e\<in>set (vm_areas st VMA_SLUB). in_seg (vseg st e) a"
    and "set (vm_areas st VMA_SLUB) \<subseteq> obj (first_va 1) 4 ` {..<10 + 2 * n}"
    and "slab_wf st (Sub 1) (first_slab_at 1) [10 + 2 * n..<256]" and "sl_p (slab st (first_slab_at 1)) = first_va 1"
    and "subs st (Sub 1) = first_subs 1" and "slub_16byte_free st = 246 - 2 * int n"
    and "fp_log_sz (fulls st 0) = 12" and "\<not> fp_lock (fulls st 0)"
  using assms unfolding pages_ready_def by blast+

text \<open>What else the request changes: the page of the objects of sixteen bytes, one entry of the table and the new page.\<close>

definition page_given :: "nat \<Rightarrow> slub_state \<Rightarrow> slub_state \<Rightarrow> bool" where
  "page_given n st st' \<longleftrightarrow>
    pd st' = pd st \<and> kpt st' = kpt st
    \<and> (\<forall>a. \<not> unat (a - first_va 1) < 4096 \<longrightarrow> \<not> unat (a - stack_va n) < 4096 \<longrightarrow> a \<noteq> mmu_slub_area + 4 * of_nat (246 - n) \<longrightarrow> ptm st' a = ptm st a)
    \<and> (\<forall>a. unat (a - stack_va n) < 4096 \<longrightarrow> ptm st' a = 0)
    \<and> ptm st' (mmu_slub_area + 4 * of_nat (246 - n)) = page_te (map_req (stack_va n) (stack_pa n)) (stack_pa n)
    \<and> (\<forall>x. x \<noteq> first_slab_at 1 \<longrightarrow> slab st' x = slab st x)
    \<and> (\<forall>k. k \<noteq> Sub 1 \<longrightarrow> first_slab_at 1 \<notin> set (sp_busy (subs st k)) \<union> set (sp_part (subs st k)) \<union> set (sp_free (subs st k)) \<longrightarrow> subs st' k = subs st k)"

lemma page_served:
  assumes r: "pages_ready mps N n st" and n: "n < 100" and N: "0x90a + n < N"
  shows "\<exists>st'. kmalloc (Suc (Suc d)) 4096 st = Inr (st', stack_va n) \<and> pages_ready mps N (Suc n) st' \<and> page_given n st st'"
proof -
  note R = pages_readyD [OF r]
  let ?e = "first_slab_at 1" and ?km = "kmalloc (Suc d)" and ?q1 = "obj (first_va 1) 4 (10 + 2 * n)" and ?q2 = "obj (first_va 1) 4 (11 + 2 * n)"
  let ?w = "mmu_slub_area + 4 * of_nat (246 - n)"
  note up = pages_ready_tail [OF n]
  have far: "mps \<noteq> ?e" using R(5) first_slab_unat [of 1] by auto
  define s0 where "s0 = st\<lparr>vm_areas_lock := (vm_areas_lock st)(VMA_SLUB := True)\<rparr>"
  have k0: "slab s0 = slab st" "subs s0 = subs st" "ptm s0 = ptm st" "slub_16byte_free s0 = slub_16byte_free st" by (simp_all add: s0_def)
  have w0: "slab_wf s0 (Sub 1) ?e [10 + 2 * n..<256]" using R(13) by (simp only: slab_wf_def k0)
  have c0: "sl_p (slab s0 ?e) = first_va 1" "subs s0 (Sub 1) = first_subs 1" "slub_16byte_free s0 \<noteq> 5"
    unfolding k0 by (rule R(14), rule R(15), use R(16) in presburger)
  have j0: "10 \<le> 10 + 2 * n" "10 + 2 * n < 255" "16 \<noteq> (0 :: u32)" using n by simp_all
  obtain s1 where r1: "?km 16 s0 = Inr (s1, ?q1)" and w1: "slab_wf s1 (Sub 1) ?e [Suc (10 + 2 * n)..<256]"
    and e1: "s1 = s0\<lparr>ptm := (ptm s0)(?q1 := 0), slab := (slab s0)(?e := slab s1 ?e), subs := subs s1, slub_16byte_free := slub_16byte_free s0 - 1\<rparr>"
    and p1: "sl_p (slab s1 ?e) = first_va 1" "subs s1 (Sub 1) = first_subs 1"
    and o1: "\<forall>k. k \<noteq> Sub 1 \<longrightarrow> ?e \<notin> set (sp_busy (subs s0 k)) \<union> set (sp_part (subs s0 k)) \<union> set (sp_free (subs s0 k)) \<longrightarrow> subs s1 k = subs s0 k"
    using small_object_taken [OF w0 j0(1,2) c0 size_small(1) j0(3), of d] by blast
  have k1: "vm_areas s1 = vm_areas st" "vseg s1 = vseg st" "vm_areas_lock s1 = (vm_areas_lock st)(VMA_SLUB := True)" "pd s1 = pd st" "kpt s1 = kpt st"
    "ptm s1 = (ptm st)(?q1 := 0)" "pmem s1 = pmem st" "fslab s1 = fslab st" "fulls s1 = fulls st" "slub_16byte_free s1 = slub_16byte_free st - 1"
    "slab s1 x = (if x = ?e then slab s1 ?e else slab st x)" for x by (subst e1, simp add: s0_def)+
  define g where "g = \<lparr>vs_start = stack_va n, vs_flags = bits_set VSF_NPAGES 1\<rparr>"
  define s2 where "s2 = area_unlock VMA_SLUB (s1\<lparr>vseg := (vseg s1)(?q1 := g), vm_areas := (vm_areas s1)(VMA_SLUB := ?q1 # vm_areas s1 VMA_SLUB)\<rparr>)"
  have a: "vm_alloc ?km VMA_SLUB VM_UNIT_PAGE 1 st = Inr (s2, [stack_va n])"
    unfolding s2_def g_def by (rule page_segment [where km = ?km, OF r n r1 [unfolded s0_def] k1(1,2)])
  have k2: "pmem s2 = pmem st" "pd s2 = pd st" "ptm s2 = (ptm st)(?q1 := 0)" "slab s2 = slab s1" "subs s2 = subs s1"
    "vm_areas s2 = (vm_areas st)(VMA_SLUB := ?q1 # vm_areas st VMA_SLUB)" "vseg s2 = (vseg st)(?q1 := g)" "\<not> vm_areas_lock s2 VMA_SLUB"
    "kpt s2 = kpt st" "fulls s2 = fulls st" "slub_16byte_free s2 = slub_16byte_free st - 1"
    by (simp_all add: s2_def area_unlock_def k1)
  let ?F = "0x90a + n"
  obtain b where b: "pm_ram_alloc PM_UNIT_PAGE PGF_USE_SLUB 1 (pmem s2) = Inr ((pmem st)\<lparr>bdy_ram := b,
      ram_map := (\<lambda>f. if ?F \<le> f \<and> f < ?F + 1 then \<lparr>pflags = 16, u0 = 0\<rparr> else ram_map (pmem st) f)\<rparr>, Some [stack_pa n])"
    and b2: "bdy_rel N {..<?F + 1} b"
  proof -
    have "map (\<lambda>i. of_nat ((?F + i) * 4096) :: addr) [0..<1] = [stack_pa n]" by (simp add: stack_pa_def algebra_simps)
    then show thesis using pm_ram_alloc_next [of N ?F "pmem st" 1] R(1,2) N that unfolding k2 by fastforce
  qed
  define pm where "pm = (pmem st)\<lparr>bdy_ram := b, ram_map := (\<lambda>f. if ?F \<le> f \<and> f < ?F + 1 then \<lparr>pflags = 16, u0 = 0\<rparr> else ram_map (pmem st) f)\<rparr>"
  have kpm: "ramsz pm = ramsz (pmem st)" "ram_map pm ?F = \<lparr>pflags = 16, u0 = 0\<rparr>" "bdy_ram pm = b" "f \<noteq> ?F \<Longrightarrow> ram_map pm f = ram_map (pmem st) f" for f
    by (auto simp: pm_def)
  define s3 where "s3 = s2\<lparr>pmem := pm\<rparr>"
  have tw: "?q1 \<noteq> mmu_slub_area + 4 * of_nat x" if "x < 256" for x
    using small_object_in_page(2) [of "10 + 2 * n"] area_word [OF that] that n by auto
  have ak: "area_known mps s3" using R(4) far kpm(1) kpm(4) [of "0x900"] by (simp add: area_known_def s3_def k2 k1(11))
  have d3: "pd s3 0xf7f = table_de 0x900000" using R(6) by (simp add: s3_def k2)
  have f3: "bits_get (ptm s3 ?w) PTE_TYPE = 0" using R(7) [of "246 - n"] n tw [of "246 - n"] by (auto simp: s3_def k2)
  let ?te = "page_te (map_req (stack_va n) (stack_pa n)) (stack_pa n)"
  obtain t where m: "slub_map (kmalloc_subpages ?km MmuPt) (stack_va n) (stack_pa n) s3
      = Inr (s3\<lparr>ptm := zeroed (stack_va n) ((ptm s3)(?w := ?te)), tlb := t\<rparr>)"
    using stack_page_mapped [OF ak d3 n f3] by blast
  define s4 where "s4 = s3\<lparr>ptm := zeroed (stack_va n) ((ptm s3)(?w := ?te)), tlb := t\<rparr>"
  have k4: "slab s4 = slab s1" "subs s4 = subs s1" "pmem s4 = pm" "slub_16byte_free s4 = slub_16byte_free st - 1"
    "ptm s4 = zeroed (stack_va n) ((ptm st)(?q1 := 0, ?w := ?te))" "vm_areas s4 = vm_areas s2" "vseg s4 = vseg s2" "vm_areas_lock s4 = vm_areas_lock s2"
    "pd s4 = pd st" "kpt s4 = kpt st" "fulls s4 = fulls st"
    by (simp_all add: s4_def s3_def k2)
  have out: "zeroed (stack_va n) w x = w x" if "i < 9" "unat (x - first_va i) < 4096" for w x i
    using stack_word_apart(2) [OF n that] by (rule zeroed_out)
  have w4: "slab_wf s4 (Sub 1) ?e [11 + 2 * n..<256]"
  proof (rule slab_wf_page [of _ _ s1])
    fix x assume "unat (x - sl_p (slab s1 ?e)) < 4096"
    then have x: "unat (x - first_va 1) < 4096" by (simp only: p1)
    have "x \<noteq> ?w"
    proof
      assume e: "x = ?w"
      then have "unat x < 0xf7ff7000" using area_word [of "246 - n"] n by simp
      from area_far [OF _ this, of 1] x show False by simp
    qed
    then show "ptm s4 x = ptm s1 x" unfolding k4(5) k1(6) by (subst out [OF _ x]) simp_all
  qed (use w1 k4(1,2) in simp_all)
  have c4: "slub_16byte_free s4 \<noteq> 5" unfolding k4 R(16) using n by presburger
  have j4: "10 \<le> 11 + 2 * n" "11 + 2 * n < 255" "12 \<noteq> (0 :: u32)" using n by simp_all
  have p4: "sl_p (slab s4 ?e) = first_va 1" "subs s4 (Sub 1) = first_subs 1" using p1 by (simp_all only: k4)
  obtain s5 where r5: "?km 12 s4 = Inr (s5, ?q2)" and w5: "slab_wf s5 (Sub 1) ?e [Suc (11 + 2 * n)..<256]"
    and e5: "s5 = s4\<lparr>ptm := (ptm s4)(?q2 := 0), slab := (slab s4)(?e := slab s5 ?e), subs := subs s5, slub_16byte_free := slub_16byte_free s4 - 1\<rparr>"
    and p5: "sl_p (slab s5 ?e) = first_va 1" "subs s5 (Sub 1) = first_subs 1"
    and o5: "\<forall>k. k \<noteq> Sub 1 \<longrightarrow> ?e \<notin> set (sp_busy (subs s4 k)) \<union> set (sp_part (subs s4 k)) \<union> set (sp_free (subs s4 k)) \<longrightarrow> subs s5 k = subs s4 k"
    using small_object_taken [OF w4 j4(1,2) p4 c4 size_small(2) j4(3), of d] by blast
  have k5: "pmem s5 = pm" "fulls s5 = fulls st" "vm_areas s5 = vm_areas s2" "vseg s5 = vseg s2" "vm_areas_lock s5 = vm_areas_lock s2"
    "pd s5 = pd st" "kpt s5 = kpt st" "slub_16byte_free s5 = slub_16byte_free st - 2" "ptm s5 = (ptm s4)(?q2 := 0)"
    "slab s5 x = (if x = ?e then slab s5 ?e else slab s1 x)" for x by (subst e5, simp add: k4)+
  define f where "f = upd_full 0 (\<lambda>f. f\<lparr>fp_busy := fp_busy f @ [?q2]\<rparr>)
      (upd_page ?F (\<lambda>_. \<lparr>pflags = 16 OR bits_set PGF_SLUB_LSIZE 12, u0 = ?q2 OR bits_on SLUB_LEADER\<rparr>) (s5\<lparr>fslab := (fslab s5)(?q2 := stack_va n)\<rparr>))"
  have fr: "frame_of (stack_pa n) = ?F" using stack_unat(2) [OF n] by (simp add: frame_of_unat)
  have q2: "?q2 \<noteq> 0" using small_object_in_page(2) [of "11 + 2 * n"] n by (auto simp del: One_nat_def)
  have "(0x90a + n) * 4096 < N * 4096" using N by simp
  then have lt: "stack_pa n < ramsz (pmem s5)" using R(3) stack_unat(2) [OF n] unfolding k5(1) kpm(1) word_less_nat_alt by simp
  have pg: "ram_map (pmem s5) (frame_of (stack_pa n)) = \<lparr>pflags = 16, u0 = 0\<rparr>" "fulls s5 0 = fulls st 0" unfolding fr k5 by (rule kpm(2)) (rule refl)
  note steps = kmalloc_page_steps [where km = ?km, OF R(17) a b [folded pm_def] m [folded s4_def, unfolded s3_def] r5 q2 lt pg R(18)]
  have run: "kmalloc (Suc (Suc d)) 4096 st = Inr (f, stack_va n)"
    using steps size_small(4) unfolding fr by (simp add: slub_consts f_def del: kmalloc.simps(2)) (simp add: slub_consts)
  have kf: "pd f = pd st" "kpt f = kpt st" "ptm f = (ptm s4)(?q2 := 0)" "slab f = slab s5" "subs f = subs s5" "vm_areas f = vm_areas s2"
    "vseg f = vseg s2" "vm_areas_lock f = vm_areas_lock s2" "slub_16byte_free f = slub_16byte_free st - 2" "fulls f = (fulls st)(0 := (fulls st 0)\<lparr>fp_busy := fp_busy (fulls st 0) @ [?q2]\<rparr>)"
    "ramsz (pmem f) = ramsz (pmem st)" "bdy_ram (pmem f) = b" "x \<noteq> ?F \<Longrightarrow> ram_map (pmem f) x = ram_map (pmem st) x" for x
    by (simp_all add: f_def upd_full_def upd_page_def k5 kpm)
  have w: "ptm f x = (if x = ?q2 then 0 else zeroed (stack_va n) ((ptm st)(?q1 := 0, ?w := ?te)) x)" for x unfolding kf k4 by simp
  have j: "10 + 2 * n < 256" "11 + 2 * n < 256" "246 - n < 256" using n by simp_all
  note q = small_object_in_page(1) [OF j(1)] small_object_in_page(1) [OF j(2)]
  have tq: "\<not> unat (mmu_slub_area + 4 * of_nat x - first_va 1) < 4096" if "x < 256" for x
    using area_far [of 1 "mmu_slub_area + 4 * of_nat x"] area_word [OF that] that by simp
  have keep: "ptm f x = ptm st x" if "\<not> unat (x - first_va 1) < 4096" "\<not> unat (x - stack_va n) < 4096" "x \<noteq> ?w" for x
  proof -
    have "x \<noteq> ?q1" "x \<noteq> ?q2" using q that(1) by auto
    then show ?thesis unfolding w using that(2,3) by (simp add: zeroed_out)
  qed
  have zero: "ptm f x = 0" if x: "unat (x - stack_va n) < 4096" for x
    unfolding w zeroed_def using x by (simp add: PAGE_SIZE_def word_less_nat_alt)
  have entry: "ptm f ?w = ?te"
  proof -
    have "?w \<noteq> ?q2" using tq [OF j(3)] q(2) by auto
    then show ?thesis unfolding w using stack_word_apart(1) [OF n j(3)] by (simp add: zeroed_out)
  qed
  have table: "ptm f (mmu_slub_area + 4 * of_nat x) = ptm st (mmu_slub_area + 4 * of_nat x)" if "x < 256" "x \<noteq> 246 - n" for x
    using keep [OF tq [OF that(1)]] stack_word_apart(1) [OF n that(1)] area_word_inj [OF that(1) j(3)] that(2) by simp
  have other: "slab f x = slab st x" if "x \<noteq> ?e" for x
  proof -
    have "slab s5 x = slab s1 x" using that by (subst k5(10)) simp
    moreover have "slab s1 x = slab st x" using that by (subst k1(11)) simp
    ultimately show ?thesis by (simp only: kf)
  qed
  have given: "page_given n st f"
  proof -
    have "subs f k = subs st k"
      if k: "k \<noteq> Sub 1" "?e \<notin> set (sp_busy (subs st k)) \<union> set (sp_part (subs st k)) \<union> set (sp_free (subs st k))" for k
    proof -
      have "subs s1 k = subs st k" using o1 k unfolding k0 by blast
      then show ?thesis using o5 k unfolding k4 kf by simp
    qed
    then show ?thesis unfolding page_given_def using other keep zero entry kf(1,2) by blast
  qed
  have new: "?q1 \<notin> set (vm_areas st VMA_SLUB)"
  proof
    assume "?q1 \<in> set (vm_areas st VMA_SLUB)"
    then obtain i where "i < 10 + 2 * n" "?q1 = obj (first_va 1) 4 i" using R(12) by blast
    then show False using small_object_in_page(2) [OF j(1)] small_object_in_page(2) [of i] j(1) by simp
  qed
  have "area_wf s2"
  proof -
    have km: "p \<notin> set (vm_areas st VMA_SLUB) \<and> vm_areas y = vm_areas st \<and> vseg y = vseg st"
      if x: "area_lock VMA_SLUB st = Inr x" "?km 16 x = Inr (y, p)" for x y p
    proof -
      have "x = s0" using x(1) R(9) by (simp add: area_lock_def s0_def)
      then have "y = s1" "p = ?q1" using x(2) r1 by simp_all
      then show ?thesis using new k1(1,2) by simp
    qed
    have "VM_UNIT_PAGE < VM_UNIT_MAX" by (simp add: vm_consts)
    then show ?thesis using vm_alloc_disjoint [where km = ?km, OF R(8) _ a] km by blast
  qed
  then have "area_wf f" unfolding area_wf_def kf .
  moreover have "\<forall>e\<in>set (vm_areas f VMA_SLUB). 0xf7ff7000 - Suc n * 0x1000 \<le> unat (vs_start (vseg f e))"
    using R(10) stack_unat(1) [OF n] n unfolding kf k2 by (fastforce simp: g_def)
  moreover have "\<exists>e\<in>set (vm_areas f VMA_SLUB). in_seg (vseg f e) x" if x: "0xf7ff7000 - Suc n * 0x1000 \<le> unat x" "unat x < 0xf8000000" for x
  proof (cases "0xf7ff7000 - n * 0x1000 \<le> unat x")
    case True
    then obtain e where "e \<in> set (vm_areas st VMA_SLUB)" "in_seg (vseg st e) x" using R(11) x(2) by blast
    then show ?thesis unfolding kf k2 using new by (intro bexI [of _ e]) auto
  next
    case False
    then have "in_seg g x" unfolding g_def stack_seg(1) [OF n] using x(1) n by simp
    then show ?thesis unfolding kf k2 by simp
  qed
  moreover have "set (vm_areas f VMA_SLUB) \<subseteq> obj (first_va 1) 4 ` {..<10 + 2 * Suc n}"
    using R(12) unfolding kf k2 by fastforce
  moreover have "slab_wf f (Sub 1) ?e [10 + 2 * Suc n..<256]"
  proof -
    have "[Suc (11 + 2 * n)..<256] = [10 + 2 * Suc n..<256]" by simp
    then show ?thesis using w5 slab_wf_cong [of f "Sub 1" s5 ?e] by (simp only: kf k5(9))
  qed
  moreover have "area_known mps f" using R(4) other [OF far] kf(13) [of "0x900"] by (simp add: area_known_def kf(11))
  moreover have "bits_get (ptm f (mmu_slub_area + 4 * of_nat x)) PTE_TYPE = 0" if "x < 247 - Suc n" for x
    using table [of x] R(7) [of x] that n by simp
  ultimately have "pages_ready mps N (Suc n) f"
    unfolding pages_ready_def using R(2,3,5,6,16-18) b2 p5 k2(8) by (simp add: kf)
  then show ?thesis using run given by blast
qed
lemma pages_ready_keep:
  assumes r: "pages_ready mps N n st"
    and same: "pmem st' = pmem st" "pd st' = pd st" "vm_areas st' = vm_areas st" "vseg st' = vseg st" "vm_areas_lock st' = vm_areas_lock st"
      "fulls st' = fulls st" "slub_16byte_free st' = slub_16byte_free st" "slab st' mps = slab st mps" "slab st' (first_slab_at 1) = slab st (first_slab_at 1)"
      "subs st' (Sub 1) = subs st (Sub 1)"
    and words: "\<And>a. unat (a - first_va 1) < 4096 \<Longrightarrow> ptm st' a = ptm st a" "\<And>x. x < 256 \<Longrightarrow> ptm st' (mmu_slub_area + 4 * of_nat x) = ptm st (mmu_slub_area + 4 * of_nat x)"
  shows "pages_ready mps N n st'"
proof -
  note R = pages_readyD [OF r]
  have "slab_wf st' (Sub 1) (first_slab_at 1) [10 + 2 * n..<256]"
    by (rule slab_wf_page [OF _ same(9) _ R(13)]) (use words(1) R(14) same(10) in simp_all)
  moreover have "bits_get (ptm st' (mmu_slub_area + 4 * of_nat x)) PTE_TYPE = 0" if "x < 247 - n" for x
    using R(7) [OF that] words(2) [of x] that by simp
  ultimately show ?thesis
    using r unfolding pages_ready_def area_wf_def area_known_def same by blast
qed

section \<open>Threads\<close>

text \<open>The first slab of objects of 32 bytes holds the structures of the threads.\<close>

definition thread_at :: "nat \<Rightarrow> addr" where "thread_at n = obj (first_va 2) 5 n"

lemma thread_unat:
  assumes "n < 128"
  shows "unat (thread_at n) = 0xf7ff9000 + n * 32" and "unat (thread_at n - first_va 2) = n * 32"
proof -
  have l: "5 \<le> (12 :: nat)" "n < nobj 5" using assms by (simp_all add: nobj_def)
  have "unat (obj (first_va 2) 5 n) = unat (first_va 2) + n * 2 ^ 5" by (rule obj_nonzero(2) [OF l]) (simp_all add: first_va_def)
  then show "unat (thread_at n) = 0xf7ff9000 + n * 32" by (simp add: thread_at_def first_va_def)
  show "unat (thread_at n - first_va 2) = n * 32" using obj_offset(2) [OF l] by (simp add: thread_at_def obj_def)
qed

lemma thread_word: "n < 128 \<Longrightarrow> k < 8 \<Longrightarrow> unat (thread_at n + 4 * of_nat k) = 0xf7ff9000 + n * 32 + 4 * k"
  using table_word [of "thread_at n" k] thread_unat(1) [of n] by simp

lemma thread_object_taken:
  assumes r: "threads_ready mps N n st" and n: "n < 100"
  shows "\<exists>st'. kmalloc (Suc d) 32 st = Inr (st', thread_at n) \<and> pages_ready mps N n st'
    \<and> slab_wf st' (Sub 2) (first_slab_at 2) [Suc n..<128] \<and> sl_p (slab st' (first_slab_at 2)) = first_va 2 \<and> subs st' (Sub 2) = thread_subs (Suc n)
    \<and> ptm st' = (ptm st)(thread_at n := 0) \<and> pd st' = pd st \<and> kpt st' = kpt st \<and> pmem st' = pmem st \<and> slab st' mps = slab st mps"
proof -
  have P: "pages_ready mps N n st" and wf: "slab_wf st (Sub 2) (first_slab_at 2) [n..<128]" and p: "sl_p (slab st (first_slab_at 2)) = first_va 2"
    and s: "subs st (Sub 2) = thread_subs n" using r by (simp_all add: threads_ready_def)
  note R = pages_readyD [OF P]
  have up: "[n..<128] = n # [Suc n..<128]" using n by (simp add: upt_conv_Cons)
  have lg: "sp_log_sz (subs st (Sub 2)) = 5" "first_slab (Sub 2) st = Some (first_slab_at 2)" "\<not> sp_lock (subs st (Sub 2))"
    unfolding s first_slab_def by (simp_all add: thread_subs_def)
  have lgt: "sp_log_sz (thread_subs n) = 5" by (simp add: thread_subs_def)
  have L: "(Suc (length [Suc n..<128]) = nobj 5) = (n = 0)" "([Suc n..<128] = []) = False" using n by (auto simp: nobj_def)
  have k: "kmalloc (Suc d) 32 st = kmalloc_subpages (kmalloc d) (Sub 2) st" using size_small(3) by (simp add: slub_consts)
  obtain st' where a: "kmalloc_subpages (kmalloc d) (Sub 2) st = Inr (st', thread_at n)" and w: "slab_wf st' (Sub 2) (first_slab_at 2) [Suc n..<128]"
    and e: "st' = st\<lparr>ptm := (ptm st)(thread_at n := 0), slab := (slab st)(first_slab_at 2 := slab st' (first_slab_at 2)), subs := subs st',
        slub_16byte_free := slub_16byte_free st - 0\<rparr>"
    and q: "sl_p (slab st' (first_slab_at 2)) = first_va 2" "subs st' (Sub 2) = relisted (first_slab_at 2) (n = 0) False (thread_subs n)"
    and o: "\<forall>k. k \<noteq> Sub 2 \<longrightarrow> first_slab_at 2 \<notin> set (sp_busy (subs st k)) \<union> set (sp_part (subs st k)) \<union> set (sp_free (subs st k)) \<longrightarrow> subs st' k = subs st k"
    using object_taken [OF wf [unfolded up] lg(2,3), of "kmalloc d"] unfolding p s lgt L thread_at_def by auto
  have k': "pmem st' = pmem st" "pd st' = pd st" "kpt st' = kpt st" "vm_areas st' = vm_areas st" "vseg st' = vseg st" "vm_areas_lock st' = vm_areas_lock st"
    "fulls st' = fulls st" "slub_16byte_free st' = slub_16byte_free st" "ptm st' = (ptm st)(thread_at n := 0)"
    "slab st' x = (if x = first_slab_at 2 then slab st' (first_slab_at 2) else slab st x)" for x by (subst e, simp)+
  have other: "slab st' x = slab st x" if "x \<noteq> first_slab_at 2" for x using that by (subst k'(10)) simp
  have ne: "mps \<noteq> first_slab_at 2" "first_slab_at 1 \<noteq> first_slab_at 2" using R(5) first_slab_unat [of 2] first_slab_inj [of 1 2] by auto
  have sub1: "subs st' (Sub 1) = subs st (Sub 1)" using o ne(2) R(15) by (simp add: first_subs_def)
  have u: "unat (thread_at n) = 0xf7ff9000 + n * 32" using thread_unat(1) [of n] n by simp
  have "pages_ready mps N n st'"
  proof (rule pages_ready_keep [OF P k'(1,2,4-8) other [OF ne(1)] other [OF ne(2)] sub1])
    fix a assume "unat (a - first_va 1) < 4096"
    then have "a \<noteq> thread_at n" using first_pages_apart [of 1 2 a] thread_unat(2) [of n] n by auto
    then show "ptm st' a = ptm st a" by (simp add: k')
  next
    fix x :: nat assume "x < 256"
    then have "mmu_slub_area + 4 * of_nat x \<noteq> thread_at n" using area_word [of x] u by auto
    then show "ptm st' (mmu_slub_area + 4 * of_nat x) = ptm st (mmu_slub_area + 4 * of_nat x)" by (simp add: k')
  qed
  moreover have "subs st' (Sub 2) = thread_subs (Suc n)" unfolding q(2) by (simp add: relisted_def thread_subs_def)
  ultimately show ?thesis using a w q(1) k'(1-3,9) other [OF ne(1)] unfolding k by (intro exI [of _ st']) simp
qed
section \<open>Creation of a thread\<close>

text \<open>The part of \<open>sched_thread_create\<close> that works on memory. \<open>struct thread\<close> has 32 bytes: \<open>entry\<close> at 0, \<open>usr_stack_hi\<close> at 8,
  \<open>svc_stack_hi\<close> at 12, \<open>context\<close> at 16, the quota and the state in the word at 20, the two counters behind.\<close>

definition thread_memory :: "nat \<Rightarrow> addr \<Rightarrow> u32 \<Rightarrow> slub_state \<Rightarrow> (slub_state \<times> addr) res" where
  "thread_memory d fn data m =
    bind_res (kmalloc d 32 m) (\<lambda>(m, t).
      let m = fold (\<lambda>k. set_word (t + 4 * of_nat k) 0) [0..<8] m;
          m = set_word (t + 20) 0x205 m
      in bind_res (kmalloc d 4096 m) (\<lambda>(m, p).
        let hi = p + 4096;
            m = set_word (t + 12) hi m;
            m = m\<lparr>ptm := create_context hi fn data (ptm m)\<rparr>
        in Inr (set_word (t + 16) (hi - 64) m, t)))"

text \<open>What the \<open>i\<close>-th thread has in memory: the entry of its stack in the table, its structure, and its first frame.\<close>

definition stack_hi :: "nat \<Rightarrow> addr" where "stack_hi i = stack_va i + 4096"

definition thread_words :: "nat \<Rightarrow> addr \<Rightarrow> u32 \<Rightarrow> (addr \<Rightarrow> u32) \<Rightarrow> bool" where
  "thread_words i fn data w \<longleftrightarrow>
    w (mmu_slub_area + 4 * of_nat (246 - i)) = page_te (map_req (stack_va i) (stack_pa i)) (stack_pa i)
    \<and> w (thread_at i + 12) = stack_hi i \<and> w (thread_at i + 16) = stack_hi i - 64 \<and> w (thread_at i + 20) = 0x205
    \<and> (\<forall>x\<in>area (stack_hi i - 64) 16. w x = create_context (stack_hi i) fn data (\<lambda>_. 0) x)"

text \<open>The words that the creation of the \<open>n\<close>-th thread may change, by address.\<close>

definition touched :: "nat \<Rightarrow> nat \<Rightarrow> bool" where
  "touched n u \<longleftrightarrow> (0xf7ff8000 \<le> u \<and> u < 0xf7ff9000) \<or> (0xf7ff6000 - n * 0x1000 \<le> u \<and> u < 0xf7ff7000 - n * 0x1000)
    \<or> u = 0x403ff000 + 4 * (246 - n) \<or> (0xf7ff9000 + n * 32 \<le> u \<and> u < 0xf7ff9000 + n * 32 + 32)"

lemma page_range:
  assumes "unat (va :: addr) + 4096 \<le> 2 ^ 32"
  shows "unat (a - va) < 4096 \<longleftrightarrow> unat va \<le> unat a \<and> unat a < unat va + 4096"
proof
  assume "unat (a - va) < 4096"
  then show "unat va \<le> unat a \<and> unat a < unat va + 4096" using out_of_page [OF assms, of a] by linarith
next
  assume a: "unat va \<le> unat a \<and> unat a < unat va + 4096"
  then have "unat (a - va) = unat a - unat va" by (simp add: unat_sub word_le_nat_alt)
  then show "unat (a - va) < 4096" using a by linarith
qed

lemma small_page: "unat (a - first_va 1) < 4096 \<longleftrightarrow> 0xf7ff8000 \<le> unat a \<and> unat a < 0xf7ff9000"
  using page_range [of "first_va 1" a] by (simp add: first_va_def)

lemma stack_page: "n < 100 \<Longrightarrow> unat (a - stack_va n) < 4096 \<longleftrightarrow> 0xf7ff6000 - n * 0x1000 \<le> unat a \<and> unat a < 0xf7ff7000 - n * 0x1000"
  using page_range [of "stack_va n" a] stack_unat(1) [of n] by simp

lemma thread_member:
  assumes "n < 128"
  shows "unat (thread_at n + 12) = 0xf7ff900c + n * 32" and "unat (thread_at n + 16) = 0xf7ff9010 + n * 32" and "unat (thread_at n + 20) = 0xf7ff9014 + n * 32"
  using thread_word [OF assms, of 3] thread_word [OF assms, of 4] thread_word [OF assms, of 5] by simp_all

lemma stack_hi_unat:
  assumes "n < 100"
  shows "unat (stack_hi n) = 0xf7ff7000 - n * 0x1000" and "k < 16 \<Longrightarrow> unat (stack_hi n - 64 + 4 * of_nat k) = 0xf7ff6fc0 - n * 0x1000 + 4 * k"
proof -
  show u: "unat (stack_hi n) = 0xf7ff7000 - n * 0x1000" using stack_seg(3) [OF assms] by (simp add: stack_hi_def)
  assume k: "k < 16"
  have "unat (stack_hi n - 64) = 0xf7ff6fc0 - n * 0x1000" using u assms by (subst unat_sub) (simp_all add: word_le_nat_alt)
  then show "unat (stack_hi n - 64 + 4 * of_nat k) = 0xf7ff6fc0 - n * 0x1000 + 4 * k" using table_word [of "stack_hi n - 64" k] k by simp
qed

lemma frame_in_stack:
  assumes "n < 100" and "x \<in> area (stack_hi n - 64) 16"
  shows "0xf7ff6fc0 - n * 0x1000 \<le> unat x \<and> unat x < 0xf7ff7000 - n * 0x1000"
proof -
  obtain k where k: "k < 16" "x = stack_hi n - 64 + 4 * of_nat k" using assms(2) by (auto simp: area_def)
  show ?thesis using stack_hi_unat(2) [OF assms(1) k(1)] k(1) assms(1) unfolding k(2) by linarith
qed

lemma thread_words_keep:
  assumes w: "thread_words i fn data w" and i: "i < n" and n: "n < 100" and same: "\<And>a. \<not> touched n (unat a) \<Longrightarrow> w' a = w a"
  shows "thread_words i fn data w'"
proof -
  have i': "i < 128" "i < 100" using i n by simp_all
  have "unat (mmu_slub_area + 4 * of_nat (246 - i)) = 0x403ff000 + 4 * (246 - i)" by (rule area_word) simp
  moreover have "\<not> touched n (0x403ff000 + 4 * (246 - i))" using i n unfolding touched_def by linarith
  ultimately have "w' (mmu_slub_area + 4 * of_nat (246 - i)) = w (mmu_slub_area + 4 * of_nat (246 - i))" by (intro same) simp
  moreover have "w' (thread_at i + 12) = w (thread_at i + 12)" "w' (thread_at i + 16) = w (thread_at i + 16)" "w' (thread_at i + 20) = w (thread_at i + 20)"
    by (rule same; use thread_member [OF i'(1)] i n in \<open>simp add: touched_def\<close>; linarith?)+
  moreover have "w' x = w x" if "x \<in> area (stack_hi i - 64) 16" for x
  proof (rule same)
    have m: "i * 0x1000 + 0x1000 \<le> n * 0x1000" using i by simp
    show "\<not> touched n (unat x)" using frame_in_stack [OF i'(2) that] i n m unfolding touched_def by linarith
  qed
  ultimately show ?thesis using w by (simp add: thread_words_def)
qed

lemma fold_set_words:
  "fold (\<lambda>k. set_word (t + 4 * of_nat k) 0) [0..<n] m = m\<lparr>ptm := (\<lambda>x. if \<exists>k<n. x = t + 4 * of_nat k then 0 else ptm m x)\<rparr>"
  by (induction n) (auto simp: set_word_def less_Suc_eq fun_eq_iff intro!: slub_state.equality)
text \<open>Writing words outside the objects that are free keeps the invariant.\<close>

lemma threads_ready_words:
  assumes P: "pages_ready mps N k st" and w2: "slab_wf st (Sub 2) (first_slab_at 2) [j..<128]" and p: "sl_p (slab st (first_slab_at 2)) = first_va 2"
    and lg: "sp_log_sz (subs st (Sub 2)) = 5"
    and same: "\<And>a. (0xf7ff8000 \<le> unat a \<and> unat a < 0xf7ff9000) \<or> unat a < 0x403ff400 \<or> (0xf7ff9000 + j * 32 \<le> unat a \<and> unat a < 0xf7ffa000) \<Longrightarrow> w a = ptm st a"
  shows "pages_ready mps N k (st\<lparr>ptm := w\<rparr>)" and "slab_wf (st\<lparr>ptm := w\<rparr>) (Sub 2) (first_slab_at 2) [j..<128]"
proof -
  show "pages_ready mps N k (st\<lparr>ptm := w\<rparr>)"
  proof (rule pages_ready_keep [OF P])
    show "ptm (st\<lparr>ptm := w\<rparr>) a = ptm st a" if "unat (a - first_va 1) < 4096" for a using same [of a] small_page [THEN iffD1, OF that] by simp
    show "ptm (st\<lparr>ptm := w\<rparr>) (mmu_slub_area + 4 * of_nat x) = ptm st (mmu_slub_area + 4 * of_nat x)" if "x < 256" for x
      using same [of "mmu_slub_area + 4 * of_nat x"] area_word [OF that] that by simp
  qed simp_all
  show "slab_wf (st\<lparr>ptm := w\<rparr>) (Sub 2) (first_slab_at 2) [j..<128]"
  proof (rule slab_wf_words [OF _ _ _ w2])
    fix i assume "i \<in> set [j..<128]"
    then have i: "j \<le> i" "i < 128" by simp_all
    have "ptm (st\<lparr>ptm := w\<rparr>) (thread_at i) = ptm st (thread_at i)"
      using same [of "thread_at i"] thread_unat(1) [OF i(2)] i by simp
    then show "ptm (st\<lparr>ptm := w\<rparr>) (obj (sl_p (slab st (first_slab_at 2))) (sp_log_sz (subs st (Sub 2))) i)
        = ptm st (obj (sl_p (slab st (first_slab_at 2))) (sp_log_sz (subs st (Sub 2))) i)"
      unfolding p lg thread_at_def .
  qed simp_all
qed

text \<open>The creation of the \<open>n\<close>-th thread succeeds; the threads before it keep what they have.\<close>

lemma thread_created:
  assumes r: "threads_ready mps N n st" and n: "n < 100" and N: "0x90a + n < N"
  shows "\<exists>st'. thread_memory (Suc (Suc d)) fn data st = Inr (st', thread_at n) \<and> threads_ready mps N (Suc n) st'
    \<and> thread_words n fn data (ptm st') \<and> (\<forall>a. \<not> touched n (unat a) \<longrightarrow> ptm st' a = ptm st a) \<and> pd st' = pd st \<and> kpt st' = kpt st"
proof -
  let ?t = "thread_at n" and ?hi = "stack_hi n"
  have n': "n < 128" using n by simp
  obtain m1 where r1: "kmalloc (Suc (Suc d)) 32 st = Inr (m1, ?t)" and P1: "pages_ready mps N n m1"
    and W1: "slab_wf m1 (Sub 2) (first_slab_at 2) [Suc n..<128]" "sl_p (slab m1 (first_slab_at 2)) = first_va 2" "subs m1 (Sub 2) = thread_subs (Suc n)"
    and k1: "ptm m1 = (ptm st)(?t := 0)" "pd m1 = pd st" "kpt m1 = kpt st"
    using thread_object_taken [OF r n, of "Suc d"] by blast
  define w2 where "w2 = (\<lambda>x. if \<exists>k<8. x = ?t + 4 * of_nat k then 0 else ptm m1 x)(?t + 20 := 0x205)"
  have m2: "set_word (?t + 20) 0x205 (fold (\<lambda>k. set_word (?t + 4 * of_nat k) 0) [0..<8] m1) = m1\<lparr>ptm := w2\<rparr>"
    unfolding fold_set_words by (simp add: w2_def set_word_def)
  have s2: "w2 a = ptm st a" if a: "\<not> (0xf7ff9000 + n * 32 \<le> unat a \<and> unat a < 0xf7ff9000 + n * 32 + 32)" for a
  proof -
    have "a \<noteq> ?t + 4 * of_nat k" if "k < 8" for k using thread_word [OF n' that] that a by auto
    then show ?thesis using thread_word [OF n', of 5] a k1(1) thread_unat(1) [OF n'] by (auto simp: w2_def)
  qed
  have s21: "w2 a = ptm m1 a" if a: "\<not> (0xf7ff9000 + n * 32 \<le> unat a \<and> unat a < 0xf7ff9000 + n * 32 + 32)" for a
    using s2 [OF a] k1(1) a thread_unat(1) [OF n'] by auto
  have lg: "sp_log_sz (subs m1 (Sub 2)) = 5" by (simp add: W1 thread_subs_def)
  have S2: "pages_ready mps N n (m1\<lparr>ptm := w2\<rparr>)" "slab_wf (m1\<lparr>ptm := w2\<rparr>) (Sub 2) (first_slab_at 2) [Suc n..<128]"
    by (rule threads_ready_words [OF P1 W1(1,2) lg], rule s21, use n in force)+
  obtain m3 where r3: "kmalloc (Suc (Suc d)) 4096 (m1\<lparr>ptm := w2\<rparr>) = Inr (m3, stack_va n)" and P3: "pages_ready mps N (Suc n) m3"
    and g: "page_given n (m1\<lparr>ptm := w2\<rparr>) m3"
    using page_served [OF S2(1) n N, of d] by blast
  note G = g [unfolded page_given_def, simplified]
  have k3: "slab m3 (first_slab_at 2) = slab m1 (first_slab_at 2)" "subs m3 (Sub 2) = thread_subs (Suc n)"
  proof -
    have "first_slab_at 2 \<noteq> first_slab_at 1" using first_slab_inj [of 2 1] by simp
    then show "slab m3 (first_slab_at 2) = slab m1 (first_slab_at 2)" using G by simp
    show "subs m3 (Sub 2) = thread_subs (Suc n)" using G W1(3) \<open>first_slab_at 2 \<noteq> first_slab_at 1\<close> by (simp add: thread_subs_def)
  qed
  have s3: "ptm m3 a = w2 a" if "\<not> (0xf7ff8000 \<le> unat a \<and> unat a < 0xf7ff9000)" "\<not> (0xf7ff6000 - n * 0x1000 \<le> unat a \<and> unat a < 0xf7ff7000 - n * 0x1000)"
      "unat a \<noteq> 0x403ff000 + 4 * (246 - n)" for a
  proof -
    have "a \<noteq> mmu_slub_area + 4 * of_nat (246 - n)" using that(3) area_word [of "246 - n"] by auto
    then show ?thesis using g that(1,2) unfolding page_given_def small_page stack_page [OF n] by simp
  qed
  define w4 where "w4 = (create_context ?hi fn data ((ptm m3)(?t + 12 := ?hi)))(?t + 16 := ?hi - 64)"
  have run: "thread_memory (Suc (Suc d)) fn data st = Inr (m3\<lparr>ptm := w4\<rparr>, ?t)"
    unfolding thread_memory_def
    by (simp only: r1 bind_res_simps prod.case Let_def m2 r3) (simp add: set_word_def w4_def stack_hi_def)
  have tm: "unat (?t + 12) = 0xf7ff900c + n * 32" "unat (?t + 16) = 0xf7ff9010 + n * 32" "unat (?t + 20) = 0xf7ff9014 + n * 32"
    by (rule thread_member [OF n'])+
  have s4: "w4 a = ptm m3 a" if a: "\<not> (0xf7ff6000 - n * 0x1000 \<le> unat a \<and> unat a < 0xf7ff7000 - n * 0x1000)"
      "\<not> (0xf7ff9000 + n * 32 \<le> unat a \<and> unat a < 0xf7ff9000 + n * 32 + 32)" for a
  proof -
    have f: "a \<notin> area (?hi - 64) 16" using frame_in_stack [OF n, of a] a(1) by linarith
    have "a \<noteq> ?t + 12" "a \<noteq> ?t + 16" using tm a(2) by auto
    then show ?thesis using create_context_frame(3) [OF f] by (simp add: w4_def)
  qed
  have lg3: "sp_log_sz (subs m3 (Sub 2)) = 5" by (simp add: k3 thread_subs_def)
  have W3: "slab_wf m3 (Sub 2) (first_slab_at 2) [Suc n..<128]"
  proof (rule slab_wf_words [OF _ _ _ S2(2)])
    fix i assume "i \<in> set [Suc n..<128]"
    then have i: "n < i" "i < 128" by auto
    have u: "unat (thread_at i) = 0xf7ff9000 + i * 32" by (rule thread_unat(1) [OF i(2)])
    have "ptm m3 (thread_at i) = w2 (thread_at i)" by (rule s3; (subst u)+; use i n in linarith)
    then show "ptm m3 (obj (sl_p (slab (m1\<lparr>ptm := w2\<rparr>) (first_slab_at 2))) (sp_log_sz (subs (m1\<lparr>ptm := w2\<rparr>) (Sub 2))) i)
        = ptm (m1\<lparr>ptm := w2\<rparr>) (obj (sl_p (slab (m1\<lparr>ptm := w2\<rparr>) (first_slab_at 2))) (sp_log_sz (subs (m1\<lparr>ptm := w2\<rparr>) (Sub 2))) i)"
      using W1(2) lg by (simp add: thread_at_def)
  qed (use k3 W1 in simp_all)
  have p3: "sl_p (slab m3 (first_slab_at 2)) = first_va 2" using k3 W1 by simp
  have S4: "pages_ready mps N (Suc n) (m3\<lparr>ptm := w4\<rparr>)" "slab_wf (m3\<lparr>ptm := w4\<rparr>) (Sub 2) (first_slab_at 2) [Suc n..<128]"
    by (rule threads_ready_words [OF P3 W3 p3 lg3], rule s4; use n in force)+
  have T: "threads_ready mps N (Suc n) (m3\<lparr>ptm := w4\<rparr>)" using S4 p3 k3(2) by (simp add: threads_ready_def)
  have all: "w4 a = ptm st a" if a: "\<not> touched n (unat a)" for a
    using s4 [of a] s3 [of a] s2 [of a] a unfolding touched_def by simp
  have words: "thread_words n fn data w4"
    unfolding thread_words_def
  proof (intro conjI ballI)
    have u: "unat (mmu_slub_area + 4 * of_nat (246 - n)) = 0x403ff000 + 4 * (246 - n)" by (rule area_word) simp
    have "w4 (mmu_slub_area + 4 * of_nat (246 - n)) = ptm m3 (mmu_slub_area + 4 * of_nat (246 - n))"
      by (rule s4; (subst u)+; use n in linarith)
    then show "w4 (mmu_slub_area + 4 * of_nat (246 - n)) = page_te (map_req (stack_va n) (stack_pa n)) (stack_pa n)" using G by simp
    have o: "?t + 12 \<notin> area (?hi - 64) 16" "?t + 20 \<notin> area (?hi - 64) 16" using frame_in_stack [OF n] tm by fastforce+
    show "w4 (?t + 12) = ?hi" using create_context_frame(3) [OF o(1)] by (simp add: w4_def)
    show "w4 (?t + 16) = ?hi - 64" by (simp add: w4_def)
    have "w4 (?t + 20) = ptm m3 (?t + 20)" using create_context_frame(3) [OF o(2)] by (simp add: w4_def)
    also have "\<dots> = w2 (?t + 20)" by (rule s3; (subst tm)+; use n in linarith)
    finally show "w4 (?t + 20) = 0x205" by (simp add: w2_def)
    fix x assume x: "x \<in> area (?hi - 64) 16"
    note b = frame_in_stack [OF n x]
    have "unat (x - stack_va n) < 4096" unfolding stack_page [OF n] using b by linarith
    then have "ptm m3 x = 0" using G by blast
    moreover have "x \<noteq> ?t + 12" "x \<noteq> ?t + 16" using tm b by auto
    ultimately show "w4 x = create_context ?hi fn data (\<lambda>_. 0) x" by (simp add: w4_def create_context_def Let_def)
  qed
  show ?thesis
    by (intro exI [of _ "m3\<lparr>ptm := w4\<rparr>"]) (use run T words all G k1 in simp)
qed

section \<open>Properties\<close>

text \<open>The stack of a thread, as its entry in the table says.\<close>

lemma stack_translates:
  assumes P: "pages_ready mps N n st" and i: "i < 100" and te: "ptm st (mmu_slub_area + 4 * of_nat (246 - i)) = page_te (map_req (stack_va i) (stack_pa i)) (stack_pa i)"
    and k: "k < 4096"
  shows "slub_va_to_pa (stack_va i + of_nat k) st = Inr (stack_pa i + of_nat k)"
proof -
  note R = pages_readyD [OF P]
  have d: "pd st 0xf7f = table_de (0x900000 + of_nat 0 * 0x400)" using R(6) by simp
  have o: "obj mmu_slub_area 10 0 = mmu_slub_area" by (simp add: obj_def)
  have T: "bits_get (pd st 0xf7f) PDE_TYPE0 = 1" "pt_of mmu_slub_pa_to_va 0xf7f st = Inr (Slab mmu_slub_area)"
    using table_of [OF R(4) d, unfolded o] by simp_all
  have b: "unat (stack_va i) = (0xf7ff6 - i) * 4096" using stack_unat(1) [OF i] i by (simp add: diff_mult_distrib)
  have "unat (of_nat k :: u32) = k" using k by (simp add: unat_of_nat)
  then have u: "unat (stack_va i + of_nat k) = (0xf7ff6 - i) * 4096 + k"
    using unat_add_no_overflow [of "stack_va i" "of_nat k"] b k i by simp
  have q: "((0xf7ff6 - i) * 4096 + k) div 2 ^ 12 = 0xf7ff6 - i" using k by simp
  have s: "unat (stack_va i) div 2 ^ 12 = 0xf7ff6 - i" unfolding b by simp
  have e: "(0xf7ff6 - i) * 4096 = 0xf7ff6000 - i * 4096" by (simp add: diff_mult_distrib)
  have j: "((0xf7ff6 - i) * 4096 + k) div 2 ^ 20 = 0xf7f" by (rule div_nat_eqI; unfold e; use i k in simp)
  have x: "((0xf7ff6 - i) * 4096 + k) div 2 ^ 12 mod 2 ^ 8 = 246 - i" using stack_req(3) [OF i] unfolding q s .
  have pa: "unat (stack_pa i) mod 4096 = 0" using stack_req(1) [OF i] by (simp add: one_page_def map_req_def)
  show ?thesis
    unfolding slub_va_to_pa_def
    by (intro page_translates [where j = "0xf7f" and i = "246 - i" and n = "0xf7ff6 - i" and pt = "Slab mmu_slub_area" and r = "map_req (stack_va i) (stack_pa i)"])
      (use u j x T te pa k in \<open>simp_all add: map_req_def\<close>)
qed

text \<open>A series of threads, each with its function and its argument.\<close>

fun create_threads :: "nat \<Rightarrow> (addr \<times> u32) list \<Rightarrow> slub_state \<Rightarrow> (slub_state \<times> addr list) res" where
  "create_threads d [] m = Inr (m, [])"
| "create_threads d ((fn, data) # ts) m =
    bind_res (thread_memory d fn data m) (\<lambda>(m, t). bind_res (create_threads d ts m) (\<lambda>(m, us). Inr (m, t # us)))"

definition made :: "(addr \<times> u32) list \<Rightarrow> (addr \<Rightarrow> u32) \<Rightarrow> bool" where
  "made ts w \<longleftrightarrow> (\<forall>i<length ts. thread_words i (fst (ts ! i)) (snd (ts ! i)) w)"

lemma made_next:
  assumes m: "made us w" and n: "length us < 100" and t: "thread_words (length us) fn data w'" and same: "\<And>a. \<not> touched (length us) (unat a) \<Longrightarrow> w' a = w a"
  shows "made (us @ [(fn, data)]) w'"
  unfolding made_def
proof (intro allI impI)
  fix i assume "i < length (us @ [(fn, data)])"
  then consider "i < length us" | "i = length us" by fastforce
  then show "thread_words i (fst ((us @ [(fn, data)]) ! i)) (snd ((us @ [(fn, data)]) ! i)) w'"
  proof cases
    case 1
    then have "thread_words i (fst (us ! i)) (snd (us ! i)) w" using m by (simp add: made_def)
    from thread_words_keep [OF this 1 n same] show ?thesis using 1 by (simp add: nth_append)
  qed (use t in \<open>simp add: nth_append\<close>)
qed

lemma threads_created:
  assumes "threads_ready mps N (length us) st" and "made us (ptm st)" and "length us + length ts \<le> 100" and "0x90a + length us + length ts \<le> N"
  shows "\<exists>st'. create_threads (Suc (Suc d)) ts st = Inr (st', map thread_at [length us..<length us + length ts])
    \<and> threads_ready mps N (length us + length ts) st' \<and> made (us @ ts) (ptm st')"
  using assms
proof (induction ts arbitrary: us st)
  case (Cons p ts)
  obtain fn data where p: "p = (fn, data)" by (cases p)
  have n: "length us < 100" "0x90a + length us < N" using Cons.prems(3,4) by simp_all
  obtain st1 where s1: "thread_memory (Suc (Suc d)) fn data st = Inr (st1, thread_at (length us))" "threads_ready mps N (Suc (length us)) st1"
      "thread_words (length us) fn data (ptm st1)" "\<forall>a. \<not> touched (length us) (unat a) \<longrightarrow> ptm st1 a = ptm st a"
    using thread_created [OF Cons.prems(1) n, of d fn data] by blast
  have m: "made (us @ [(fn, data)]) (ptm st1)" by (rule made_next [OF Cons.prems(2) n(1) s1(3)]) (use s1(4) in blast)
  have l: "length (us @ [(fn, data)]) = Suc (length us)" by simp
  obtain st' where "create_threads (Suc (Suc d)) ts st1 = Inr (st', map thread_at [Suc (length us)..<Suc (length us) + length ts])"
      "threads_ready mps N (Suc (length us) + length ts) st'" "made ((us @ [(fn, data)]) @ ts) (ptm st')"
    using Cons.IH [of "us @ [(fn, data)]" st1, unfolded l] s1(2) m Cons.prems(3,4) by auto
  then show ?case using s1(1) by (intro exI [of _ st']) (simp add: p upt_conv_Cons del: upt_Suc)
qed (simp add: made_def)

text \<open>What the processor must be like when \<open>schedule\<close> calls \<open>_schedule\<close> for a thread: \<open>r0\<close> and \<open>r1\<close> point to the members \<open>context\<close>, the running
  thread has room on its own stack, and \<open>sched_switch\<close> writes only \<open>W\<close>.\<close>

definition can_switch :: "addr \<Rightarrow> addr \<Rightarrow> addr set \<Rightarrow> (cpu \<Rightarrow> cpu) \<Rightarrow> cpu \<Rightarrow> bool" where
  "can_switch slot hi W ss c \<longleftrightarrow> reg c 0 = slot \<and> reg c 1 \<notin> area (reg c SP - 64) 16 \<and> slot \<notin> saved_area c
    \<and> area (hi - 64) 16 \<inter> saved_area c = {} \<and> callee W ss \<and> (area (hi - 64) 16 \<union> saved_area c) \<inter> W = {}"

lemma thread_starts:
  assumes w: "thread_words i fn data m" and c: "can_switch (thread_at i + 16) (stack_hi i) W ss c"
    and ram: "\<forall>x\<in>insert (thread_at i + 16) (area (stack_hi i - 64) 16). ram c x = m x"
  shows "reg (schedule_asm ss c) PC = fn \<and> reg (schedule_asm ss c) 0 = data \<and> reg (schedule_asm ss c) SP = stack_hi i"
proof -
  note C = c [unfolded can_switch_def]
  have s: "reg c 1 \<notin> area (reg c SP - 64) 16" "reg c 0 \<notin> saved_area c" "area (stack_hi i - 64) 16 \<inter> saved_area c = {}"
    "callee W ss" "(area (stack_hi i - 64) 16 \<union> saved_area c) \<inter> W = {}" using C by simp_all
  have "\<forall>x\<in>area (stack_hi i - 64) 16. ram c x = create_context (stack_hi i) fn data (\<lambda>_. 0) x" "ram c (reg c 0) = stack_hi i - 64"
    using w ram C by (simp_all add: thread_words_def)
  from fresh_start [OF s this] show ?thesis by simp
qed

text \<open>C37: Threads, from the boot tables to the first instruction. After the start-up of memory, up to a hundred threads can be created one after the
  other, as long as there are frames, and no creation asserts or waits. They get different structures and different stacks of one
  page, each mapped to a frame of its own, and when the processor switches to one of them for the first time it enters the
  function of that thread with its argument in \<open>r0\<close> and the stack pointer at the top of its stack; the threads created
  later do not disturb it.\<close>

theorem created_threads_start:
  assumes L: "layout_ok L" and boot: "boot_map L m = Inr m'" and tabs: "pd st = pd (boot_mmu L m')" "kpt st = kpt (boot_mmu L m')"
    and mp: "2048 \<le> length mp" and sz: "0x90a000 \<le> unat sz" and free: "slub_16byte_free st = 0"
    and slab: "bss_start L \<le> mps" "mps < bss_end L" "even (unat mps)" and epa: "unat epa mod 4096 = 0"
    and ts: "length ts \<le> 100" "0x90a + length ts \<le> min (unat sz) 0x8000000 div 4096"
  shows "\<exists>m1 m2. kmain_memory (Suc (Suc d)) b L mp mps epa 0 sz st = Inr m1
    \<and> create_threads (Suc (Suc d)) ts m1 = Inr (m2, map thread_at [0..<length ts])
    \<and> (\<forall>i<length ts. \<forall>k<4096. slub_va_to_pa (stack_va i + of_nat k) m2 = Inr (stack_pa i + of_nat k))
    \<and> (\<forall>i<length ts. \<forall>c W ss. can_switch (thread_at i + 16) (stack_hi i) W ss c
        \<longrightarrow> (\<forall>x\<in>insert (thread_at i + 16) (area (stack_hi i - 64) 16). ram c x = ptm m2 x)
        \<longrightarrow> reg (schedule_asm ss c) PC = fst (ts ! i) \<and> reg (schedule_asm ss c) 0 = snd (ts ! i) \<and> reg (schedule_asm ss c) SP = stack_hi i)"
proof -
  let ?N = "min (unat sz) 0x8000000 div 4096"
  obtain m1 where m1: "kmain_memory (Suc (Suc d)) b L mp mps epa 0 sz st = Inr m1" "threads_ready mps ?N 0 m1"
    using kmain_memory_result [OF L boot tabs mp sz free slab epa, of "Suc d" b] by blast
  obtain m2 where m2: "create_threads (Suc (Suc d)) ts m1 = Inr (m2, map thread_at [0..<length ts])" "threads_ready mps ?N (length ts) m2" "made ts (ptm m2)"
    using threads_created [of mps ?N "[]" m1 ts d] m1(2) ts by (auto simp: made_def)
  have w: "thread_words i (fst (ts ! i)) (snd (ts ! i)) (ptm m2)" if "i < length ts" for i using m2(3) that by (simp add: made_def)
  have "slub_va_to_pa (stack_va i + of_nat k) m2 = Inr (stack_pa i + of_nat k)" if "i < length ts" "k < 4096" for i k
    by (rule stack_translates [of mps ?N "length ts"]) (use m2(2) w [OF that(1)] ts that in \<open>simp_all add: threads_ready_def thread_words_def\<close>)
  then show ?thesis using m1(1) m2(1) thread_starts [OF w] by blast
qed

text \<open>A processor that runs on a stack of its own and switches to the second thread, for the example.\<close>

definition first_switch :: "(addr \<Rightarrow> u32) \<Rightarrow> cpu" where
  "first_switch w = \<lparr>reg = (\<lambda>r. if r = 0 then thread_at 1 + 16 else if r = 1 then 0x40030010 else if r = 13 then 0x40032000 else 0),
     cpsr = 0x60000013, lr_irq = 0, spsr_irq = 0, ram = w\<rparr>"

lemma first_switch_ready: "can_switch (thread_at 1 + 16) (stack_hi 1) {0x5000} set_current (first_switch w)"
proof -
  have "thread_at 1 = 0xf7ff9020" "stack_hi 1 = 0xf7ff6000"
    by (simp_all add: thread_at_def obj_def first_va_def stack_hi_def stack_va_def)
  then show ?thesis
    using set_current_callee unfolding can_switch_def saved_area_def area_16 first_switch_def by (simp add: upt_rec)
qed

theorem created_threads_start_witness:
  "\<exists>m' m1 m2. boot_map layout0 (\<lambda>_. 7) = Inr m'
    \<and> kmain_memory 22 RPI layout0 (replicate 2048 7) 0x40018000 0x21000 0 0x8000000
        (demo\<lparr>pd := pd (boot_mmu layout0 m'), kpt := kpt (boot_mmu layout0 m'), slub_16byte_free := 0\<rparr>) = Inr m1
    \<and> create_threads 22 [(0x40010000, 0), (0x40010100, 5)] m1 = Inr (m2, [thread_at 0, thread_at 1])
    \<and> slub_va_to_pa 0xf7ff5008 m2 = Inr 0x90b008
    \<and> reg (schedule_asm set_current (first_switch (ptm m2))) 15 = 0x40010100 \<and> reg (schedule_asm set_current (first_switch (ptm m2))) 0 = 5"
proof -
  have L: "layout_ok layout0" by (simp add: layout_ok_def layout0_def si_def kmode_consts)
  obtain m' where m': "boot_map layout0 (\<lambda>_. 7) = Inr m'" using boot_map_result [OF L, of "\<lambda>_. 7"] by metis
  let ?st = "demo\<lparr>pd := pd (boot_mmu layout0 m'), kpt := kpt (boot_mmu layout0 m'), slub_16byte_free := 0\<rparr>"
  let ?ts = "[(0x40010000, 0), (0x40010100, 5)] :: (addr \<times> u32) list"
  have h: "pd ?st = pd (boot_mmu layout0 m')" "kpt ?st = kpt (boot_mmu layout0 m')" "2048 \<le> length (replicate 2048 (7 :: u32))"
    "0x90a000 \<le> unat (0x8000000 :: u32)" "slub_16byte_free ?st = 0" "bss_start layout0 \<le> 0x40018000" "0x40018000 < bss_end layout0"
    "even (unat (0x40018000 :: addr))" "unat (0x21000 :: addr) mod 4096 = 0" "length ?ts \<le> 100"
    "0x90a + length ?ts \<le> min (unat (0x8000000 :: u32)) 0x8000000 div 4096" by (simp_all add: layout0_def)
  obtain m1 m2 where e: "kmain_memory (Suc (Suc 20)) RPI layout0 (replicate 2048 7) 0x40018000 0x21000 0 0x8000000 ?st = Inr m1"
    and c: "create_threads (Suc (Suc 20)) ?ts m1 = Inr (m2, map thread_at [0..<length ?ts])"
    and t: "\<forall>i<length ?ts. \<forall>k<4096. slub_va_to_pa (stack_va i + of_nat k) m2 = Inr (stack_pa i + of_nat k)"
    and s: "\<forall>i<length ?ts. \<forall>c W ss. can_switch (thread_at i + 16) (stack_hi i) W ss c
        \<longrightarrow> (\<forall>x\<in>insert (thread_at i + 16) (area (stack_hi i - 64) 16). ram c x = ptm m2 x)
        \<longrightarrow> reg (schedule_asm ss c) PC = fst (?ts ! i) \<and> reg (schedule_asm ss c) 0 = snd (?ts ! i) \<and> reg (schedule_asm ss c) SP = stack_hi i"
    using created_threads_start [OF L m' h, of 20 RPI] by blast
  have d: "Suc (Suc 20) = 22" "map thread_at [0..<length ?ts] = [thread_at 0, thread_at 1]" by (simp_all add: upt_rec)
  have "slub_va_to_pa (stack_va 1 + of_nat 8) m2 = Inr (stack_pa 1 + of_nat 8)" by (rule t [rule_format]) simp_all
  then have t1: "slub_va_to_pa 0xf7ff5008 m2 = Inr 0x90b008" by (simp add: stack_va_def stack_pa_def)
  have "reg (schedule_asm set_current (first_switch (ptm m2))) PC = fst (?ts ! 1) \<and> reg (schedule_asm set_current (first_switch (ptm m2))) 0 = snd (?ts ! 1)"
    using s [rule_format, of 1 "{0x5000}" set_current "first_switch (ptm m2)"] first_switch_ready by (simp add: first_switch_def)
  then show ?thesis using m' e c t1 unfolding d by (intro exI [of _ m'] exI [of _ m1] exI [of _ m2]) simp
qed

end
