(* ===== verification/Startup.thy ===== *)
theory Startup
  imports Threads Fb
begin

text \<open>
  The rest of \<open>kmain\<close> of src/kernel/main.c: the scheduler, the work queue and the drivers are set up on the memory that MemInit describes, and
  their threads are created with structures and stacks of Threads. The handlers of the three kinds of interrupt are tables; those of the
  scheduler act on its part of the state.
\<close>

section \<open>Threads that start-up creates\<close>

text \<open>\<open>use\<close> is what the creator does with the new thread: \<open>sched_thread_create\<close> of \<open>Sched\<close> puts it on the ready queue.\<close>

definition kthread_create ::
    "nat \<Rightarrow> (tid \<Rightarrow> 'a fb_state_scheme \<Rightarrow> 'a fb_state_scheme) \<Rightarrow> addr \<Rightarrow> u32 \<Rightarrow> 'a fb_state_scheme \<Rightarrow> 'a fb_state_scheme res" where
  "kthread_create d use fn data st =
    bind_res (thread_memory d fn data (mem st)) (\<lambda>(m, t). Inr (use (unat t) (st\<lparr>mem := m\<rparr>)))"

definition make_ready :: "tid \<Rightarrow> 'a fb_state_scheme \<Rightarrow> 'a fb_state_scheme" where
  "make_ready t st = st\<lparr>sch := sched_thread_create t (sch st)\<rparr>"

text \<open>The functions of the threads that start-up creates.\<close>

datatype kthread = Sched_idle | Wq_worker | Display_thread | Ticker_thread

section \<open>Start-up\<close>

text \<open>Handlers of the scheduler as handlers of the whole state.\<close>

definition on_sched :: "sched handler \<Rightarrow> 'a fb_state_scheme handler" where
  "on_sched f st = bind_res (f (sch st)) (\<lambda>s. Inr (st\<lparr>sch := s\<rparr>))"

definition ksched_init :: "nat \<Rightarrow> addr \<Rightarrow> 'a fb_state_scheme handlers \<Rightarrow> 'a fb_state_scheme \<Rightarrow> ('a fb_state_scheme handlers \<times> 'a fb_state_scheme) res" where
  "ksched_init d fn stab st =
    bind_res (irq_sched_insert IRQ_SCHED_SCHEDULE (on_sched sched_irq_schedule) stab) (\<lambda>stab.
      bind_res (irq_sched_insert IRQ_SCHED_TIMER (on_sched sched_irq_timer) stab) (\<lambda>stab.
        bind_res (kthread_create d (\<lambda>t st. st\<lparr>sch := sched_init t (sch st)\<rparr>) fn 0 st) (\<lambda>st. Inr (stab, st))))"

text \<open>\<open>kmain\<close> from \<open>intc_init\<close> to \<open>mbox_init\<close>: no interrupt comes yet. \<open>tab\<close> are the handlers that wake-ups of the drivers may run, \<open>fn\<close> the
  addresses of the functions.\<close>

definition kmain_quiet ::
    "sched handlers \<Rightarrow> device \<Rightarrow> board \<Rightarrow> nat \<Rightarrow> (kthread \<Rightarrow> addr) \<Rightarrow> 'a fb_state_scheme \<Rightarrow>
     ('a fb_state_scheme handlers \<times> 'a fb_state_scheme handlers \<times> 'a fb_state_scheme handlers \<times> 'a fb_state_scheme) res" where
  "kmain_quiet tab dev brd d fn st =
    (let hard = (\<lambda>_. None); soft = (\<lambda>_. None); stab = (\<lambda>_. None);
         st = intc_init dev brd st;
         st = st\<lparr>sch := irq_init (sch st)\<rparr>
     in bind_res (ksched_init d (fn Sched_idle) stab st) (\<lambda>(stab, st).
       bind_res (kthread_create d ioreq_init (fn Wq_worker) ioc_wq st) (\<lambda>st.
       bind_res (timer_init brd dev hard soft st) (\<lambda>(hard, soft, st).
       bind_res (mbox_init tab dev hard stab st) (\<lambda>(hard, stab, st). Inr (hard, soft, stab, st))))))"

text \<open>The rest, from \<open>irq_enable\<close> on: interrupts come whenever the thread waits, which is \<open>sleep\<close>. \<open>ior\<close> is a request on the stack of the first thread,
  \<open>b\<close> the buffer of \<open>fb.c\<close>. Behind it the first thread waits for an event that never comes.\<close>

definition kmain_live ::
    "('a fb_state_scheme \<Rightarrow> 'a fb_state_scheme res) \<Rightarrow> sched handlers \<Rightarrow> device \<Rightarrow> board \<Rightarrow> nat \<Rightarrow> (kthread \<Rightarrow> addr) \<Rightarrow> addr \<Rightarrow> addr \<Rightarrow>
     'a fb_state_scheme handlers \<times> 'a fb_state_scheme handlers \<times> 'a fb_state_scheme handlers \<times> 'a fb_state_scheme \<Rightarrow>
     ('a fb_state_scheme handlers \<times> 'a fb_state_scheme handlers \<times> 'a fb_state_scheme handlers \<times> 'a fb_state_scheme) res" where
  "kmain_live sleep tab dev brd d fn ior b = (\<lambda>(hard, soft, stab, st).
     let st = timer_start brd dev st
     in bind_res (if brd = QRPI2 then fb_init sleep dev d ior b st else Inr st) (\<lambda>st.
       bind_res (uart_init sleep dev brd d ior hard st) (\<lambda>(hard, st).
       bind_res (if brd = QRPI2 then kthread_create d make_ready (fn Display_thread) 0 st else Inr st) (\<lambda>st.
       bind_res (kthread_create d make_ready (fn Ticker_thread) 0 st) (\<lambda>st.
       bind_res (sdhc_init sleep tab dev d ior hard stab st) (\<lambda>(hard, stab, st).
         Inr (hard, soft, stab, st)))))))"

text \<open>\<open>kmain\<close> up to \<open>irq_enable\<close>, and all of it: \<open>_ram\<close> and \<open>_ramsz\<close> are read first, \<open>cur\<close> is the first thread.\<close>

definition kmain_start ::
    "sched handlers \<Rightarrow> device \<Rightarrow> board \<Rightarrow> nat \<Rightarrow> (kthread \<Rightarrow> addr) \<Rightarrow> tid \<Rightarrow> layout \<Rightarrow> u32 list \<Rightarrow> addr \<Rightarrow> addr \<Rightarrow> u32 \<Rightarrow> u32 \<Rightarrow> 'a fb_state_scheme \<Rightarrow>
     ('a fb_state_scheme handlers \<times> 'a fb_state_scheme handlers \<times> 'a fb_state_scheme handlers \<times> 'a fb_state_scheme) res" where
  "kmain_start tab dev brd d fn cur L mp mmu_pt_slab excpt_start_pa rm rmsz st =
    (let st = st\<lparr>sch := sched_current_init cur (sch st)\<rparr>
     in bind_res (kmain_memory d brd L mp mmu_pt_slab excpt_start_pa rm rmsz (mem st)) (\<lambda>m. kmain_quiet tab dev brd d fn (st\<lparr>mem := m\<rparr>)))"

definition kmain ::
    "('a fb_state_scheme \<Rightarrow> 'a fb_state_scheme res) \<Rightarrow> sched handlers \<Rightarrow> device \<Rightarrow> board \<Rightarrow> nat \<Rightarrow> (kthread \<Rightarrow> addr) \<Rightarrow> addr \<Rightarrow> addr \<Rightarrow>
     tid \<Rightarrow> layout \<Rightarrow> u32 list \<Rightarrow> addr \<Rightarrow> addr \<Rightarrow> u32 \<Rightarrow> u32 \<Rightarrow> 'a fb_state_scheme \<Rightarrow>
     ('a fb_state_scheme handlers \<times> 'a fb_state_scheme handlers \<times> 'a fb_state_scheme handlers \<times> 'a fb_state_scheme) res" where
  "kmain sleep tab dev brd d fn ior b cur L mp mmu_pt_slab excpt_start_pa rm rmsz st =
    bind_res (kmain_start tab dev brd d fn cur L mp mmu_pt_slab excpt_start_pa rm rmsz st) (kmain_live sleep tab dev brd d fn ior b)"

section \<open>What the first calls leave\<close>

text \<open>The drivers that are set up before interrupts come touch neither memory nor the scheduler.\<close>

lemma intc_init_keeps [simp]:
  "mem (intc_init dev b st) = mem st" "sch (intc_init dev b st) = sch st" for st :: "'a fb_state_scheme"
  by (simp_all add: intc_init_def Let_def set_bits_def readl_def writel_def read_port_def emit_def split: prod.splits)

lemma timer_disable_keeps [simp]:
  "mem (timer_disable b dev st) = mem st" "sch (timer_disable b dev st) = sch st" "wq_thread (timer_disable b dev st) = wq_thread st" for st :: "'a fb_state_scheme"
  by (cases b; simp add: timer_disable_def qrpi2_timer_disable_def rpi1_timer_disable_def timer_reg_read_def timer_reg_write_def
      readl_def writel_def read_port_def emit_def Let_def)+

lemma timer_freq_keeps:
  "timer_freq b dev st = (st', f) \<Longrightarrow> mem st' = mem st \<and> sch st' = sch st \<and> wq_thread st' = wq_thread st" for st :: "'a fb_state_scheme"
  by (cases b) (auto simp: timer_freq_def qrpi2_timer_freq_def rpi1_timer_freq_def timer_reg_read_def read_port_def emit_def Let_def)

lemma timer_init_result:
  fixes st :: "'a fb_state_scheme"
  shows "\<exists>st'. timer_init b dev (\<lambda>_. None) (\<lambda>_. None) st = Inr ([IRQ_HARD_TIMER \<mapsto> (\<lambda>st. Inr (fst (timer_irq (timer_is_asserted b dev) (timer_rearm b dev) st)))],
      [IRQ_SOFT_TIMER \<mapsto> (\<lambda>st. Inr (timer_irq_soft st))], st')
    \<and> mem st' = mem st \<and> sch st' = sch st \<and> wq_thread st' = wq_thread st"
proof -
  let ?st = "timer_disable b dev (st\<lparr>tm_ticks := 0\<rparr>)"
  obtain st' f where f: "timer_freq b dev ?st = (st', f)" by (cases "timer_freq b dev ?st")
  from timer_freq_keeps [OF this] f show ?thesis
    by (simp add: timer_init_def irq_hard_insert_def irq_soft_insert_def irq_insert_def irq_consts IRQ_HARD_TIMER_def)
qed

lemma mbox_init_result:
  fixes st :: "'a fb_state_scheme"
  assumes "hard IRQ_HARD_MBOX = None" and "stab IRQ_SCHED_MBOX = None"
  shows "\<exists>st'. mbox_init tab dev hard stab st = Inr (hard(IRQ_HARD_MBOX \<mapsto> (\<lambda>st. Inr (mbox_irq dev st))), stab(IRQ_SCHED_MBOX \<mapsto> mbox_irq_sched tab dev), st')
    \<and> mem st' = mem st \<and> sch st' = sch st \<and> wq_thread st' = wq_thread st"
  using assms
  by (simp add: mbox_init_def Let_def ioq_init_def upd_ioq_def irq_hard_insert_def irq_sched_insert_def irq_insert_def irq_consts
      IRQ_HARD_MBOX_def IRQ_SCHED_MBOX_def writel_def emit_def)

lemma kthread_created:
  fixes st :: "'a fb_state_scheme"
  assumes r: "threads_ready mps N n (mem st)" and n: "n < 100" and N: "0x90a + n < N"
  shows "\<exists>m. kthread_create (Suc (Suc d)) use fn data st = Inr (use (unat (thread_at n)) (st\<lparr>mem := m\<rparr>)) \<and> threads_ready mps N (Suc n) m
    \<and> thread_words n fn data (ptm m) \<and> (\<forall>a. \<not> touched n (unat a) \<longrightarrow> ptm m a = ptm (mem st) a)"
  using thread_created [OF r n N, of d fn data] by (auto simp: kthread_create_def)

section \<open>Properties\<close>

text \<open>The state when interrupts are enabled: who is on the ready queue, what handles which interrupt, and what the two threads have in memory.\<close>

definition quiet_done :: "sched handlers \<Rightarrow> device \<Rightarrow> board \<Rightarrow> (kthread \<Rightarrow> addr) \<Rightarrow> 'a fb_state_scheme handlers \<Rightarrow> 'a fb_state_scheme handlers \<Rightarrow>
    'a fb_state_scheme handlers \<Rightarrow> 'a fb_state_scheme \<Rightarrow> bool" where
  "quiet_done tab dev b fn hard soft stab st \<longleftrightarrow>
    hard = [IRQ_HARD_TIMER \<mapsto> (\<lambda>st. Inr (fst (timer_irq (timer_is_asserted b dev) (timer_rearm b dev) st))), IRQ_HARD_MBOX \<mapsto> (\<lambda>st. Inr (mbox_irq dev st))]
    \<and> soft = [IRQ_SOFT_TIMER \<mapsto> (\<lambda>st. Inr (timer_irq_soft st))]
    \<and> stab = [IRQ_SCHED_SCHEDULE \<mapsto> on_sched sched_irq_schedule, IRQ_SCHED_TIMER \<mapsto> on_sched sched_irq_timer, IRQ_SCHED_MBOX \<mapsto> mbox_irq_sched tab dev]
    \<and> ready (sch st) = [unat (thread_at 0), unat (thread_at 1)] \<and> idle (sch st) = unat (thread_at 0) \<and> wq_thread st ioc_wq = unat (thread_at 1)
    \<and> irq_soft_mask (sch st) = 0 \<and> irq_sched_mask (sch st) = 0
    \<and> thread_words 0 (fn Sched_idle) 0 (ptm (mem st)) \<and> thread_words 1 (fn Wq_worker) ioc_wq (ptm (mem st))"

lemma kmain_quiet_result:
  fixes st :: "'a fb_state_scheme"
  assumes r: "threads_ready mps N 0 (mem st)" and N: "0x90c \<le> N"
  shows "\<exists>hard soft stab st'. kmain_quiet tab dev b (Suc (Suc d)) fn st = Inr (hard, soft, stab, st') \<and> quiet_done tab dev b fn hard soft stab st'
    \<and> current (sch st') = current (sch st) \<and> threads_ready mps N 2 (mem st')"
proof -
  let ?d = "Suc (Suc d)"
  define s1 where "s1 = (intc_init dev b st)\<lparr>sch := irq_init (sch st)\<rparr>"
  have k1: "mem s1 = mem st" "sch s1 = irq_init (sch st)" by (simp_all add: s1_def)
  obtain m2 where c2: "kthread_create ?d (\<lambda>t st. st\<lparr>sch := sched_init t (sch st)\<rparr>) (fn Sched_idle) 0 s1
      = Inr ((s1\<lparr>mem := m2\<rparr>)\<lparr>sch := sched_init (unat (thread_at 0)) (sch (s1\<lparr>mem := m2\<rparr>))\<rparr>)"
    and r2: "threads_ready mps N 1 m2" and w2: "thread_words 0 (fn Sched_idle) 0 (ptm m2)"
    using kthread_created [of mps N 0 s1 d "\<lambda>t st. st\<lparr>sch := sched_init t (sch st)\<rparr>" "fn Sched_idle" 0] r N unfolding k1 by auto
  define s2 where "s2 = (s1\<lparr>mem := m2\<rparr>)\<lparr>sch := sched_init (unat (thread_at 0)) (sch (s1\<lparr>mem := m2\<rparr>))\<rparr>"
  have k2: "mem s2 = m2" "sch s2 = sched_init (unat (thread_at 0)) (irq_init (sch st))" by (simp_all add: s2_def k1)
  let ?stab = "[IRQ_SCHED_SCHEDULE \<mapsto> on_sched sched_irq_schedule, IRQ_SCHED_TIMER \<mapsto> on_sched sched_irq_timer]"
  have ks: "ksched_init ?d (fn Sched_idle) (\<lambda>_. None) s1 = Inr (?stab, s2)"
    unfolding ksched_init_def using c2 [folded s2_def] by (simp add: irq_sched_insert_def irq_insert_def irq_consts)
  obtain m3 where c3: "kthread_create ?d ioreq_init (fn Wq_worker) ioc_wq s2 = Inr (ioreq_init (unat (thread_at 1)) (s2\<lparr>mem := m3\<rparr>))"
    and r3: "threads_ready mps N 2 m3" and w3: "thread_words 1 (fn Wq_worker) ioc_wq (ptm m3)" and o3: "\<forall>a. \<not> touched 1 (unat a) \<longrightarrow> ptm m3 a = ptm m2 a"
    using kthread_created [of mps N 1 s2 d ioreq_init "fn Wq_worker" ioc_wq] r2 N unfolding k2 by (auto simp: numeral_2_eq_2)
  define s3 where "s3 = ioreq_init (unat (thread_at 1)) (s2\<lparr>mem := m3\<rparr>)"
  have w23: "thread_words 0 (fn Sched_idle) 0 (ptm m3)" by (rule thread_words_keep [OF w2, of 1]) (use o3 in auto)
  have k3: "mem s3 = m3" "wq_thread s3 ioc_wq = unat (thread_at 1)" "current (sch s3) = current (sch st)" "idle (sch s3) = unat (thread_at 0)"
      "ready (sch s3) = [unat (thread_at 0), unat (thread_at 1)]" "irq_soft_mask (sch s3) = 0" "irq_sched_mask (sch s3) = 0"
    by (simp_all add: s3_def ioreq_init_def wq_init_def Let_def k2 sched_init_def sched_thread_create_def upd_thr_def irq_init_def)
  define h4 :: "'a fb_state_scheme handler" where "h4 = (\<lambda>st. Inr (fst (timer_irq (timer_is_asserted b dev) (timer_rearm b dev) st)))"
  define h5 :: "'a fb_state_scheme handler" where "h5 = (\<lambda>st. Inr (mbox_irq dev st))"
  define s4 :: "'a fb_state_scheme handler" where "s4 = (\<lambda>st. Inr (timer_irq_soft st))"
  obtain t4 where c4: "timer_init b dev (\<lambda>_. None) (\<lambda>_. None) s3 = Inr ([IRQ_HARD_TIMER \<mapsto> h4], [IRQ_SOFT_TIMER \<mapsto> s4], t4)"
    and k4: "mem t4 = m3" "sch t4 = sch s3" "wq_thread t4 = wq_thread s3"
    using timer_init_result [of b dev s3] k3(1) unfolding h4_def s4_def by auto
  have n: "[IRQ_HARD_TIMER \<mapsto> h4] IRQ_HARD_MBOX = None" "?stab IRQ_SCHED_MBOX = None"
    by (simp_all add: IRQ_HARD_TIMER_def IRQ_HARD_MBOX_def IRQ_SCHED_MBOX_def irq_consts)
  obtain t5 where c5: "mbox_init tab dev [IRQ_HARD_TIMER \<mapsto> h4] ?stab t4
      = Inr ([IRQ_HARD_TIMER \<mapsto> h4, IRQ_HARD_MBOX \<mapsto> h5], ?stab(IRQ_SCHED_MBOX \<mapsto> mbox_irq_sched tab dev), t5)"
    and k5: "mem t5 = m3" "sch t5 = sch s3" "wq_thread t5 = wq_thread s3"
    using mbox_init_result [where hard = "[IRQ_HARD_TIMER \<mapsto> h4]" and stab = ?stab, OF n, of tab dev t4] k4 unfolding h5_def by auto
  have "kmain_quiet tab dev b ?d fn st
      = Inr ([IRQ_HARD_TIMER \<mapsto> h4, IRQ_HARD_MBOX \<mapsto> h5], [IRQ_SOFT_TIMER \<mapsto> s4], ?stab(IRQ_SCHED_MBOX \<mapsto> mbox_irq_sched tab dev), t5)"
  proof -
    have "(intc_init dev b st)\<lparr>sch := irq_init (sch (intc_init dev b st))\<rparr> = s1" by (simp add: s1_def)
    then show ?thesis
      by (simp only: kmain_quiet_def Let_def ks c3 [folded s3_def] c4 c5 bind_res_simps prod.case)
  qed
  moreover have "quiet_done tab dev b fn [IRQ_HARD_TIMER \<mapsto> h4, IRQ_HARD_MBOX \<mapsto> h5] [IRQ_SOFT_TIMER \<mapsto> s4] (?stab(IRQ_SCHED_MBOX \<mapsto> mbox_irq_sched tab dev)) t5"
    unfolding quiet_done_def k5 h4_def h5_def s4_def using k3 w23 w3 by (intro conjI) simp_all
  ultimately show ?thesis using k5 k3(3) r3 by (intro exI) (rule conjI, assumption, simp)
qed

text \<open>C38: Start-up, from the boot tables to the point where interrupts are enabled, on either board: with nine megabytes and twelve pages no assertion
  fails and nothing is waited for. Then the idle thread and the worker of the I/O requests are ready, in this order, each with a structure, a stack and a
  first frame that enters its function; the handlers of the timer and of the mailbox are registered and no others; no
  deferred interrupt is pending; and the running thread is still the first.\<close>

theorem kmain_reaches_interrupts:
  fixes st :: "'a fb_state_scheme"
  assumes L: "layout_ok L" and boot: "boot_map L m = Inr m'" and tabs: "pd (mem st) = pd (boot_mmu L m')" "kpt (mem st) = kpt (boot_mmu L m')"
    and mp: "2048 \<le> length mp" and sz: "0x90c000 \<le> unat sz" and free: "slub_16byte_free (mem st) = 0"
    and slab: "bss_start L \<le> mps" "mps < bss_end L" "even (unat mps)" and epa: "unat epa mod 4096 = 0"
  shows "\<exists>hard soft stab st'. kmain_start tab dev b (Suc (Suc d)) fn cur L mp mps epa 0 sz st = Inr (hard, soft, stab, st')
    \<and> quiet_done tab dev b fn hard soft stab st' \<and> current (sch st') = cur
    \<and> (\<forall>i<2. \<forall>k<4096. slub_va_to_pa (stack_va i + of_nat k) (mem st') = Inr (stack_pa i + of_nat k))"
proof -
  let ?N = "min (unat sz) 0x8000000 div 4096"
  have sz': "0x90a000 \<le> unat sz" using sz by simp
  have N: "0x90c \<le> ?N" using sz div_le_mono [of "0x90c000" "min (unat sz) 0x8000000" 4096] by simp
  let ?s = "st\<lparr>sch := sched_current_init cur (sch st)\<rparr>"
  obtain m1 where m1: "kmain_memory (Suc (Suc d)) b L mp mps epa 0 sz (mem st) = Inr m1" "threads_ready mps ?N 0 m1"
    using kmain_memory_result [OF L boot tabs mp sz' free slab epa, of "Suc d" b] by blast
  have "threads_ready mps ?N 0 (mem (?s\<lparr>mem := m1\<rparr>))" using m1(2) by simp
  then obtain hard soft stab st' where q: "kmain_quiet tab dev b (Suc (Suc d)) fn (?s\<lparr>mem := m1\<rparr>) = Inr (hard, soft, stab, st')"
      "quiet_done tab dev b fn hard soft stab st'" "current (sch st') = current (sch (?s\<lparr>mem := m1\<rparr>))" "threads_ready mps ?N 2 (mem st')"
    using kmain_quiet_result [OF _ N, of mps "?s\<lparr>mem := m1\<rparr>" tab dev b d fn] by blast
  have c: "current (sch (?s\<lparr>mem := m1\<rparr>)) = cur" by (simp add: sched_current_init_def)
  have run: "kmain_start tab dev b (Suc (Suc d)) fn cur L mp mps epa 0 sz st = Inr (hard, soft, stab, st')"
    using m1(1) q(1) by (simp add: kmain_start_def Let_def)
  have "slub_va_to_pa (stack_va i + of_nat k) (mem st') = Inr (stack_pa i + of_nat k)" if "i < 2" "k < 4096" for i k
  proof -
    have "i = 0 \<or> i = 1" using that(1) by auto
    then have "ptm (mem st') (mmu_slub_area + 4 * of_nat (246 - i)) = page_te (map_req (stack_va i) (stack_pa i)) (stack_pa i)"
      using q(2) by (auto simp: quiet_done_def thread_words_def)
    then show ?thesis using q(4) that by (intro stack_translates [of mps ?N 2]) (simp_all add: threads_ready_def)
  qed
  then show ?thesis using run q(2) q(3) [unfolded c]
    by (intro exI [of _ hard] exI [of _ soft] exI [of _ stab] exI [of _ st']) blast
qed

theorem kmain_reaches_interrupts_witness:
  "\<exists>m' hard soft stab st'. boot_map layout0 (\<lambda>_. 7) = Inr m'
    \<and> kmain_start (\<lambda>_. None) (\<lambda>_ _. 0) QRPI2 22 (\<lambda>_. 0x40010000) 7 layout0 (replicate 2048 7) 0x40018000 0x21000 0 0x8000000
        (fb0\<lparr>mem := demo\<lparr>pd := pd (boot_mmu layout0 m'), kpt := kpt (boot_mmu layout0 m'), slub_16byte_free := 0\<rparr>\<rparr>) = Inr (hard, soft, stab, st')
    \<and> ready (sch st') = [0xf7ff9000, 0xf7ff9020] \<and> slub_va_to_pa 0xf7ff5008 (mem st') = Inr 0x90b008 \<and> dom soft = {0}"
proof -
  have L: "layout_ok layout0" by (simp add: layout_ok_def layout0_def si_def kmode_consts)
  obtain m' where m': "boot_map layout0 (\<lambda>_. 7) = Inr m'" using boot_map_result [OF L, of "\<lambda>_. 7"] by metis
  let ?st = "fb0\<lparr>mem := demo\<lparr>pd := pd (boot_mmu layout0 m'), kpt := kpt (boot_mmu layout0 m'), slub_16byte_free := 0\<rparr>\<rparr>"
  have h: "pd (mem ?st) = pd (boot_mmu layout0 m')" "kpt (mem ?st) = kpt (boot_mmu layout0 m')" "2048 \<le> length (replicate 2048 (7 :: u32))"
    "0x90c000 \<le> unat (0x8000000 :: u32)" "slub_16byte_free (mem ?st) = 0" "bss_start layout0 \<le> 0x40018000" "0x40018000 < bss_end layout0"
    "even (unat (0x40018000 :: addr))" "unat (0x21000 :: addr) mod 4096 = 0" by (simp_all add: layout0_def)
  obtain hard soft stab st' where e: "kmain_start (\<lambda>_. None) (\<lambda>_ _. 0) QRPI2 (Suc (Suc 20)) (\<lambda>_. 0x40010000) 7 layout0 (replicate 2048 7) 0x40018000 0x21000 0 0x8000000 ?st
      = Inr (hard, soft, stab, st')"
    and q: "quiet_done (\<lambda>_. None) (\<lambda>_ _. 0) QRPI2 (\<lambda>_. 0x40010000) hard soft stab st'"
    and t: "\<forall>i<2. \<forall>k<4096. slub_va_to_pa (stack_va i + of_nat k) (mem st') = Inr (stack_pa i + of_nat k)"
    using kmain_reaches_interrupts [OF L m' h, of "\<lambda>_. None" "\<lambda>_ _. 0" QRPI2 20 "\<lambda>_. 0x40010000" 7] by blast
  have d: "Suc (Suc 20) = 22" by simp
  have "slub_va_to_pa (stack_va 1 + of_nat 8) (mem st') = Inr (stack_pa 1 + of_nat 8)" by (rule t [rule_format]) simp_all
  then have t1: "slub_va_to_pa 0xf7ff5008 (mem st') = Inr 0x90b008" by (simp add: stack_va_def stack_pa_def)
  have "ready (sch st') = [0xf7ff9000, 0xf7ff9020]" "dom soft = {IRQ_SOFT_TIMER}"
    using q by (simp_all add: quiet_done_def thread_unat(1) del: One_nat_def)
  then show ?thesis using m' e t1 unfolding d irq_consts
    by (intro exI [of _ m'] exI [of _ hard] exI [of _ soft] exI [of _ stab] exI [of _ st']) simp
qed

end
