(* ===== verification/Display.thy ===== *)
theory Display
  imports Lib SlubHeap Fb Uart
begin

text \<open>
  The two threads that \<open>kmain\<close> of src/kernel/main.c starts at its end: \<open>display_thread\<close> draws boxes of 64 by 64 pixels in the corners of the frame
  buffer and changes their colour every second, \<open>ticker_thread\<close> sends a count. The bytes of the frame buffer and of the two lines of a box are
  a memory of bytes beside the words of the allocator.
\<close>

section \<open>Drawing\<close>

text \<open>What the thread reads of the reply \<open>fbi\<close>.\<close>

record fb_info =
  phy_height :: u32
  pitch :: u32
  depth :: u32

definition fb_info_at :: "addr \<Rightarrow> 'a mbox_state_scheme \<Rightarrow> fb_info" where
  "fb_info_at b st = \<lparr>phy_height = word_at (b + 4) st, pitch = word_at (b + 16) st, depth = word_at (b + 20) st\<rparr>"

text \<open>\<open>fbi->depth >> 3\<close>, and \<open>colsz\<close>, the bytes of a line of a box.\<close>

definition pixel_bytes :: "fb_info \<Rightarrow> u32" where "pixel_bytes I = drop_bit 3 (depth I)"

definition colsz :: "fb_info \<Rightarrow> u32" where "colsz I = pixel_bytes I * 64"

text \<open>The loop that paints the two lines; \<open>i\<close> and \<open>colsz\<close> are signed, and it need not end for every depth.\<close>

partial_function (option) paint_loop :: "u32 \<Rightarrow> u32 \<Rightarrow> addr \<Rightarrow> addr \<Rightarrow> u32 \<Rightarrow> mem \<Rightarrow> mem option" where
  "paint_loop step n l0 l1 i m =
    (if i <s n then paint_loop step n l0 l1 (i + step) (m(l0 + i := 0xff, l1 + (i + 2) := 0xff)) else Some m)"

definition paint_lines :: "fb_info \<Rightarrow> addr \<Rightarrow> addr \<Rightarrow> mem \<Rightarrow> mem res" where
  "paint_lines I l0 l1 m =
    (let n = colsz I; m = memset m l0 0 n; m = memset m l1 0 n
     in case paint_loop (pixel_bytes I) n l0 l1 0 m of None \<Rightarrow> Inl Endless | Some m \<Rightarrow> Inr m)"

text \<open>One row of the two boxes at the same height, the 64 rows, and the boxes at the top and at the bottom.\<close>

fun draw_row :: "u32 \<Rightarrow> u32 \<Rightarrow> addr \<Rightarrow> mem \<times> addr \<times> addr \<Rightarrow> mem \<times> addr \<times> addr" where
  "draw_row n w l (m, p, q) = (let m = fst (memcpy m p l n); m = fst (memcpy m q l n) in (m, p + w, q + w))"

definition draw_rows :: "u32 \<Rightarrow> u32 \<Rightarrow> addr \<Rightarrow> addr \<Rightarrow> mem \<Rightarrow> mem" where
  "draw_rows n w l p m = fst ((draw_row n w l ^^ 64) (m, p, p + w - n))"

definition draw_boxes :: "fb_info \<Rightarrow> addr \<Rightarrow> addr \<Rightarrow> mem \<Rightarrow> mem" where
  "draw_boxes I f l m =
    (let m = draw_rows (colsz I) (pitch I) l f m
     in draw_rows (colsz I) (pitch I) l (f + (phy_height I - 64) * pitch I) m)"

text \<open>The first rounds of the endless loop. \<open>nap\<close> is \<open>msleep(1000)\<close>, with what others do to the memory meanwhile; the memory is the one at the
  start of the next round.\<close>

fun display_rounds :: "(mem \<Rightarrow> mem) \<Rightarrow> fb_info \<Rightarrow> addr \<Rightarrow> addr \<Rightarrow> addr \<Rightarrow> nat \<Rightarrow> bool \<Rightarrow> mem \<Rightarrow> mem" where
  "display_rounds nap I f l0 l1 0 i m = m"
| "display_rounds nap I f l0 l1 (Suc k) i m = display_rounds nap I f l0 l1 k (\<not> i) (nap (draw_boxes I f (if i then l1 else l0) m))"

text \<open>\<open>display_thread\<close> up to the end of round \<open>k\<close>, with \<open>fb\<close> and \<open>fbi\<close> as \<open>f\<close> and \<open>I\<close>.\<close>

definition display_thread :: "(mem \<Rightarrow> mem) \<Rightarrow> nat \<Rightarrow> fb_info \<Rightarrow> addr \<Rightarrow> nat \<Rightarrow> slub_state \<Rightarrow> mem \<Rightarrow> (slub_state \<times> mem) res" where
  "display_thread nap d I f k st m =
    bind_res (kmalloc d (colsz I) st) (\<lambda>(st, l0).
      bind_res (kmalloc d (colsz I) st) (\<lambda>(st, l1).
        assert_that ''main.c:60'' (l0 \<noteq> 0 \<and> l1 \<noteq> 0)
          (bind_res (paint_lines I l0 l1 m) (\<lambda>m. Inr (st, display_rounds nap I f l0 l1 k False m)))))"

section \<open>The ticker\<close>

text \<open>The first rounds of \<open>ticker_thread\<close>; \<open>nap\<close> is everything that happens during \<open>msleep(1000)\<close>. The count is an \<open>int\<close>, which \<open>uart_send_num\<close>
  takes as an unsigned number.\<close>

fun ticker_rounds :: "('a io_state_scheme \<Rightarrow> 'a io_state_scheme res) \<Rightarrow> device \<Rightarrow> nat \<Rightarrow> u32 \<Rightarrow> 'a io_state_scheme \<Rightarrow> 'a io_state_scheme res" where
  "ticker_rounds nap dev 0 ticks st = Inr st"
| "ticker_rounds nap dev (Suc k) ticks st =
    bind_res (uart_send_num dev ticks st) (\<lambda>st. bind_res (nap st) (ticker_rounds nap dev k (ticks + 1)))"

definition ticker_thread :: "('a io_state_scheme \<Rightarrow> 'a io_state_scheme res) \<Rightarrow> device \<Rightarrow> nat \<Rightarrow> 'a io_state_scheme \<Rightarrow> 'a io_state_scheme res" where
  "ticker_thread nap dev k st = ticker_rounds nap dev k 0 st"

section \<open>The lines\<close>

lemma sless_small:
  assumes "i < 2 ^ 31" and "n < 2 ^ 31"
  shows "(of_nat i :: u32) <s of_nat n \<longleftrightarrow> i < n"
proof -
  have "sint (of_nat k :: u32) = int k" if "k < 2 ^ 31" for k
    using that by (simp add: signed_of_nat signed_take_bit_int_eq_self)
  then show ?thesis using assms by (simp add: word_sless_alt)
qed

lemma paint_loop_result:
  assumes b: "0 < b" "b \<le> 4" and c: "c \<le> 64"
  shows "paint_loop (of_nat b) (of_nat (64 * b)) l0 l1 (of_nat (c * b)) m
    = Some (fold (\<lambda>c m. m(l0 + of_nat (c * b) := 0xff, l1 + (of_nat (c * b) + 2) := 0xff)) [c..<64] m)"
  using c
proof (induction "64 - c" arbitrary: c m)
  case 0
  then show ?case by (subst paint_loop.simps, subst sless_small) (use b in simp_all)
next
  case (Suc k)
  have lt: "c < 64" "c * b < 64 * b" using Suc.hyps(2) b by simp_all
  have small: "64 * b < 2 ^ 31" using b by simp
  have s: "(of_nat (c * b) :: u32) <s of_nat (64 * b)" by (subst sless_small [OF less_trans [OF lt(2) small] small]) (rule lt(2))
  have i: "(of_nat (c * b) :: u32) + of_nat b = of_nat (Suc c * b)" by (simp add: add.commute)
  have u: "[c..<64] = c # [Suc c..<64]" using lt by (simp add: upt_conv_Cons)
  show ?case unfolding paint_loop.simps [of _ _ _ _ "of_nat (c * b)"] if_P [OF s] i u
    using Suc.hyps(1) [of "Suc c"] Suc.hyps(2) lt(1) by simp
qed

lemma fold_marks:
  "fold (\<lambda>c m. m(f c := v, g c := v)) cs m a = (if \<exists>c\<in>set cs. a = f c \<or> a = g c then v else m a)"
  by (induction cs arbitrary: m) auto

text \<open>A byte of a line: the first byte of each pixel is set in the one, the third in the other.\<close>

definition line_byte :: "nat \<Rightarrow> bool \<Rightarrow> nat \<Rightarrow> u8" where
  "line_byte b blue x = (if x mod b = (if blue then 2 else 0) then 0xff else 0)"

lemma range_of_less: "i < n \<Longrightarrow> a + of_nat i \<in> range_of a n" by (auto simp: range_of_def)

lemma offset_inj:
  assumes "i < 2 ^ 32" and "j < 2 ^ 32" and "(a :: addr) + of_nat i = a + of_nat j"
  shows "i = j"
proof -
  have "unat (of_nat i :: u32) = unat (of_nat j :: u32)" using assms(3) by simp
  then show ?thesis using assms(1,2) by (simp add: unat_of_nat)
qed

lemma pixel_of: "x < 64 * b \<Longrightarrow> r < b \<Longrightarrow> (\<exists>c\<in>set [0..<64]. x = c * b + r) \<longleftrightarrow> x mod b = r" for x b r :: nat
proof -
  assume x: "x < 64 * b" and r: "r < b"
  have "x div b < 64" using x by (intro less_mult_imp_div_less)
  moreover have "x = x div b * b + x mod b" by simp
  ultimately show ?thesis using r by (auto simp: Bex_def)
qed

lemma paint_lines_result:
  assumes b: "pixel_bytes I = of_nat b" "3 \<le> b" "b \<le> 4" and apart: "range_of l0 (64 * b) \<inter> range_of l1 (64 * b) = {}"
  shows "\<exists>m'. paint_lines I l0 l1 m = Inr m' \<and> (\<forall>x<64 * b. m' (l0 + of_nat x) = line_byte b False x \<and> m' (l1 + of_nat x) = line_byte b True x)
    \<and> (\<forall>a. a \<notin> range_of l0 (64 * b) \<union> range_of l1 (64 * b) \<longrightarrow> m' a = m a)"
proof -
  have n: "colsz I = of_nat (64 * b)" by (simp add: colsz_def b(1) mult.commute)
  have un: "unat (of_nat (64 * b) :: u32) = 64 * b" unfolding unat_of_nat by (rule mod_less) (use b in simp)
  define m0 where "m0 = memset (memset m l0 0 (of_nat (64 * b))) l1 0 (of_nat (64 * b))"
  have m0: "m0 a = (if a \<in> range_of l0 (64 * b) \<union> range_of l1 (64 * b) then 0 else m a)" for a
    unfolding m0_def memset_mem un by simp
  define m' where "m' = fold (\<lambda>c m. m(l0 + of_nat (c * b) := 0xff, l1 + (of_nat (c * b) + 2) := 0xff)) [0..<64] m0"
  have v: "m' a = (if \<exists>c\<in>set [0..<64]. a = l0 + of_nat (c * b) \<or> a = l1 + (of_nat (c * b) + 2) then 0xff else m0 a)" for a
    unfolding m'_def fold_marks ..
  have run: "paint_lines I l0 l1 m = Inr m'"
    using paint_loop_result [of b 0 l0 l1 m0] b unfolding paint_lines_def n b(1) Let_def m0_def [symmetric] m'_def by simp
  have two: "of_nat (c * b) + 2 = (of_nat (c * b + 2) :: u32)" for c by simp
  have inn: "c * b + 2 < 64 * b" "c * b < 64 * b" if "c < 64" for c
  proof -
    have "Suc c * b \<le> 64 * b" using that by (intro mult_right_mono) simp_all
    then have "b + c * b \<le> 64 * b" by simp
    with b(2) show "c * b + 2 < 64 * b" "c * b < 64 * b" by linarith+
  qed
  have big: "x < 2 ^ 32" if "x < 64 * b" for x using that b(3) by simp
  have ne: "l0 + of_nat x \<noteq> l1 + of_nat y" if "x < 64 * b" "y < 64 * b" for x y
    using apart range_of_less [OF that(1), of l0] range_of_less [OF that(2), of l1] by auto
  have "m' (l0 + of_nat x) = line_byte b False x" if x: "x < 64 * b" for x
  proof -
    have e: "(l0 + of_nat x = l0 + of_nat (c * b) \<or> l0 + of_nat x = l1 + (of_nat (c * b) + 2)) \<longleftrightarrow> x = c * b + 0" if "c \<in> set [0..<64]" for c
      unfolding two using ne [OF x inn(1) [of c]] offset_inj [OF big [OF x] big [OF inn(2) [of c]], of l0] that by auto
    have "(\<exists>c\<in>set [0..<64]. l0 + of_nat x = l0 + of_nat (c * b) \<or> l0 + of_nat x = l1 + (of_nat (c * b) + 2)) \<longleftrightarrow> x mod b = 0"
      by (rule trans [OF bex_cong [OF refl e] pixel_of [OF x]]) (use b(2) in simp_all)
    then show ?thesis unfolding v line_byte_def m0 using range_of_less [OF x, of l0] by simp
  qed
  moreover have "m' (l1 + of_nat x) = line_byte b True x" if x: "x < 64 * b" for x
  proof -
    have e: "(l1 + of_nat x = l0 + of_nat (c * b) \<or> l1 + of_nat x = l1 + (of_nat (c * b) + 2)) \<longleftrightarrow> x = c * b + 2" if "c \<in> set [0..<64]" for c
      unfolding two using ne [OF inn(2) [of c] x] offset_inj [OF big [OF x] big [OF inn(1) [of c]], of l1] that by auto
    have "(\<exists>c\<in>set [0..<64]. l1 + of_nat x = l0 + of_nat (c * b) \<or> l1 + of_nat x = l1 + (of_nat (c * b) + 2)) \<longleftrightarrow> x mod b = 2"
      by (rule trans [OF bex_cong [OF refl e] pixel_of [OF x]]) (use b(2) in simp_all)
    then show ?thesis unfolding v line_byte_def m0 using range_of_less [OF x, of l1] by simp
  qed
  moreover have "m' a = m a" if a: "a \<notin> range_of l0 (64 * b) \<union> range_of l1 (64 * b)" for a
  proof -
    have "a \<noteq> l0 + of_nat (c * b) \<and> a \<noteq> l1 + of_nat (c * b + 2)" if "c < 64" for c
      using a range_of_less [OF inn(2) [OF that], of l0] range_of_less [OF inn(1) [OF that], of l1] by auto
    then have "\<not> (\<exists>c\<in>set [0..<64]. a = l0 + of_nat (c * b) \<or> a = l1 + (of_nat (c * b) + 2))" unfolding two by auto
    then show ?thesis unfolding v m0 using a by simp
  qed
  ultimately show ?thesis using run by blast
qed

section \<open>The boxes\<close>

text \<open>The byte in column \<open>x\<close> of row \<open>y\<close> of a buffer at \<open>f\<close> with rows of \<open>w\<close> bytes.\<close>

definition pix :: "addr \<Rightarrow> nat \<Rightarrow> nat \<Rightarrow> nat \<Rightarrow> addr" where "pix f w y x = f + of_nat (y * w + x)"

lemma row_fits: "y < h \<Longrightarrow> x < w \<Longrightarrow> y * w + x < h * w" for y h x w :: nat
proof -
  assume "y < h" "x < w"
  then have "Suc y * w \<le> h * w" by (intro mult_right_mono) simp_all
  with \<open>x < w\<close> show ?thesis by simp
qed

lemma pix_inj:
  assumes "h * w \<le> 2 ^ 32" and "y < h" "x < w" "y' < h" "x' < w" and "pix f w y x = pix f w y' x'"
  shows "y = y' \<and> x = x'"
proof -
  have "y * w + x = y' * w + x'"
    using offset_inj [of "y * w + x" "y' * w + x'" f] row_fits [OF assms(2,3)] row_fits [OF assms(4,5)] assms(1,6) by (simp add: pix_def)
  then have "(y * w + x) div w = (y' * w + x') div w" "(y * w + x) mod w = (y' * w + x') mod w" by simp_all
  then show ?thesis using assms(3,5) by simp
qed

text \<open>One copy of a line into a row.\<close>

lemma copy_line:
  fixes m :: mem and f l :: addr
  assumes hw: "h * w \<le> 2 ^ 32" and y: "y < h" and x0: "x0 + n \<le> w" and n: "n < 2 ^ 32"
    and apart: "range_of f (h * w) \<inter> range_of l n = {}"
  defines "m' \<equiv> fst (memcpy m (pix f w y x0) l (of_nat n))"
  shows "\<And>y' x. y' < h \<Longrightarrow> x < w \<Longrightarrow> m' (pix f w y' x) = (if y' = y \<and> x0 \<le> x \<and> x < x0 + n then m (l + of_nat (x - x0)) else m (pix f w y' x))"
    and "\<And>a. a \<notin> range_of f (h * w) \<Longrightarrow> m' a = m a"
proof -
  let ?p = "pix f w y x0"
  have un: "unat (of_nat n :: u32) = n" using n by (simp add: unat_of_nat)
  have p: "?p + of_nat i = pix f w y (x0 + i)" for i by (simp add: pix_def add.assoc)
  have "?p + of_nat i \<in> range_of f (h * w)" if "i < n" for i
    unfolding p unfolding pix_def by (intro range_of_less row_fits y) (use that x0 in simp)
  then have sub: "range_of ?p n \<subseteq> range_of f (h * w)" by (auto simp: range_of_def)
  have v: "m' a = (if a \<in> range_of ?p n then m (a - ?p + l) else m a)" for a
    unfolding m'_def memcpy_eq_bytes fst_conv un using apart sub by (intro copy_bytes_mem) blast
  show "m' a = m a" if "a \<notin> range_of f (h * w)" for a unfolding v using that sub by auto
  show "m' (pix f w y' x) = (if y' = y \<and> x0 \<le> x \<and> x < x0 + n then m (l + of_nat (x - x0)) else m (pix f w y' x))"
    if q: "y' < h" "x < w" for y' x
  proof -
    have "pix f w y' x \<in> range_of ?p n \<longleftrightarrow> y' = y \<and> x0 \<le> x \<and> x < x0 + n"
    proof
      assume "pix f w y' x \<in> range_of ?p n"
      then obtain i where i: "i < n" "pix f w y' x = pix f w y (x0 + i)" by (auto simp: range_of_def p)
      from pix_inj [OF hw q y _ i(2)] x0 i(1) show "y' = y \<and> x0 \<le> x \<and> x < x0 + n" by simp
    next
      assume a: "y' = y \<and> x0 \<le> x \<and> x < x0 + n"
      then have "x - x0 < n" "?p + of_nat (x - x0) = pix f w y' x" using x0 unfolding p by auto
      then show "pix f w y' x \<in> range_of ?p n" using range_of_less [of "x - x0" n ?p] by simp
    qed
    moreover have "pix f w y' x - ?p + l = l + of_nat (x - x0)" if "y' = y" "x0 \<le> x"
      using p [of "x - x0"] that by (simp add: algebra_simps)
    ultimately show ?thesis unfolding v by (auto simp: add.commute [of _ l] simp del: of_nat_diff)
  qed
qed

text \<open>What a line leaves in the rows from \<open>y0\<close> on: the line at both ends of each row.\<close>

definition boxed :: "nat \<Rightarrow> nat \<Rightarrow> nat \<Rightarrow> nat \<Rightarrow> (nat \<Rightarrow> u8) \<Rightarrow> nat \<Rightarrow> nat \<Rightarrow> u8 \<Rightarrow> u8" where
  "boxed w n y0 r b y x v =
    (if y0 \<le> y \<and> y < y0 + r then if x < n then b x else if w - n \<le> x then b (x - (w - n)) else v else v)"

lemma rows_drawn:
  assumes hw: "h * w \<le> 2 ^ 32" and r: "y0 + r \<le> h" and n: "2 * n \<le> w" "0 < n" and h: "0 < h"
    and apart: "range_of f (h * w) \<inter> range_of l n = {}"
  shows "\<exists>m'. (draw_row (of_nat n) (of_nat w) l ^^ r) (m, pix f w y0 0, pix f w y0 (w - n)) = (m', pix f w (y0 + r) 0, pix f w (y0 + r) (w - n))
    \<and> (\<forall>y<h. \<forall>x<w. m' (pix f w y x) = boxed w n y0 r (\<lambda>x. m (l + of_nat x)) y x (m (pix f w y x)))
    \<and> (\<forall>a. a \<notin> range_of f (h * w) \<longrightarrow> m' a = m a)"
  using r
proof (induction r)
  case 0
  then show ?case by (auto simp: boxed_def)
next
  case (Suc r)
  then obtain m1 where m1: "(draw_row (of_nat n) (of_nat w) l ^^ r) (m, pix f w y0 0, pix f w y0 (w - n)) = (m1, pix f w (y0 + r) 0, pix f w (y0 + r) (w - n))"
    and i1: "\<forall>y<h. \<forall>x<w. m1 (pix f w y x) = boxed w n y0 r (\<lambda>x. m (l + of_nat x)) y x (m (pix f w y x))"
    and o1: "\<forall>a. a \<notin> range_of f (h * w) \<longrightarrow> m1 a = m a" by auto
  have y: "y0 + r < h" using Suc.prems by simp
  have "w \<le> h * w" using h by simp
  then have n32: "n < 2 ^ 32" using hw n by linarith
  have f0: "0 + n \<le> w" and f1: "w - n + n \<le> w" using n by simp_all
  note C2 = copy_line [where m = m1, OF hw y f0 n32 apart]
  define m2 where "m2 = fst (memcpy m1 (pix f w (y0 + r) 0) l (of_nat n))"
  note C3 = copy_line [where m = m2, OF hw y f1 n32 apart]
  define m3 where "m3 = fst (memcpy m2 (pix f w (y0 + r) (w - n)) l (of_nat n))"
  have next_row: "pix f w (y0 + r) x + of_nat w = pix f w (y0 + Suc r) x" for x by (simp add: pix_def algebra_simps)
  have run: "(draw_row (of_nat n) (of_nat w) l ^^ Suc r) (m, pix f w y0 0, pix f w y0 (w - n)) = (m3, pix f w (y0 + Suc r) 0, pix f w (y0 + Suc r) (w - n))"
    using m1 next_row by (simp add: Let_def m2_def m3_def)
  have line: "l + of_nat i \<notin> range_of f (h * w)" if "i < n" for i using apart range_of_less [OF that, of l] by blast
  have l1: "m1 (l + of_nat i) = m (l + of_nat i)" "m2 (l + of_nat i) = m (l + of_nat i)" if "i < n" for i
    using o1 line [OF that] C2(2) [folded m2_def, OF line [OF that]] by auto
  have "m3 (pix f w y x) = boxed w n y0 (Suc r) (\<lambda>x. m (l + of_nat x)) y x (m (pix f w y x))" if q: "y < h" "x < w" for y x
  proof -
    have "m3 (pix f w y x) = (if y = y0 + r \<and> w - n \<le> x then m2 (l + of_nat (x - (w - n))) else m2 (pix f w y x))"
      using C3(1) [folded m3_def, OF q] q n by simp
    moreover have "m2 (pix f w y x) = (if y = y0 + r \<and> x < n then m1 (l + of_nat x) else m1 (pix f w y x))"
      using C2(1) [folded m2_def, OF q] by simp
    moreover have "x - (w - n) < n" if "w - n \<le> x" using q n that by simp
    moreover have "\<not> (w - n \<le> x \<and> x < n)" using n by arith
    ultimately show ?thesis using i1 q l1 by (auto simp: boxed_def simp del: of_nat_diff diff_diff_right)
  qed
  moreover have "m3 a = m a" if "a \<notin> range_of f (h * w)" for a
    using C3(2) [folded m3_def, OF that] C2(2) [folded m2_def, OF that] o1 that by simp
  ultimately show ?case using run by blast
qed

text \<open>A byte of the frame with the boxes: \<open>b\<close> is the line, \<open>v\<close> what was there.\<close>

definition box_at :: "nat \<Rightarrow> nat \<Rightarrow> nat \<Rightarrow> (nat \<Rightarrow> u8) \<Rightarrow> nat \<Rightarrow> nat \<Rightarrow> u8 \<Rightarrow> u8" where
  "box_at w h n b y x v =
    (if y < 64 \<or> h - 64 \<le> y then if x < n then b x else if w - n \<le> x then b (x - (w - n)) else v else v)"

lemma boxes_drawn:
  assumes I: "colsz I = of_nat n" "pitch I = of_nat w" "phy_height I = of_nat h"
    and hw: "h * w \<le> 2 ^ 32" and h: "64 \<le> h" and n: "2 * n \<le> w" "0 < n" and apart: "range_of f (h * w) \<inter> range_of l n = {}"
  shows "\<And>y x. y < h \<Longrightarrow> x < w \<Longrightarrow> draw_boxes I f l m (pix f w y x) = box_at w h n (\<lambda>x. m (l + of_nat x)) y x (m (pix f w y x))"
    and "\<And>a. a \<notin> range_of f (h * w) \<Longrightarrow> draw_boxes I f l m a = m a"
proof -
  have h0: "0 < h" using h by simp
  have right: "pix f w y 0 + of_nat w - of_nat n = pix f w y (w - n)" for y using n by (simp add: pix_def of_nat_diff algebra_simps)
  have top: "f = pix f w 0 0" by (simp add: pix_def)
  have bottom: "f + (phy_height I - 64) * pitch I = pix f w (h - 64) 0" using h by (simp add: pix_def I of_nat_diff)
  have t: "0 + 64 \<le> h" and u: "h - 64 + 64 \<le> h" using h by simp_all
  define m1 where "m1 = draw_rows (of_nat n) (of_nat w) l f m"
  define m2 where "m2 = draw_rows (of_nat n) (of_nat w) l (pix f w (h - 64) 0) m1"
  have run: "draw_boxes I f l m = m2" unfolding draw_boxes_def bottom unfolding I(1,2) Let_def m1_def m2_def ..
  have d1: "m1 = fst ((draw_row (of_nat n) (of_nat w) l ^^ 64) (m, pix f w 0 0, pix f w 0 (w - n)))"
    unfolding m1_def draw_rows_def right [symmetric] using top by simp
  have d2: "m2 = fst ((draw_row (of_nat n) (of_nat w) l ^^ 64) (m1, pix f w (h - 64) 0, pix f w (h - 64) (w - n)))"
    unfolding m2_def draw_rows_def right [symmetric] ..
  have s1: "\<forall>y<h. \<forall>x<w. m1 (pix f w y x) = boxed w n 0 64 (\<lambda>x. m (l + of_nat x)) y x (m (pix f w y x))" "\<forall>a. a \<notin> range_of f (h * w) \<longrightarrow> m1 a = m a"
    using rows_drawn [OF hw t n h0 apart, of m] unfolding d1 by auto
  have s2: "\<forall>y<h. \<forall>x<w. m2 (pix f w y x) = boxed w n (h - 64) 64 (\<lambda>x. m1 (l + of_nat x)) y x (m1 (pix f w y x))"
      "\<forall>a. a \<notin> range_of f (h * w) \<longrightarrow> m2 a = m1 a"
    using rows_drawn [OF hw u n h0 apart, of m1] unfolding d2 by auto
  show "draw_boxes I f l m a = m a" if "a \<notin> range_of f (h * w)" for a unfolding run using s1(2) s2(2) that by simp
  have line: "m1 (l + of_nat i) = m (l + of_nat i)" if "i < n" for i using s1(2) apart range_of_less [OF that, of l] by blast
  show "draw_boxes I f l m (pix f w y x) = box_at w h n (\<lambda>x. m (l + of_nat x)) y x (m (pix f w y x))" if "y < h" "x < w" for y x
  proof -
    have "x - (w - n) < n" if "w - n \<le> x" using \<open>x < w\<close> n that by simp
    then show ?thesis unfolding run using s1(1) s2(1) that line by (auto simp: box_at_def boxed_def simp del: of_nat_diff diff_diff_right)
  qed
qed

lemma rounds_displayed:
  assumes I: "colsz I = of_nat n" "pitch I = of_nat w" "phy_height I = of_nat h"
    and hw: "h * w \<le> 2 ^ 32" and h: "64 \<le> h" and n: "2 * n \<le> w" "0 < n"
    and apart: "range_of f (h * w) \<inter> range_of l0 n = {}" "range_of f (h * w) \<inter> range_of l1 n = {}"
    and nap: "\<And>m a. a \<in> range_of f (h * w) \<union> range_of l0 n \<union> range_of l1 n \<Longrightarrow> nap m a = m a"
    and lines: "\<forall>x<n. m (l0 + of_nat x) = line_byte b False x \<and> m (l1 + of_nat x) = line_byte b True x"
  shows "(\<forall>y<h. \<forall>x<w. display_rounds nap I f l0 l1 k i m (pix f w y x)
        = (if k = 0 then m (pix f w y x) else box_at w h n (line_byte b (i = odd k)) y x (m (pix f w y x))))
    \<and> (\<forall>a. (\<forall>m. nap m a = m a) \<longrightarrow> a \<notin> range_of f (h * w) \<longrightarrow> display_rounds nap I f l0 l1 k i m a = m a)"
  using lines
proof (induction k arbitrary: i m)
  case (Suc k)
  define l where "l = (if i then l1 else l0)"
  have al: "range_of f (h * w) \<inter> range_of l n = {}" using apart by (simp add: l_def)
  note D = boxes_drawn [where m = m, OF I hw h n al]
  define m1 where "m1 = nap (draw_boxes I f l m)"
  have inf: "pix f w y x \<in> range_of f (h * w)" if "y < h" "x < w" for y x unfolding pix_def by (intro range_of_less row_fits that)
  have keep: "m1 (l' + of_nat x) = m (l' + of_nat x)" if "x < n" "l' = l0 \<or> l' = l1" for l' x
  proof -
    have "l' + of_nat x \<in> range_of l0 n \<union> range_of l1 n" using range_of_less [OF that(1)] that(2) by auto
    moreover from this have "l' + of_nat x \<notin> range_of f (h * w)" using apart by blast
    ultimately show ?thesis unfolding m1_def using nap D(2) by auto
  qed
  then have J: "\<forall>x<n. m1 (l0 + of_nat x) = line_byte b False x \<and> m1 (l1 + of_nat x) = line_byte b True x" using Suc.prems by simp
  have line: "m (l + of_nat x) = line_byte b i x" if "x < n" for x using Suc.prems that by (simp add: l_def)
  have p: "m1 (pix f w y x) = box_at w h n (line_byte b i) y x (m (pix f w y x))" if q: "y < h" "x < w" for y x
  proof -
    have "x - (w - n) < n" if "w - n \<le> x" using q n that by simp
    then show ?thesis unfolding m1_def using nap inf [OF q] D(1) [OF q] line by (auto simp: box_at_def simp del: of_nat_diff diff_diff_right)
  qed
  have run: "display_rounds nap I f l0 l1 (Suc k) i m = display_rounds nap I f l0 l1 k (\<not> i) m1" by (simp add: m1_def l_def)
  have over: "box_at w h n b2 y x (box_at w h n b1 y x v) = box_at w h n b2 y x v" for b1 b2 y x v by (simp add: box_at_def)
  note IH = Suc.IH [OF J, of "\<not> i"]
  show ?case unfolding run
  proof (intro conjI allI impI)
    fix y x assume "y < h" "x < w"
    with IH p show "display_rounds nap I f l0 l1 k (\<not> i) m1 (pix f w y x)
      = (if Suc k = 0 then m (pix f w y x) else box_at w h n (line_byte b (i = odd (Suc k))) y x (m (pix f w y x)))"
      by (cases "k = 0"; cases i; simp add: over)
  next
    fix a assume "\<forall>m. nap m a = m a" "a \<notin> range_of f (h * w)"
    with IH D(2) show "display_rounds nap I f l0 l1 k (\<not> i) m1 a = m a" unfolding m1_def by simp
  qed
qed simp

section \<open>The lines among the objects of the allocator\<close>

lemma in_range: "a \<in> range_of x n \<Longrightarrow> unat x + n \<le> 2 ^ 32 \<Longrightarrow> unat x \<le> unat a \<and> unat a < unat x + n"
proof -
  assume "a \<in> range_of x n" and n: "unat x + n \<le> 2 ^ 32"
  then obtain i where i: "a = x + of_nat i" "i < n" by (auto simp: range_of_def)
  have "unat (of_nat i :: u32) = i" unfolding unat_of_nat by (rule mod_less) (use i(2) n in simp)
  then show ?thesis using unat_add_no_overflow [of x "of_nat i"] i n by simp
qed

lemma ranges_apart:
  assumes "unat x + n \<le> unat y" and "unat y + k \<le> 2 ^ 32"
  shows "range_of x n \<inter> range_of y k = {}"
proof -
  have "unat x + n \<le> 2 ^ 32" using assms by simp
  then show ?thesis using in_range [of _ x n] in_range [of _ y k, OF _ assms(2)] assms(1) by fastforce
qed

lemma class5_unat: "j < nobj 8 \<Longrightarrow> unat (class_obj 5 j) = 0xf7ffc000 + j * 256 \<and> class_obj 5 j \<noteq> 0 \<and> j * 256 + 256 \<le> 4096"
proof -
  assume j: "j < nobj 8"
  have u: "unat (first_va 5) = 0xf7ffc000" using first_unat(1) [of 5] by simp
  then have "first_va 5 \<noteq> 0" by auto
  then show ?thesis using obj_nonzero [of 8 j "first_va 5"] obj_offset(1) [of 8 j] j u by (simp add: class_obj_def)
qed

lemma class5_apart:
  assumes "i < nobj 8" "j < nobj 8" "i \<noteq> j" and "n \<le> 256"
  shows "range_of (class_obj 5 i) n \<inter> range_of (class_obj 5 j) n = {}"
proof -
  note u = class5_unat [OF assms(1)] class5_unat [OF assms(2)]
  consider "Suc i \<le> j" | "Suc j \<le> i" using assms(3) by linarith
  then show ?thesis
  proof cases
    case 1
    then have "Suc i * 256 \<le> j * 256" by (rule mult_right_mono) simp
    then show ?thesis using u assms(4) by (intro ranges_apart) simp_all
  next
    case 2
    then have "Suc j * 256 \<le> i * 256" by (rule mult_right_mono) simp
    then have "range_of (class_obj 5 j) n \<inter> range_of (class_obj 5 i) n = {}" using u assms(4) by (intro ranges_apart) simp_all
    then show ?thesis by blast
  qed
qed

lemma class5_booted: "\<exists>mps st. class_rel mps 5 (0 # 1 # [2..<16]) st"
proof -
  have L: "layout_ok layout0" by (simp add: layout_ok_def layout0_def si_def kmode_consts)
  obtain m' where m': "boot_map layout0 (\<lambda>_. 7) = Inr m'" using boot_map_result [OF L, of "\<lambda>_. 7"] by metis
  let ?st = "demo\<lparr>pd := pd (boot_mmu layout0 m'), kpt := kpt (boot_mmu layout0 m'), slub_16byte_free := 0\<rparr>"
  have h: "pd ?st = pd (boot_mmu layout0 m')" "kpt ?st = kpt (boot_mmu layout0 m')" "2048 \<le> length (replicate 2048 (7 :: u32))"
    "0x90a000 \<le> unat (0x8000000 :: u32)" "slub_16byte_free ?st = 0" "bss_start layout0 \<le> 0x40018000" "0x40018000 < bss_end layout0"
    "even (unat (0x40018000 :: addr))" "unat (0x21000 :: addr) mod 4096 = 0" by (simp_all add: layout0_def)
  obtain m1 where "\<forall>k<9. k \<noteq> 1 \<longrightarrow> class_rel 0x40018000 k [0..<nobj (3 + k)] m1"
    using kmain_memory_result [OF L m' h] by blast
  from this [rule_format, of 5] have "class_rel 0x40018000 5 [0..<16] m1" by (simp add: nobj_def)
  moreover have "[0..<16] = 0 # 1 # [2..<16]" by (simp add: upt_conv_Cons)
  ultimately show ?thesis by (intro exI) simp
qed

section \<open>The count\<close>

lemma ticker_counts:
  assumes up: "uart_ready dev" and nap: "\<And>s. \<exists>s'. nap s = Inr s' \<and> sent s' = sent s" and t: "t + k \<le> 2 ^ 31"
  shows "\<exists>st' ds. ticker_rounds nap dev k (of_nat t) st = Inr st' \<and> map hex_value ds = map Some [t..<t + k]
    \<and> sent st' = sent st @ concat (map (\<lambda>d. d @ [13, 10]) ds)"
  using t
proof (induction k arbitrary: t st)
  case 0
  then show ?case by (intro exI [of _ st] exI [of _ "[]"]) simp
next
  case (Suc k)
  have u: "unat (of_nat t :: u32) = t" unfolding unat_of_nat by (rule mod_less) (use Suc.prems in simp)
  obtain s1 d where s1: "uart_send_num dev (of_nat t) st = Inr s1" "sent s1 = sent st @ d @ [13, 10]" "hex_value d = Some t"
    using uart_send_num_sends [OF up, of "of_nat t" st] unfolding u by blast
  obtain s2 where s2: "nap s1 = Inr s2" "sent s2 = sent s1" using nap by blast
  have "Suc t + k \<le> 2 ^ 31" using Suc.prems by simp
  from Suc.IH [OF this, of s2] obtain s3 ds where s3: "ticker_rounds nap dev k (of_nat (Suc t)) s2 = Inr s3" "map hex_value ds = map Some [Suc t..<Suc t + k]"
    "sent s3 = sent s2 @ concat (map (\<lambda>d. d @ [13, 10]) ds)" by blast
  have "[t..<t + Suc k] = t # [Suc t..<Suc t + k]" by (simp add: upt_conv_Cons)
  then show ?case using s1 s2 s3 by (intro exI [of _ s3] exI [of _ "d # ds"]) (simp add: add.commute)
qed

section \<open>Properties\<close>

text \<open>C40: What \<open>display_thread\<close> shows. With three or four bytes to a pixel, a buffer that holds two boxes beside each other and lies below the
  first slabs, and two free objects of 256 bytes: no assertion fails, the lines are the two objects, and after each round the four corners of the frame
  show boxes of 64 by 64 pixels, red and blue in turn, while the rest of the frame is as it was. Nothing else is written but the
  two lines.\<close>

theorem display_thread_draws_boxes:
  assumes r: "class_rel mps 5 (j0 # j1 # js) st" and D: "depth I = 24 \<or> depth I = 32"
    and n: "n = 8 * unat (depth I)" and w: "w = unat (pitch I)" "2 * n \<le> w" and h: "h = unat (phy_height I)" "64 \<le> h"
    and fit: "unat f + h * w \<le> 0xf7ff7000"
    and K: "K = range_of (class_obj 5 j0) n \<union> range_of (class_obj 5 j1) n"
    and nap: "\<And>m a. a \<in> range_of f (h * w) \<union> K \<Longrightarrow> nap m a = m a"
  shows "\<exists>st' m'. display_thread nap (Suc d) I f (Suc k) st m = Inr (st', m') \<and> class_rel mps 5 js st'
    \<and> (\<forall>y<h. \<forall>x<w. m' (pix f w y x) = box_at w h n (line_byte (unat (depth I) div 8) (odd k)) y x (m (pix f w y x)))
    \<and> (\<forall>a. (\<forall>m. nap m a = m a) \<longrightarrow> a \<notin> range_of f (h * w) \<union> K \<longrightarrow> m' a = m a)"
proof -
  let ?b = "unat (depth I) div 8"
  have b: "pixel_bytes I = of_nat ?b" "3 \<le> ?b" "?b \<le> 4" "n = 64 * ?b" using D by (auto simp: pixel_bytes_def n)
  have c: "colsz I = of_nat n" by (simp add: colsz_def b(1,4) mult.commute)
  have n256: "n \<le> 256" "0 < n" using b by simp_all
  have sc: "size_class (colsz I) = Some 5" "colsz I \<noteq> 0" using D by (auto simp: colsz_def pixel_bytes_def size_class_eq upt_rec)
  obtain s1 where s1: "kmalloc (Suc d) (colsz I) st = Inr (s1, class_obj 5 j0)" "class_rel mps 5 (j1 # js) s1"
    using class_request [OF r sc, of d] by blast
  obtain s2 where s2: "kmalloc (Suc d) (colsz I) s1 = Inr (s2, class_obj 5 j1)" "class_rel mps 5 js s2"
    using class_request [OF s1(2) sc, of d] by blast
  have j: "j0 < nobj 8" "j1 < nobj 8" "j0 \<noteq> j1" using class_wf(1,2) [OF r] by simp_all
  note u = class5_unat [OF j(1)] class5_unat [OF j(2)]
  have ap: "range_of (class_obj 5 j0) n \<inter> range_of (class_obj 5 j1) n = {}" by (rule class5_apart [OF j n256(1)])
  have af: "range_of f (h * w) \<inter> range_of (class_obj 5 j0) n = {}" "range_of f (h * w) \<inter> range_of (class_obj 5 j1) n = {}"
    using fit u n256(1) by (intro ranges_apart; simp)+
  obtain m1 where m1: "paint_lines I (class_obj 5 j0) (class_obj 5 j1) m = Inr m1"
    and l: "\<forall>x<n. m1 (class_obj 5 j0 + of_nat x) = line_byte ?b False x \<and> m1 (class_obj 5 j1 + of_nat x) = line_byte ?b True x"
    and o: "\<forall>a. a \<notin> K \<longrightarrow> m1 a = m a"
    using paint_lines_result [OF b(1-3) ap [unfolded b(4)], of m] unfolding b(4) [symmetric] K by blast
  have hw: "h * w \<le> 2 ^ 32" using fit by simp
  have wh: "pitch I = of_nat w" "phy_height I = of_nat h" by (simp_all add: w(1) h(1))
  define m2 where "m2 = display_rounds nap I f (class_obj 5 j0) (class_obj 5 j1) (Suc k) False m1"
  have R: "(\<forall>y<h. \<forall>x<w. m2 (pix f w y x) = box_at w h n (line_byte ?b (odd k)) y x (m1 (pix f w y x)))
      \<and> (\<forall>a. (\<forall>m. nap m a = m a) \<longrightarrow> a \<notin> range_of f (h * w) \<longrightarrow> m2 a = m1 a)"
    using rounds_displayed [where nap = nap and m = m1 and k = "Suc k" and i = False, OF c wh hw h(2) w(2) n256(2) af nap [unfolded K Un_assoc [symmetric]] l] by (simp add: m2_def)
  have run: "display_thread nap (Suc d) I f (Suc k) st m = Inr (s2, m2)"
    using u s1(1) s2(1) m1 by (simp add: display_thread_def m2_def del: kmalloc.simps display_rounds.simps)
  have px: "m1 (pix f w y x) = m (pix f w y x)" if "y < h" "x < w" for y x
  proof -
    have "pix f w y x \<in> range_of f (h * w)" unfolding pix_def by (intro range_of_less row_fits that)
    then show ?thesis using o af unfolding K by blast
  qed
  show ?thesis using run s2(2) R px o by (intro exI [of _ s2] exI [of _ m2]) simp
qed

theorem display_thread_draws_boxes_witness:
  "\<exists>s st' m'. display_thread (\<lambda>m. m) 22 \<lparr>phy_height = 768, pitch = 3072, depth = 24\<rparr> 0xf0000000 2 s (\<lambda>_. 7) = Inr (st', m')
    \<and> m' (pix 0xf0000000 3072 10 2) = 0xff \<and> m' (pix 0xf0000000 3072 767 3069) = 0 \<and> m' (pix 0xf0000000 3072 767 3071) = 0xff
    \<and> m' (pix 0xf0000000 3072 100 2) = 7 \<and> m' 0x1000 = 7"
proof -
  let ?I = "\<lparr>phy_height = 768, pitch = 3072, depth = 24\<rparr>" and ?f = "0xf0000000 :: addr" and ?K = "range_of (class_obj 5 0) 192 \<union> range_of (class_obj 5 1) 192"
  obtain mps s where r: "class_rel mps 5 (0 # 1 # [2..<16]) s" using class5_booted by blast
  have d: "Suc 21 = 22" "Suc 1 = 2" by simp_all
  have h: "depth ?I = 24 \<or> depth ?I = 32" "192 = 8 * unat (depth ?I)" "3072 = unat (pitch ?I)" "2 * 192 \<le> (3072 :: nat)" "768 = unat (phy_height ?I)"
    "64 \<le> (768 :: nat)" "unat ?f + 768 * 3072 \<le> 0xf7ff7000" by simp_all
  obtain st' m' where run: "display_thread (\<lambda>m. m) 22 ?I ?f 2 s (\<lambda>_. 7) = Inr (st', m')"
    and px: "\<forall>y<768. \<forall>x<3072. m' (pix ?f 3072 y x) = box_at 3072 768 192 (line_byte (unat (depth ?I) div 8) (odd (1 :: nat))) y x 7"
    and o: "\<forall>a. a \<notin> range_of ?f (768 * 3072) \<union> ?K \<longrightarrow> m' a = 7"
    using display_thread_draws_boxes [where nap = "\<lambda>m. m" and k = 1 and d = 21 and m = "\<lambda>_. 7" and f = ?f and I = ?I and K = ?K, OF r h refl, unfolded d] by blast
  have u: "unat (class_obj 5 0) = 0xf7ffc000" "unat (class_obj 5 1) = 0xf7ffc100" using class5_unat [of 0] class5_unat [of 1] by (simp_all add: nobj_def)
  have "0x1000 \<notin> range_of ?f (768 * 3072) \<union> ?K"
    using in_range [of "0x1000" ?f "768 * 3072"] in_range [of "0x1000" "class_obj 5 0" 192] in_range [of "0x1000" "class_obj 5 1" 192] u by auto
  then have "m' 0x1000 = 7" using o by blast
  moreover have "m' (pix ?f 3072 10 2) = 0xff" "m' (pix ?f 3072 767 3069) = 0" "m' (pix ?f 3072 767 3071) = 0xff" "m' (pix ?f 3072 100 2) = 7"
    by (subst px [rule_format], simp, simp, simp add: box_at_def line_byte_def)+
  ultimately show ?thesis using run by blast
qed

text \<open>A reply with two bytes to a pixel: the last pixel of the second line writes one byte behind the object of 128 bytes.\<close>

theorem paint_overruns:
  assumes "pixel_bytes I = 2"
  shows "\<exists>m'. paint_lines I l0 l1 m = Inr m' \<and> colsz I = 128 \<and> m' (l1 + 128) = 0xff"
proof -
  have n: "colsz I = of_nat (64 * 2)" by (simp add: colsz_def assms)
  have l: "paint_loop 2 (of_nat (64 * 2)) l0 l1 0 m' = Some (fold (\<lambda>c m. m(l0 + of_nat (c * 2) := 0xff, l1 + (of_nat (c * 2) + 2) := 0xff)) [0..<64] m')" for m'
    using paint_loop_result [of 2 0 l0 l1 m'] by simp
  have "l1 + 128 = l1 + (of_nat (63 * 2) + 2)" "63 \<in> set [0..<64]" by simp_all
  then have "fold (\<lambda>c m. m(l0 + of_nat (c * 2) := 0xff, l1 + (of_nat (c * 2) + 2) := 0xff)) [0..<64] m' (l1 + 128) = 0xff" for m' :: mem
    unfolding fold_marks by (intro if_P) blast
  then show ?thesis unfolding paint_lines_def assms n Let_def l by simp
qed

text \<open>What \<open>ticker_thread\<close> sends. With a transmitter that has room again some time and no other user of the serial port: after \<open>k\<close> rounds, as many as the
  count can hold, the numbers from 0 on have been sent, one on each line.\<close>

theorem ticker_thread_counts:
  assumes "uart_ready dev" and "\<And>s. \<exists>s'. nap s = Inr s' \<and> sent s' = sent s" and "k \<le> 2 ^ 31"
  shows "\<exists>st' ds. ticker_thread nap dev k st = Inr st' \<and> map hex_value ds = map Some [0..<k] \<and> sent st' = sent st @ concat (map (\<lambda>d. d @ [13, 10]) ds)"
  using ticker_counts [OF assms(1,2), of 0 k st] assms(3) by (simp add: ticker_thread_def)

theorem ticker_thread_counts_witness:
  "\<exists>st' ds. ticker_thread Inr (\<lambda>_ _. 0) 3 mbox0 = Inr st' \<and> map hex_value ds = [Some 0, Some 1, Some 2] \<and> sent st' = concat (map (\<lambda>d. d @ [13, 10]) ds)"
proof -
  have "uart_ready (\<lambda>_ _. 0)" by (simp add: answers_def)
  then obtain st' ds where "ticker_thread Inr (\<lambda>_ _. 0) 3 mbox0 = Inr st'" "map hex_value ds = map Some [0..<3]"
    "sent st' = sent mbox0 @ concat (map (\<lambda>d. d @ [13, 10]) ds)" using ticker_thread_counts [of "\<lambda>_ _. 0" Inr 3 mbox0] by auto
  moreover have "sent mbox0 = []" "[0..<3] = [0, 1, 2 :: nat]" by (simp_all add: mbox0_def ioq0_def ioq_state.defs mbox_state.defs upt_rec)
  ultimately show ?thesis by (intro exI [of _ st'] exI [of _ ds]) simp
qed

end
