(* ===== verification/Spec2Isabelle.thy ===== *)
theory Spec2Isabelle
  imports Lib DList Buddy Pm Mmu Irq Sched Kernel Vm Slub SlubProps SlubDepth Io Timer Work Ioreq Mbox Uart Sdhc SdhcProps Boot PmInit SlubInit MemInit SlubHeap Fb Cache Switch Threads Startup Display
begin

text \<open>
  A verification library for x01, a small kernel for the ARM1176 (Raspberry Pi 1, the board RPI) and for its
  emulation (QRPI2): memory management, threads and interrupts, and the drivers of timer, mailbox, serial port and SD host.

  \<^bold>\<open>How the program works.\<close>
  src/boot/boot.c builds the first page tables and enters \<open>kmain\<close> of src/kernel/main.c, which sets up, in this order, the
  tables of mmu.c, the window of the device registers (io.c), the array of page frames (pm.c on the bitmap of bdy.c), the slab
  allocator (slub.c), the regions of virtual memory (vm.c), the exception vectors, the scheduler (schedc.c), the worker of the I/O
  requests (work.c, ioreq.c) and the drivers of src/dev. The allocator is recursive: a page for \<open>kmalloc\<close> needs a segment from vm.c,
  frames from pm.c and an entry from mmu.c, and these need objects of \<open>kmalloc\<close>. An interrupt enters through
  excpt.s; excptc.c and irq.c run hard handlers at once and deferred ones at two later levels; the last level is where the scheduler
  switches threads, through \<open>_schedule\<close> of sched.s.

  \<^bold>\<open>Theories, from the bottom up.\<close>
  \<^item> Prelude: results, loops that may fail, facts on words and lists; Bits: the macros of src/include/types.h.
  \<^item> Lib: \<open>memcpy\<close>, \<open>memset\<close> (src/lib/string.c) and the division of src/lib/div.c.
  \<^item> DList: the intrusive lists of src/kernel/list.c on a heap of list heads, refined to HOL lists.
  \<^item> Buddy: the bitmap of src/kernel/bdy.c as a set of allocated frames; Pm: allocation and release of frames in
    src/kernel/pm.c; PmInit: \<open>pm_init\<close>.
  \<^item> Mmu: mapping, unmapping, translation and TLB invalidation of src/kernel/mmu.c; Cache: the cache maintenance of
    src/include/mmu.h for both boards.
  \<^item> Vm: src/kernel/vm.c; Slub: src/kernel/slub.c, \<open>kmalloc\<close> and \<open>kfree\<close> with the recursion closed; SlubProps: the objects of a slab;
    SlubDepth: the recursion ends; SlubInit: \<open>slub_init\<close>; SlubHeap: a size class after start-up as an abstract list of free objects.
  \<^item> Irq: the tables and loops of src/kernel/irq.c; Sched: src/kernel/schedc.c, the counters of src/include/sched.h and
    \<open>excpt_irq\<close>; Kernel: all threads and interrupts as one step relation with its reachable states; Switch: \<open>_schedule\<close> and the interrupt
    vector, instruction by instruction.
  \<^item> Io: device registers and the polling loop; Timer, Work, Ioreq, Mbox, Uart, Sdhc, SdhcProps, Fb: timer.c with both timers and intc.c,
    work.c, ioreq.c, mbox.c, uart.c with \<open>assert_fail\<close>, sdhc.c, fb.c.
  \<^item> Boot: src/boot/boot.c with the addresses of src/pi.ld; MemInit: the part of \<open>kmain\<close> that sets up memory, with \<open>excpt_init\<close>;
    Threads: \<open>sched_thread_create\<close> on that memory; Startup: the whole of \<open>kmain\<close>; Display: the two threads it leaves
    running, \<open>display_thread\<close> and \<open>ticker_thread\<close>.

  \<^bold>\<open>State.\<close> A C structure is a record, the static variables of a file are the fields of the state of its component, and the states of components
  that run together extend one another: the masks of Irq by the state of Sched; \<open>mmu_state\<close>, \<open>vm_state\<close> and the state of Slub, which holds
  that of Pm; \<open>io_state\<close>, \<open>drv_state\<close> with the scheduler, and then timer, work queues, request queues, mailbox with the memory, serial port, SD
  host and frame buffer. Integers keep their width (\<open>32 word\<close>, \<open>16 word\<close>, \<open>8 word\<close>) wherever the code can wrap. Memory is a map of
  words by address where the code reads what it wrote through another pointer (page tables, free lists, requests, stacks); the
  descriptors of slabs and segments are maps beside it, which takes objects of the allocator not to overlap.

  \<^bold>\<open>Interfaces.\<close> Contracts between components are locales, interpreted on the code's own functions: \<open>block_allocator\<close> (Buddy, used by Pm), \<open>list_api\<close>
  (DList), \<open>unit_writer\<close> (the four sizes of mappings in Mmu), \<open>sched_handlers\<close> (the deferred handlers of Sched, used by the loops of Irq), \<open>timer_hw\<close>
  (the two timers) and \<open>io_driver\<close> (Mbox and Sdhc, used by the queues of Ioreq). Vm and Mmu take the allocator they call as an argument,
  which Slub instantiates with \<open>kmalloc\<close>.

  \<^bold>\<open>Errors and loops.\<close> A failed assertion is the value \<open>Inl (Assert site)\<close>, since \<open>assert_fail\<close> never returns; \<open>Inl Deadlock\<close> is a mutex that the
  thread already holds, \<open>Inl Endless\<close> a loop or a recursion without end, \<open>Inl Wild\<close> an access outside the objects of the model. Loops are
  structural recursion where their bound is a number, and \<open>partial_function (option)\<close> where only a proof shows that they end. The one
  fuel is the first argument of \<open>kmalloc\<close> and \<open>kfree\<close>, the depth of calls: every call inside another holds one more of ten mutexes
  or is for a small object, so 22 is enough, and a deeper call waits for a mutex of its own thread.

  \<^bold>\<open>The environment.\<close> A device is an arbitrary function of the history of accesses. What happens while a thread waits is the argument
  \<open>sleep\<close>, and what a theorem needs of either is its hypothesis. Instructions are functions on registers and words of memory; the C functions they
  call are arguments that keep to the procedure call standard (\<open>callee\<close>).

  \<^bold>\<open>What is shown.\<close>
  \<^item> Data structures: refinement of the lists; first fit and exact release of the bitmap; mappings that translate to the right
    address and leave the rest alone; segments that never overlap; objects of a slab that come back as they were; series of
    requests and releases of a size class that behave as a list of free objects; the bound on the depth of \<open>kmalloc\<close>.
  \<^item> Threads: mutual exclusion, no lost wake-up of a mutex, no starvation, no failed assertion over all interleavings; the loops of
    deferred interrupts end; a sleeping thread is woken by its timer; a switch saves and restores a thread, and an interrupt is invisible to the code it
    interrupts.
  \<^item> Drivers: no tick is lost; requests are served in order; commands of the SD host complete with the response of the card; digits read
    back as the number; the frame buffer is mapped where the VideoCore put it; the
    thread that draws on it writes its boxes and nothing else.
  \<^item> Start-up: from the boot tables to the point where interrupts are enabled no assertion fails on a machine with enough memory, each area translates to its
    place, and the threads that are created enter their functions on stacks of their own.
  \<^item> Where the code does not do what it means to, theorems that state what it does: a page given back with \<open>kfree\<close> stays mapped, a freed page table is handed out
    while the directory points to it, some requests deadlock, unmapping two pages stops, an error interrupt alone is never answered.

  \<^bold>\<open>Not modelled.\<close> src/boot/start.s, which sets the stack and calls the C code, and the barriers, which order accesses that the models make
  one at a time; the vectors other than that of interrupts, which do not return; what the caches and the TLB do with the logged operations; src/dev/sdhost.c and the
  functions behind line 576 of src/dev/sdhc.c, which the preprocessor removes. \<open>kmalloc\<close> runs as
  one step of its thread: that other threads interleave with it is in Kernel only, for the mutexes it takes.
\<close>

end
